(* ===== verification/FH_Prelude.thy ===== *)
theory FH_Prelude
  imports Main "HOL-Library.Word" "HOL-Library.Monad_Syntax"
begin

text \<open>
  Shared vocabulary of the development: the machine types of the C++ code, checked access to a
  vector or a byte buffer, and the generic lemmas on words, lists and options that the
  component theories use.

  Unsigned C++ integers are words of their width (their arithmetic wraps, as in C++). Signed
  \<open>std::int64_t\<close> prices and indices are \<open>int\<close>: signed overflow is undefined behaviour in C++, and
  the bounds lemmas of the components show that the values stay within 64 bits. Reading or
  writing outside a vector or a buffer, or following a pointer that is not one of the pool's,
  is undefined behaviour: it is the value \<^term>\<open>None\<close> of an \<open>option\<close>, so an operation that is
  proved to return \<^term>\<open>Some\<close> has performed no such access.
\<close>

unbundle bit_operations_syntax

type_synonym u8 = "8 word"
type_synonym u16 = "16 word"
type_synonym u32 = "32 word"
type_synonym u64 = "64 word"

abbreviation ascii :: "char \<Rightarrow> u8" where
  "ascii c \<equiv> of_char c"

named_theorems access_simps \<open>checked reads and writes that stay in range\<close>

section \<open>Checked vector access\<close>

definition vec_get :: "'a list \<Rightarrow> nat \<Rightarrow> 'a option" where
  "vec_get xs i = (if i < length xs then Some (xs ! i) else None)"

definition vec_set :: "'a list \<Rightarrow> nat \<Rightarrow> 'a \<Rightarrow> 'a list option" where
  "vec_set xs i x = (if i < length xs then Some (xs[i := x]) else None)"

lemma vec_get_in [access_simps]: "i < length xs \<Longrightarrow> vec_get xs i = Some (xs ! i)"
  by (simp add: vec_get_def)

lemma vec_set_in [access_simps]: "i < length xs \<Longrightarrow> vec_set xs i x = Some (xs[i := x])"
  by (simp add: vec_set_def)

lemma vec_get_Some: "vec_get xs i = Some x \<longleftrightarrow> i < length xs \<and> x = xs ! i"
  by (auto simp: vec_get_def)

lemma vec_set_Some: "vec_set xs i x = Some ys \<longleftrightarrow> i < length xs \<and> ys = xs[i := x]"
  by (auto simp: vec_set_def)

text \<open>A sequence of checked accesses succeeds when each of them does.\<close>

lemma bind_total:
  assumes "\<exists>a. x = Some a" and "\<And>a. x = Some a \<Longrightarrow> \<exists>y. f a = Some y"
  shows "\<exists>y. Option.bind x f = Some y"
  using assms by auto

section \<open>Signed 64-bit range\<close>

definition in_i64 :: "int \<Rightarrow> bool" where
  "in_i64 z \<longleftrightarrow> - (2 ^ 63) \<le> z \<and> z < 2 ^ 63"

section \<open>Words\<close>

lemma unat_inject [simp]: "unat a = unat b \<longleftrightarrow> a = (b :: 'w::len word)"
  by (simp add: word_unat_eq_iff)

lemma unat_plus_no_wrap:
  fixes a b :: "'w::len word"
  assumes "unat a + unat b < 2 ^ LENGTH('w)"
  shows "unat (a + b) = unat a + unat b"
  using assms by (simp add: unat_word_ariths)

lemma unat_Suc_no_wrap:
  fixes a :: "'w::len word"
  assumes "Suc (unat a) < 2 ^ LENGTH('w)"
  shows "unat (a + 1) = Suc (unat a)"
  using assms unat_plus_no_wrap [of a 1] by (cases "LENGTH('w) = 0") auto

lemma of_nat_word_inj:
  assumes "(of_nat m :: 'w::len word) = of_nat n" "m < 2 ^ LENGTH('w)" "n < 2 ^ LENGTH('w)"
  shows "m = n"
  using assms by (metis mod_less unat_of_nat)

lemma of_nat_word_0:
  assumes "n < 2 ^ LENGTH('w::len)"
  shows "(of_nat n :: 'w word) = 0 \<longleftrightarrow> n = 0"
  using of_nat_word_inj [of n 0] assms by auto

lemma or_shift_is_add:
  fixes a b :: "'w::len word"
  assumes "unat b < 2 ^ k"
  shows "push_bit k a OR b = push_bit k a + b"
proof -
  have "take_bit k b = b"
    using assms by (metis take_bit_nat_eq_self unsigned_take_bit_eq word_unat_eq_iff)
  then have "push_bit k a AND b = push_bit k a AND take_bit k b" by simp
  also have "\<dots> = 0"
    by (rule bit_word_eqI) (auto simp: bit_simps)
  finally show ?thesis by (simp add: disjunctive_add_eq_or)
qed

lemma unat_or_shift:
  fixes a b :: "'w::len word"
  assumes "unat b < 2 ^ k" and "unat a * 2 ^ k + unat b < 2 ^ LENGTH('w)"
  shows "unat (push_bit k a OR b) = unat a * 2 ^ k + unat b"
proof -
  have *: "unat (push_bit k a) = unat a * 2 ^ k"
    unfolding unsigned_push_bit_eq using assms(2) by (simp add: push_bit_nat_def take_bit_nat_eq_self)
  show ?thesis
    using assms * by (simp add: or_shift_is_add unat_plus_no_wrap)
qed

lemma unat_lt_256: "unat (b :: u8) < 256"
  by (rule less_le_trans [OF unsigned_less]) simp

lemma unat_ucast_byte:
  assumes "8 \<le> LENGTH('w::len)"
  shows "unat (ucast (b :: u8) :: 'w word) = unat b"
proof -
  have "(256::nat) \<le> 2 ^ LENGTH('w)"
    using power_increasing [OF assms, of "2::nat"] by simp
  with unat_lt_256 [of b] have "unat b < 2 ^ LENGTH('w)" by linarith
  then show ?thesis by (simp only: unsigned_ucast_eq take_bit_nat_eq_self)
qed

text \<open>One step of assembling a value byte by byte: shift the bytes read so far, add the next.\<close>

lemma unat_append_byte:
  fixes w :: "'w::len word"
  assumes "8 \<le> LENGTH('w)" and "unat w * 256 + 255 < 2 ^ LENGTH('w)"
  shows "unat (push_bit 8 w OR ucast (b :: u8)) = unat w * 256 + unat b"
  using assms unat_lt_256 [of b] unat_or_shift [of "ucast b" 8 w]
  by (simp add: unat_ucast_byte)

lemma unat_ucast_u32 [simp]: "unat (ucast (x :: u32) :: u64) = unat x"
proof -
  have "unat x < 2 ^ 32" using unsigned_less [of x] by simp
  then show ?thesis by (simp add: unsigned_ucast_eq take_bit_nat_eq_self)
qed

section \<open>Lists\<close>

lemma upt_append: "i \<le> j \<Longrightarrow> j \<le> k \<Longrightarrow> [i..<j] @ [j..<k] = [i..<k]"
  using upt_add_eq_append [of i j "k - j"] by simp

lemma set_list_update_distinct:
  "distinct xs \<Longrightarrow> i < length xs \<Longrightarrow> set (xs[i := y]) = insert y (set xs - {xs ! i})"
  by (rule set_update_distinct)

lemma nth_list_update_if:
  "j < length xs \<Longrightarrow> xs[i := y] ! j = (if i = j then y else xs ! j)"
  by (simp add: nth_list_update)

end
