(* ===== verification/Byte_Read.thy ===== *)
theory Byte_Read
  imports FH_Prelude
begin

text \<open>
  \<^verbatim>\<open>include/feedhandler/detail/byte_read.hpp\<close>: the unaligned big-endian loads and stores. A
  pointer \<open>p\<close> into a byte buffer is the buffer and an offset into it; a byte outside the buffer
  makes the whole access \<^term>\<open>None\<close>. The locale \<open>be_codec\<close> states what the parser and the
  message builders rely on (a load after a store of the same width returns the value, a store
  writes its own bytes only, both stay within \<open>width\<close> bytes); it is interpreted on the four pairs.
\<close>

type_synonym byte_buf = "u8 list"

section \<open>The loads\<close>

definition load_u8 :: "byte_buf \<Rightarrow> nat \<Rightarrow> u8 option" where
  "load_u8 m p = vec_get m p"

definition load_be16 :: "byte_buf \<Rightarrow> nat \<Rightarrow> u16 option" where
  "load_be16 m p = do {
     b0 \<leftarrow> vec_get m p; b1 \<leftarrow> vec_get m (p + 1);
     Some (ucast (push_bit 8 (ucast b0 :: u32) OR (ucast b1 :: u32))) }"

definition load_be32 :: "byte_buf \<Rightarrow> nat \<Rightarrow> u32 option" where
  "load_be32 m p = do {
     b0 \<leftarrow> vec_get m p; b1 \<leftarrow> vec_get m (p + 1);
     b2 \<leftarrow> vec_get m (p + 2); b3 \<leftarrow> vec_get m (p + 3);
     Some (push_bit 24 (ucast b0) OR push_bit 16 (ucast b1) OR
           push_bit 8 (ucast b2) OR ucast b3) }"

definition load_be48 :: "byte_buf \<Rightarrow> nat \<Rightarrow> u64 option" where
  "load_be48 m p = do {
     b0 \<leftarrow> vec_get m p; b1 \<leftarrow> vec_get m (p + 1);
     b2 \<leftarrow> vec_get m (p + 2); b3 \<leftarrow> vec_get m (p + 3);
     b4 \<leftarrow> vec_get m (p + 4); b5 \<leftarrow> vec_get m (p + 5);
     Some (push_bit 40 (ucast b0) OR push_bit 32 (ucast b1) OR
           push_bit 24 (ucast b2) OR push_bit 16 (ucast b3) OR
           push_bit 8 (ucast b4) OR ucast b5) }"

definition load_be64 :: "byte_buf \<Rightarrow> nat \<Rightarrow> u64 option" where
  "load_be64 m p = do {
     b0 \<leftarrow> vec_get m p; b1 \<leftarrow> vec_get m (p + 1);
     b2 \<leftarrow> vec_get m (p + 2); b3 \<leftarrow> vec_get m (p + 3);
     b4 \<leftarrow> vec_get m (p + 4); b5 \<leftarrow> vec_get m (p + 5);
     b6 \<leftarrow> vec_get m (p + 6); b7 \<leftarrow> vec_get m (p + 7);
     Some (push_bit 56 (ucast b0) OR push_bit 48 (ucast b1) OR
           push_bit 40 (ucast b2) OR push_bit 32 (ucast b3) OR
           push_bit 24 (ucast b4) OR push_bit 16 (ucast b5) OR
           push_bit 8 (ucast b6) OR ucast b7) }"

section \<open>The stores\<close>

text \<open>Each line \<open>b[i] = static_cast<std::uint8_t>(v >> s)\<close> is one checked write, in order.\<close>

definition store_be16 :: "byte_buf \<Rightarrow> nat \<Rightarrow> u16 \<Rightarrow> byte_buf option" where
  "store_be16 m p v = do {
     m \<leftarrow> vec_set m p (ucast (drop_bit 8 v));
     vec_set m (p + 1) (ucast v) }"

definition store_be32 :: "byte_buf \<Rightarrow> nat \<Rightarrow> u32 \<Rightarrow> byte_buf option" where
  "store_be32 m p v = do {
     m \<leftarrow> vec_set m p (ucast (drop_bit 24 v));
     m \<leftarrow> vec_set m (p + 1) (ucast (drop_bit 16 v));
     m \<leftarrow> vec_set m (p + 2) (ucast (drop_bit 8 v));
     vec_set m (p + 3) (ucast v) }"

definition store_be48 :: "byte_buf \<Rightarrow> nat \<Rightarrow> u64 \<Rightarrow> byte_buf option" where
  "store_be48 m p v = do {
     m \<leftarrow> vec_set m p (ucast (drop_bit 40 v));
     m \<leftarrow> vec_set m (p + 1) (ucast (drop_bit 32 v));
     m \<leftarrow> vec_set m (p + 2) (ucast (drop_bit 24 v));
     m \<leftarrow> vec_set m (p + 3) (ucast (drop_bit 16 v));
     m \<leftarrow> vec_set m (p + 4) (ucast (drop_bit 8 v));
     vec_set m (p + 5) (ucast v) }"

definition store_be64 :: "byte_buf \<Rightarrow> nat \<Rightarrow> u64 \<Rightarrow> byte_buf option" where
  "store_be64 m p v = do {
     m \<leftarrow> vec_set m p (ucast (drop_bit 56 v));
     m \<leftarrow> vec_set m (p + 1) (ucast (drop_bit 48 v));
     m \<leftarrow> vec_set m (p + 2) (ucast (drop_bit 40 v));
     m \<leftarrow> vec_set m (p + 3) (ucast (drop_bit 32 v));
     m \<leftarrow> vec_set m (p + 4) (ucast (drop_bit 24 v));
     m \<leftarrow> vec_set m (p + 5) (ucast (drop_bit 16 v));
     m \<leftarrow> vec_set m (p + 6) (ucast (drop_bit 8 v));
     vec_set m (p + 7) (ucast v) }"

section \<open>What a load returns: the big-endian value of its bytes\<close>

text \<open>The specification: the bytes read as the digits of a base-256 number, most significant first.\<close>

definition be_value :: "u8 list \<Rightarrow> nat" where
  "be_value bs = foldl (\<lambda>acc b. acc * 256 + unat b) 0 bs"

definition bytes_at :: "byte_buf \<Rightarrow> nat \<Rightarrow> nat \<Rightarrow> u8 list" where
  "bytes_at m p n = take n (drop p m)"

lemma bytes_at_Suc: "p < length m \<Longrightarrow> bytes_at m p (Suc n) = m ! p # bytes_at m (Suc p) n"
  by (simp add: bytes_at_def Cons_nth_drop_Suc [symmetric])

lemma bytes_at_0 [simp]: "bytes_at m p 0 = []"
  by (simp add: bytes_at_def)

lemmas load_defs = load_u8_def load_be16_def load_be32_def load_be48_def load_be64_def
lemmas store_defs = store_be16_def store_be32_def store_be48_def store_be64_def

lemma load_u8_value:
  assumes "p + 1 \<le> length m"
  shows "load_u8 m p = Some (m ! p) \<and> unat (m ! p) = be_value (bytes_at m p 1)"
  using assms by (simp add: load_u8_def access_simps be_value_def bytes_at_Suc numeral_eq_Suc)

text \<open>The shift-and-or expressions of the source, rewritten as Horner's rule.\<close>

lemma horner16:
  "push_bit 8 a OR (b :: 'w::len word) = push_bit 8 (push_bit 8 0 OR a) OR b"
  by simp

lemma horner32:
  "push_bit 24 a OR push_bit 16 b OR push_bit 8 c OR (d :: 'w::len word)
   = push_bit 8 (push_bit 8 (push_bit 8 a OR b) OR c) OR d"
  by (rule bit_word_eqI) (auto simp: bit_simps)

lemma horner48:
  "push_bit 40 a OR push_bit 32 b OR push_bit 24 c OR push_bit 16 d OR push_bit 8 e
     OR (f :: 'w::len word)
   = push_bit 8 (push_bit 8 (push_bit 8 (push_bit 8 (push_bit 8 a OR b) OR c) OR d) OR e) OR f"
  by (rule bit_word_eqI) (auto simp: bit_simps)

lemma horner64:
  "push_bit 56 a OR push_bit 48 b OR push_bit 40 c OR push_bit 32 d OR push_bit 24 e
     OR push_bit 16 f OR push_bit 8 g OR (h :: 'w::len word)
   = push_bit 8 (push_bit 8 (push_bit 8 (push_bit 8 (push_bit 8 (push_bit 8 (push_bit 8
       a OR b) OR c) OR d) OR e) OR f) OR g) OR h"
  by (rule bit_word_eqI) (auto simp: bit_simps)

text \<open>A partial value of \<open>n\<close> bytes is below \<open>256 ^ n\<close>, so no step of the assembly overflows.\<close>

definition digits_ok :: "nat \<Rightarrow> nat \<Rightarrow> 'w::len word \<Rightarrow> bool" where
  "digits_ok n v w \<longleftrightarrow> unat w = v \<and> v < 256 ^ n"

lemma digits_ok_first:
  "8 \<le> LENGTH('w::len) \<Longrightarrow> digits_ok 1 (unat b) (ucast (b :: u8) :: 'w word)"
  using unat_lt_256 [of b] by (simp add: digits_ok_def unat_ucast_byte)

lemma digits_ok_step:
  assumes "digits_ok n v (w :: 'w::len word)" and "8 * Suc n \<le> LENGTH('w)"
  shows "digits_ok (Suc n) (v * 256 + unat b) (push_bit 8 w OR ucast (b :: u8))"
proof -
  have "(256::nat) ^ Suc n = 2 ^ (8 * Suc n)"
    by (simp only: power_mult) simp
  also have "\<dots> \<le> 2 ^ LENGTH('w)"
    using assms(2) by (rule power_increasing) simp
  finally have "(256::nat) ^ Suc n \<le> 2 ^ LENGTH('w)" .
  moreover have "v * 256 + 256 \<le> 256 ^ Suc n"
    using assms(1) by (simp add: digits_ok_def)
  ultimately show ?thesis
    using assms unat_append_byte [of w b] unat_lt_256 [of b]
    by (simp add: digits_ok_def)
qed

lemma load_be16_value:
  assumes "p + 2 \<le> length m"
  shows "\<exists>v. load_be16 m p = Some v \<and> unat v = be_value (bytes_at m p 2)"
proof -
  let ?w = "push_bit 8 (ucast (m ! p) :: u32) OR ucast (m ! (p + 1))"
  have d: "digits_ok 2 (unat (m ! p) * 256 + unat (m ! (p + 1))) ?w"
    using digits_ok_step [OF digits_ok_first [of "m ! p"], of "m ! (p + 1)", where 'w = 32]
    by (simp add: numeral_2_eq_2)
  then have "unat (ucast ?w :: u16) = unat ?w"
    by (simp add: digits_ok_def unsigned_ucast_eq take_bit_nat_eq_self)
  with d assms show ?thesis
    by (simp add: load_be16_def access_simps be_value_def digits_ok_def bytes_at_Suc numeral_2_eq_2)
qed

lemma load_be32_value:
  assumes "p + 4 \<le> length m"
  shows "\<exists>v. load_be32 m p = Some v \<and> unat v = be_value (bytes_at m p 4)"
proof -
  have "bytes_at m p 4 = [m ! p, m ! (p + 1), m ! (p + 2), m ! (p + 3)]"
    using assms by (simp add: bytes_at_Suc numeral_eq_Suc)
  with assms show ?thesis
    using digits_ok_step [OF digits_ok_step [OF digits_ok_step [OF digits_ok_first]],
        of "m ! p" "m ! (p + 1)" "m ! (p + 2)" "m ! (p + 3)", where 'w = 32]
    by (simp add: load_be32_def access_simps be_value_def digits_ok_def horner32)
qed

lemma load_be48_value:
  assumes "p + 6 \<le> length m"
  shows "\<exists>v. load_be48 m p = Some v \<and> unat v = be_value (bytes_at m p 6)"
proof -
  have "bytes_at m p 6 = [m ! p, m ! (p + 1), m ! (p + 2), m ! (p + 3), m ! (p + 4), m ! (p + 5)]"
    using assms by (simp add: bytes_at_Suc numeral_eq_Suc)
  with assms show ?thesis
    using digits_ok_step [OF digits_ok_step [OF digits_ok_step [OF digits_ok_step [OF
        digits_ok_step [OF digits_ok_first]]]],
        of "m ! p" "m ! (p + 1)" "m ! (p + 2)" "m ! (p + 3)" "m ! (p + 4)" "m ! (p + 5)",
        where 'w = 64]
    by (simp add: load_be48_def access_simps be_value_def digits_ok_def horner48)
qed

lemma load_be64_value:
  assumes "p + 8 \<le> length m"
  shows "\<exists>v. load_be64 m p = Some v \<and> unat v = be_value (bytes_at m p 8)"
proof -
  have "bytes_at m p 8 = [m ! p, m ! (p + 1), m ! (p + 2), m ! (p + 3), m ! (p + 4), m ! (p + 5),
      m ! (p + 6), m ! (p + 7)]"
    using assms by (simp add: bytes_at_Suc numeral_eq_Suc)
  with assms show ?thesis
    using digits_ok_step [OF digits_ok_step [OF digits_ok_step [OF digits_ok_step [OF
        digits_ok_step [OF digits_ok_step [OF digits_ok_step [OF digits_ok_first]]]]]],
        of "m ! p" "m ! (p + 1)" "m ! (p + 2)" "m ! (p + 3)" "m ! (p + 4)" "m ! (p + 5)"
        "m ! (p + 6)" "m ! (p + 7)", where 'w = 64]
    by (simp add: load_be64_def access_simps be_value_def digits_ok_def horner64)
qed

section \<open>The contract of a load/store pair\<close>

text \<open>
  \<open>fits v\<close> says that \<open>v\<close> is representable in \<open>width\<close> bytes: every value for the 16-, 32- and
  64-bit pairs, the values below \<open>2 ^ 48\<close> for the 48-bit timestamps kept in 64 bits.
\<close>

locale be_codec =
  fixes load :: "byte_buf \<Rightarrow> nat \<Rightarrow> 'v option"
    and store :: "byte_buf \<Rightarrow> nat \<Rightarrow> 'v \<Rightarrow> byte_buf option"
    and width :: nat
    and fits :: "'v \<Rightarrow> bool"
  assumes load_total: "p + width \<le> length m \<Longrightarrow> load m p \<noteq> None"
    and load_local: "p + width \<le> length m \<Longrightarrow> p' + width \<le> length m' \<Longrightarrow>
      (\<And>i. i < width \<Longrightarrow> m' ! (p' + i) = m ! (p + i)) \<Longrightarrow> load m' p' = load m p"
    and store_total: "p + width \<le> length m \<Longrightarrow> store m p v \<noteq> None"
    and store_length: "store m p v = Some m' \<Longrightarrow> length m' = length m"
    and store_frame: "store m p v = Some m' \<Longrightarrow> i < p \<or> p + width \<le> i \<Longrightarrow> m' ! i = m ! i"
    and load_store: "p + width \<le> length m \<Longrightarrow> fits v \<Longrightarrow> store m p v = Some m' \<Longrightarrow>
      load m' p = Some v"
begin

lemma store_then_load:
  assumes "p + width \<le> length m" and "fits v"
  obtains m' where "store m p v = Some m'" and "length m' = length m" and "load m' p = Some v"
    and "\<And>i. i < p \<or> p + width \<le> i \<Longrightarrow> m' ! i = m ! i"
  using assms store_total store_length load_store store_frame by (metis option.exhaust)

text \<open>A later write elsewhere does not disturb a value.\<close>

lemma load_undisturbed:
  assumes "load m p = Some v" and "p + width \<le> length m" and "length m' = length m"
    and "\<And>i. i < q \<or> q + k \<le> i \<Longrightarrow> m' ! i = m ! i" and "p + width \<le> q \<or> q + k \<le> p"
  shows "load m' p = Some v"
proof -
  have "load m' p = load m p"
    using assms(2)
  proof (rule load_local)
    show "p + width \<le> length m'" using assms(2,3) by simp
    fix i assume "i < width"
    then have "p + i < q \<or> q + k \<le> p + i" using assms(5) by linarith
    then show "m' ! (p + i) = m ! (p + i)" by (rule assms(4))
  qed
  with assms(1) show ?thesis by simp
qed

text \<open>A load inside a window of the buffer is the load from the window's bytes alone.\<close>

lemma load_window:
  assumes "base + n \<le> length m" and "p + width \<le> n"
  shows "load m (base + p) = load (bytes_at m base n) p"
proof (rule load_local)
  show "p + width \<le> length (bytes_at m base n)"
    using assms by (simp add: bytes_at_def)
  show "base + p + width \<le> length m" using assms by simp
  fix i assume "i < width"
  with assms show "m ! (base + p + i) = bytes_at m base n ! (p + i)"
    by (simp add: bytes_at_def add.assoc)
qed

end

lemma vec_set_bind:
  "Option.bind (vec_set m p x) f = (if p < length m then f (m[p := x]) else None)"
  by (simp add: vec_set_def)

text \<open>Taking a word apart into bytes and assembling it again, one byte at a time.\<close>

lemma reassemble_top:
  fixes v :: "'w::len word"
  assumes "\<And>n. k + 8 \<le> n \<Longrightarrow> \<not> bit v n"
  shows "ucast (ucast (drop_bit k v) :: u8) = drop_bit k v"
proof (rule bit_word_eqI)
  fix n assume "n < LENGTH('w)"
  then show "bit (ucast (ucast (drop_bit k v) :: u8) :: 'w word) n = bit (drop_bit k v) n"
    using assms [of "k + n"] by (cases "n < 8") (auto simp: bit_simps)
qed

lemma reassemble_step:
  fixes v :: "'w::len word"
  shows "push_bit 8 (drop_bit (k + 8) v) OR ucast (ucast (drop_bit k v) :: u8) = drop_bit k v"
proof (rule bit_word_eqI)
  fix n assume "n < LENGTH('w)"
  then show "bit (push_bit 8 (drop_bit (k + 8) v) OR ucast (ucast (drop_bit k v) :: u8)) n
      = bit (drop_bit k v) n"
    by (cases "n < 8") (auto simp: bit_simps add.commute)
qed

lemmas reassemble = reassemble_step [of 0, simplified] reassemble_step [of 8, simplified]
  reassemble_step [of 16, simplified] reassemble_step [of 24, simplified]
  reassemble_step [of 32, simplified] reassemble_step [of 40, simplified]
  reassemble_step [of 48, simplified]

lemma reassemble16:
  "ucast (push_bit 8 (ucast (ucast (drop_bit 8 (v :: u16)) :: u8) :: u32)
     OR ucast (ucast v :: u8)) = v"
  by (rule bit_word_eqI) (auto simp: bit_simps)

lemma no_bit_above: "LENGTH('w::len) \<le> n \<Longrightarrow> \<not> bit (v :: 'w word) n"
  using bit_imp_le_length by fastforce

lemma reassemble32:
  fixes v :: u32
  shows "push_bit 24 (ucast (ucast (drop_bit 24 v) :: u8)) OR
    push_bit 16 (ucast (ucast (drop_bit 16 v) :: u8)) OR
    push_bit 8 (ucast (ucast (drop_bit 8 v) :: u8)) OR ucast (ucast v :: u8) = v"
proof -
  have "ucast (ucast (drop_bit 24 v) :: u8) = drop_bit 24 v"
    by (rule reassemble_top) (simp add: no_bit_above)
  then show ?thesis by (simp only: horner32 reassemble)
qed

lemma reassemble48:
  fixes v :: u64
  assumes "v < 2 ^ 48"
  shows "push_bit 40 (ucast (ucast (drop_bit 40 v) :: u8)) OR
    push_bit 32 (ucast (ucast (drop_bit 32 v) :: u8)) OR
    push_bit 24 (ucast (ucast (drop_bit 24 v) :: u8)) OR
    push_bit 16 (ucast (ucast (drop_bit 16 v) :: u8)) OR
    push_bit 8 (ucast (ucast (drop_bit 8 v) :: u8)) OR ucast (ucast v :: u8) = v"
proof -
  have "unat v < 2 ^ 48"
    using assms by (simp add: word_less_nat_alt)
  then have "take_bit 48 v = v"
    by (metis take_bit_nat_eq_self unsigned_take_bit_eq unsigned_word_eqI)
  then have "\<not> bit v n" if "n \<ge> 48" for n
    using that by (metis bit_take_bit_iff not_le)
  then have "ucast (ucast (drop_bit 40 v) :: u8) = drop_bit 40 v"
    by (intro reassemble_top) simp
  then show ?thesis by (simp only: horner48 reassemble)
qed

lemma reassemble64:
  fixes v :: u64
  shows "push_bit 56 (ucast (ucast (drop_bit 56 v) :: u8)) OR
    push_bit 48 (ucast (ucast (drop_bit 48 v) :: u8)) OR
    push_bit 40 (ucast (ucast (drop_bit 40 v) :: u8)) OR
    push_bit 32 (ucast (ucast (drop_bit 32 v) :: u8)) OR
    push_bit 24 (ucast (ucast (drop_bit 24 v) :: u8)) OR
    push_bit 16 (ucast (ucast (drop_bit 16 v) :: u8)) OR
    push_bit 8 (ucast (ucast (drop_bit 8 v) :: u8)) OR ucast (ucast v :: u8) = v"
proof -
  have "ucast (ucast (drop_bit 56 v) :: u8) = drop_bit 56 v"
    by (rule reassemble_top) (simp add: no_bit_above)
  then show ?thesis by (simp only: horner64 reassemble)
qed

lemmas codec_simps = store_defs load_defs access_simps vec_set_bind vec_set_Some

interpretation be16: be_codec load_be16 store_be16 2 "\<lambda>_. True"
proof (unfold_locales, goal_cases)
  case (2 p m p' m')
  from 2(3) [of 0] 2(3) [of 1] show ?case
    using 2(1,2) by (simp add: codec_simps)
next
  case (6 p m v m')
  then show ?case by (auto simp: codec_simps nth_list_update reassemble16)
qed (auto simp: codec_simps split: if_splits)

interpretation be32: be_codec load_be32 store_be32 4 "\<lambda>_. True"
proof (unfold_locales, goal_cases)
  case (2 p m p' m')
  from 2(3) [of 0] 2(3) [of 1] 2(3) [of 2] 2(3) [of 3] show ?case
    using 2(1,2) by (simp add: codec_simps)
next
  case (6 p m v m')
  then show ?case by (auto simp: codec_simps nth_list_update reassemble32)
qed (auto simp: codec_simps split: if_splits)

interpretation be48: be_codec load_be48 store_be48 6 "\<lambda>v. v < 2 ^ 48"
proof (unfold_locales, goal_cases)
  case (2 p m p' m')
  from 2(3) [of 0] 2(3) [of 1] 2(3) [of 2] 2(3) [of 3] 2(3) [of 4] 2(3) [of 5] show ?case
    using 2(1,2) by (simp add: codec_simps)
next
  case (6 p m v m')
  then show ?case
    using reassemble48 [of v] by (auto simp: codec_simps nth_list_update)
qed (auto simp: codec_simps split: if_splits)

interpretation be64: be_codec load_be64 store_be64 8 "\<lambda>_. True"
proof (unfold_locales, goal_cases)
  case (2 p m p' m')
  from 2(3) [of 0] 2(3) [of 1] 2(3) [of 2] 2(3) [of 3] 2(3) [of 4] 2(3) [of 5] 2(3) [of 6] 2(3) [of 7] show ?case
    using 2(1,2) by (simp add: codec_simps)
next
  case (6 p m v m')
  then show ?case by (auto simp: codec_simps nth_list_update reassemble64)
qed (auto simp: codec_simps split: if_splits)

end
