(* ===== verification/Market_Event.thy ===== *)
theory Market_Event
  imports FH_Prelude
begin

text \<open>
  \<^verbatim>\<open>include/feedhandler/market_event.hpp\<close>: the decoded event that every component exchanges. The
  two enums keep their constructors; the struct is a record whose default value is the C++ default
  member initialisation. \<^term>\<open>price_ticks\<close> is the signed 64-bit price as an \<^typ>\<open>int\<close>.
\<close>

datatype event_type =
    Unknown | Add | Cancel | Delete | Execute | ExecuteWithPrice | Replace | Trade | SystemEvent
  | L2SetLevel | L2EventHeader

datatype side = NoSide | Buy | Sell

record market_event =
  timestamp_ns :: u64
  order_ref :: u64
  new_order_ref :: u64
  match_number :: u64
  price_ticks :: int
  ev_size :: u32
  stock_locate :: u16
  ev_type :: event_type
  ev_side :: side
  symbol :: "u8 list"

definition default_event :: market_event where
  "default_event = \<lparr>timestamp_ns = 0, order_ref = 0, new_order_ref = 0, match_number = 0,
     price_ticks = 0, ev_size = 0, stock_locate = 0, ev_type = Unknown, ev_side = NoSide,
     symbol = replicate 8 0\<rparr>"

text \<open>The numbering of the enum (\<open>enum class EventType : std::uint8_t\<close>, from 0 in this order), and the
  order of the enumerators it gives.\<close>

fun event_type_code :: "event_type \<Rightarrow> nat" where
  "event_type_code Unknown = 0"
| "event_type_code Add = 1"
| "event_type_code Cancel = 2"
| "event_type_code Delete = 3"
| "event_type_code Execute = 4"
| "event_type_code ExecuteWithPrice = 5"
| "event_type_code Replace = 6"
| "event_type_code Trade = 7"
| "event_type_code SystemEvent = 8"
| "event_type_code L2SetLevel = 9"
| "event_type_code L2EventHeader = 10"

lemma event_type_code_inject [simp]: "event_type_code a = event_type_code b \<longleftrightarrow> a = b"
  by (cases a; cases b) simp_all

instantiation event_type :: linorder
begin

definition less_eq_event_type :: "event_type \<Rightarrow> event_type \<Rightarrow> bool" where
  "less_eq_event_type a b \<longleftrightarrow> event_type_code a \<le> event_type_code b"

definition less_event_type :: "event_type \<Rightarrow> event_type \<Rightarrow> bool" where
  "less_event_type a b \<longleftrightarrow> event_type_code a < event_type_code b"

instance
  by standard (auto simp: less_eq_event_type_def less_event_type_def antisym)

end

lemma opposite_sides: "s \<noteq> Buy \<Longrightarrow> s \<noteq> Sell \<Longrightarrow> s = NoSide"
  by (cases s) simp_all

end
