(* ===== verification/Itch_Parser.thy ===== *)
theory Itch_Parser
  imports Byte_Read Market_Event
begin

text \<open>
  \<^verbatim>\<open>src/itch_parser.cpp\<close>: the NASDAQ TotalView-ITCH 5.0 decoder. \<open>parse m msg len out\<close> decodes the
  message at offset \<open>msg\<close> of the memory \<open>m\<close>, of which \<open>len\<close> bytes are available, into the
  caller-owned event \<open>out\<close>; the result is the status and the event afterwards, or \<^term>\<open>None\<close> if a
  byte outside the memory were read.
\<close>

datatype parse_status = Ok | ShortBuffer | UnknownType

definition decode_side :: "u8 \<Rightarrow> side" where
  "decode_side c = (if c = ascii CHR ''B'' then Buy
                    else if c = ascii CHR ''S'' then Sell else NoSide)"

definition decode_header :: "byte_buf \<Rightarrow> nat \<Rightarrow> market_event \<Rightarrow> market_event option" where
  "decode_header m msg out = do {
     locate \<leftarrow> load_be16 m (msg + 1);
     ts \<leftarrow> load_be48 m (msg + 5);
     Some (out\<lparr>stock_locate := locate, timestamp_ns := ts\<rparr>) }"

definition copy_symbol :: "byte_buf \<Rightarrow> nat \<Rightarrow> market_event \<Rightarrow> market_event option" where
  "copy_symbol m src8 out =
     (if src8 + 8 \<le> length m then Some (out\<lparr>symbol := bytes_at m src8 8\<rparr>) else None)"

text \<open>The cases of the \<open>switch\<close> in \<open>message_length\<close>, in order; the default is 0.\<close>

definition length_table :: "(u8 \<times> nat) list" where
  "length_table =
    [(ascii CHR ''S'', 12), (ascii CHR ''R'', 39), (ascii CHR ''H'', 25),
     (ascii CHR ''Y'', 20), (ascii CHR ''L'', 26), (ascii CHR ''V'', 35),
     (ascii CHR ''W'', 12), (ascii CHR ''K'', 28), (ascii CHR ''J'', 35),
     (ascii CHR ''h'', 21), (ascii CHR ''A'', 36), (ascii CHR ''F'', 40),
     (ascii CHR ''E'', 31), (ascii CHR ''C'', 36), (ascii CHR ''X'', 23),
     (ascii CHR ''D'', 19), (ascii CHR ''U'', 35), (ascii CHR ''P'', 44),
     (ascii CHR ''Q'', 40), (ascii CHR ''B'', 19), (ascii CHR ''I'', 50),
     (ascii CHR ''N'', 20), (ascii CHR ''O'', 48)]"

definition message_length :: "u8 \<Rightarrow> nat" where
  "message_length t = (case map_of length_table t of Some n \<Rightarrow> n | None \<Rightarrow> 0)"

text \<open>The switch on the message type, after the event has been reset and the header decoded.\<close>

definition decode_body :: "u8 \<Rightarrow> byte_buf \<Rightarrow> nat \<Rightarrow> market_event \<Rightarrow> market_event option" where
  "decode_body t m msg out =
    (if t = ascii CHR ''A'' \<or> t = ascii CHR ''F'' then do {
       ref \<leftarrow> load_be64 m (msg + 11);
       sd \<leftarrow> load_u8 m (msg + 19);
       shares \<leftarrow> load_be32 m (msg + 20);
       out \<leftarrow> copy_symbol m (msg + 24) (out\<lparr>ev_type := Add, order_ref := ref,
                ev_side := decode_side sd, ev_size := shares\<rparr>);
       px \<leftarrow> load_be32 m (msg + 32);
       Some (out\<lparr>price_ticks := uint px\<rparr>) }
     else if t = ascii CHR ''E'' then do {
       ref \<leftarrow> load_be64 m (msg + 11);
       shares \<leftarrow> load_be32 m (msg + 19);
       match \<leftarrow> load_be64 m (msg + 23);
       Some (out\<lparr>ev_type := Execute, order_ref := ref, ev_size := shares, match_number := match\<rparr>) }
     else if t = ascii CHR ''C'' then do {
       ref \<leftarrow> load_be64 m (msg + 11);
       shares \<leftarrow> load_be32 m (msg + 19);
       match \<leftarrow> load_be64 m (msg + 23);
       px \<leftarrow> load_be32 m (msg + 32);
       Some (out\<lparr>ev_type := ExecuteWithPrice, order_ref := ref, ev_size := shares,
                 match_number := match, price_ticks := uint px\<rparr>) }
     else if t = ascii CHR ''X'' then do {
       ref \<leftarrow> load_be64 m (msg + 11);
       shares \<leftarrow> load_be32 m (msg + 19);
       Some (out\<lparr>ev_type := Cancel, order_ref := ref, ev_size := shares\<rparr>) }
     else if t = ascii CHR ''D'' then do {
       ref \<leftarrow> load_be64 m (msg + 11);
       Some (out\<lparr>ev_type := Delete, order_ref := ref\<rparr>) }
     else if t = ascii CHR ''U'' then do {
       ref \<leftarrow> load_be64 m (msg + 11);
       neu \<leftarrow> load_be64 m (msg + 19);
       shares \<leftarrow> load_be32 m (msg + 27);
       px \<leftarrow> load_be32 m (msg + 31);
       Some (out\<lparr>ev_type := Replace, order_ref := ref, new_order_ref := neu, ev_size := shares,
                 price_ticks := uint px\<rparr>) }
     else if t = ascii CHR ''P'' then do {
       ref \<leftarrow> load_be64 m (msg + 11);
       sd \<leftarrow> load_u8 m (msg + 19);
       shares \<leftarrow> load_be32 m (msg + 20);
       out \<leftarrow> copy_symbol m (msg + 24) (out\<lparr>ev_type := Trade, order_ref := ref,
                ev_side := decode_side sd, ev_size := shares\<rparr>);
       px \<leftarrow> load_be32 m (msg + 32);
       match \<leftarrow> load_be64 m (msg + 36);
       Some (out\<lparr>price_ticks := uint px, match_number := match\<rparr>) }
     else if t = ascii CHR ''S'' then Some (out\<lparr>ev_type := SystemEvent\<rparr>)
     else Some (out\<lparr>ev_type := Unknown\<rparr>))"

definition parse ::
    "byte_buf \<Rightarrow> nat \<Rightarrow> nat \<Rightarrow> market_event \<Rightarrow> (parse_status \<times> market_event) option" where
  "parse m msg len out =
    (if len = 0 then Some (ShortBuffer, out)
     else do {
       t \<leftarrow> load_u8 m msg;
       let need = message_length t in
       if need = 0 then Some (UnknownType, out)
       else if len < need then Some (ShortBuffer, out)
       else do {
         out \<leftarrow> decode_header m msg default_event;
         out \<leftarrow> decode_body t m msg out;
         Some (Ok, out) } })"

section \<open>Memory safety and locality\<close>

text \<open>The shortest known message holds the header; the types that are decoded hold their fields.\<close>

lemma message_length_header: "message_length t \<noteq> 0 \<Longrightarrow> 12 \<le> message_length t"
proof -
  have "\<forall>(t, n) \<in> set length_table. 12 \<le> n"
    by (simp add: length_table_def)
  moreover assume "message_length t \<noteq> 0"
  ultimately show ?thesis
    by (auto simp: message_length_def dest: map_of_SomeD split: option.splits)
qed

lemma message_length_decoded:
  "message_length (ascii CHR ''A'') = 36" "message_length (ascii CHR ''F'') = 40"
  "message_length (ascii CHR ''E'') = 31" "message_length (ascii CHR ''C'') = 36"
  "message_length (ascii CHR ''X'') = 23" "message_length (ascii CHR ''D'') = 19"
  "message_length (ascii CHR ''U'') = 35" "message_length (ascii CHR ''P'') = 44"
  "message_length (ascii CHR ''S'') = 12"
  by (simp_all add: message_length_def length_table_def)

lemmas message_length_codes = message_length_decoded [simplified]

lemma load_u8_window:
  "base + n \<le> length m \<Longrightarrow> p + 1 \<le> n \<Longrightarrow> load_u8 m (base + p) = load_u8 (bytes_at m base n) p"
  by (simp add: load_u8_def vec_get_def bytes_at_def)

lemma load_u8_total: "p + 1 \<le> length m \<Longrightarrow> load_u8 m p \<noteq> None"
  by (simp add: load_u8_def access_simps)

lemma bytes_at_bytes_at: "p + k \<le> n \<Longrightarrow> bytes_at (bytes_at m b n) p k = bytes_at m (b + p) k"
  by (simp add: bytes_at_def drop_take min_absorb1 add.commute)

lemma copy_symbol_window:
  "base + n \<le> length m \<Longrightarrow> p + 8 \<le> n \<Longrightarrow>
    copy_symbol m (base + p) out = copy_symbol (bytes_at m base n) p out"
  by (simp add: copy_symbol_def bytes_at_bytes_at) (simp add: bytes_at_def)

lemma copy_symbol_total: "p + 8 \<le> length m \<Longrightarrow> copy_symbol m p out \<noteq> None"
  by (simp add: copy_symbol_def)

lemmas window_simps = be16.load_window be32.load_window be48.load_window be64.load_window
  load_u8_window copy_symbol_window
lemmas load_total_simps = be16.load_total be32.load_total be48.load_total be64.load_total
  load_u8_total copy_symbol_total
lemmas load_total_ex = load_total_simps [unfolded not_None_eq]

lemma decode_body_window:
  assumes "msg + len \<le> length m" and "message_length t \<le> len" and "message_length t \<noteq> 0"
  shows "decode_body t m msg out = decode_body t (bytes_at m msg len) 0 out"
  using assms
  by (auto simp: decode_body_def window_simps [OF assms(1)] message_length_codes)

lemma decode_body_total:
  assumes "msg + len \<le> length m" and "message_length t \<le> len" and "message_length t \<noteq> 0"
  shows "decode_body t m msg out \<noteq> None"
  using assms
  by (auto simp: decode_body_def load_total_ex message_length_codes intro!: bind_total)

lemma decode_header_window:
  assumes "msg + len \<le> length m" and "12 \<le> len"
  shows "decode_header m msg out = decode_header (bytes_at m msg len) 0 out"
  using assms be16.load_window [OF assms(1), of 1] be48.load_window [OF assms(1), of 5]
  by (simp add: decode_header_def)

lemma decode_header_total:
  assumes "msg + len \<le> length m" and "12 \<le> len"
  shows "decode_header m msg out \<noteq> None"
  using assms
  by (simp add: decode_header_def load_total_ex bind_eq_None_conv)

text \<open>A delete message: stock locate 1, time 5, order 42.\<close>

definition sample_delete :: byte_buf where
  "sample_delete = [68, 0, 1, 0, 0, 0, 0, 0, 0, 0, 5, 0, 0, 0, 0, 0, 0, 0, 42]"

lemma sample_delete_parses:
  "parse sample_delete 0 19 default_event = Some (Ok, default_event
    \<lparr>stock_locate := 1, timestamp_ns := 5, ev_type := Delete, order_ref := 42\<rparr>)"
  by code_simp

lemma sample_delete_short: "parse sample_delete 0 18 out = Some (ShortBuffer, out)"
  by (simp add: parse_def sample_delete_def load_u8_def vec_get_def message_length_def length_table_def)

lemma parse_total:
  assumes "msg + len \<le> length m"
  shows "parse m msg len out \<noteq> None"
proof (cases "len = 0")
  case True
  then show ?thesis by (simp add: parse_def)
next
  case False
  with assms obtain t where t: "load_u8 m msg = Some t"
    using load_u8_total [of msg m] by fastforce
  show ?thesis
  proof (cases "message_length t = 0 \<or> len < message_length t")
    case True
    with False t show ?thesis by (auto simp: parse_def Let_def)
  next
    case fits: False
    then have "12 \<le> len" using message_length_header [of t] by simp
    with assms obtain h where h: "decode_header m msg default_event = Some h"
      using decode_header_total by fastforce
    moreover obtain e where "decode_body t m msg h = Some e"
      using decode_body_total [OF assms, of t h] fits by fastforce
    ultimately show ?thesis using False t fits by (simp add: parse_def Let_def)
  qed
qed

text \<open>
  C27. parse reads no byte outside the len bytes it is given, for any contents and any length.
\<close>

theorem parse_memory_safe:
  assumes "msg + len \<le> length m"
  shows "parse m msg len out \<noteq> None"
  by (rule parse_total [OF assms])

lemma parse_memory_safe_witness: "parse sample_delete 0 19 default_event \<noteq> None"
  using parse_memory_safe [of 0 19 sample_delete] by (simp add: sample_delete_def)

lemma parse_local:
  assumes "msg + len \<le> length m"
  shows "parse m msg len out = parse (bytes_at m msg len) 0 len out"
proof (cases "len = 0")
  case True
  then show ?thesis by (simp add: parse_def)
next
  case False
  with assms have u8: "load_u8 m msg = load_u8 (bytes_at m msg len) 0"
    using load_u8_window [of msg len m 0] by simp
  obtain t where t: "load_u8 m msg = Some t"
    using load_u8_total [of msg m] False assms by fastforce
  show ?thesis
  proof (cases "message_length t = 0 \<or> len < message_length t")
    case True
    with False t u8 show ?thesis by (auto simp: parse_def Let_def)
  next
    case fits: False
    then have "12 \<le> len" using message_length_header [of t] by simp
    from decode_header_window [OF assms this] decode_body_window [OF assms, of t] fits
    show ?thesis using False t u8 by (simp add: parse_def Let_def)
  qed
qed

text \<open>
  \<open>parse\<close> reports \<^const>\<open>ShortBuffer\<close> exactly for an empty or too short buffer and \<^const>\<open>UnknownType\<close>
  exactly for a type outside the table, and writes the event only when it reports \<^const>\<open>Ok\<close>.
\<close>

lemma parse_status_cases:
  assumes "msg + len \<le> length m" and "parse m msg len out = Some (st, out')"
  shows "(st = ShortBuffer \<longleftrightarrow> len = 0 \<or> len < message_length (m ! msg))
    \<and> (st = UnknownType \<longleftrightarrow> 0 < len \<and> message_length (m ! msg) = 0)
    \<and> (st \<noteq> Ok \<longrightarrow> out' = out)"
proof (cases "len = 0")
  case True
  with assms(2) show ?thesis by (simp add: parse_def)
next
  case False
  with assms(1) have "load_u8 m msg = Some (m ! msg)"
    by (simp add: load_u8_def access_simps)
  with False assms(2) show ?thesis
    by (auto simp: parse_def Let_def split: if_splits bind_splits)
qed

lemma parse_status_cases_witness: "18 < message_length (sample_delete ! 0)"
  using parse_status_cases [OF _ sample_delete_short] by (simp add: sample_delete_def)

text \<open>A successful decode does not depend on the previous contents of the output event.\<close>

lemma parse_no_stale_fields:
  assumes "parse m msg len out = Some (Ok, ev)"
  shows "parse m msg len out' = Some (Ok, ev)"
  using assms by (auto simp: parse_def Let_def split: if_splits bind_splits)

lemma parse_no_stale_fields_witness:
  "\<exists>ev. parse sample_delete 0 19 (default_event\<lparr>ev_side := Buy, ev_size := 9\<rparr>) = Some (Ok, ev)
    \<and> ev_side ev = NoSide \<and> ev_size ev = 0"
  using parse_no_stale_fields [OF sample_delete_parses] by (simp add: default_event_def)

end
