(* ===== verification/Itch_File_Source.thy ===== *)
theory Itch_File_Source
  imports Byte_Read
begin

text \<open>
  \<^verbatim>\<open>include/feedhandler/feed_source.hpp\<close> and \<^verbatim>\<open>src/itch_file_source.cpp\<close>. The abstract class
  \<open>FeedSource\<close> is the locale \<open>feed_source\<close>: what the pipeline relies on when it calls the virtual
  \<open>next_frame\<close>. \<open>ItchFileSource\<close> is the record \<open>file_source\<close> with \<open>next_frame\<close>, interpreted as a
  \<open>feed_source\<close>. What the operating system answers to \<open>open\<close>, \<open>fstat\<close> and \<open>mmap\<close> is the
  argument of the constructor.
\<close>

record raw_frame =
  fr_data :: nat
  fr_len :: nat
  fr_sequence :: u64

definition default_frame :: raw_frame where
  "default_frame = \<lparr>fr_data = 0, fr_len = 0, fr_sequence = 0\<rparr>"

record file_source =
  fs_data :: "byte_buf option"
  fs_size :: nat
  fs_pos :: nat
  fs_seq :: u64

text \<open>\<open>opened\<close>: the bytes of the file if \<open>open\<close> and \<open>fstat\<close> succeed; \<open>mapped\<close>: \<open>mmap\<close> succeeds.\<close>

definition open_file_source :: "byte_buf option \<Rightarrow> bool \<Rightarrow> file_source" where
  "open_file_source opened mapped =
    (case opened of
       None \<Rightarrow> \<lparr>fs_data = None, fs_size = 0, fs_pos = 0, fs_seq = 0\<rparr>
     | Some bytes \<Rightarrow>
         if length bytes = 0 then \<lparr>fs_data = None, fs_size = 0, fs_pos = 0, fs_seq = 0\<rparr>
         else if \<not> mapped then \<lparr>fs_data = None, fs_size = 0, fs_pos = 0, fs_seq = 0\<rparr>
         else \<lparr>fs_data = Some bytes, fs_size = length bytes, fs_pos = 0, fs_seq = 0\<rparr>)"

definition source_ok :: "file_source \<Rightarrow> bool" where
  "source_ok s \<longleftrightarrow> fs_data s \<noteq> None"

definition next_frame :: "file_source \<Rightarrow> raw_frame \<Rightarrow> (bool \<times> raw_frame \<times> file_source) option" where
  "next_frame s out =
    (case fs_data s of
       None \<Rightarrow> Some (False, out, s)
     | Some bytes \<Rightarrow>
         if fs_pos s + 2 > fs_size s then Some (False, out, s)
         else do {
           len16 \<leftarrow> load_be16 bytes (fs_pos s);
           let len = unat len16;
           let payload = fs_pos s + 2;
           if payload + len > fs_size s then Some (False, out, s)
           else Some (True,
             \<lparr>fr_data = payload, fr_len = len, fr_sequence = fs_seq s + 1\<rparr>,
             s\<lparr>fs_seq := fs_seq s + 1, fs_pos := payload + len\<rparr>) })"

section \<open>The FeedSource contract\<close>

text \<open>
  \<open>mem\<close> is the memory the frames point into, \<open>seq\<close> the number of frames handed up, \<open>left\<close> a bound
  on the frames to come. \<open>nf\<close> is the virtual call.
\<close>

locale feed_source =
  fixes nf :: "'s \<Rightarrow> raw_frame \<Rightarrow> (bool \<times> raw_frame \<times> 's) option"
    and ok :: "'s \<Rightarrow> bool"
    and mem :: "'s \<Rightarrow> byte_buf"
    and seq :: "'s \<Rightarrow> u64"
    and left :: "'s \<Rightarrow> nat"
  assumes nf_safe: "ok s \<Longrightarrow> nf s f \<noteq> None"
    and nf_ok: "ok s \<Longrightarrow> nf s f = Some (b, f', s') \<Longrightarrow> ok s' \<and> mem s' = mem s"
    and nf_more: "ok s \<Longrightarrow> nf s f = Some (True, f', s') \<Longrightarrow>
      left s' < left s \<and> fr_data f' + fr_len f' \<le> length (mem s)
      \<and> fr_sequence f' = seq s + 1 \<and> seq s' = seq s + 1"
    and nf_end: "ok s \<Longrightarrow> nf s f = Some (False, f', s') \<Longrightarrow> f' = f \<and> s' = s"

text \<open>
  The ingest loop \<open>while (src.next_frame(f)) ...\<close>, collecting the frames it sees. The loop is given
  fuel; \<^term>\<open>None\<close> also stands for running out of it.
\<close>

fun source_frames ::
    "('s \<Rightarrow> raw_frame \<Rightarrow> (bool \<times> raw_frame \<times> 's) option) \<Rightarrow> nat \<Rightarrow> 's \<Rightarrow> raw_frame \<Rightarrow> raw_frame list option"
  where
  "source_frames nf 0 s f = None"
| "source_frames nf (Suc n) s f =
     (case nf s f of
        None \<Rightarrow> None
      | Some (False, _, _) \<Rightarrow> Some []
      | Some (True, f', s') \<Rightarrow> map_option (Cons f') (source_frames nf n s' f'))"

context feed_source begin

lemma frames_terminate: "ok s \<Longrightarrow> left s < n \<Longrightarrow> \<exists>fs. source_frames nf n s f = Some fs"
proof (induction n arbitrary: s f)
  case 0
  then show ?case by simp
next
  case (Suc n)
  from nf_safe [OF Suc.prems(1)] obtain b f' s' where r: "nf s f = Some (b, f', s')"
    by (metis not_None_eq prod_cases3)
  show ?case
  proof (cases b)
    case True
    with r Suc.prems nf_more [of s f f' s'] nf_ok [of s f b f' s']
    have "ok s'" "left s' < n" by auto
    from Suc.IH [OF this] r True show ?thesis by fastforce
  next
    case False
    with r show ?thesis by simp
  qed
qed

text \<open>Frames are numbered consecutively and point into the source's memory.\<close>

lemma frames_numbered:
  "ok s \<Longrightarrow> source_frames nf n s f = Some fs \<Longrightarrow> i < length fs \<Longrightarrow>
    fr_sequence (fs ! i) = seq s + of_nat (Suc i)
    \<and> fr_data (fs ! i) + fr_len (fs ! i) \<le> length (mem s)"
proof (induction n arbitrary: s f fs i)
  case 0
  then show ?case by simp
next
  case (Suc n)
  from nf_safe [OF Suc.prems(1)] obtain b f' s' where r: "nf s f = Some (b, f', s')"
    by (metis not_None_eq prod_cases3)
  with Suc.prems obtain gs where b: b and gs: "source_frames nf n s' f' = Some gs" "fs = f' # gs"
    by (cases b) auto
  from b r Suc.prems(1) nf_more [of s f f' s'] nf_ok [of s f b f' s']
  have s': "ok s'" "mem s' = mem s" "seq s' = seq s + 1" "fr_sequence f' = seq s + 1"
    "fr_data f' + fr_len f' \<le> length (mem s)" by auto
  show ?case
  proof (cases i)
    case 0
    with gs s' show ?thesis by simp
  next
    case (Suc j)
    with Suc.IH [OF s'(1) gs(1), of j] Suc.prems(3) gs(2) s' show ?thesis by (simp add: add.assoc)
  qed
qed

end

section \<open>The file source keeps the contract\<close>

definition file_source_ok :: "file_source \<Rightarrow> bool" where
  "file_source_ok s \<longleftrightarrow>
    (case fs_data s of None \<Rightarrow> True | Some bytes \<Rightarrow> fs_size s = length bytes \<and> fs_pos s \<le> fs_size s)"

definition source_bytes :: "file_source \<Rightarrow> byte_buf" where
  "source_bytes s = (case fs_data s of None \<Rightarrow> [] | Some bytes \<Rightarrow> bytes)"

definition bytes_left :: "file_source \<Rightarrow> nat" where
  "bytes_left s = fs_size s - fs_pos s"

lemma open_file_source_ok: "file_source_ok (open_file_source opened mapped)"
  by (simp add: open_file_source_def file_source_ok_def split: option.split)

lemma next_frame_cases:
  assumes "file_source_ok s"
  obtains (End) "next_frame s f = Some (False, f, s)"
  | (Frame) bytes len16 where "fs_data s = Some bytes" "fs_size s = length bytes"
      "load_be16 bytes (fs_pos s) = Some len16"
      "fs_pos s + 2 + unat len16 \<le> length bytes"
      "next_frame s f = Some (True,
        \<lparr>fr_data = fs_pos s + 2, fr_len = unat len16, fr_sequence = fs_seq s + 1\<rparr>,
        s\<lparr>fs_seq := fs_seq s + 1, fs_pos := fs_pos s + 2 + unat len16\<rparr>)"
proof (cases "fs_data s")
  case None
  with that(1) show ?thesis by (simp add: next_frame_def)
next
  case (Some bytes)
  with assms have size: "fs_size s = length bytes" by (simp add: file_source_ok_def)
  show ?thesis
  proof (cases "fs_pos s + 2 \<le> length bytes")
    case False
    with Some size that(1) show ?thesis by (simp add: next_frame_def)
  next
    case True
    then obtain len16 where len: "load_be16 bytes (fs_pos s) = Some len16"
      using be16.load_total by fastforce
    show ?thesis
    proof (cases "fs_pos s + 2 + unat len16 \<le> length bytes")
      case True
      with Some size len that(2) show ?thesis by (simp add: next_frame_def Let_def)
    next
      case False
      with Some size len True that(1) show ?thesis by (simp add: next_frame_def Let_def)
    qed
  qed
qed

interpretation itch_file: feed_source next_frame file_source_ok source_bytes fs_seq bytes_left
proof (unfold_locales, goal_cases)
  case (1 s f)
  then show ?case by (cases rule: next_frame_cases [of s f]) auto
next
  case (2 s f b f' s')
  from 2(1) show ?case
    by (cases rule: next_frame_cases [of s f])
      (use 2 in \<open>auto simp: file_source_ok_def source_bytes_def\<close>)
next
  case (3 s f f' s')
  then show ?case
    by (cases rule: next_frame_cases [of s f]) (auto simp: source_bytes_def bytes_left_def)
next
  case (4 s f f' s')
  then show ?case by (cases rule: next_frame_cases [of s f]) auto
qed

section \<open>What the file means: the BinaryFILE framing\<close>

text \<open>
  The specification of the format, on the bytes of the file: a two-byte big-endian length, then
  that many payload bytes, and so on; a truncated last frame is ignored.
\<close>

function split_frames :: "byte_buf \<Rightarrow> byte_buf list" where
  "split_frames bs =
    (if length bs < 2 then []
     else let n = be_value (take 2 bs); rest = drop 2 bs in
       if length rest < n then [] else take n rest # split_frames (drop n rest))"
  by pat_completeness auto
termination
  by (relation "measure length") auto

declare split_frames.simps [simp del]

definition payload_of :: "byte_buf \<Rightarrow> raw_frame \<Rightarrow> byte_buf" where
  "payload_of m f = bytes_at m (fr_data f) (fr_len f)"

lemma source_frames_payloads:
  "file_source_ok s \<Longrightarrow> source_frames next_frame n s f = Some fs \<Longrightarrow>
    map (payload_of (source_bytes s)) fs =
      (if fs_data s = None then [] else split_frames (drop (fs_pos s) (source_bytes s)))"
proof (induction n arbitrary: s f fs)
  case 0
  then show ?case by simp
next
  case (Suc n)
  from Suc.prems(1) show ?case
  proof (cases rule: next_frame_cases [of s f])
    case End
    show ?thesis
    proof (cases "fs_data s")
      case None
      with End Suc.prems show ?thesis by simp
    next
      case (Some bytes)
      with Suc.prems(1) have pos: "fs_pos s \<le> length bytes" "fs_size s = length bytes"
        by (auto simp: file_source_ok_def)
      have "split_frames (drop (fs_pos s) bytes) = []"
      proof (cases "fs_pos s + 2 \<le> length bytes")
        case False
        then have "length bytes - fs_pos s < 2" by linarith
        then show ?thesis by (subst split_frames.simps) simp
      next
        case True
        then obtain v where v: "load_be16 bytes (fs_pos s) = Some v"
          "unat v = be_value (bytes_at bytes (fs_pos s) 2)"
          using load_be16_value by blast
        with End Some pos True have "length bytes < fs_pos s + 2 + unat v"
          by (auto simp: next_frame_def Let_def split: if_splits)
        with v True show ?thesis
          by (subst split_frames.simps) (simp add: Let_def bytes_at_def)
      qed
      with End Suc.prems Some show ?thesis by (simp add: source_bytes_def)
    qed
  next
    case (Frame bytes len16)
    let ?s = "s\<lparr>fs_seq := fs_seq s + 1, fs_pos := fs_pos s + 2 + unat len16\<rparr>"
    let ?f = "\<lparr>fr_data = fs_pos s + 2, fr_len = unat len16, fr_sequence = fs_seq s + 1\<rparr>"
    from Frame Suc.prems(2) obtain gs where gs: "source_frames next_frame n ?s ?f = Some gs"
      "fs = ?f # gs" by auto
    have "file_source_ok ?s" using Frame by (simp add: file_source_ok_def)
    from Suc.IH [OF this gs(1)] Frame(1)
    have IH: "map (payload_of bytes) gs = split_frames (drop (fs_pos s + 2 + unat len16) bytes)"
      by (simp add: source_bytes_def)
    have "unat len16 = be_value (take 2 (drop (fs_pos s) bytes))"
      using load_be16_value [of "fs_pos s" bytes] Frame(3,4) by (auto simp: bytes_at_def)
    moreover have "\<not> length bytes - fs_pos s < 2"
      "\<not> length bytes - (fs_pos s + 2) < unat len16"
      using Frame(4) by arith+
    ultimately have "split_frames (drop (fs_pos s) bytes) =
        bytes_at bytes (fs_pos s + 2) (unat len16)
          # split_frames (drop (fs_pos s + 2 + unat len16) bytes)"
      by (subst split_frames.simps) (simp add: Let_def bytes_at_def ac_simps)
    moreover have "payload_of bytes ?f = bytes_at bytes (fs_pos s + 2) (unat len16)"
      by (simp add: payload_of_def)
    ultimately show ?thesis using IH gs Frame(1) by (simp add: source_bytes_def)
  qed
qed

lemma file_replay:
  assumes "bytes \<noteq> []"
  shows "\<exists>fs. source_frames next_frame (length bytes + 1) (open_file_source (Some bytes) True) f = Some fs
    \<and> map (payload_of bytes) fs = split_frames bytes
    \<and> (\<forall>i < length fs. fr_sequence (fs ! i) = of_nat (Suc i)
         \<and> fr_data (fs ! i) + fr_len (fs ! i) \<le> length bytes)"
proof -
  let ?s = "open_file_source (Some bytes) True"
  have s: "file_source_ok ?s" "source_bytes ?s = bytes" "fs_seq ?s = 0" "fs_pos ?s = 0"
    "fs_data ?s = Some bytes" "bytes_left ?s < length bytes + 1"
    using assms open_file_source_ok [of "Some bytes" True]
    by (simp_all add: open_file_source_def source_bytes_def bytes_left_def)
  obtain fs where fs: "source_frames next_frame (length bytes + 1) ?s f = Some fs"
    using itch_file.frames_terminate [OF s(1,6)] by blast
  moreover have "map (payload_of bytes) fs = split_frames bytes"
    using source_frames_payloads [OF s(1) fs] s by simp
  ultimately show ?thesis
    using itch_file.frames_numbered [OF s(1) fs] s by simp
qed

text \<open>
  C24. Replaying a file terminates without reading outside the mapping and yields exactly the
  frames of the length-prefixed format, numbered 1, 2, 3, and so on, a truncated last frame
  being ignored.
\<close>

theorem file_replay_is_framing:
  assumes "bytes \<noteq> []"
  shows "\<exists>fs. source_frames next_frame (length bytes + 1) (open_file_source (Some bytes) True) f = Some fs
    \<and> map (payload_of bytes) fs = split_frames bytes
    \<and> (\<forall>i < length fs. fr_sequence (fs ! i) = of_nat (Suc i)
         \<and> fr_data (fs ! i) + fr_len (fs ! i) \<le> length bytes)"
  by (rule file_replay [OF assms])

definition sample_file :: byte_buf where
  "sample_file = [0, 1, 83, 0, 2, 1, 2, 0]"

lemma file_replay_is_framing_witness:
  "\<exists>fs. source_frames next_frame (length sample_file + 1)
      (open_file_source (Some sample_file) True) default_frame = Some fs
    \<and> map (payload_of sample_file) fs = [[83], [1, 2]]"
proof -
  have "split_frames sample_file = [[83], [1, 2]]" by code_simp
  moreover have "sample_file \<noteq> []" by (simp add: sample_file_def)
  ultimately show ?thesis using file_replay_is_framing [of sample_file default_frame] by metis
qed

end
