(* ===== verification/Sequencer.thy ===== *)
theory Sequencer
  imports Market_Event
begin

text \<open>
  \<^verbatim>\<open>include/feedhandler/sequencer.hpp\<close> and \<^verbatim>\<open>src/sequencer.cpp\<close>: sequence tracking, gap
  detection and recovery. The \<open>unordered_map\<close> of held-back events is an association list without
  duplicate keys, with \<open>emplace\<close> and \<open>erase\<close> as the standard library defines them (\<open>emplace\<close> leaves
  an existing entry alone). Sequence numbers and counters are 64-bit words.
\<close>

record seq_config =
  start_seq :: u64
  reorder_capacity :: nat

definition default_seq_config :: seq_config where
  "default_seq_config = \<lparr>start_seq = 1, reorder_capacity = 4096\<rparr>"

record seq_stats =
  accepted :: u64
  duplicates :: u64
  buffered_released :: u64
  gap_episodes :: u64
  missing_total :: u64
  reorder_overflow :: u64
  snapshot_recoveries :: u64

definition zero_seq_stats :: seq_stats where
  "zero_seq_stats = \<lparr>accepted = 0, duplicates = 0, buffered_released = 0, gap_episodes = 0,
     missing_total = 0, reorder_overflow = 0, snapshot_recoveries = 0\<rparr>"

datatype disposition = Apply | Drop | Buffered | Overflow

type_synonym reorder_map = "(u64 \<times> market_event) list"

definition emplace :: "u64 \<Rightarrow> market_event \<Rightarrow> reorder_map \<Rightarrow> reorder_map" where
  "emplace k v m = (if map_of m k = None then (k, v) # m else m)"

definition erase :: "u64 \<Rightarrow> reorder_map \<Rightarrow> reorder_map" where
  "erase k m = filter (\<lambda>p. fst p \<noteq> k) m"

record sequencer =
  sq_cfg :: seq_config
  expected :: u64
  stale :: bool
  needs_snapshot :: bool
  reorder :: reorder_map
  sq_stats :: seq_stats

definition new_sequencer :: "seq_config \<Rightarrow> sequencer" where
  "new_sequencer cfg = \<lparr>sq_cfg = cfg, expected = start_seq cfg, stale = False,
     needs_snapshot = False, reorder = [], sq_stats = zero_seq_stats\<rparr>"

definition offer :: "u64 \<Rightarrow> market_event \<Rightarrow> sequencer \<Rightarrow> disposition \<times> sequencer" where
  "offer seq ev s =
    (if seq < expected s then
       (Drop, s\<lparr>sq_stats := (sq_stats s)\<lparr>duplicates := duplicates (sq_stats s) + 1\<rparr>\<rparr>)
     else if seq = expected s then
       (Apply, s\<lparr>expected := expected s + 1,
                 sq_stats := (sq_stats s)\<lparr>accepted := accepted (sq_stats s) + 1\<rparr>\<rparr>)
     else
       let s = (if \<not> stale s then
                  s\<lparr>sq_stats := (sq_stats s)\<lparr>gap_episodes := gap_episodes (sq_stats s) + 1,
                      missing_total := missing_total (sq_stats s) + (seq - expected s)\<rparr>,
                    stale := True\<rparr>
                else s) in
       if reorder_capacity (sq_cfg s) \<le> length (reorder s) then
         (Overflow, s\<lparr>sq_stats := (sq_stats s)\<lparr>reorder_overflow := reorder_overflow (sq_stats s) + 1\<rparr>,
                      needs_snapshot := True\<rparr>)
       else (Buffered, s\<lparr>reorder := emplace seq ev (reorder s)\<rparr>))"

text \<open>\<open>pop_ready\<close> returns the event it wrote to \<open>out\<close>, or \<^term>\<open>None\<close> for the result false.\<close>

definition pop_ready :: "sequencer \<Rightarrow> market_event option \<times> sequencer" where
  "pop_ready s =
    (case map_of (reorder s) (expected s) of
       None \<Rightarrow> (None, if reorder s = [] then s\<lparr>stale := False\<rparr> else s)
     | Some ev \<Rightarrow>
         let r = erase (expected s) (reorder s) in
         (Some ev, s\<lparr>reorder := r, expected := expected s + 1,
            sq_stats := (sq_stats s)\<lparr>accepted := accepted (sq_stats s) + 1,
              buffered_released := buffered_released (sq_stats s) + 1\<rparr>,
            stale := (if r = [] then False else stale s)\<rparr>))"

definition resync_to_snapshot :: "u64 \<Rightarrow> sequencer \<Rightarrow> sequencer" where
  "resync_to_snapshot snapshot_seq s =
     s\<lparr>reorder := [], expected := snapshot_seq + 1, stale := False, needs_snapshot := False,
       sq_stats := (sq_stats s)\<lparr>snapshot_recoveries := snapshot_recoveries (sq_stats s) + 1\<rparr>\<rparr>"

section \<open>Draining\<close>

lemma erase_shorter: "map_of m k = Some v \<Longrightarrow> length (erase k m) < length m"
  unfolding erase_def by (rule length_filter_less) (auto dest: map_of_SomeD)

text \<open>The caller's loop \<open>while (seq.pop_ready(r)) ...\<close>, with the events it sees in order.\<close>

function drain :: "sequencer \<Rightarrow> market_event list \<times> sequencer" where
  "drain s =
    (case pop_ready s of
       (None, s') \<Rightarrow> ([], s')
     | (Some ev, s') \<Rightarrow> let (evs, s'') = drain s' in (ev # evs, s''))"
  by pat_completeness auto
termination
proof (relation "measure (\<lambda>s. length (reorder s))", goal_cases)
  case (2 s r s' ev)
  then show ?case
    by (auto simp: pop_ready_def Let_def erase_shorter split: option.splits)
qed simp

declare drain.simps [simp del]

text \<open>One received message: offer it, and after an \<open>Apply\<close> drain what has become contiguous.\<close>

definition seq_step ::
    "sequencer \<Rightarrow> u64 \<times> market_event \<Rightarrow> disposition \<times> market_event list \<times> sequencer" where
  "seq_step s m =
    (case offer (fst m) (snd m) s of
       (Apply, s1) \<Rightarrow> (let (evs, s2) = drain s1 in (Apply, snd m # evs, s2))
     | (d, s1) \<Rightarrow> (d, [], s1))"

fun seq_run ::
    "sequencer \<Rightarrow> (u64 \<times> market_event) list \<Rightarrow> disposition list \<times> market_event list \<times> sequencer" where
  "seq_run s [] = ([], [], s)"
| "seq_run s (m # ms) =
    (let (d, evs, s1) = seq_step s m; (ds, evs', s2) = seq_run s1 ms in (d # ds, evs @ evs', s2))"

section \<open>The reorder buffer as a finite map\<close>

definition keys :: "reorder_map \<Rightarrow> nat set" where
  "keys m = (\<lambda>p. unat (fst p)) ` set m"

lemma keys_Nil [simp]: "keys [] = {}"
  by (simp add: keys_def)

lemma keys_empty_iff: "keys m = {} \<longleftrightarrow> m = []"
  by (simp add: keys_def)

lemma keys_iff: "unat k \<in> keys m \<longleftrightarrow> map_of m k \<noteq> None"
  by (force simp: keys_def map_of_eq_None_iff image_iff)

lemma keys_emplace: "keys (emplace k v m) = insert (unat k) (keys m)"
  using keys_iff [of k m] by (auto simp: emplace_def keys_def)

lemma keys_erase: "keys (erase k m) = keys m - {unat k}"
  by (auto simp: keys_def erase_def)

lemma finite_keys: "finite (keys m)"
  by (simp add: keys_def)

lemma distinct_emplace: "distinct (map fst m) \<Longrightarrow> distinct (map fst (emplace k v m))"
  by (auto simp: emplace_def map_of_eq_None_iff)

lemma distinct_erase: "distinct (map fst m) \<Longrightarrow> distinct (map fst (erase k m))"
  by (simp add: erase_def distinct_map_filter)

lemma map_of_erase: "map_of (erase k m) j = (if j = k then None else map_of m j)"
  by (induction m) (auto simp: erase_def)

lemma map_of_emplace:
  "map_of (emplace k v m) j = (if j = k \<and> map_of m k = None then Some v else map_of m j)"
  by (auto simp: emplace_def)

lemma length_keys: "distinct (map fst m) \<Longrightarrow> length m = card (keys m)"
proof -
  assume d: "distinct (map fst m)"
  have "inj_on unat (fst ` set m)" by (simp add: inj_on_def)
  then have "card (keys m) = card (fst ` set m)"
    unfolding keys_def by (simp add: card_image image_image [symmetric])
  also have "\<dots> = length m"
    using d by (metis distinct_card length_map set_map)
  finally show ?thesis by simp
qed

section \<open>Delivery is in order and complete\<close>

text \<open>
  \<open>feed :: nat \<Rightarrow> market_event\<close> is the feed: the event that carries each sequence number. \<open>A\<close> is
  the set of numbers that have arrived. The specification of gap recovery: the next expected
  number is the least one that has not arrived, exactly the arrived numbers above it are held
  back, and the stream is stale exactly while something is held back. Numbers stay below
  \<open>2 ^ 64 - 1\<close>, so the expected number does not wrap.
\<close>

definition seq_base :: "(nat \<Rightarrow> market_event) \<Rightarrow> nat set \<Rightarrow> sequencer \<Rightarrow> bool" where
  "seq_base feed A s \<longleftrightarrow>
     unat (start_seq (sq_cfg s)) \<le> unat (expected s)
     \<and> {unat (start_seq (sq_cfg s))..<unat (expected s)} \<subseteq> A
     \<and> (\<forall>n \<in> A. n < 2 ^ 64 - 1)
     \<and> keys (reorder s) = {n \<in> A. unat (expected s) \<le> n}
     \<and> (\<forall>k v. map_of (reorder s) k = Some v \<longrightarrow> v = feed (unat k))
     \<and> distinct (map fst (reorder s))
     \<and> (reorder s \<noteq> [] \<longrightarrow> stale s) \<and> \<not> needs_snapshot s
     \<and> accepted (sq_stats s) = expected s - start_seq (sq_cfg s)"

definition seq_inv :: "(nat \<Rightarrow> market_event) \<Rightarrow> nat set \<Rightarrow> sequencer \<Rightarrow> bool" where
  "seq_inv feed A s \<longleftrightarrow> seq_base feed A s \<and> unat (expected s) \<notin> A
     \<and> (stale s \<longleftrightarrow> reorder s \<noteq> [])"

lemma seq_inv_new: "seq_inv feed {} (new_sequencer cfg)"
  by (simp add: seq_inv_def seq_base_def new_sequencer_def zero_seq_stats_def)

lemma pop_ready_None:
  assumes "seq_base feed A s" and "pop_ready s = (None, s')"
  shows "seq_inv feed A s' \<and> expected s' = expected s \<and> sq_cfg s' = sq_cfg s"
proof -
  from assms(2) have none: "map_of (reorder s) (expected s) = None"
    and s': "s' = (if reorder s = [] then s\<lparr>stale := False\<rparr> else s)"
    by (auto simp: pop_ready_def Let_def split: option.splits)
  from none have "unat (expected s) \<notin> keys (reorder s)"
    by (simp add: keys_iff)
  with assms(1) s' show ?thesis
    by (auto simp: seq_inv_def seq_base_def)
qed

lemma pop_ready_Some:
  assumes "seq_base feed A s" and "pop_ready s = (Some ev, s')"
  shows "seq_base feed A s' \<and> ev = feed (unat (expected s))
    \<and> unat (expected s') = Suc (unat (expected s)) \<and> sq_cfg s' = sq_cfg s"
proof -
  let ?e = "expected s"
  from assms(2) have found: "map_of (reorder s) ?e = Some ev"
    and s': "expected s' = ?e + 1" "reorder s' = erase ?e (reorder s)" "sq_cfg s' = sq_cfg s"
      "needs_snapshot s' = needs_snapshot s"
      "stale s' = (if reorder s' = [] then False else stale s)"
      "accepted (sq_stats s') = accepted (sq_stats s) + 1"
    by (auto simp: pop_ready_def Let_def split: option.splits)
  from found assms(1) have mem: "unat ?e \<in> A"
    using keys_iff [of ?e "reorder s"] by (auto simp: seq_base_def)
  with assms(1) have lt: "unat ?e < 2 ^ 64 - 1" by (auto simp: seq_base_def)
  then have e': "unat (?e + 1) = Suc (unat ?e)"
    by (intro unat_Suc_no_wrap) simp
  have "{unat (start_seq (sq_cfg s))..<Suc (unat ?e)} \<subseteq> A"
    using assms(1) mem by (auto simp: seq_base_def less_Suc_eq)
  moreover have "keys (reorder s') = {n \<in> A. Suc (unat ?e) \<le> n}"
    using assms(1) s' by (auto simp: seq_base_def keys_erase)
  moreover have "reorder s' \<noteq> [] \<longrightarrow> stale s'"
    using assms(1) s' by (auto simp: seq_base_def erase_def)
  ultimately show ?thesis
    using assms(1) s' found e' lt
    by (auto simp: seq_base_def map_of_erase distinct_erase split: if_splits)
qed

lemma drain_correct:
  assumes "seq_base feed A s"
  shows "\<exists>s'. drain s = (map feed [unat (expected s)..<unat (expected s')], s')
    \<and> seq_inv feed A s' \<and> unat (expected s) \<le> unat (expected s') \<and> sq_cfg s' = sq_cfg s"
  using assms
proof (induction s rule: drain.induct)
  case (1 s)
  obtain r s1 where pop: "pop_ready s = (r, s1)" by (cases "pop_ready s")
  show ?case
  proof (cases r)
    case None
    with pop_ready_None [OF 1(2)] pop show ?thesis
      by (intro exI [of _ s1]) (simp add: drain.simps [of s])
  next
    case (Some ev)
    from pop_ready_Some [OF 1(2)] pop Some
    have s1: "seq_base feed A s1" "ev = feed (unat (expected s))"
      "unat (expected s1) = Suc (unat (expected s))" "sq_cfg s1 = sq_cfg s" by auto
    from 1(1) [OF pop [symmetric] Some s1(1)] obtain s'
      where s': "drain s1 = (map feed [unat (expected s1)..<unat (expected s')], s')"
        "seq_inv feed A s'" "unat (expected s1) \<le> unat (expected s')" "sq_cfg s' = sq_cfg s1"
      by blast
    from s1 s'(3) have "feed (unat (expected s)) # map feed [Suc (unat (expected s))..<unat (expected s')]
        = map feed [unat (expected s)..<unat (expected s')]"
      by (simp add: upt_conv_Cons)
    with pop Some s1 s' show ?thesis
      by (intro exI [of _ s']) (simp add: drain.simps [of s])
  qed
qed

text \<open>The effect of one message that does not overflow the buffer.\<close>

lemma seq_step_correct:
  assumes inv: "seq_inv feed A s" and ev: "snd m = feed (unat (fst m))"
    and lt: "unat (fst m) < 2 ^ 64 - 1" and start: "start_seq (sq_cfg s) \<le> fst m"
    and step: "seq_step s m = (d, evs, s')" and no: "d \<noteq> Overflow"
  shows "seq_inv feed (insert (unat (fst m)) A) s'
    \<and> evs = map feed [unat (expected s)..<unat (expected s')]
    \<and> unat (expected s) \<le> unat (expected s') \<and> sq_cfg s' = sq_cfg s"
proof -
  obtain q e where m: "m = (q, e)" by (cases m)
  let ?E = "unat (expected s)"
  consider (old) "unat q < ?E" | (now) "q = expected s" | (future) "?E < unat q"
    by (metis linorder_neqE_nat unat_inject)
  then show ?thesis
  proof cases
    case old
    then have "unat q \<in> A"
      using inv start by (auto simp: seq_inv_def seq_base_def m word_le_nat_alt)
    with old inv step show ?thesis
      by (auto simp: seq_step_def offer_def m word_less_nat_alt insert_absorb seq_inv_def
          seq_base_def)
  next
    case now
    let ?s1 = "s\<lparr>expected := expected s + 1,
      sq_stats := (sq_stats s)\<lparr>accepted := accepted (sq_stats s) + 1\<rparr>\<rparr>"
    have e1: "unat (expected s + 1) = Suc ?E"
      using lt now by (intro unat_Suc_no_wrap) (simp add: m)
    have "keys (reorder s) = {n \<in> insert ?E A. Suc ?E \<le> n}"
      using inv by (auto simp: seq_inv_def seq_base_def Suc_le_eq order_le_less)
    then have "seq_base feed (insert ?E A) ?s1"
      using inv lt now e1 by (auto simp: seq_inv_def seq_base_def m less_Suc_eq)
    from drain_correct [OF this] obtain s2
      where s2: "drain ?s1 = (map feed [Suc ?E..<unat (expected s2)], s2)"
        "seq_inv feed (insert ?E A) s2" "Suc ?E \<le> unat (expected s2)" "sq_cfg s2 = sq_cfg s"
      by (auto simp: e1)
    have "feed ?E # map feed [Suc ?E..<unat (expected s2)] = map feed [?E..<unat (expected s2)]"
      using s2(3) by (simp add: upt_conv_Cons)
    with s2 now step ev show ?thesis
      by (auto simp: seq_step_def offer_def m)
  next
    case future
    then have nlt: "\<not> q < expected s" "q \<noteq> expected s"
      by (auto simp: word_less_nat_alt)
    from step no have room: "\<not> reorder_capacity (sq_cfg s) \<le> length (reorder s)"
      and evs: "evs = []" and s': "reorder s' = emplace q e (reorder s)" "stale s'"
        "expected s' = expected s" "sq_cfg s' = sq_cfg s" "needs_snapshot s' = needs_snapshot s"
        "accepted (sq_stats s') = accepted (sq_stats s)"
      by (auto simp: seq_step_def offer_def m nlt Let_def split: if_splits)
    have "keys (reorder s') = {n \<in> insert (unat q) A. ?E \<le> n}"
      using inv future s' by (auto simp: keys_emplace seq_inv_def seq_base_def)
    moreover have "\<forall>k v. map_of (reorder s') k = Some v \<longrightarrow> v = feed (unat k)"
      using inv ev s' by (auto simp: map_of_emplace seq_inv_def seq_base_def m split: if_splits)
    moreover have "reorder s' \<noteq> []"
      using s' by (auto simp: emplace_def)
    ultimately show ?thesis
      using inv future lt s' evs
      by (auto simp: seq_inv_def seq_base_def m distinct_emplace)
  qed
qed

text \<open>A message below the first expected number is a duplicate and changes no delivery.\<close>

lemma seq_step_before_start:
  assumes "seq_inv feed A s" and "fst m < start_seq (sq_cfg s)"
  shows "seq_step s m = (Drop, [], s\<lparr>sq_stats := (sq_stats s)\<lparr>duplicates := duplicates (sq_stats s) + 1\<rparr>\<rparr>)"
proof -
  have "fst m < expected s"
    using assms by (auto simp: seq_inv_def seq_base_def word_less_nat_alt)
  then show ?thesis by (simp add: seq_step_def offer_def)
qed

definition arrived :: "u64 \<Rightarrow> (u64 \<times> market_event) list \<Rightarrow> nat set" where
  "arrived start ms = (\<lambda>m. unat (fst m)) ` {m \<in> set ms. start \<le> fst m}"

definition carries :: "(nat \<Rightarrow> market_event) \<Rightarrow> (u64 \<times> market_event) list \<Rightarrow> bool" where
  "carries feed ms \<longleftrightarrow> (\<forall>m \<in> set ms. snd m = feed (unat (fst m)) \<and> unat (fst m) < 2 ^ 64 - 1)"

lemma arrived_Nil [simp]: "arrived start [] = {}"
  by (simp add: arrived_def)

lemma arrived_Cons:
  "arrived start (m # ms) = (if start \<le> fst m then insert (unat (fst m)) (arrived start ms)
     else arrived start ms)"
  by (auto simp: arrived_def)

lemma seq_run_correct:
  assumes "seq_inv feed A s" and "carries feed ms" and "seq_run s ms = (ds, evs, s')"
    and "Overflow \<notin> set ds"
  shows "seq_inv feed (A \<union> arrived (start_seq (sq_cfg s)) ms) s'
    \<and> evs = map feed [unat (expected s)..<unat (expected s')]
    \<and> unat (expected s) \<le> unat (expected s') \<and> sq_cfg s' = sq_cfg s"
  using assms
proof (induction ms arbitrary: A s ds evs)
  case Nil
  then show ?case by auto
next
  case (Cons m ms)
  obtain d e s1 where step: "seq_step s m = (d, e, s1)" by (cases "seq_step s m")
  obtain ds' evs' s2 where run: "seq_run s1 ms = (ds', evs', s2)" by (cases "seq_run s1 ms")
  from Cons.prems(3) step run have eqs: "ds = d # ds'" "evs = e @ evs'" "s2 = s'"
    by auto
  let ?A = "A \<union> (if start_seq (sq_cfg s) \<le> fst m then {unat (fst m)} else {})"
  have s1: "seq_inv feed ?A s1 \<and> e = map feed [unat (expected s)..<unat (expected s1)]
    \<and> unat (expected s) \<le> unat (expected s1) \<and> sq_cfg s1 = sq_cfg s"
  proof (cases "start_seq (sq_cfg s) \<le> fst m")
    case True
    with seq_step_correct [OF Cons.prems(1) _ _ True step] Cons.prems eqs show ?thesis
      by (auto simp: carries_def)
  next
    case False
    with seq_step_before_start [OF Cons.prems(1), of m] step Cons.prems(1) show ?thesis
      by (auto simp: seq_inv_def seq_base_def)
  qed
  with Cons.IH [OF _ _ run [unfolded eqs], of ?A] Cons.prems eqs
  have "seq_inv feed (?A \<union> arrived (start_seq (sq_cfg s)) ms) s'"
    "evs' = map feed [unat (expected s1)..<unat (expected s')]"
    "unat (expected s1) \<le> unat (expected s')" "sq_cfg s' = sq_cfg s"
    by (auto simp: carries_def)
  moreover have "?A \<union> arrived (start_seq (sq_cfg s)) ms = A \<union> arrived (start_seq (sq_cfg s)) (m # ms)"
    by (auto simp: arrived_Cons)
  ultimately show ?case
    using s1 eqs by (auto simp: map_append [symmetric] upt_append simp del: map_append)
qed

text \<open>When a message overflows: exactly when it is early and the buffer is full.\<close>

lemma seq_step_disposition: "fst (seq_step s m) = fst (offer (fst m) (snd m) s)"
  by (simp add: seq_step_def split: prod.splits disposition.splits)

lemma offer_overflow_iff:
  "fst (offer q ev s) = Overflow \<longleftrightarrow>
    expected s < q \<and> reorder_capacity (sq_cfg s) \<le> length (reorder s)"
  by (auto simp: offer_def Let_def)

lemma seq_inv_held:
  assumes "seq_inv feed A s"
  shows "length (reorder s) = card {n \<in> A. unat (expected s) < n}"
proof -
  have "{n \<in> A. unat (expected s) \<le> n} = {n \<in> A. unat (expected s) < n}"
    using assms by (auto simp: seq_inv_def order_le_less)
  with assms show ?thesis
    by (simp add: length_keys seq_inv_def seq_base_def)
qed

lemma seq_step_overflow_iff:
  assumes "seq_inv feed A s"
  shows "fst (seq_step s m) = Overflow \<longleftrightarrow>
    expected s < fst m \<and> reorder_capacity (sq_cfg s) \<le> card {n \<in> A. unat (expected s) < n}"
  using seq_inv_held [OF assms] by (simp add: seq_step_disposition offer_overflow_iff)

lemma seq_step_overflow:
  assumes "seq_step s m = (Overflow, evs, s')"
  shows "evs = [] \<and> needs_snapshot s' \<and> expected s' = expected s \<and> reorder s' = reorder s
    \<and> stale s'"
  using assms by (auto simp: seq_step_def offer_def Let_def split: if_splits prod.splits)

section \<open>The properties\<close>

lemma run_from_start:
  assumes "carries feed ms"
    and "seq_run (new_sequencer cfg) ms = (ds, evs, s)" and "Overflow \<notin> set ds"
  shows "seq_inv feed (arrived (start_seq cfg) ms) s \<and> sq_cfg s = cfg
    \<and> evs = map feed [unat (start_seq cfg)..<unat (expected s)]
    \<and> unat (start_seq cfg) \<le> unat (expected s)"
  using seq_run_correct [OF seq_inv_new assms] by (simp add: new_sequencer_def)

lemma run_progress:
  assumes "seq_inv feed A s"
  shows "{unat (start_seq (sq_cfg s))..<unat (expected s)} \<subseteq> A \<and> unat (expected s) \<notin> A
    \<and> (stale s \<longleftrightarrow> (\<exists>n \<in> A. unat (expected s) < n)) \<and> \<not> needs_snapshot s"
proof -
  have k: "keys (reorder s) = {n \<in> A. unat (expected s) \<le> n}" and no: "unat (expected s) \<notin> A"
    and s: "stale s \<longleftrightarrow> reorder s \<noteq> []"
    and rest: "{unat (start_seq (sq_cfg s))..<unat (expected s)} \<subseteq> A" "\<not> needs_snapshot s"
    using assms unfolding seq_inv_def seq_base_def by blast+
  have "stale s \<longleftrightarrow> {n \<in> A. unat (expected s) \<le> n} \<noteq> {}"
    using s keys_empty_iff [of "reorder s"] unfolding k by blast
  also have "\<dots> \<longleftrightarrow> (\<exists>n \<in> A. unat (expected s) < n)"
    using no by (auto simp: order_le_less)
  finally show ?thesis using rest no by blast
qed

lemma run_complete:
  assumes "carries feed ms"
    and "seq_run (new_sequencer cfg) ms = (ds, evs, s)" and "Overflow \<notin> set ds"
    and all: "arrived (start_seq cfg) ms = {unat (start_seq cfg)..<unat (start_seq cfg) + n}"
  shows "evs = map feed [unat (start_seq cfg)..<unat (start_seq cfg) + n] \<and> \<not> stale s"
proof -
  let ?b = "unat (start_seq cfg)" and ?e = "unat (expected s)"
  note run = run_from_start [OF assms(1-3)]
  note r = run_progress [OF conjunct1 [OF run], unfolded all]
  have "?b \<le> ?e" "sq_cfg s = cfg" using run by auto
  with r have "?b + n \<le> ?e" by auto
  moreover have "?e \<le> ?b + n"
  proof (rule ccontr)
    assume "\<not> ?e \<le> ?b + n"
    then have "?b + n \<in> {?b..<?e}" by simp
    with r \<open>sq_cfg s = cfg\<close> have "?b + n \<in> {?b..<?b + n}" by blast
    then show False by simp
  qed
  ultimately have "?e = ?b + n" by simp
  with r run show ?thesis by auto
qed

text \<open>When no message overflows: at most as many arrived numbers are ahead of a missing one as fit.\<close>

definition ahead :: "nat \<Rightarrow> nat set \<Rightarrow> nat set" where
  "ahead b A = {n \<in> A. \<exists>j. b \<le> j \<and> j < n \<and> j \<notin> A}"

fun fits :: "nat \<Rightarrow> nat \<Rightarrow> nat set \<Rightarrow> nat list \<Rightarrow> bool" where
  "fits cap b A [] \<longleftrightarrow> True"
| "fits cap b A (x # xs) \<longleftrightarrow>
    (card (ahead b A) < cap \<or> {b..<x} \<subseteq> A) \<and> fits cap b (insert x A) xs"

lemma fits_append: "fits cap b A (xs @ ys) \<longleftrightarrow> fits cap b A xs \<and> fits cap b (A \<union> set xs) ys"
  by (induction xs arbitrary: A) auto

lemma seq_inv_ahead:
  assumes "seq_inv feed A s"
  shows "{n \<in> A. unat (expected s) < n} = ahead (unat (start_seq (sq_cfg s))) A"
proof -
  have sub: "{unat (start_seq (sq_cfg s))..<unat (expected s)} \<subseteq> A" and no: "unat (expected s) \<notin> A"
    using run_progress [OF assms] by blast+
  have le: "unat (start_seq (sq_cfg s)) \<le> unat (expected s)"
    using assms by (simp add: seq_inv_def seq_base_def)
  have "unat (expected s) < n" if "j \<notin> A" "unat (start_seq (sq_cfg s)) \<le> j" "j < n" for j n
  proof -
    have "\<not> j < unat (expected s)" using sub that by auto
    with that(3) show ?thesis by simp
  qed
  with no le show ?thesis unfolding ahead_def by blast
qed

lemma seq_run_fits:
  assumes "seq_inv feed A s" and "carries feed ms"
    and "fits (reorder_capacity (sq_cfg s)) (unat (start_seq (sq_cfg s))) A (map (unat \<circ> fst) ms)"
    and "list_all (\<lambda>m. start_seq (sq_cfg s) \<le> fst m) ms"
  shows "Overflow \<notin> set (fst (seq_run s ms))"
  using assms
proof (induction ms arbitrary: A s)
  case (Cons m ms)
  obtain d e s1 where step: "seq_step s m = (d, e, s1)" by (cases "seq_step s m")
  have "d \<noteq> Overflow"
  proof
    assume "d = Overflow"
    then have ov: "expected s < fst m"
        "reorder_capacity (sq_cfg s) \<le> card (ahead (unat (start_seq (sq_cfg s))) A)"
      using seq_step_overflow_iff [OF Cons.prems(1), of m] step seq_inv_ahead [OF Cons.prems(1)] by auto
    then have "{unat (start_seq (sq_cfg s))..<unat (fst m)} \<subseteq> A" using Cons.prems(3) by simp
    moreover have "unat (expected s) \<in> {unat (start_seq (sq_cfg s))..<unat (fst m)}"
      using ov(1) Cons.prems(1) by (simp add: word_less_nat_alt seq_inv_def seq_base_def)
    ultimately show False using run_progress [OF Cons.prems(1)] by blast
  qed
  moreover have "snd m = feed (unat (fst m))" "unat (fst m) < 2 ^ 64 - 1" "carries feed ms"
    using Cons.prems(2) by (auto simp: carries_def)
  ultimately have s1: "seq_inv feed (insert (unat (fst m)) A) s1" "sq_cfg s1 = sq_cfg s"
    using seq_step_correct [OF Cons.prems(1) _ _ _ step] Cons.prems(4) by auto
  have "Overflow \<notin> set (fst (seq_run s1 ms))"
    using Cons.IH [OF s1(1) \<open>carries feed ms\<close>] Cons.prems(3,4) s1(2) by simp
  with \<open>d \<noteq> Overflow\<close> step show ?case by (simp add: split_def Let_def)
qed simp

lemma fits_in_order: "{b..<a} \<subseteq> A \<Longrightarrow> fits cap b A [a..<c]"
proof (induction c)
  case (Suc c)
  have "{b..<c} \<subseteq> A \<union> {a..<c}" using Suc.prems by (auto simp: subset_eq)
  with Suc show ?case by (cases "a \<le> c") (simp_all add: fits_append)
qed simp

text \<open>No more messages than the buffer holds.\<close>

lemma fits_short: "finite A \<Longrightarrow> card A + length xs \<le> cap \<Longrightarrow> fits cap b A xs"
proof (induction xs arbitrary: A)
  case (Cons x xs)
  have "card (ahead b A) \<le> card A" using Cons.prems(1) by (intro card_mono) (auto simp: ahead_def)
  moreover have "card (insert x A) \<le> Suc (card A)" by (rule card_insert_le_m1) (use Cons.prems(1) in simp_all)
  ultimately show ?case using Cons by simp
qed simp

text \<open>A window of numbers past one missing number.\<close>

lemma fits_window:
  assumes "k \<le> g + cap"
  shows "fits cap b {b..<g} [Suc g..<Suc k]"
  using assms
proof (induction k)
  case (Suc k)
  show ?case
  proof (cases "g \<le> k")
    case True
    let ?A = "{b..<g} \<union> {Suc g..<Suc k}"
    have "ahead b ?A \<subseteq> {Suc g..<Suc k}" by (auto simp: ahead_def)
    then have "card (ahead b ?A) \<le> card {Suc g..<Suc k}" by (intro card_mono) auto
    then have "card (ahead b ?A) < cap" using Suc.prems True by simp
    moreover have "[Suc g..<Suc (Suc k)] = [Suc g..<Suc k] @ [Suc k]" using True by simp
    ultimately show ?thesis
      using Suc.IH Suc.prems by (simp only: fits_append set_upt fits.simps) simp
  next
    case False
    then show ?thesis by simp
  qed
qed simp

text \<open>
  C21. Whatever the order of arrival, a run without overflow delivers exactly the feed from the
  start number up to the first number that has not arrived, in order and each once; the stream
  is stale exactly while a later number is held back.
\<close>

theorem gap_recovery_in_order:
  assumes "carries feed ms"
    and "seq_run (new_sequencer cfg) ms = (ds, evs, s)" and "Overflow \<notin> set ds"
  shows "evs = map feed [unat (start_seq cfg)..<unat (expected s)]
    \<and> {unat (start_seq cfg)..<unat (expected s)} \<subseteq> arrived (start_seq cfg) ms
    \<and> unat (expected s) \<notin> arrived (start_seq cfg) ms
    \<and> (stale s \<longleftrightarrow> (\<exists>n \<in> arrived (start_seq cfg) ms. unat (expected s) < n))
    \<and> \<not> needs_snapshot s"
  using run_from_start [OF assms] run_progress by blast

text \<open>A feed whose events carry their number, and three of its messages out of order.\<close>

definition numbered_feed :: "nat \<Rightarrow> market_event" where
  "numbered_feed n = default_event\<lparr>match_number := of_nat n\<rparr>"

definition shuffled :: "(u64 \<times> market_event) list" where
  "shuffled = map (\<lambda>n. (of_nat n, numbered_feed n)) [1, 3, 2, 2]"

lemma shuffled_facts:
  "carries numbered_feed shuffled" "arrived 1 shuffled = {1, 2, 3}"
  by (simp add: carries_def shuffled_def) (auto simp: shuffled_def arrived_Cons word_le_nat_alt)

lemma shuffled_run:
  "(case seq_run (new_sequencer default_seq_config) shuffled of (ds, evs, s) \<Rightarrow>
     ds = [Apply, Buffered, Apply, Drop] \<and> unat (expected s) = 4)"
  by code_simp

lemma gap_recovery_in_order_witness:
  "\<exists>ds s. seq_run (new_sequencer default_seq_config) shuffled
    = (ds, map numbered_feed [1, 2, 3], s) \<and> \<not> stale s"
proof -
  obtain ds evs s where r: "seq_run (new_sequencer default_seq_config) shuffled = (ds, evs, s)"
    by (cases "seq_run (new_sequencer default_seq_config) shuffled") auto
  with shuffled_run have ds: "ds = [Apply, Buffered, Apply, Drop]" "unat (expected s) = 4" by simp_all
  from gap_recovery_in_order [OF shuffled_facts(1) r] ds shuffled_facts(2)
  have "evs = map numbered_feed [1..<4]" "\<not> stale s"
    by (auto simp: default_seq_config_def)
  moreover have "[1..<4] = [1, 2, 3::nat]" by (simp add: upt_conv_Cons)
  ultimately show ?thesis using r by auto
qed

text \<open>
  C22. When the messages that arrived are exactly n consecutive numbers from the start, in any
  order and with any duplicates, and what is held back at any time fits the reorder buffer,
  nothing overflows, all n events are delivered in order and the stream is not stale.
\<close>

theorem gap_recovery_complete:
  assumes "carries feed ms"
    and "set (map (unat \<circ> fst) ms) = {unat (start_seq cfg)..<unat (start_seq cfg) + n}"
    and "fits (reorder_capacity cfg) (unat (start_seq cfg)) {} (map (unat \<circ> fst) ms)"
  shows "\<exists>ds s. seq_run (new_sequencer cfg) ms = (ds, map feed [unat (start_seq cfg)..<unat (start_seq cfg) + n], s)
    \<and> Overflow \<notin> set ds \<and> \<not> stale s"
proof -
  obtain ds evs s where run: "seq_run (new_sequencer cfg) ms = (ds, evs, s)" by (cases "seq_run (new_sequencer cfg) ms") auto
  have late: "start_seq cfg \<le> fst m" if "m \<in> set ms" for m
  proof -
    have "(unat \<circ> fst) m \<in> set (map (unat \<circ> fst) ms)" using that by simp
    then show ?thesis unfolding assms(2) by (simp add: word_le_nat_alt)
  qed
  have cfg: "sq_cfg (new_sequencer cfg) = cfg" by (simp add: new_sequencer_def)
  have "Overflow \<notin> set (fst (seq_run (new_sequencer cfg) ms))"
    by (rule seq_run_fits [OF seq_inv_new assms(1)]) (use assms(3) late in \<open>simp_all add: cfg list_all_iff\<close>)
  then have no: "Overflow \<notin> set ds" by (simp add: run)
  have "arrived (start_seq cfg) ms = set (map (unat \<circ> fst) ms)" using late by (auto simp: arrived_def)
  then have "arrived (start_seq cfg) ms = {unat (start_seq cfg)..<unat (start_seq cfg) + n}" by (simp only: assms(2))
  from run_complete [OF assms(1) run no this] run no show ?thesis by blast
qed

lemma gap_recovery_complete_witness:
  "\<exists>ds s. seq_run (new_sequencer default_seq_config) shuffled
    = (ds, map numbered_feed [1..<4], s) \<and> \<not> stale s"
proof -
  have st: "unat (start_seq default_seq_config) = 1" "reorder_capacity default_seq_config = 4096"
    by (simp_all add: default_seq_config_def)
  have nums: "map (unat \<circ> fst) shuffled = [1, 3, 2, 2]" by (simp add: shuffled_def)
  have "fits 4096 1 {} [1, 3, 2, 2]" by (rule fits_short) simp_all
  moreover have "{1, 3, 2, 2} = {1..<1 + 3 :: nat}" by auto
  ultimately show ?thesis
    using gap_recovery_complete [OF shuffled_facts(1), of default_seq_config 3] unfolding st nums by auto
qed

text \<open>
  A message overflows exactly when it is early and as many later numbers are held back as the
  capacity; the overflow delivers nothing, leaves the expected number and the buffer alone and asks
  for a snapshot.
\<close>

lemma overflow_iff_buffer_full:
  assumes "carries feed ms"
    and "seq_run (new_sequencer cfg) ms = (ds, evs, s)" and "Overflow \<notin> set ds"
    and "seq_step s m = (d, evs', s')"
  shows "(d = Overflow \<longleftrightarrow> expected s < fst m
      \<and> reorder_capacity cfg \<le> card {n \<in> arrived (start_seq cfg) ms. unat (expected s) < n})
    \<and> (d = Overflow \<longrightarrow> evs' = [] \<and> needs_snapshot s' \<and> expected s' = expected s
        \<and> reorder s' = reorder s)"
  using seq_step_overflow_iff [of feed _ s m] seq_step_overflow [of s m evs' s']
    run_from_start [OF assms(1-3)] assms(4) by auto

lemma overflow_iff_buffer_full_witness:
  "fst (seq_step (new_sequencer (default_seq_config\<lparr>reorder_capacity := 0\<rparr>)) (5, default_event)) = Overflow"
proof -
  let ?c = "default_seq_config\<lparr>reorder_capacity := 0\<rparr>"
  obtain d evs s where st: "seq_step (new_sequencer ?c) (5, default_event) = (d, evs, s)"
    by (cases "seq_step (new_sequencer ?c) (5, default_event)") auto
  have "carries numbered_feed []" "seq_run (new_sequencer ?c) [] = ([], [], new_sequencer ?c)"
    by (simp_all add: carries_def)
  from overflow_iff_buffer_full [OF this _ st] st show ?thesis
    by (simp add: new_sequencer_def default_seq_config_def)
qed

section \<open>Duplicates of a held-back message\<close>

text \<open>\<open>emplace\<close> keeps the first event under a number; the comment beside the call says it overwrites.\<close>

lemma buffered_duplicate_keeps_first:
  assumes "expected s < q" and "map_of (reorder s) q = Some first"
    and "length (reorder s) < reorder_capacity (sq_cfg s)"
  shows "\<exists>s'. offer q again s = (Buffered, s') \<and> reorder s' = reorder s"
  using assms by (auto simp: offer_def Let_def emplace_def)

lemma buffered_duplicate_keeps_first_witness:
  "reorder (snd (offer 3 (numbered_feed 8) (snd (offer 3 (numbered_feed 7) (new_sequencer default_seq_config)))))
    = [(3, numbered_feed 7)]"
proof -
  let ?s = "snd (offer 3 (numbered_feed 7) (new_sequencer default_seq_config))"
  have s: "expected ?s = 1" "reorder ?s = [(3, numbered_feed 7)]" "sq_cfg ?s = default_seq_config"
    by (simp_all add: offer_def new_sequencer_def default_seq_config_def Let_def emplace_def)
  from buffered_duplicate_keeps_first [of ?s 3 "numbered_feed 7" "numbered_feed 8"] s show ?thesis
    by (auto simp: default_seq_config_def)
qed

section \<open>Snapshot recovery\<close>

text \<open>The part of the state that decides what is delivered.\<close>

definition seq_core :: "sequencer \<Rightarrow> u64 \<times> bool \<times> reorder_map \<times> nat" where
  "seq_core s = (expected s, stale s, reorder s, reorder_capacity (sq_cfg s))"

lemma offer_core:
  "seq_core s = seq_core t \<Longrightarrow>
    fst (offer q ev s) = fst (offer q ev t) \<and> seq_core (snd (offer q ev s)) = seq_core (snd (offer q ev t))"
  by (auto simp: seq_core_def offer_def Let_def)

lemma pop_core:
  "seq_core s = seq_core t \<Longrightarrow>
    fst (pop_ready s) = fst (pop_ready t) \<and> seq_core (snd (pop_ready s)) = seq_core (snd (pop_ready t))"
  by (auto simp: seq_core_def pop_ready_def Let_def split: option.split)

lemma drain_core:
  "seq_core s = seq_core t \<Longrightarrow>
    fst (drain s) = fst (drain t) \<and> seq_core (snd (drain s)) = seq_core (snd (drain t))"
proof (induction s arbitrary: t rule: drain.induct)
  case (1 s)
  obtain r s1 where ps: "pop_ready s = (r, s1)" by (cases "pop_ready s")
  obtain r' t1 where pt: "pop_ready t = (r', t1)" by (cases "pop_ready t")
  have eq: "r' = r" "seq_core s1 = seq_core t1" using pop_core [OF 1(2)] ps pt by simp_all
  show ?case
  proof (cases r)
    case None
    with ps pt eq show ?thesis by (simp add: drain.simps [of s] drain.simps [of t])
  next
    case (Some ev)
    from 1(1) [OF ps [symmetric] Some eq(2)] ps pt eq Some show ?thesis
      by (simp add: drain.simps [of s] drain.simps [of t] split_def Let_def)
  qed
qed

lemma step_core:
  assumes "seq_core s = seq_core t"
  shows "fst (seq_step s m) = fst (seq_step t m) \<and> fst (snd (seq_step s m)) = fst (snd (seq_step t m))
    \<and> seq_core (snd (snd (seq_step s m))) = seq_core (snd (snd (seq_step t m)))"
proof -
  obtain d s1 where s1: "offer (fst m) (snd m) s = (d, s1)" by (cases "offer (fst m) (snd m) s")
  obtain d' t1 where t1: "offer (fst m) (snd m) t = (d', t1)" by (cases "offer (fst m) (snd m) t")
  from offer_core [OF assms, of "fst m" "snd m"] s1 t1
  have eq: "d' = d" "seq_core s1 = seq_core t1" by simp_all
  show ?thesis
  proof (cases "d = Apply")
    case True
    then have "seq_step s m = (Apply, snd m # fst (drain s1), snd (drain s1))"
      "seq_step t m = (Apply, snd m # fst (drain t1), snd (drain t1))"
      using s1 t1 eq(1) by (simp_all add: seq_step_def split_def Let_def)
    with drain_core [OF eq(2)] show ?thesis by simp
  next
    case False
    then have "seq_step s m = (d, [], s1)" "seq_step t m = (d, [], t1)"
      using s1 t1 eq(1) by (cases d; simp add: seq_step_def)+
    with eq(2) show ?thesis by simp
  qed
qed

text \<open>
  C23. After resync_to_snapshot n the sequencer gives the same dispositions and deliveries, for
  every sequence of messages, as a new sequencer that starts at n + 1.
\<close>

theorem resync_equals_fresh_start:
  "(case seq_run (resync_to_snapshot n s) ms of (ds, evs, _) \<Rightarrow> (ds, evs))
    = (case seq_run (new_sequencer (sq_cfg s\<lparr>start_seq := n + 1\<rparr>)) ms of (ds, evs, _) \<Rightarrow> (ds, evs))"
proof -
  have run: "seq_core s = seq_core t \<Longrightarrow> fst (seq_run s ms) = fst (seq_run t ms)
      \<and> fst (snd (seq_run s ms)) = fst (snd (seq_run t ms))" for s t
  proof (induction ms arbitrary: s t)
    case Nil
    then show ?case by simp
  next
    case (Cons m ms)
    obtain d evs s1 where s1: "seq_step s m = (d, evs, s1)" by (cases "seq_step s m")
    obtain d' evs' t1 where t1: "seq_step t m = (d', evs', t1)" by (cases "seq_step t m")
    from step_core [OF Cons.prems, of m] s1 t1
    have "d' = d" "evs' = evs" "seq_core s1 = seq_core t1" by simp_all
    with Cons.IH [of s1 t1] s1 t1 show ?case by (simp add: split_def Let_def)
  qed
  have "seq_core (resync_to_snapshot n s) = seq_core (new_sequencer (sq_cfg s\<lparr>start_seq := n + 1\<rparr>))"
    by (simp add: seq_core_def resync_to_snapshot_def new_sequencer_def)
  from run [OF this] show ?thesis by (simp add: split_def)
qed

end
