(* ===== verification/Order_Pool.thy ===== *)
theory Order_Pool
  imports Market_Event
begin

text \<open>
  The nodes of the order book and their free-list pool (\<^verbatim>\<open>OrderBook::Order\<close> and
  \<^verbatim>\<open>OrderBook::OrderPool\<close> of \<^verbatim>\<open>include/feedhandler/order_book.hpp\<close> and \<^verbatim>\<open>src/order_book.cpp\<close>).
  The chunks, which never move, are laid end to end in \<open>nodes\<close>: the pointer to slot \<open>i\<close> of the
  \<open>k\<close>-th chunk is the number \<open>k * chunk + i\<close>, and \<open>nullptr\<close> is \<^term>\<open>None\<close>. A free node is linked
  through \<open>o_next\<close>, the field that links it into a level while it is live.
\<close>

type_synonym ptr = nat

record order =
  o_ref :: u64
  o_price :: int
  o_size :: u32
  o_level :: u32
  o_side :: side
  o_prev :: "ptr option"
  o_next :: "ptr option"

definition blank_order :: order where
  "blank_order = \<lparr>o_ref = 0, o_price = 0, o_size = 0, o_level = 0, o_side = NoSide,
     o_prev = None, o_next = None\<rparr>"

record order_pool =
  chunk :: nat
  nodes :: "order list"
  free_head :: "ptr option"

definition new_pool :: "nat \<Rightarrow> order_pool" where
  "new_pool c = \<lparr>chunk = (if c \<noteq> 0 then c else 1), nodes = [], free_head = None\<rparr>"

text \<open>
  The body of the two loops \<open>base[i].next = free_head_; free_head_ = &base[i]\<close>, run over \<open>n\<close>
  consecutive nodes from \<open>p\<close>.
\<close>

fun link_free :: "nat \<Rightarrow> ptr \<Rightarrow> order list \<Rightarrow> ptr option \<Rightarrow> order list \<times> ptr option" where
  "link_free 0 p ns fh = (ns, fh)"
| "link_free (Suc n) p ns fh = link_free n (Suc p) (ns[p := (ns ! p)\<lparr>o_next := fh\<rparr>]) (Some p)"

definition grow :: "order_pool \<Rightarrow> order_pool" where
  "grow pl =
    (let base = length (nodes pl);
         (ns, fh) = link_free (chunk pl) base (nodes pl @ replicate (chunk pl) blank_order)
                      (free_head pl)
     in pl\<lparr>nodes := ns, free_head := fh\<rparr>)"

definition alloc :: "order_pool \<Rightarrow> (ptr \<times> order_pool) option" where
  "alloc pl =
    (let pl = (if free_head pl = None then grow pl else pl) in do {
       p \<leftarrow> free_head pl;
       n \<leftarrow> vec_get (nodes pl) p;
       Some (p, pl\<lparr>free_head := o_next n\<rparr>) })"

definition release :: "ptr \<Rightarrow> order_pool \<Rightarrow> order_pool option" where
  "release p pl = do {
     n \<leftarrow> vec_get (nodes pl) p;
     ns \<leftarrow> vec_set (nodes pl) p (n\<lparr>o_next := free_head pl\<rparr>);
     Some (pl\<lparr>nodes := ns, free_head := Some p\<rparr>) }"

definition reset_all :: "order_pool \<Rightarrow> order_pool" where
  "reset_all pl =
    (let (ns, fh) = link_free (length (nodes pl)) 0 (nodes pl) None
     in pl\<lparr>nodes := ns, free_head := fh\<rparr>)"

section \<open>The free list\<close>

text \<open>\<open>chain ns h ps\<close>: following \<open>o_next\<close> from \<open>h\<close> visits exactly \<open>ps\<close> and ends at \<open>nullptr\<close>.\<close>

primrec chain :: "order list \<Rightarrow> ptr option \<Rightarrow> ptr list \<Rightarrow> bool" where
  "chain ns h [] \<longleftrightarrow> h = None"
| "chain ns h (p # ps) \<longleftrightarrow> h = Some p \<and> chain ns (o_next (ns ! p)) ps"

text \<open>The same list, computed: at most \<open>n\<close> links are followed.\<close>

fun follow :: "nat \<Rightarrow> order list \<Rightarrow> ptr option \<Rightarrow> ptr list" where
  "follow n ns None = []"
| "follow 0 ns (Some p) = []"
| "follow (Suc n) ns (Some p) = p # follow n ns (o_next (ns ! p))"

lemma chain_follow: "chain ns h ps \<Longrightarrow> length ps \<le> n \<Longrightarrow> follow n ns h = ps"
proof (induction ps arbitrary: h n)
  case Nil
  then show ?case by simp
next
  case (Cons p ps)
  then show ?case by (cases n) auto
qed

lemma chain_cong:
  "(\<And>p. p \<in> set ps \<Longrightarrow> o_next (ns' ! p) = o_next (ns ! p)) \<Longrightarrow> chain ns' h ps = chain ns h ps"
  by (induction ps arbitrary: h) auto

definition free_list :: "order_pool \<Rightarrow> ptr list" where
  "free_list pl = follow (length (nodes pl)) (nodes pl) (free_head pl)"

definition pool_ok :: "order_pool \<Rightarrow> bool" where
  "pool_ok pl \<longleftrightarrow> 0 < chunk pl \<and> chain (nodes pl) (free_head pl) (free_list pl)
     \<and> distinct (free_list pl) \<and> set (free_list pl) \<subseteq> {..<length (nodes pl)}"

definition live_nodes :: "order_pool \<Rightarrow> ptr set" where
  "live_nodes pl = {..<length (nodes pl)} - set (free_list pl)"

lemma free_list_eqI:
  assumes "chain (nodes pl) (free_head pl) fl" and "distinct fl"
    and "set fl \<subseteq> {..<length (nodes pl)}"
  shows "free_list pl = fl"
proof -
  have "length fl \<le> length (nodes pl)"
    using assms(2,3) by (metis card_lessThan card_mono distinct_card finite_lessThan)
  with assms(1) show ?thesis by (simp add: free_list_def chain_follow)
qed

lemma pool_okI:
  assumes "0 < chunk pl" and "chain (nodes pl) (free_head pl) fl" and "distinct fl"
    and "set fl \<subseteq> {..<length (nodes pl)}"
  shows "pool_ok pl \<and> free_list pl = fl"
  using assms free_list_eqI [OF assms(2-4)] by (simp add: pool_ok_def)

lemma pool_ok_new: "pool_ok (new_pool c) \<and> live_nodes (new_pool c) = {}"
  by (simp add: pool_ok_def live_nodes_def free_list_def new_pool_def)

text \<open>What the linking loop does: the block's nodes are prepended, the others are untouched.\<close>

lemma link_free_result:
  assumes "chain ns fh fl" and "set fl \<inter> {p..<p + n} = {}" and "p + n \<le> length ns"
  shows "\<exists>ns' fh'. link_free n p ns fh = (ns', fh') \<and> length ns' = length ns
    \<and> chain ns' fh' (rev [p..<p + n] @ fl)
    \<and> (\<forall>q. q \<notin> {p..<p + n} \<longrightarrow> ns' ! q = ns ! q)"
  using assms
proof (induction n arbitrary: p ns fh fl)
  case 0
  then show ?case by simp
next
  case (Suc n)
  let ?ns = "ns[p := (ns ! p)\<lparr>o_next := fh\<rparr>]"
  have "p \<notin> set fl" using Suc.prems(2) by auto
  then have "q \<in> set fl \<Longrightarrow> ?ns ! q = ns ! q" for q
    by (metis nth_list_update_neq)
  then have "chain ?ns fh fl"
    using Suc.prems(1) by (subst chain_cong [of fl ?ns ns]) auto
  with Suc.prems have "chain ?ns (Some p) (p # fl)" by simp
  moreover have "set (p # fl) \<inter> {Suc p..<Suc p + n} = {}"
    using Suc.prems(2) by auto
  ultimately obtain ns' fh' where r: "link_free n (Suc p) ?ns (Some p) = (ns', fh')"
    "length ns' = length ?ns" "chain ns' fh' (rev [Suc p..<Suc p + n] @ p # fl)"
    "\<forall>q. q \<notin> {Suc p..<Suc p + n} \<longrightarrow> ns' ! q = ?ns ! q"
    using Suc.IH [of ?ns "Some p" "p # fl" "Suc p"] Suc.prems(3) by auto
  have eq: "rev [Suc p..<Suc p + n] @ p # fl = rev [p..<p + Suc n] @ fl"
    by (simp add: upt_conv_Cons)
  have "\<forall>q. q \<notin> {p..<p + Suc n} \<longrightarrow> ns' ! q = ns ! q"
    using r(4) by auto
  with r(1,2) r(3) [unfolded eq] show ?case by (simp del: upt_Suc)
qed

lemma grow_ok:
  assumes "pool_ok pl"
  shows "pool_ok (grow pl) \<and> live_nodes (grow pl) = live_nodes pl
    \<and> length (nodes pl) \<le> length (nodes (grow pl))
    \<and> (\<forall>q < length (nodes pl). nodes (grow pl) ! q = nodes pl ! q)
    \<and> free_list (grow pl) \<noteq> []"
proof -
  let ?m = "length (nodes pl)" and ?c = "chunk pl" and ?fl = "free_list pl"
  let ?ns = "nodes pl @ replicate ?c blank_order"
  have fl: "chain (nodes pl) (free_head pl) ?fl" "distinct ?fl" "set ?fl \<subseteq> {..<?m}" "0 < ?c"
    using assms by (auto simp: pool_ok_def)
  then have "chain ?ns (free_head pl) ?fl"
    by (subst chain_cong [of ?fl ?ns "nodes pl"]) (auto simp: nth_append subset_eq)
  from link_free_result [OF this, of ?m ?c] fl(3) obtain ns' fh' where
    r: "link_free ?c ?m ?ns (free_head pl) = (ns', fh')" "length ns' = ?m + ?c"
      "chain ns' fh' (rev [?m..<?m + ?c] @ ?fl)"
      "\<forall>q. q \<notin> {?m..<?m + ?c} \<longrightarrow> ns' ! q = ?ns ! q"
    by fastforce
  then have g: "grow pl = pl\<lparr>nodes := ns', free_head := fh'\<rparr>"
    by (simp add: grow_def Let_def)
  have "pool_ok (grow pl) \<and> free_list (grow pl) = rev [?m..<?m + ?c] @ ?fl"
    using r fl by (intro pool_okI) (auto simp: g)
  moreover from this have "live_nodes (grow pl) = live_nodes pl"
    using r(2) by (auto simp: live_nodes_def g)
  ultimately show ?thesis
    using r fl(4) by (auto simp: g nth_append)
qed

lemma chain_next_free:
  assumes "pool_ok pl" and "free_head pl = Some p"
  obtains fl where "free_list pl = p # fl" and "chain (nodes pl) (o_next (nodes pl ! p)) fl"
    and "p < length (nodes pl)"
  using assms by (cases "free_list pl") (auto simp: pool_ok_def)

lemma alloc_ok:
  assumes "pool_ok pl"
  shows "\<exists>p pl'. alloc pl = Some (p, pl') \<and> pool_ok pl' \<and> p \<notin> live_nodes pl
    \<and> p < length (nodes pl') \<and> length (nodes pl) \<le> length (nodes pl')
    \<and> live_nodes pl' = insert p (live_nodes pl)
    \<and> (\<forall>q \<in> live_nodes pl. nodes pl' ! q = nodes pl ! q)"
proof -
  let ?g = "if free_head pl = None then grow pl else pl"
  have g: "pool_ok ?g" "live_nodes ?g = live_nodes pl" "length (nodes pl) \<le> length (nodes ?g)"
    "\<forall>q \<in> live_nodes pl. nodes ?g ! q = nodes pl ! q"
    using assms grow_ok [OF assms] by (auto simp: live_nodes_def)
  have "free_list ?g \<noteq> []"
    using grow_ok [OF assms] assms by (auto simp: pool_ok_def)
  with g(1) obtain p fl where p: "free_head ?g = Some p" "free_list ?g = p # fl"
    "chain (nodes ?g) (o_next (nodes ?g ! p)) fl"
    by (cases "free_list ?g") (auto simp: pool_ok_def)
  let ?pl = "?g\<lparr>free_head := o_next (nodes ?g ! p)\<rparr>"
  have rng: "p < length (nodes ?g)" "distinct (p # fl)" "set fl \<subseteq> {..<length (nodes ?g)}"
    using g(1) p(2) by (auto simp: pool_ok_def)
  have "pool_ok ?pl \<and> free_list ?pl = fl"
    using g(1) p(3) rng by (intro pool_okI) (auto simp: pool_ok_def)
  moreover from this have "live_nodes ?pl = insert p (live_nodes ?g)"
    using p(2) rng by (auto simp: live_nodes_def)
  moreover have "p \<notin> live_nodes ?g"
    using p(2) by (simp add: live_nodes_def)
  moreover have "alloc pl = Some (p, ?pl)"
    using p(1) rng(1) by (simp add: alloc_def Let_def vec_get_def)
  ultimately show ?thesis using g rng(1) by auto
qed

lemma release_ok:
  assumes "pool_ok pl" and "p \<in> live_nodes pl"
  shows "\<exists>pl'. release p pl = Some pl' \<and> pool_ok pl' \<and> live_nodes pl' = live_nodes pl - {p}
    \<and> length (nodes pl') = length (nodes pl) \<and> (\<forall>q. q \<noteq> p \<longrightarrow> nodes pl' ! q = nodes pl ! q)"
proof -
  let ?ns = "(nodes pl)[p := (nodes pl ! p)\<lparr>o_next := free_head pl\<rparr>]"
  let ?pl = "pl\<lparr>nodes := ?ns, free_head := Some p\<rparr>"
  have p: "p < length (nodes pl)" "p \<notin> set (free_list pl)"
    using assms(2) by (auto simp: live_nodes_def)
  have "chain ?ns (free_head pl) (free_list pl)"
    using assms(1) p by (subst chain_cong [of _ ?ns "nodes pl"]) (auto simp: pool_ok_def nth_list_update)
  then have "pool_ok ?pl \<and> free_list ?pl = p # free_list pl"
    using assms(1) p by (intro pool_okI) (auto simp: pool_ok_def)
  moreover from this have "live_nodes ?pl = live_nodes pl - {p}"
    by (auto simp: live_nodes_def)
  moreover have "release p pl = Some ?pl"
    using p(1) by (simp add: release_def access_simps)
  ultimately show ?thesis by (intro exI [of _ ?pl]) simp
qed

lemma reset_all_ok:
  assumes "pool_ok pl"
  shows "pool_ok (reset_all pl) \<and> live_nodes (reset_all pl) = {}
    \<and> length (nodes (reset_all pl)) = length (nodes pl)"
proof -
  let ?m = "length (nodes pl)"
  obtain ns' fh' where r: "link_free ?m 0 (nodes pl) None = (ns', fh')" "length ns' = ?m"
    "chain ns' fh' (rev [0..<?m])"
    using link_free_result [of "nodes pl" None "[]" 0 ?m] by auto
  then have eq: "reset_all pl = pl\<lparr>nodes := ns', free_head := fh'\<rparr>"
    by (simp add: reset_all_def)
  have "pool_ok (reset_all pl) \<and> free_list (reset_all pl) = rev [0..<?m]"
    using assms r by (intro pool_okI) (auto simp: eq pool_ok_def)
  with r(2) show ?thesis by (auto simp: live_nodes_def eq)
qed

text \<open>Writing to live nodes leaves the free list alone.\<close>

lemma put_nodes_ok:
  assumes "pool_ok pl" and "length ns = length (nodes pl)"
    and "\<And>q. q \<notin> live_nodes pl \<Longrightarrow> ns ! q = nodes pl ! q"
  shows "pool_ok (pl\<lparr>nodes := ns\<rparr>) \<and> live_nodes (pl\<lparr>nodes := ns\<rparr>) = live_nodes pl"
proof -
  have "q \<in> set (free_list pl) \<Longrightarrow> ns ! q = nodes pl ! q" for q
    using assms(3) by (simp add: live_nodes_def)
  then have "chain ns (free_head pl) (free_list pl)"
    using assms(1) by (subst chain_cong [of _ ns "nodes pl"]) (auto simp: pool_ok_def)
  then have "pool_ok (pl\<lparr>nodes := ns\<rparr>) \<and> free_list (pl\<lparr>nodes := ns\<rparr>) = free_list pl"
    using assms(1,2) by (intro pool_okI) (auto simp: pool_ok_def)
  with assms(2) show ?thesis by (simp add: live_nodes_def)
qed

section \<open>The contract of the object pool\<close>

text \<open>
  What the book relies on: \<open>alloc\<close> never fails and never hands out a node that is in use,
  \<open>release\<close> takes back exactly one node, \<open>reset_all\<close> takes back all of them, and no operation
  moves or changes a node that stays in use.
\<close>

locale object_pool =
  fixes pool_alloc :: "'p \<Rightarrow> (ptr \<times> 'p) option"
    and pool_release :: "ptr \<Rightarrow> 'p \<Rightarrow> 'p option"
    and pool_reset :: "'p \<Rightarrow> 'p"
    and store_of :: "'p \<Rightarrow> order list"
    and put :: "'p \<Rightarrow> order list \<Rightarrow> 'p"
    and used :: "'p \<Rightarrow> ptr set"
    and ok :: "'p \<Rightarrow> bool"
  assumes alloc_fresh: "ok p \<Longrightarrow> \<exists>q p'. pool_alloc p = Some (q, p') \<and> ok p' \<and> q \<notin> used p
      \<and> q < length (store_of p') \<and> length (store_of p) \<le> length (store_of p')
      \<and> used p' = insert q (used p) \<and> (\<forall>r \<in> used p. store_of p' ! r = store_of p ! r)"
    and release_back: "ok p \<Longrightarrow> q \<in> used p \<Longrightarrow> \<exists>p'. pool_release q p = Some p' \<and> ok p'
      \<and> used p' = used p - {q} \<and> length (store_of p') = length (store_of p)
      \<and> (\<forall>r. r \<noteq> q \<longrightarrow> store_of p' ! r = store_of p ! r)"
    and reset_back: "ok p \<Longrightarrow> ok (pool_reset p) \<and> used (pool_reset p) = {}
      \<and> length (store_of (pool_reset p)) = length (store_of p)"
    and put_used: "ok p \<Longrightarrow> length ns = length (store_of p) \<Longrightarrow>
      (\<And>r. r \<notin> used p \<Longrightarrow> ns ! r = store_of p ! r) \<Longrightarrow>
      ok (put p ns) \<and> used (put p ns) = used p \<and> store_of (put p ns) = ns"
    and used_in_range: "ok p \<Longrightarrow> q \<in> used p \<Longrightarrow> q < length (store_of p)"
begin

text \<open>A node handed out and returned at once is free again, and nothing else has changed.\<close>

lemma alloc_release:
  assumes "ok p" and "pool_alloc p = Some (q, p')"
  shows "\<exists>p''. pool_release q p' = Some p'' \<and> ok p'' \<and> used p'' = used p
    \<and> (\<forall>r \<in> used p. store_of p'' ! r = store_of p ! r)"
proof -
  from alloc_fresh [OF assms(1)] assms(2) have a: "ok p'" "q \<notin> used p" "used p' = insert q (used p)"
    "\<forall>r \<in> used p. store_of p' ! r = store_of p ! r" by auto
  from release_back [OF a(1), of q] a(3) obtain p'' where r: "pool_release q p' = Some p''" "ok p''"
    "used p'' = used p' - {q}" "\<forall>r. r \<noteq> q \<longrightarrow> store_of p'' ! r = store_of p' ! r" by auto
  have "used p'' = used p" using a r(3) by auto
  moreover have "\<forall>r \<in> used p. store_of p'' ! r = store_of p ! r"
    using a(2,4) r(4) by metis
  ultimately show ?thesis using r by blast
qed

text \<open>Two live orders never share a node.\<close>

lemma alloc_twice_distinct:
  assumes "ok p" and "pool_alloc p = Some (q, p')" and "pool_alloc p' = Some (r, p'')"
  shows "q \<noteq> r \<and> {q, r} \<subseteq> used p''"
proof -
  from alloc_fresh [OF assms(1)] assms(2) have "ok p'" "used p' = insert q (used p)" by auto
  with alloc_fresh [of p'] assms(3) show ?thesis by auto
qed

end

interpretation pool: object_pool alloc release reset_all nodes "\<lambda>pl ns. pl\<lparr>nodes := ns\<rparr>"
  live_nodes pool_ok
proof (unfold_locales, goal_cases)
  case (1 p)
  then show ?case using alloc_ok [of p] by blast
next
  case (2 p q)
  then show ?case using release_ok [of p q] by blast
next
  case (3 p)
  then show ?case by (rule reset_all_ok)
next
  case (4 p ns)
  then show ?case using put_nodes_ok [of p ns] by simp
next
  case (5 p q)
  then show ?case by (simp add: live_nodes_def)
qed

end
