(* ===== verification/Price_Level.thy ===== *)
theory Price_Level
  imports Order_Pool
begin

text \<open>
  \<^verbatim>\<open>OrderBook::PriceLevel\<close> and the splices \<open>link_back\<close> and \<open>unlink\<close> of its intrusive
  doubly-linked FIFO list (\<^verbatim>\<open>src/order_book.cpp\<close>). The list is represented by \<open>dll\<close>: the nodes of
  \<open>ps\<close>, oldest first, are linked both ways from \<open>head\<close> to \<open>tail\<close>.
\<close>

record price_level =
  aggregate_size :: u64
  order_count :: u32
  lvl_side :: side
  head :: "ptr option"
  tail :: "ptr option"

definition empty_level :: price_level where
  "empty_level = \<lparr>aggregate_size = 0, order_count = 0, lvl_side = NoSide, head = None, tail = None\<rparr>"

definition link_back ::
    "order list \<Rightarrow> price_level \<Rightarrow> ptr \<Rightarrow> (order list \<times> price_level) option" where
  "link_back ns lvl p = do {
     n \<leftarrow> vec_get ns p;
     ns \<leftarrow> vec_set ns p (n\<lparr>o_prev := tail lvl, o_next := None\<rparr>);
     (ns, lvl) \<leftarrow>
       (case tail lvl of
          Some t \<Rightarrow> do {
            tn \<leftarrow> vec_get ns t;
            ns \<leftarrow> vec_set ns t (tn\<lparr>o_next := Some p\<rparr>);
            Some (ns, lvl) }
        | None \<Rightarrow> Some (ns, lvl\<lparr>head := Some p\<rparr>));
     Some (ns, lvl\<lparr>tail := Some p\<rparr>) }"

definition unlink ::
    "order list \<Rightarrow> price_level \<Rightarrow> ptr \<Rightarrow> (order list \<times> price_level) option" where
  "unlink ns lvl p = do {
     n \<leftarrow> vec_get ns p;
     (ns, lvl) \<leftarrow>
       (case o_prev n of
          Some a \<Rightarrow> do {
            an \<leftarrow> vec_get ns a;
            ns \<leftarrow> vec_set ns a (an\<lparr>o_next := o_next n\<rparr>);
            Some (ns, lvl) }
        | None \<Rightarrow> Some (ns, lvl\<lparr>head := o_next n\<rparr>));
     n \<leftarrow> vec_get ns p;
     (case o_next n of
        Some q \<Rightarrow> do {
          qn \<leftarrow> vec_get ns q;
          ns \<leftarrow> vec_set ns q (qn\<lparr>o_prev := o_prev n\<rparr>);
          Some (ns, lvl) }
      | None \<Rightarrow> Some (ns, lvl\<lparr>tail := o_prev n\<rparr>)) }"

section \<open>Doubly-linked segments\<close>

text \<open>\<open>dseg ns pv ps nx\<close>: the nodes \<open>ps\<close> are linked both ways, the first one's \<open>prev\<close> is \<open>pv\<close> and the
  last one's \<open>next\<close> is \<open>nx\<close>.\<close>

definition first_or :: "ptr list \<Rightarrow> ptr option \<Rightarrow> ptr option" where
  "first_or ps nx = (case ps of [] \<Rightarrow> nx | p # _ \<Rightarrow> Some p)"

primrec last_or :: "ptr option \<Rightarrow> ptr list \<Rightarrow> ptr option" where
  "last_or pv [] = pv"
| "last_or pv (p # ps) = last_or (Some p) ps"

lemma first_or_simps [simp]:
  "first_or [] nx = nx" "first_or (p # ps) nx = Some p"
  "first_or (xs @ ys) nx = first_or xs (first_or ys nx)"
  by (simp_all add: first_or_def split: list.splits)

lemma last_or_append [simp]: "last_or pv (xs @ ys) = last_or (last_or pv xs) ys"
  by (induction xs arbitrary: pv) simp_all

primrec dseg :: "order list \<Rightarrow> ptr option \<Rightarrow> ptr list \<Rightarrow> ptr option \<Rightarrow> bool" where
  "dseg ns pv [] nx \<longleftrightarrow> True"
| "dseg ns pv (p # ps) nx \<longleftrightarrow>
     o_prev (ns ! p) = pv \<and> o_next (ns ! p) = first_or ps nx \<and> dseg ns (Some p) ps nx"

lemma dseg_append:
  "dseg ns pv (xs @ ys) nx \<longleftrightarrow> dseg ns pv xs (first_or ys nx) \<and> dseg ns (last_or pv xs) ys nx"
  by (induction xs arbitrary: pv) auto

lemma dseg_cong:
  assumes "\<And>p. p \<in> set ps \<Longrightarrow> o_prev (ns' ! p) = o_prev (ns ! p) \<and> o_next (ns' ! p) = o_next (ns ! p)"
  shows "dseg ns' pv ps nx = dseg ns pv ps nx"
  using assms by (induction ps arbitrary: pv) auto

text \<open>Relinking the ends of a segment.\<close>

lemma dseg_set_next:
  assumes "dseg ns pv (xs @ [t]) nx" and "distinct (xs @ [t])" and "t < length ns"
  shows "dseg (ns[t := (ns ! t)\<lparr>o_next := nx'\<rparr>]) pv (xs @ [t]) nx'"
proof -
  let ?ns = "ns[t := (ns ! t)\<lparr>o_next := nx'\<rparr>]"
  have "?ns ! p = ns ! p" if "p \<in> set xs" for p
    using that assms(2) by (metis distinct_append disjoint_iff list.set_intros(1) nth_list_update_neq)
  then have "dseg ?ns pv xs (Some t) = dseg ns pv xs (Some t)"
    by (intro dseg_cong) simp
  with assms show ?thesis by (simp add: dseg_append)
qed

lemma dseg_set_prev:
  assumes "dseg ns pv (t # xs) nx" and "distinct (t # xs)" and "t < length ns"
  shows "dseg (ns[t := (ns ! t)\<lparr>o_prev := pv'\<rparr>]) pv' (t # xs) nx"
proof -
  let ?ns = "ns[t := (ns ! t)\<lparr>o_prev := pv'\<rparr>]"
  have "?ns ! p = ns ! p" if "p \<in> set xs" for p
    using that assms(2) by (metis distinct.simps(2) nth_list_update_neq)
  then have "dseg ?ns (Some t) xs nx = dseg ns (Some t) xs nx"
    by (intro dseg_cong) simp
  with assms show ?thesis by simp
qed

lemma dseg_update_other:
  assumes "t \<notin> set ps"
  shows "dseg (ns[t := x]) pv ps nx = dseg ns pv ps nx"
proof (rule dseg_cong)
  fix p assume "p \<in> set ps"
  with assms have "ns[t := x] ! p = ns ! p" by (metis nth_list_update_neq)
  then show "o_prev (ns[t := x] ! p) = o_prev (ns ! p) \<and> o_next (ns[t := x] ! p) = o_next (ns ! p)"
    by simp
qed

definition dll :: "order list \<Rightarrow> price_level \<Rightarrow> ptr list \<Rightarrow> bool" where
  "dll ns lvl ps \<longleftrightarrow> head lvl = first_or ps None \<and> tail lvl = last_or None ps
     \<and> dseg ns None ps None \<and> distinct ps \<and> set ps \<subseteq> {..<length ns}"

text \<open>The fields a splice never touches.\<close>

definition payload :: "order \<Rightarrow> u64 \<times> int \<times> u32 \<times> u32 \<times> side" where
  "payload n = (o_ref n, o_price n, o_size n, o_level n, o_side n)"

definition splice_frame :: "order list \<Rightarrow> order list \<Rightarrow> ptr set \<Rightarrow> bool" where
  "splice_frame ns ns' P \<longleftrightarrow> length ns' = length ns
     \<and> (\<forall>p. payload (ns' ! p) = payload (ns ! p)) \<and> (\<forall>p. p \<notin> P \<longrightarrow> ns' ! p = ns ! p)"

lemma payload_links [simp]:
  "payload (n\<lparr>o_prev := a\<rparr>) = payload n" "payload (n\<lparr>o_next := b\<rparr>) = payload n"
  by (simp_all add: payload_def)

lemma splice_frame_update:
  assumes "payload x = payload (ns ! t)" and "t \<in> P"
  shows "splice_frame ns (ns[t := x]) P"
proof -
  have "payload (ns[t := x] ! p) = payload (ns ! p)" for p
    using assms(1) by (cases "t < length ns"; cases "p = t") (auto simp: list_update_beyond)
  moreover have "ns[t := x] ! p = ns ! p" if "p \<notin> P" for p
    using that assms(2) by (metis nth_list_update_neq)
  ultimately show ?thesis by (simp add: splice_frame_def)
qed

lemma splice_frame_trans:
  "splice_frame ns ns' P \<Longrightarrow> splice_frame ns' ns'' P \<Longrightarrow> splice_frame ns ns'' P"
  by (simp add: splice_frame_def)

lemma splice_frame_refl: "splice_frame ns ns P"
  by (simp add: splice_frame_def)

section \<open>The two splices\<close>

lemma link_back_ok:
  assumes "dll ns lvl ps" and "p < length ns" and "p \<notin> set ps"
  shows "\<exists>ns' lvl'. link_back ns lvl p = Some (ns', lvl') \<and> dll ns' lvl' (ps @ [p])
    \<and> splice_frame ns ns' (set (ps @ [p]))
    \<and> aggregate_size lvl' = aggregate_size lvl \<and> order_count lvl' = order_count lvl
    \<and> lvl_side lvl' = lvl_side lvl"
proof -
  let ?n1 = "ns[p := (ns ! p)\<lparr>o_prev := tail lvl, o_next := None\<rparr>]"
  have d: "dseg ns None ps None" "distinct ps" "set ps \<subseteq> {..<length ns}"
    "tail lvl = last_or None ps" "head lvl = first_or ps None"
    using assms(1) by (auto simp: dll_def)
  have seg: "dseg ?n1 None ps None"
    using d(1) assms(3) by (simp add: dseg_update_other)
  have f1: "splice_frame ns ?n1 (set (ps @ [p]))"
    by (rule splice_frame_update) simp_all
  show ?thesis
  proof (cases ps rule: rev_cases)
    case Nil
    with d f1 assms(2) show ?thesis
      by (intro exI [of _ ?n1] exI [of _ "lvl\<lparr>head := Some p, tail := Some p\<rparr>"])
         (simp add: link_back_def access_simps dll_def)
  next
    case (snoc qs t)
    let ?n2 = "?n1[t := (?n1 ! t)\<lparr>o_next := Some p\<rparr>]"
    have t: "t < length ns" "t \<noteq> p" "tail lvl = Some t"
      using d assms(3) snoc by auto
    have "dseg ?n2 None ps (Some p)"
      unfolding snoc by (rule dseg_set_next) (use seg d(2) t snoc in auto)
    moreover have "?n2 ! p = (ns ! p)\<lparr>o_prev := Some t, o_next := None\<rparr>"
      using t assms(2) by (simp add: nth_list_update)
    ultimately have "dseg ?n2 None (ps @ [p]) None"
      using snoc by (simp add: dseg_append)
    moreover have "splice_frame ?n1 ?n2 (set (ps @ [p]))"
      by (rule splice_frame_update) (simp_all add: snoc)
    moreover have "link_back ns lvl p = Some (?n2, lvl\<lparr>tail := Some p\<rparr>)"
      using t assms(2) by (simp add: link_back_def access_simps)
    ultimately show ?thesis
      using d assms f1 snoc
      by (intro exI [of _ ?n2] exI [of _ "lvl\<lparr>tail := Some p\<rparr>"])
         (auto simp: dll_def intro: splice_frame_trans)
  qed
qed

lemma unlink_ok:
  assumes "dll ns lvl (xs @ p # ys)"
  shows "\<exists>ns' lvl'. unlink ns lvl p = Some (ns', lvl') \<and> dll ns' lvl' (xs @ ys)
    \<and> splice_frame ns ns' (set (xs @ ys))
    \<and> aggregate_size lvl' = aggregate_size lvl \<and> order_count lvl' = order_count lvl
    \<and> lvl_side lvl' = lvl_side lvl"
proof -
  have d: "dseg ns None xs (Some p)" "dseg ns (Some p) ys None" "distinct (xs @ p # ys)"
    "set (xs @ p # ys) \<subseteq> {..<length ns}" "head lvl = first_or xs (Some p)"
    "tail lvl = last_or (Some p) ys"
    "o_prev (ns ! p) = last_or None xs" "o_next (ns ! p) = first_or ys None"
    using assms by (simp_all add: dll_def dseg_append)
  obtain n1 l1 where first: "n1 = (case last_or None xs of Some q \<Rightarrow> ns[q := (ns ! q)\<lparr>o_next := first_or ys None\<rparr>]
      | None \<Rightarrow> ns)" "l1 = (case last_or None xs of Some q \<Rightarrow> lvl | None \<Rightarrow> lvl\<lparr>head := first_or ys None\<rparr>)"
    by blast
  have s1: "dseg n1 None xs (first_or ys None) \<and> dseg n1 (Some p) ys None \<and> n1 ! p = ns ! p
    \<and> splice_frame ns n1 (set (xs @ ys)) \<and> head l1 = first_or xs (first_or ys None)
    \<and> tail l1 = tail lvl \<and> aggregate_size l1 = aggregate_size lvl
    \<and> order_count l1 = order_count lvl \<and> lvl_side l1 = lvl_side lvl"
  proof (cases xs rule: rev_cases)
    case Nil
    with first d show ?thesis by (simp add: splice_frame_refl)
  next
    case (snoc zs q)
    have q: "q < length ns" "q \<noteq> p" "q \<notin> set ys" "distinct xs" using d(3,4) snoc by auto
    have n1: "n1 = ns[q := (ns ! q)\<lparr>o_next := first_or ys None\<rparr>]" "l1 = lvl"
      using first snoc by auto
    have "dseg n1 None xs (first_or ys None)"
      unfolding n1 snoc by (rule dseg_set_next) (use d(1) q snoc in auto)
    moreover have "dseg n1 (Some p) ys None"
      using d(2) q by (simp add: n1 dseg_update_other)
    moreover have "splice_frame ns n1 (set (xs @ ys))"
      unfolding n1 by (rule splice_frame_update) (simp_all add: snoc)
    ultimately show ?thesis
      using n1 q d(5) snoc by (cases zs) auto
  qed
  have len: "length n1 = length ns" using s1 by (simp add: splice_frame_def)
  have u1: "unlink ns lvl p = (case first_or ys None of
        Some q \<Rightarrow> Some (n1[q := (n1 ! q)\<lparr>o_prev := last_or None xs\<rparr>], l1)
      | None \<Rightarrow> Some (n1, l1\<lparr>tail := last_or None xs\<rparr>))"
    using d(3,4,7,8) s1 first len
    by (cases xs rule: rev_cases; cases ys) (auto simp: unlink_def access_simps)
  show ?thesis
  proof (cases ys)
    case Nil
    with u1 s1 d len show ?thesis
      by (auto simp: dll_def)
  next
    case (Cons q zs)
    have q: "q < length n1" "q \<notin> set xs" "distinct ys" using d(3,4) Cons len by auto
    let ?n2 = "n1[q := (n1 ! q)\<lparr>o_prev := last_or None xs\<rparr>]"
    have "dseg ?n2 (last_or None xs) ys None"
      unfolding Cons by (rule dseg_set_prev) (use s1 q Cons in auto)
    moreover have "dseg ?n2 None xs (first_or ys None)"
      using s1 q by (simp add: dseg_update_other)
    moreover have "splice_frame n1 ?n2 (set (xs @ ys))"
      by (rule splice_frame_update) (simp_all add: Cons)
    ultimately show ?thesis
      using u1 s1 d len Cons
      by (auto simp: dll_def dseg_append intro: splice_frame_trans)
  qed
qed

end
