(* ===== verification/Order_Book.thy ===== *)
theory Order_Book
  imports Price_Level
begin

text \<open>
  The order book of \<^verbatim>\<open>include/feedhandler/order_book.hpp\<close> and \<^verbatim>\<open>src/order_book.cpp\<close>: a tick-indexed
  vector of price levels, the index from order reference to node, the node pool, and the cached
  best bid and ask indices. Every method is a definition; a method that dereferences a node or a
  level returns an \<open>option\<close>. The maps \<open>index_\<close> is the map \<^term>\<open>index\<close>; indices and prices are \<open>int\<close>.
  The C++ division of \<open>to_index\<close> is only reached with a non-negative dividend and a positive divisor,
  where it agrees with \<open>div\<close>.
\<close>

record book_level =
  bl_price :: int
  bl_size :: u64
  bl_count :: u32
  bl_valid :: bool

definition no_level :: book_level where
  "no_level = \<lparr>bl_price = 0, bl_size = 0, bl_count = 0, bl_valid = False\<rparr>"

record book_config =
  min_price :: int
  max_price :: int
  tick_size :: int
  pool_chunk :: nat

definition default_book_config :: book_config where
  "default_book_config =
     \<lparr>min_price = 1, max_price = 2000000, tick_size = 1, pool_chunk = 65536\<rparr>"

record book_stats =
  applied :: u64
  adds :: u64
  cancels :: u64
  deletes :: u64
  executes :: u64
  replaces :: u64
  trades :: u64
  rejected_out_of_band :: u64
  unknown_ref :: u64
  crossed_observed :: u64

definition zero_book_stats :: book_stats where
  "zero_book_stats = \<lparr>applied = 0, adds = 0, cancels = 0, deletes = 0, executes = 0, replaces = 0,
     trades = 0, rejected_out_of_band = 0, unknown_ref = 0, crossed_observed = 0\<rparr>"

record order_book =
  bk_cfg :: book_config
  levels :: "price_level list"
  index :: "u64 \<rightharpoonup> ptr"
  pool :: order_pool
  best_bid_idx :: int
  best_ask_idx :: int
  live_orders :: u64
  bk_stats :: book_stats
  crossed_at_last_boundary :: bool

section \<open>Construction and indexing\<close>

definition fix_config :: "book_config \<Rightarrow> book_config" where
  "fix_config cfg =
    (let cfg = (if tick_size cfg < 1 then cfg\<lparr>tick_size := 1\<rparr> else cfg)
     in if max_price cfg < min_price cfg then cfg\<lparr>max_price := min_price cfg\<rparr> else cfg)"

definition new_book :: "book_config \<Rightarrow> order_book" where
  "new_book cfg0 =
    (let cfg = fix_config cfg0;
         span = max_price cfg - min_price cfg;
         num_levels = nat (span div tick_size cfg) + 1
     in \<lparr>bk_cfg = cfg, levels = replicate num_levels empty_level, index = Map.empty,
         pool = new_pool (pool_chunk cfg0), best_bid_idx = -1, best_ask_idx = -1,
         live_orders = 0, bk_stats = zero_book_stats, crossed_at_last_boundary = False\<rparr>)"

definition to_index :: "book_config \<Rightarrow> int \<Rightarrow> int" where
  "to_index cfg px = (if px < min_price cfg \<or> px > max_price cfg then -1
     else (px - min_price cfg) div tick_size cfg)"

definition to_price :: "book_config \<Rightarrow> int \<Rightarrow> int" where
  "to_price cfg i = min_price cfg + i * tick_size cfg"

section \<open>Best-price scans\<close>

text \<open>\<open>scan_bid lvs n\<close> visits the indices \<open>n - 1, \<dots>, 0\<close>.\<close>

fun scan_bid :: "price_level list \<Rightarrow> nat \<Rightarrow> int option" where
  "scan_bid lvs 0 = Some (-1)"
| "scan_bid lvs (Suc i) = do {
     lvl \<leftarrow> vec_get lvs i;
     (if order_count lvl > 0 \<and> lvl_side lvl = Buy then Some (int i) else scan_bid lvs i) }"

function scan_ask :: "price_level list \<Rightarrow> nat \<Rightarrow> int" where
  "scan_ask lvs i =
    (if i < length lvs
     then if order_count (lvs ! i) > 0 \<and> lvl_side (lvs ! i) = Sell then int i
          else scan_ask lvs (Suc i)
     else -1)"
  by pat_completeness auto
termination
  by (relation "measure (\<lambda>(lvs, i). length lvs - i)") auto

declare scan_ask.simps [simp del]

definition rescan_best_bid_from :: "int \<Rightarrow> order_book \<Rightarrow> order_book option" where
  "rescan_best_bid_from idx b = do {
     i \<leftarrow> scan_bid (levels b) (nat (idx + 1));
     Some (b\<lparr>best_bid_idx := i\<rparr>) }"

definition rescan_best_ask_from :: "int \<Rightarrow> order_book \<Rightarrow> order_book option" where
  "rescan_best_ask_from idx b = Some (b\<lparr>best_ask_idx := scan_ask (levels b) (nat idx)\<rparr>)"

section \<open>Adding, removing and reducing an order\<close>

abbreviation count :: "(book_stats \<Rightarrow> book_stats) \<Rightarrow> order_book \<Rightarrow> order_book" where
  "count f b \<equiv> b\<lparr>bk_stats := f (bk_stats b)\<rparr>"

definition raise_best :: "side \<Rightarrow> int \<Rightarrow> order_book \<Rightarrow> order_book" where
  "raise_best s idx b =
    (if s = Buy then
       (if best_bid_idx b < 0 \<or> idx > best_bid_idx b then b\<lparr>best_bid_idx := idx\<rparr> else b)
     else if s = Sell then
       (if best_ask_idx b < 0 \<or> idx < best_ask_idx b then b\<lparr>best_ask_idx := idx\<rparr> else b)
     else b)"

definition on_add :: "market_event \<Rightarrow> order_book \<Rightarrow> order_book option" where
  "on_add ev b =
    (let idx = to_index (bk_cfg b) (price_ticks ev) in
     if idx < 0
     then Some (count (\<lambda>s. s\<lparr>rejected_out_of_band := rejected_out_of_band s + 1\<rparr>) b)
     else if index b (order_ref ev) \<noteq> None then Some b
     else do {
       (p, pl) \<leftarrow> alloc (pool b);
       n \<leftarrow> vec_get (nodes pl) p;
       ns \<leftarrow> vec_set (nodes pl) p
         (n\<lparr>o_ref := order_ref ev, o_price := price_ticks ev, o_size := ev_size ev,
            o_level := of_int idx, o_side := ev_side ev, o_prev := None, o_next := None\<rparr>);
       lvl \<leftarrow> vec_get (levels b) (nat idx);
       (ns, lvl) \<leftarrow>
         link_back ns (if order_count lvl = 0 then lvl\<lparr>lvl_side := ev_side ev\<rparr> else lvl) p;
       lvs \<leftarrow> vec_set (levels b) (nat idx)
         (lvl\<lparr>aggregate_size := aggregate_size lvl + ucast (ev_size ev),
              order_count := order_count lvl + 1\<rparr>);
       Some (raise_best (ev_side ev) idx
         (b\<lparr>levels := lvs, index := (index b)(order_ref ev \<mapsto> p), pool := pl\<lparr>nodes := ns\<rparr>,
            live_orders := live_orders b + 1\<rparr>)) })"

definition fix_best :: "side \<Rightarrow> int \<Rightarrow> order_book \<Rightarrow> order_book option" where
  "fix_best s idx b =
    (if s = Buy \<and> idx = best_bid_idx b then rescan_best_bid_from (idx - 1) b
     else if s = Sell \<and> idx = best_ask_idx b then rescan_best_ask_from (idx + 1) b
     else Some b)"

definition remove_order :: "ptr \<Rightarrow> order_book \<Rightarrow> order_book option" where
  "remove_order p b = do {
     n \<leftarrow> vec_get (nodes (pool b)) p;
     let idx = unat (o_level n);
     lvl \<leftarrow> vec_get (levels b) idx;
     (ns, lvl) \<leftarrow> unlink (nodes (pool b)) lvl p;
     let lvl = lvl\<lparr>aggregate_size := aggregate_size lvl - ucast (o_size n),
                   order_count := order_count lvl - 1\<rparr>;
     pl \<leftarrow> release p ((pool b)\<lparr>nodes := ns\<rparr>);
     let lvl' = (if order_count lvl = 0 then lvl\<lparr>lvl_side := NoSide, aggregate_size := 0\<rparr> else lvl);
     lvs \<leftarrow> vec_set (levels b) idx lvl';
     let b = b\<lparr>levels := lvs, index := (index b)(o_ref n := None), pool := pl,
               live_orders := live_orders b - 1\<rparr>;
     (if order_count lvl = 0 then fix_best (o_side n) (int idx) b else Some b) }"

definition reduce_order :: "ptr \<Rightarrow> u32 \<Rightarrow> order_book \<Rightarrow> order_book option" where
  "reduce_order p shares b = do {
     n \<leftarrow> vec_get (nodes (pool b)) p;
     let dec = min shares (o_size n);
     lvl \<leftarrow> vec_get (levels b) (unat (o_level n));
     lvs \<leftarrow> vec_set (levels b) (unat (o_level n))
       (lvl\<lparr>aggregate_size := aggregate_size lvl - ucast dec\<rparr>);
     ns \<leftarrow> vec_set (nodes (pool b)) p (n\<lparr>o_size := o_size n - dec\<rparr>);
     let b = b\<lparr>levels := lvs, pool := (pool b)\<lparr>nodes := ns\<rparr>\<rparr>;
     (if o_size n - dec = 0 then remove_order p b else Some b) }"

section \<open>Reading the top of the book\<close>

definition is_crossed :: "order_book \<Rightarrow> bool" where
  "is_crossed b \<longleftrightarrow> best_bid_idx b \<ge> 0 \<and> best_ask_idx b \<ge> 0 \<and> best_bid_idx b \<ge> best_ask_idx b"

definition spread_ticks :: "order_book \<Rightarrow> int" where
  "spread_ticks b =
    (if best_bid_idx b < 0 \<or> best_ask_idx b < 0 then -1
     else to_price (bk_cfg b) (best_ask_idx b) - to_price (bk_cfg b) (best_bid_idx b))"

definition level_view :: "order_book \<Rightarrow> int \<Rightarrow> price_level \<Rightarrow> book_level" where
  "level_view b i lvl = \<lparr>bl_price = to_price (bk_cfg b) i, bl_size = aggregate_size lvl,
     bl_count = order_count lvl, bl_valid = True\<rparr>"

definition best_bid :: "order_book \<Rightarrow> book_level option" where
  "best_bid b =
    (if best_bid_idx b < 0 then Some no_level
     else do {
       lvl \<leftarrow> vec_get (levels b) (nat (best_bid_idx b));
       Some (level_view b (best_bid_idx b) lvl) })"

definition best_ask :: "order_book \<Rightarrow> book_level option" where
  "best_ask b =
    (if best_ask_idx b < 0 then Some no_level
     else do {
       lvl \<leftarrow> vec_get (levels b) (nat (best_ask_idx b));
       Some (level_view b (best_ask_idx b) lvl) })"

text \<open>
  The loops of \<open>depth_bids\<close> and \<open>depth_asks\<close>: \<open>out\<close> is the caller's array, \<open>c\<close> the number of entries
  written so far. \<open>depth_bids_from b n k out c\<close> visits the indices \<open>k - 1, \<dots>, 0\<close>.
\<close>

fun depth_bids_from ::
    "order_book \<Rightarrow> nat \<Rightarrow> nat \<Rightarrow> book_level list \<Rightarrow> nat \<Rightarrow> (book_level list \<times> nat) option" where
  "depth_bids_from b n 0 out c = Some (out, c)"
| "depth_bids_from b n (Suc i) out c =
    (if c < n then do {
       lvl \<leftarrow> vec_get (levels b) i;
       (if order_count lvl > 0 \<and> lvl_side lvl = Buy then do {
          out \<leftarrow> vec_set out c (level_view b (int i) lvl);
          depth_bids_from b n i out (Suc c) }
        else depth_bids_from b n i out c) }
     else Some (out, c))"

definition depth_bids ::
    "order_book \<Rightarrow> book_level list \<Rightarrow> nat \<Rightarrow> (book_level list \<times> nat) option" where
  "depth_bids b out n = depth_bids_from b n (nat (best_bid_idx b + 1)) out 0"

function depth_asks_from ::
    "order_book \<Rightarrow> nat \<Rightarrow> nat \<Rightarrow> book_level list \<Rightarrow> nat \<Rightarrow> (book_level list \<times> nat) option" where
  "depth_asks_from b n i out c =
    (if i < length (levels b) \<and> c < n
     then let lvl = levels b ! i in
       (if order_count lvl > 0 \<and> lvl_side lvl = Sell then do {
          out \<leftarrow> vec_set out c (level_view b (int i) lvl);
          depth_asks_from b n (Suc i) out (Suc c) }
        else depth_asks_from b n (Suc i) out c)
     else Some (out, c))"
  by pat_completeness auto
termination
  by (relation "measure (\<lambda>(b, n, i, out, c). length (levels b) - i)") auto

declare depth_asks_from.simps [simp del]

definition depth_asks ::
    "order_book \<Rightarrow> book_level list \<Rightarrow> nat \<Rightarrow> (book_level list \<times> nat) option" where
  "depth_asks b out n =
    (if best_ask_idx b \<ge> 0 then depth_asks_from b n (nat (best_ask_idx b)) out 0
     else Some (out, 0))"

section \<open>Applying events\<close>

definition note_crossed :: "order_book \<Rightarrow> order_book" where
  "note_crossed b =
    (if is_crossed b then count (\<lambda>s. s\<lparr>crossed_observed := crossed_observed s + 1\<rparr>) b else b)"

definition observe_event_boundary :: "order_book \<Rightarrow> order_book" where
  "observe_event_boundary b =
    (let crossed = is_crossed b;
         b = (if crossed \<and> \<not> crossed_at_last_boundary b
              then count (\<lambda>s. s\<lparr>crossed_observed := crossed_observed s + 1\<rparr>) b else b)
     in b\<lparr>crossed_at_last_boundary := crossed\<rparr>)"

text \<open>The shared shape \<open>find; if absent count unknown_ref; else act\<close> of the five reference events.\<close>

definition with_ref ::
    "u64 \<Rightarrow> (ptr \<Rightarrow> order_book \<Rightarrow> order_book option) \<Rightarrow> order_book \<Rightarrow> order_book option" where
  "with_ref r act b =
    (case index b r of
       None \<Rightarrow> Some (count (\<lambda>s. s\<lparr>unknown_ref := unknown_ref s + 1\<rparr>) b)
     | Some p \<Rightarrow> act p b)"

definition replace_order :: "market_event \<Rightarrow> ptr \<Rightarrow> order_book \<Rightarrow> order_book option" where
  "replace_order ev p b = do {
     n \<leftarrow> vec_get (nodes (pool b)) p;
     b \<leftarrow> remove_order p b;
     on_add (ev\<lparr>ev_type := Add, order_ref := new_order_ref ev, ev_side := o_side n\<rparr>) b }"

definition dispatch :: "market_event \<Rightarrow> order_book \<Rightarrow> order_book option" where
  "dispatch ev b =
    (case ev_type ev of
       Add \<Rightarrow> on_add ev (count (\<lambda>s. s\<lparr>adds := adds s + 1\<rparr>) b)
     | Cancel \<Rightarrow> with_ref (order_ref ev) (\<lambda>p. reduce_order p (ev_size ev))
         (count (\<lambda>s. s\<lparr>cancels := cancels s + 1\<rparr>) b)
     | Execute \<Rightarrow> with_ref (order_ref ev) (\<lambda>p. reduce_order p (ev_size ev))
         (count (\<lambda>s. s\<lparr>executes := executes s + 1\<rparr>) b)
     | ExecuteWithPrice \<Rightarrow> with_ref (order_ref ev) (\<lambda>p. reduce_order p (ev_size ev))
         (count (\<lambda>s. s\<lparr>executes := executes s + 1\<rparr>) b)
     | Delete \<Rightarrow> with_ref (order_ref ev) remove_order
         (count (\<lambda>s. s\<lparr>deletes := deletes s + 1\<rparr>) b)
     | Replace \<Rightarrow> with_ref (order_ref ev) (replace_order ev)
         (count (\<lambda>s. s\<lparr>replaces := replaces s + 1\<rparr>) b)
     | Trade \<Rightarrow> Some (count (\<lambda>s. s\<lparr>trades := trades s + 1\<rparr>) b)
     | _ \<Rightarrow> Some b)"

definition apply_event :: "market_event \<Rightarrow> order_book \<Rightarrow> order_book option" where
  "apply_event ev b = do {
     b \<leftarrow> dispatch ev b;
     Some (note_crossed (count (\<lambda>s. s\<lparr>applied := applied s + 1\<rparr>) b)) }"

fun apply_all :: "market_event list \<Rightarrow> order_book \<Rightarrow> order_book option" where
  "apply_all [] b = Some b"
| "apply_all (ev # evs) b = do { b \<leftarrow> apply_event ev b; apply_all evs b }"

section \<open>Aggregated (L2) levels and reset\<close>

definition set_level :: "side \<Rightarrow> int \<Rightarrow> u64 \<Rightarrow> order_book \<Rightarrow> order_book option" where
  "set_level s px total_size b =
    (let idx = to_index (bk_cfg b) px;
         done = count (\<lambda>t. t\<lparr>applied := applied t + 1\<rparr>) in
     if idx < 0
     then Some (done (count (\<lambda>t. t\<lparr>rejected_out_of_band := rejected_out_of_band t + 1\<rparr>) b))
     else do {
       lvl \<leftarrow> vec_get (levels b) (nat idx);
       if total_size = 0 then do {
         b \<leftarrow>
           (if order_count lvl > 0 then
              fix_best (lvl_side lvl) idx
                (b\<lparr>levels := (levels b)[nat idx := lvl\<lparr>aggregate_size := 0, order_count := 0,
                     lvl_side := NoSide\<rparr>],
                   live_orders := live_orders b - 1\<rparr>)
            else Some b);
         Some (done (count (\<lambda>t. t\<lparr>deletes := deletes t + 1\<rparr>) b)) }
       else do {
         b \<leftarrow>
           (if order_count lvl = 0 then
              Some (b\<lparr>levels := (levels b)[nat idx := lvl\<lparr>lvl_side := s, order_count := 1,
                        aggregate_size := total_size\<rparr>],
                      live_orders := live_orders b + 1\<rparr>)
            else if lvl_side lvl = s then
              Some (b\<lparr>levels := (levels b)[nat idx := lvl\<lparr>aggregate_size := total_size\<rparr>]\<rparr>)
            else
              fix_best (lvl_side lvl) idx
                (b\<lparr>levels := (levels b)[nat idx := lvl\<lparr>lvl_side := s, aggregate_size := total_size\<rparr>]\<rparr>));
         Some (done (count (\<lambda>t. t\<lparr>adds := adds t + 1\<rparr>) (raise_best s idx b))) } })"

definition reset_book :: "order_book \<Rightarrow> order_book" where
  "reset_book b = b\<lparr>index := Map.empty, levels := replicate (length (levels b)) empty_level,
     pool := reset_all (pool b), best_bid_idx := -1, best_ask_idx := -1, live_orders := 0,
     crossed_at_last_boundary := False\<rparr>"

section \<open>Indices and prices\<close>

lemma to_index_range:
  assumes "1 \<le> tick_size cfg"
  obtains (out) "to_index cfg px = - 1"
    | (inside) "0 \<le> to_index cfg px" "to_index cfg px \<le> (max_price cfg - min_price cfg) div tick_size cfg"
proof (cases "px < min_price cfg \<or> px > max_price cfg")
  case True
  then show ?thesis using out by (simp add: to_index_def)
next
  case False
  then show ?thesis
    using inside assms by (auto simp: to_index_def zdiv_mono1 pos_imp_zdiv_nonneg_iff)
qed

lemma to_index_nonneg:
  assumes "1 \<le> tick_size cfg"
  shows "0 \<le> to_index cfg px \<longleftrightarrow> min_price cfg \<le> px \<and> px \<le> max_price cfg"
  using assms by (auto simp: to_index_def pos_imp_zdiv_nonneg_iff)

lemma to_index_mono:
  assumes "1 \<le> tick_size cfg" and "0 \<le> to_index cfg a" and "0 \<le> to_index cfg b" and "a \<le> b"
  shows "to_index cfg a \<le> to_index cfg b"
  using assms by (auto simp: to_index_def zdiv_mono1 split: if_splits)

lemma to_index_to_price:
  assumes "1 \<le> tick_size cfg" and "0 \<le> i" and "to_price cfg i \<le> max_price cfg"
  shows "to_index cfg (to_price cfg i) = i"
  using assms by (auto simp: to_index_def to_price_def mult_less_0_iff)

lemma to_price_of_index:
  assumes "1 \<le> tick_size cfg" and "0 \<le> to_index cfg px"
  shows "to_price cfg (to_index cfg px) = px - (px - min_price cfg) mod tick_size cfg"
  using assms by (auto simp: to_index_def to_price_def minus_mod_eq_div_mult [symmetric] split: if_splits)

end
