(* ===== verification/Order_Book_Spec.thy ===== *)
theory Order_Book_Spec
  imports Order_Book
begin

text \<open>
  What the order book promises, stated without its data structures: the live orders, in order of
  arrival. An add appends, a cancel or an execution shrinks the order in place and drops it at
  size 0, a delete drops it, and a replace drops it and appends the new order with the side of the
  old one. The price levels are the sub-lists of equal index, the best bid is the highest index that
  holds a buy order.
\<close>

record resting =
  rs_ref :: u64
  rs_price :: int
  rs_size :: u32
  rs_side :: side

definition refs :: "resting list \<Rightarrow> u64 set" where
  "refs A = rs_ref ` set A"

fun find_ref :: "u64 \<Rightarrow> resting list \<Rightarrow> resting option" where
  "find_ref r [] = None"
| "find_ref r (x # xs) = (if rs_ref x = r then Some x else find_ref r xs)"

definition spec_add :: "book_config \<Rightarrow> market_event \<Rightarrow> resting list \<Rightarrow> resting list" where
  "spec_add cfg ev A =
    (if price_ticks ev < min_price cfg \<or> max_price cfg < price_ticks ev
       \<or> order_ref ev \<in> refs A then A
     else A @ [\<lparr>rs_ref = order_ref ev, rs_price = price_ticks ev, rs_size = ev_size ev,
                rs_side = ev_side ev\<rparr>])"

definition spec_delete :: "u64 \<Rightarrow> resting list \<Rightarrow> resting list" where
  "spec_delete r A = filter (\<lambda>x. rs_ref x \<noteq> r) A"

fun spec_reduce :: "u64 \<Rightarrow> u32 \<Rightarrow> resting list \<Rightarrow> resting list" where
  "spec_reduce r n [] = []"
| "spec_reduce r n (x # xs) =
    (if rs_ref x = r
     then if rs_size x \<le> n then xs else x\<lparr>rs_size := rs_size x - n\<rparr> # xs
     else x # spec_reduce r n xs)"

definition spec_replace :: "book_config \<Rightarrow> market_event \<Rightarrow> resting list \<Rightarrow> resting list" where
  "spec_replace cfg ev A =
    (case find_ref (order_ref ev) A of
       None \<Rightarrow> A
     | Some x \<Rightarrow> spec_add cfg (ev\<lparr>order_ref := new_order_ref ev, ev_side := rs_side x\<rparr>)
                   (spec_delete (order_ref ev) A))"

definition spec_apply :: "book_config \<Rightarrow> market_event \<Rightarrow> resting list \<Rightarrow> resting list" where
  "spec_apply cfg ev A =
    (case ev_type ev of
       Add \<Rightarrow> spec_add cfg ev A
     | Cancel \<Rightarrow> spec_reduce (order_ref ev) (ev_size ev) A
     | Execute \<Rightarrow> spec_reduce (order_ref ev) (ev_size ev) A
     | ExecuteWithPrice \<Rightarrow> spec_reduce (order_ref ev) (ev_size ev) A
     | Delete \<Rightarrow> spec_delete (order_ref ev) A
     | Replace \<Rightarrow> spec_replace cfg ev A
     | _ \<Rightarrow> A)"

fun spec_all :: "book_config \<Rightarrow> market_event list \<Rightarrow> resting list \<Rightarrow> resting list" where
  "spec_all cfg [] A = A"
| "spec_all cfg (ev # evs) A = spec_all cfg evs (spec_apply cfg ev A)"

text \<open>The orders at one index, oldest first, and the best indices.\<close>

definition at_level :: "book_config \<Rightarrow> nat \<Rightarrow> resting list \<Rightarrow> resting list" where
  "at_level cfg i A = filter (\<lambda>x. to_index cfg (rs_price x) = int i) A"

definition side_indices :: "book_config \<Rightarrow> side \<Rightarrow> resting list \<Rightarrow> int list" where
  "side_indices cfg s A = map (to_index cfg \<circ> rs_price) (filter (\<lambda>x. rs_side x = s) A)"

definition top_bid :: "book_config \<Rightarrow> resting list \<Rightarrow> int" where
  "top_bid cfg A = foldr max (side_indices cfg Buy A) (-1)"

definition top_ask :: "book_config \<Rightarrow> resting list \<Rightarrow> int" where
  "top_ask cfg A = (case side_indices cfg Sell A of [] \<Rightarrow> -1 | i # is \<Rightarrow> foldr min is i)"

text \<open>No index holds orders of two sides: the book is never locked.\<close>

definition side_pure :: "book_config \<Rightarrow> resting list \<Rightarrow> bool" where
  "side_pure cfg A \<longleftrightarrow>
    (\<forall>x \<in> set A. \<forall>y \<in> set A.
      to_index cfg (rs_price x) = to_index cfg (rs_price y) \<longrightarrow> rs_side x = rs_side y)"

section \<open>Lists of live orders\<close>

lemma refs_simps [simp]:
  "refs [] = {}" "refs (x # A) = insert (rs_ref x) (refs A)" "refs (A @ B) = refs A \<union> refs B"
  by (auto simp: refs_def)

lemma refs_map: "refs A = set (map rs_ref A)"
  by (simp add: refs_def)

lemma find_ref_None: "find_ref r A = None \<longleftrightarrow> r \<notin> refs A"
  by (induction A) auto

lemma find_ref_split:
  "distinct (map rs_ref (A @ x # B)) \<Longrightarrow> find_ref (rs_ref x) (A @ x # B) = Some x"
  by (induction A) auto

lemma refs_delete: "refs (spec_delete r A) = refs A - {r}"
  by (auto simp: refs_def spec_delete_def)

lemma spec_delete_notin: "r \<notin> refs A \<Longrightarrow> spec_delete r A = A"
  by (auto simp: spec_delete_def refs_def filter_id_conv)

lemma spec_delete_split:
  assumes "distinct (map rs_ref (A @ x # B))"
  shows "spec_delete (rs_ref x) (A @ x # B) = A @ B"
proof -
  have "rs_ref x \<notin> refs A" "rs_ref x \<notin> refs B" using assms by (auto simp: refs_def)
  then have "spec_delete (rs_ref x) A = A" "spec_delete (rs_ref x) B = B"
    by (simp_all add: spec_delete_notin)
  then show ?thesis by (simp add: spec_delete_def)
qed

lemma spec_reduce_split:
  "distinct (map rs_ref (A @ x # B)) \<Longrightarrow>
    spec_reduce (rs_ref x) n (A @ x # B) =
      (if rs_size x \<le> n then A @ B else A @ x\<lparr>rs_size := rs_size x - n\<rparr> # B)"
  by (induction A) auto

lemma spec_reduce_notin: "r \<notin> refs A \<Longrightarrow> spec_reduce r n A = A"
  by (induction A) auto

lemma at_level_simps [simp]:
  "at_level cfg i [] = []"
  "at_level cfg i (A @ B) = at_level cfg i A @ at_level cfg i B"
  "at_level cfg i (x # A) =
    (if to_index cfg (rs_price x) = int i then x # at_level cfg i A else at_level cfg i A)"
  by (simp_all add: at_level_def)

lemma length_at_level: "length (at_level cfg i A) \<le> length A"
  by (simp add: at_level_def)

lemma set_at_level: "x \<in> set (at_level cfg i A) \<longleftrightarrow> x \<in> set A \<and> to_index cfg (rs_price x) = int i"
  by (auto simp: at_level_def)

section \<open>The abstract book\<close>

text \<open>Its invariant: references are unique and every price is inside the band.\<close>

definition spec_ok :: "book_config \<Rightarrow> resting list \<Rightarrow> bool" where
  "spec_ok cfg A \<longleftrightarrow> distinct (map rs_ref A)
     \<and> (\<forall>x \<in> set A. min_price cfg \<le> rs_price x \<and> rs_price x \<le> max_price cfg)"

lemma spec_ok_Nil [simp]: "spec_ok cfg []"
  by (simp add: spec_ok_def)

lemma spec_ok_delete: "spec_ok cfg A \<Longrightarrow> spec_ok cfg (spec_delete r A)"
  by (auto simp: spec_ok_def spec_delete_def distinct_map_filter)

lemma spec_ok_add: "spec_ok cfg A \<Longrightarrow> spec_ok cfg (spec_add cfg ev A)"
  by (auto simp: spec_ok_def spec_add_def refs_def)

lemma refs_reduce_subset: "refs (spec_reduce r n A) \<subseteq> refs A"
  by (induction A) auto

lemma prices_reduce:
  "x \<in> set (spec_reduce r n A) \<Longrightarrow>
    \<exists>y \<in> set A. rs_ref x = rs_ref y \<and> rs_price x = rs_price y \<and> rs_side x = rs_side y"
  by (induction A) (auto split: if_splits)

lemma distinct_reduce: "distinct (map rs_ref A) \<Longrightarrow> distinct (map rs_ref (spec_reduce r n A))"
proof (induction A)
  case Nil
  then show ?case by simp
next
  case (Cons x A)
  then show ?case using refs_reduce_subset [of r n A] by (auto simp: refs_def)
qed

lemma spec_ok_reduce:
  assumes "spec_ok cfg A"
  shows "spec_ok cfg (spec_reduce r n A)"
proof -
  have "min_price cfg \<le> rs_price x \<and> rs_price x \<le> max_price cfg"
    if mem: "x \<in> set (spec_reduce r n A)" for x
  proof -
    obtain y where "y \<in> set A" "rs_price x = rs_price y"
      using prices_reduce [OF mem] by auto
    with assms show ?thesis by (simp add: spec_ok_def)
  qed
  moreover have "distinct (map rs_ref (spec_reduce r n A))"
    using assms by (simp add: spec_ok_def distinct_reduce)
  ultimately show ?thesis unfolding spec_ok_def by blast
qed

lemma spec_ok_apply: "spec_ok cfg A \<Longrightarrow> spec_ok cfg (spec_apply cfg ev A)"
  by (auto simp: spec_apply_def spec_replace_def spec_ok_add spec_ok_delete spec_ok_reduce
      split: event_type.split option.split)

lemma length_spec_delete: "length (spec_delete r A) \<le> length A"
  by (simp add: spec_delete_def)

lemma length_spec_reduce: "length (spec_reduce r n A) \<le> length A"
  by (induction A) auto

lemma length_spec_add: "length (spec_add cfg ev A) \<le> Suc (length A)"
  by (simp add: spec_add_def)

lemma length_spec_replace: "length (spec_replace cfg ev A) \<le> Suc (length A)"
proof (cases "find_ref (order_ref ev) A")
  case None
  then show ?thesis by (simp add: spec_replace_def)
next
  case (Some x)
  have "length (spec_replace cfg ev A) \<le> Suc (length (spec_delete (order_ref ev) A))"
    using Some length_spec_add by (simp add: spec_replace_def)
  with length_spec_delete [of "order_ref ev" A] show ?thesis by simp
qed

lemma length_spec_apply: "length (spec_apply cfg ev A) \<le> Suc (length A)"
  using length_spec_add [of cfg ev A] length_spec_replace [of cfg ev A]
    le_SucI [OF length_spec_delete [of "order_ref ev" A]]
    le_SucI [OF length_spec_reduce [of "order_ref ev" "ev_size ev" A]]
  by (simp add: spec_apply_def split: event_type.split)

end
