(* ===== verification/Order_Book_Refine.thy ===== *)
theory Order_Book_Refine
  imports Order_Book_Spec
begin

text \<open>
  The order book implements its specification. \<open>book_repr b q A\<close> relates the concrete book \<open>b\<close> to the
  live orders \<open>A\<close>: \<open>q i\<close> are the nodes of level \<open>i\<close> in time priority, linked both ways, and their
  contents are the orders of \<open>A\<close> at that index in the same order; the level's counters are the count
  and the sum of their sizes; the index maps exactly the live references, each to its node; and the
  live nodes of the pool are exactly the nodes of the levels. Every operation preserves it and never
  leaves the defined behaviour.
\<close>

definition view :: "order \<Rightarrow> resting" where
  "view n = \<lparr>rs_ref = o_ref n, rs_price = o_price n, rs_size = o_size n, rs_side = o_side n\<rparr>"

lemma view_sel [simp]:
  "rs_ref (view n) = o_ref n" "rs_price (view n) = o_price n" "rs_size (view n) = o_size n"
  "rs_side (view n) = o_side n"
  by (simp_all add: view_def)

definition level_total :: "resting list \<Rightarrow> u64" where
  "level_total L = (\<Sum>x\<leftarrow>L. ucast (rs_size x))"

definition level_ok ::
    "order list \<Rightarrow> (u64 \<rightharpoonup> ptr) \<Rightarrow> nat \<Rightarrow> price_level \<Rightarrow> ptr list \<Rightarrow> resting list \<Rightarrow> bool" where
  "level_ok ns idx i lvl ps L \<longleftrightarrow> dll ns lvl ps \<and> map (\<lambda>p. view (ns ! p)) ps = L
     \<and> (\<forall>p \<in> set ps. unat (o_level (ns ! p)) = i \<and> idx (o_ref (ns ! p)) = Some p)
     \<and> order_count lvl = of_nat (length L) \<and> aggregate_size lvl = level_total L
     \<and> (L = [] \<longrightarrow> lvl_side lvl = NoSide)"

definition good_config :: "book_config \<Rightarrow> bool" where
  "good_config cfg \<longleftrightarrow> 1 \<le> tick_size cfg \<and> min_price cfg \<le> max_price cfg
     \<and> (max_price cfg - min_price cfg) div tick_size cfg < 2 ^ 32"

definition num_levels :: "book_config \<Rightarrow> nat" where
  "num_levels cfg = nat ((max_price cfg - min_price cfg) div tick_size cfg) + 1"

definition book_repr :: "order_book \<Rightarrow> (nat \<Rightarrow> ptr list) \<Rightarrow> resting list \<Rightarrow> bool" where
  "book_repr b q A \<longleftrightarrow>
     good_config (bk_cfg b) \<and> length (levels b) = num_levels (bk_cfg b)
     \<and> spec_ok (bk_cfg b) A \<and> length A < 2 ^ 32
     \<and> pool_ok (pool b) \<and> live_nodes (pool b) = (\<Union>i < length (levels b). set (q i))
     \<and> (\<forall>i < length (levels b).
          level_ok (nodes (pool b)) (index b) i (levels b ! i) (q i) (at_level (bk_cfg b) i A))
     \<and> dom (index b) = refs A
     \<and> live_orders b = of_nat (length A)
     \<and> - 1 \<le> best_bid_idx b \<and> best_bid_idx b < int (length (levels b))
     \<and> - 1 \<le> best_ask_idx b \<and> best_ask_idx b < int (length (levels b))"

section \<open>Levels\<close>

lemma level_ok_empty: "level_ok ns idx i empty_level [] []"
  by (simp add: level_ok_def dll_def empty_level_def level_total_def)

lemma level_ok_view: "level_ok ns idx i lvl ps L \<Longrightarrow> p \<in> set ps \<Longrightarrow> view (ns ! p) \<in> set L"
  by (metis (no_types, lifting) image_eqI level_ok_def list.set_map)

lemma level_ok_cong:
  assumes "level_ok ns idx i lvl ps L" and "length ns \<le> length ns'"
    and "\<And>p. p \<in> set ps \<Longrightarrow> ns' ! p = ns ! p"
    and "\<And>x. x \<in> set L \<Longrightarrow> idx' (rs_ref x) = idx (rs_ref x)"
  shows "level_ok ns' idx' i lvl ps L"
proof -
  have "dseg ns' None ps None = dseg ns None ps None"
    using assms(3) by (intro dseg_cong) simp
  then have "dll ns' lvl ps"
    using assms(1,2) by (auto simp: level_ok_def dll_def)
  moreover have "idx' (o_ref (ns ! p)) = idx (o_ref (ns ! p))" if "p \<in> set ps" for p
  proof -
    have "view (ns ! p) \<in> set L" using level_ok_view [OF assms(1) that] .
    from assms(4) [OF this] show ?thesis by simp
  qed
  moreover have "map (\<lambda>p. view (ns' ! p)) ps = L"
  proof (rule trans)
    show "map (\<lambda>p. view (ns' ! p)) ps = map (\<lambda>p. view (ns ! p)) ps"
      by (rule map_cong) (simp_all add: assms(3))
    show "map (\<lambda>p. view (ns ! p)) ps = L"
      using assms(1) unfolding level_ok_def by blast
  qed
  ultimately show ?thesis using assms(1,3) unfolding level_ok_def by auto
qed

lemma level_total_simps [simp]:
  "level_total [] = 0" "level_total (x # L) = ucast (rs_size x) + level_total L"
  "level_total (L @ M) = level_total L + level_total M"
  by (simp_all add: level_total_def)

text \<open>The 64-bit aggregate of fewer than \<open>2 ^ 32\<close> orders of 32-bit sizes is the exact sum.\<close>

lemma level_total_bound: "(\<Sum>x\<leftarrow>L. unat (rs_size x)) \<le> length L * (2 ^ 32 - 1)"
proof (induction L)
  case Nil
  then show ?case by simp
next
  case (Cons x L)
  have "unat (rs_size x) < 2 ^ 32" using unsigned_less [of "rs_size x"] by simp
  with Cons show ?case by simp
qed

lemma level_total_exact:
  "length L \<le> 2 ^ 32 \<Longrightarrow> unat (level_total L) = (\<Sum>x\<leftarrow>L. unat (rs_size x))"
proof (induction L)
  case Nil
  then show ?case by simp
next
  case (Cons x L)
  have "(\<Sum>y\<leftarrow>x # L. unat (rs_size y)) \<le> 2 ^ 32 * (2 ^ 32 - 1)"
    using level_total_bound [of "x # L"] Cons.prems
    by (meson mult_le_mono1 order_trans)
  then have "unat (rs_size x) + (\<Sum>y\<leftarrow>L. unat (rs_size y)) < 2 ^ 64" by simp
  with Cons show ?case by (simp add: unat_plus_no_wrap)
qed

section \<open>The representation\<close>

lemma level_index_less:
  assumes "good_config cfg" and "0 \<le> to_index cfg px"
  shows "nat (to_index cfg px) < num_levels cfg \<and> to_index cfg px < 2 ^ 32
    \<and> int (nat (to_index cfg px)) = to_index cfg px"
proof -
  have "1 \<le> tick_size cfg" using assms(1) by (simp add: good_config_def)
  then have "to_index cfg px \<le> (max_price cfg - min_price cfg) div tick_size cfg"
    using assms(2) by (cases rule: to_index_range [of cfg px]) auto
  with assms show ?thesis by (auto simp: good_config_def num_levels_def)
qed

lemma spec_in_band:
  assumes "good_config cfg" and "spec_ok cfg A" and "x \<in> set A"
  shows "0 \<le> to_index cfg (rs_price x) \<and> nat (to_index cfg (rs_price x)) < num_levels cfg
    \<and> x \<in> set (at_level cfg (nat (to_index cfg (rs_price x))) A)"
proof -
  have "0 \<le> to_index cfg (rs_price x)"
    using assms by (simp add: spec_ok_def good_config_def to_index_nonneg)
  with level_index_less [OF assms(1) this] assms(3) show ?thesis
    by (simp add: set_at_level)
qed

lemma book_repr_new:
  assumes "good_config (fix_config cfg)"
  shows "book_repr (new_book cfg) (\<lambda>i. []) []"
  using assms pool_ok_new [of "pool_chunk cfg"]
  by (simp add: book_repr_def new_book_def Let_def num_levels_def level_ok_empty del: replicate.simps)

lemma book_repr_reset:
  assumes "book_repr b q A"
  shows "book_repr (reset_book b) (\<lambda>i. []) []"
  using assms reset_all_ok [of "pool b"]
  by (simp add: book_repr_def reset_book_def level_ok_empty)

lemma book_repr_stats [simp]:
  "book_repr (count f b) q A = book_repr b q A"
  by (simp add: book_repr_def)

lemma repr_level_nodes:
  assumes "book_repr b q A" and "i < length (levels b)" and "p \<in> set (q i)"
  shows "p < length (nodes (pool b)) \<and> p \<in> live_nodes (pool b)
    \<and> unat (o_level (nodes (pool b) ! p)) = i \<and> index b (o_ref (nodes (pool b) ! p)) = Some p
    \<and> view (nodes (pool b) ! p) \<in> set (at_level (bk_cfg b) i A)"
proof -
  have "level_ok (nodes (pool b)) (index b) i (levels b ! i) (q i) (at_level (bk_cfg b) i A)"
    using assms by (simp add: book_repr_def)
  from level_ok_view [OF this assms(3)] this
  have "p < length (nodes (pool b))"
    "unat (o_level (nodes (pool b) ! p)) = i" "index b (o_ref (nodes (pool b) ! p)) = Some p"
    "view (nodes (pool b) ! p) \<in> set (at_level (bk_cfg b) i A)"
    using assms(3) by (auto simp: level_ok_def dll_def)
  moreover have "p \<in> live_nodes (pool b)"
    using assms by (auto simp: book_repr_def)
  ultimately show ?thesis by simp
qed

lemma repr_queues_disjoint:
  assumes "book_repr b q A" and "i < length (levels b)" and "j < length (levels b)" and "i \<noteq> j"
    and "p \<in> set (q i)"
  shows "p \<notin> set (q j)"
  using repr_level_nodes [OF assms(1,2,5)] repr_level_nodes [OF assms(1,3)] assms(4) by auto

text \<open>A reference of the index leads to its node, inside its level's queue.\<close>

lemma repr_find:
  assumes "book_repr b q A" and "index b r = Some p"
  obtains i xs ys where "i < length (levels b)" and "q i = xs @ p # ys"
    and "o_ref (nodes (pool b) ! p) = r" and "unat (o_level (nodes (pool b) ! p)) = i"
    and "p < length (nodes (pool b))" and "p \<in> live_nodes (pool b)"
proof -
  let ?cfg = "bk_cfg b" and ?ns = "nodes (pool b)"
  from assms have "r \<in> refs A" by (auto simp: book_repr_def)
  then obtain x where x: "x \<in> set A" "rs_ref x = r" by (auto simp: refs_def)
  let ?i = "nat (to_index ?cfg (rs_price x))"
  from spec_in_band [of ?cfg A x] assms(1) x(1)
  have i: "?i < length (levels b)" "x \<in> set (at_level ?cfg ?i A)" by (auto simp: book_repr_def)
  then have "x \<in> set (map (\<lambda>p. view (?ns ! p)) (q ?i))"
    using assms(1) by (simp add: book_repr_def level_ok_def)
  then obtain p' where p': "p' \<in> set (q ?i)" "x = view (?ns ! p')" by auto
  with repr_level_nodes [OF assms(1) i(1) p'(1)] x(2) assms(2)
  have "p' = p" "o_ref (?ns ! p) = r" "unat (o_level (?ns ! p)) = ?i" "p < length ?ns"
    "p \<in> live_nodes (pool b)" by auto
  with p'(1) i(1) show ?thesis by (metis split_list that)
qed

lemma repr_order_count:
  assumes "book_repr b q A" and "i < length (levels b)"
  shows "order_count (levels b ! i) = of_nat (length (q i))
    \<and> unat (order_count (levels b ! i)) = length (q i)
    \<and> length (q i) = length (at_level (bk_cfg b) i A)
    \<and> (order_count (levels b ! i) = 0 \<longleftrightarrow> at_level (bk_cfg b) i A = [])"
proof -
  have m: "map (\<lambda>p. view (nodes (pool b) ! p)) (q i) = at_level (bk_cfg b) i A"
    and c: "order_count (levels b ! i) = of_nat (length (at_level (bk_cfg b) i A))"
    using assms by (auto simp: book_repr_def level_ok_def)
  from m have l: "length (q i) = length (at_level (bk_cfg b) i A)" by (metis length_map)
  have lt: "length (at_level (bk_cfg b) i A) < 2 ^ 32"
    using assms(1) length_at_level [of "bk_cfg b" i A] by (simp add: book_repr_def)
  then have "unat (order_count (levels b ! i)) = length (at_level (bk_cfg b) i A)"
    using c by (simp add: unat_of_nat)
  with c l lt show ?thesis by (auto simp: of_nat_word_0)
qed

end
