(* ===== verification/Order_Book_Ops.thy ===== *)
theory Order_Book_Ops
  imports Order_Book_Refine
begin

text \<open>
  The operations of the book refine the operations of the specification: \<open>remove_order\<close>,
  \<open>reduce_order\<close>, \<open>on_add\<close>, \<open>replace_order\<close> and then \<open>apply_event\<close> are total on a represented book and
  give a book that represents the specification's result.
\<close>

section \<open>Best-price scans stay in range\<close>

lemma scan_bid_range:
  "n \<le> length lvs \<Longrightarrow> \<exists>i. scan_bid lvs n = Some i \<and> - 1 \<le> i \<and> i < int n \<or> scan_bid lvs n = Some (-1)"
  by (induction n) (auto simp: access_simps)

lemma scan_ask_range: "- 1 \<le> scan_ask lvs i \<and> scan_ask lvs i < max (int (length lvs)) 0 \<or> scan_ask lvs i = - 1"
proof (induction lvs i rule: scan_ask.induct)
  case (1 lvs i)
  then show ?case by (auto simp: scan_ask.simps [of lvs i])
qed

lemma book_repr_best:
  assumes "book_repr b q A" and "- 1 \<le> i" "i < int (length (levels b))"
    and "- 1 \<le> j" "j < int (length (levels b))"
  shows "book_repr (b\<lparr>best_bid_idx := i, best_ask_idx := j\<rparr>) q A"
  using assms by (simp add: book_repr_def)

lemma repr_levels_nonempty: "book_repr b q A \<Longrightarrow> 0 < length (levels b)"
  by (simp add: book_repr_def num_levels_def)

lemma fix_best_ok:
  assumes "book_repr b q A" and "i < length (levels b)"
  shows "\<exists>b'. fix_best s (int i) b = Some b' \<and> book_repr b' q A \<and> levels b' = levels b
    \<and> bk_cfg b' = bk_cfg b \<and> bk_stats b' = bk_stats b"
proof -
  have rng: "- 1 \<le> best_bid_idx b" "best_bid_idx b < int (length (levels b))"
    "- 1 \<le> best_ask_idx b" "best_ask_idx b < int (length (levels b))"
    using assms(1) by (auto simp: book_repr_def)
  consider (bid) "s = Buy" "int i = best_bid_idx b" | (ask) "s = Sell" "int i = best_ask_idx b"
    | (none) "\<not> (s = Buy \<and> int i = best_bid_idx b)" "\<not> (s = Sell \<and> int i = best_ask_idx b)"
    by blast
  then show ?thesis
  proof cases
    case bid
    obtain k where k: "scan_bid (levels b) i = Some k" "- 1 \<le> k" "k < int (length (levels b))"
      using scan_bid_range [of i "levels b"] assms(2) by fastforce
    then have "fix_best s (int i) b = Some (b\<lparr>best_bid_idx := k\<rparr>)"
      using bid(1) by (simp add: fix_best_def rescan_best_bid_from_def bid(2) [symmetric])
    moreover have "book_repr (b\<lparr>best_bid_idx := k\<rparr>) q A"
      using assms(1) k by (simp add: book_repr_def)
    ultimately show ?thesis by simp
  next
    case ask
    let ?k = "scan_ask (levels b) (Suc i)"
    have "nat (int i + 1) = Suc i" by simp
    then have "fix_best s (int i) b = Some (b\<lparr>best_ask_idx := ?k\<rparr>)"
      using ask(1) by (simp add: fix_best_def rescan_best_ask_from_def ask(2) [symmetric])
    moreover have "book_repr (b\<lparr>best_ask_idx := ?k\<rparr>) q A"
      using assms(1) repr_levels_nonempty [OF assms(1)] scan_ask_range [of "levels b" "Suc i"]
      by (auto simp: book_repr_def)
    ultimately show ?thesis by simp
  next
    case none
    then have "fix_best s (int i) b = Some b"
      by (auto simp: fix_best_def)
    with assms(1) show ?thesis by simp
  qed
qed

section \<open>The specification's lists, level by level\<close>

lemma at_level_delete: "at_level cfg i (spec_delete r A) = spec_delete r (at_level cfg i A)"
  by (simp add: at_level_def spec_delete_def conj_commute)

lemma spec_ok_level: "spec_ok cfg A \<Longrightarrow> distinct (map rs_ref (at_level cfg i A))"
  by (simp add: spec_ok_def at_level_def distinct_map_filter)

lemma spec_ok_unique:
  "spec_ok cfg A \<Longrightarrow> x \<in> set A \<Longrightarrow> y \<in> set A \<Longrightarrow> rs_ref x = rs_ref y \<Longrightarrow> x = y"
  by (auto simp: spec_ok_def distinct_map inj_on_def)

lemma other_level_ref:
  assumes "spec_ok cfg A" and "x \<in> set (at_level cfg i A)" and "y \<in> set (at_level cfg j A)" and "i \<noteq> j"
  shows "rs_ref x \<noteq> rs_ref y"
  using assms spec_ok_unique [OF assms(1), of x y] by (auto simp: set_at_level)

lemma length_delete:
  assumes "spec_ok cfg A" and "r \<in> refs A"
  shows "length A = Suc (length (spec_delete r A))"
proof -
  obtain x where "x \<in> set A" "rs_ref x = r" using assms(2) by (auto simp: refs_def)
  then obtain B C where A: "A = B @ x # C" by (meson split_list)
  from assms(1) have "distinct (map rs_ref (B @ x # C))"
    unfolding spec_ok_def A by blast
  from spec_delete_split [OF this] \<open>rs_ref x = r\<close> show ?thesis by (simp add: A)
qed

lemma payload_view:
  "payload a = payload b \<Longrightarrow> view a = view b \<and> o_level a = o_level b \<and> o_ref a = o_ref b"
  by (simp add: payload_def view_def)

section \<open>Removing an order\<close>

lemma unlinked_level:
  assumes ok: "level_ok ns idx i lvl (xs @ p # ys) L" and small: "length L < 2 ^ 32"
    and dll: "dll ns1 lvl1 (xs @ ys)" and fr: "splice_frame ns ns1 (set (xs @ ys))"
    and same: "aggregate_size lvl1 = aggregate_size lvl" "order_count lvl1 = order_count lvl"
      "lvl_side lvl1 = lvl_side lvl"
    and ns2: "length ns2 = length ns1" "\<And>q. q \<noteq> p \<Longrightarrow> ns2 ! q = ns1 ! q"
    and idx: "\<And>x. x \<in> set L' \<Longrightarrow> idx' (rs_ref x) = idx (rs_ref x)"
    and L': "L' = map (\<lambda>p. view (ns ! p)) (xs @ ys)"
    and lvl2: "lvl2 = lvl1\<lparr>aggregate_size := aggregate_size lvl1 - ucast (o_size (ns ! p)),
                         order_count := order_count lvl1 - 1\<rparr>"
    and lvl3: "lvl3 = (if order_count lvl2 = 0 then lvl2\<lparr>lvl_side := NoSide, aggregate_size := 0\<rparr> else lvl2)"
  shows "level_ok ns2 idx' i lvl3 (xs @ ys) L' \<and> (order_count lvl2 = 0 \<longleftrightarrow> L' = [])
    \<and> lvl_side lvl3 = (if L' = [] then NoSide else lvl_side lvl)"
proof -
  let ?v = "\<lambda>p. view (ns ! p)"
  have L: "L = map ?v xs @ ?v p # map ?v ys" and d0: "dll ns lvl (xs @ p # ys)"
    using ok by (auto simp: level_ok_def)
  have cnt: "order_count lvl2 = of_nat (length L')"
    using ok L L' same by (simp add: lvl2 level_ok_def)
  then have zero: "order_count lvl2 = 0 \<longleftrightarrow> L' = []"
    using small L L' by (subst cnt, subst of_nat_word_0) auto
  have agg: "aggregate_size lvl2 = level_total L'"
    using ok L L' same by (simp add: lvl2 level_ok_def algebra_simps)
  have np: "p \<notin> set (xs @ ys)" using d0 by (auto simp: dll_def)
  have keep: "view (ns2 ! a) = ?v a \<and> o_level (ns2 ! a) = o_level (ns ! a) \<and> o_ref (ns2 ! a) = o_ref (ns ! a)"
    if "a \<in> set (xs @ ys)" for a
  proof -
    have "a \<noteq> p" using that np by blast
    then show ?thesis
      using ns2(2) [of a] fr payload_view [of "ns1 ! a" "ns ! a"] by (simp add: splice_frame_def)
  qed
  have "ns2 ! a = ns1 ! a" if "a \<in> set (xs @ ys)" for a
    using that np ns2(2) by metis
  then have "dseg ns2 None (xs @ ys) None = dseg ns1 None (xs @ ys) None"
    by (intro dseg_cong) simp
  then have "dll ns2 lvl3 (xs @ ys)"
    using dll ns2(1) by (auto simp: dll_def lvl3 lvl2)
  moreover have "map (\<lambda>p. view (ns2 ! p)) (xs @ ys) = L'"
    unfolding L' by (rule map_cong) (simp_all add: keep)
  moreover have "unat (o_level (ns2 ! a)) = i \<and> idx' (o_ref (ns2 ! a)) = Some a"
    if a: "a \<in> set (xs @ ys)" for a
  proof -
    have "?v a \<in> set L'" using a by (simp add: L' image_iff) blast
    from idx [OF this] keep [OF a] ok a show ?thesis by (auto simp: level_ok_def)
  qed
  moreover have "order_count lvl3 = of_nat (length L')" "aggregate_size lvl3 = level_total L'"
    "lvl_side lvl3 = (if L' = [] then NoSide else lvl_side lvl)"
    using cnt agg zero same(3) by (auto simp: lvl3 lvl2)
  ultimately show ?thesis
    using zero unfolding level_ok_def by simp
qed

lemma UN_queues:
  assumes "i < n"
  shows "(\<Union>j < n. set (q j)) = set (q i) \<union> (\<Union>j \<in> {..<n} - {i}. set (q j))"
    and "(\<Union>j < n. set ((q(i := ps)) j)) = set ps \<union> (\<Union>j \<in> {..<n} - {i}. set (q j))"
  using assms by (auto split: if_splits)

lemma remove_core:
  assumes repr: "book_repr b q A" and r: "index b r = Some p"
  obtains i b0 q' where "i < length (levels b)"
    and "view (nodes (pool b) ! p) \<in> set (at_level (bk_cfg b) i A)"
    and "o_ref (nodes (pool b) ! p) = r"
    and "remove_order p b = (if at_level (bk_cfg b) i (spec_delete r A) = []
           then fix_best (o_side (nodes (pool b) ! p)) (int i) b0 else Some b0)"
    and "book_repr b0 q' (spec_delete r A)"
    and "lvl_side (levels b0 ! i) = (if at_level (bk_cfg b) i (spec_delete r A) = [] then NoSide
           else lvl_side (levels b ! i))"
    and "\<And>j. j \<noteq> i \<Longrightarrow> levels b0 ! j = levels b ! j"
    and "best_bid_idx b0 = best_bid_idx b" and "best_ask_idx b0 = best_ask_idx b"
    and "bk_cfg b0 = bk_cfg b" and "bk_stats b0 = bk_stats b"
proof -
  let ?cfg = "bk_cfg b" and ?ns = "nodes (pool b)" and ?A = "spec_delete r A"
  let ?n = "?ns ! p" and ?v = "\<lambda>p. view (?ns ! p)"
  from repr_find [OF repr r] obtain i xs ys where i: "i < length (levels b)" "q i = xs @ p # ys"
    "o_ref ?n = r" "unat (o_level ?n) = i" "p < length ?ns" "p \<in> live_nodes (pool b)" .
  let ?lvl = "levels b ! i" and ?L = "at_level ?cfg i A"
  have lev: "level_ok ?ns (index b) j (levels b ! j) (q j) (at_level ?cfg j A)"
    if "j < length (levels b)" for j using repr that by (simp add: book_repr_def)
  from lev [OF i(1)] have ok: "level_ok ?ns (index b) i ?lvl (xs @ p # ys) ?L" by (simp only: i(2))
  then have d: "dll ?ns ?lvl (xs @ p # ys)" and L: "?L = map ?v xs @ ?v p # map ?v ys"
    by (auto simp: level_ok_def)
  have sok: "spec_ok ?cfg A" and small: "length A < 2 ^ 32" using repr by (auto simp: book_repr_def)
  have mem: "?v p \<in> set ?L" by (simp add: L)
  have L': "at_level ?cfg i ?A = map ?v (xs @ ys)"
    using spec_delete_split [of "map ?v xs" "?v p" "map ?v ys"] spec_ok_level [OF sok, of i] i(3)
    by (simp add: at_level_delete L)
  have Lj: "at_level ?cfg j ?A = at_level ?cfg j A" "r \<notin> refs (at_level ?cfg j A)" if "j \<noteq> i" for j
  proof -
    show *: "r \<notin> refs (at_level ?cfg j A)"
      using other_level_ref [OF sok mem] that i(3) by (auto simp: refs_def)
    then show "at_level ?cfg j ?A = at_level ?cfg j A" by (simp add: at_level_delete spec_delete_notin)
  qed
  from unlink_ok [OF d] obtain ns1 lvl1 where ul: "unlink ?ns ?lvl p = Some (ns1, lvl1)"
    "dll ns1 lvl1 (xs @ ys)" "splice_frame ?ns ns1 (set (xs @ ys))"
    "aggregate_size lvl1 = aggregate_size ?lvl" "order_count lvl1 = order_count ?lvl"
    "lvl_side lvl1 = lvl_side ?lvl" by auto
  have live: "a \<in> live_nodes (pool b)" if "a \<in> set (xs @ ys)" for a
    using repr_level_nodes [OF repr i(1), of a] that i(2) by auto
  let ?pl1 = "(pool b)\<lparr>nodes := ns1\<rparr>"
  have pl1: "pool_ok ?pl1 \<and> live_nodes ?pl1 = live_nodes (pool b)"
  proof (rule put_nodes_ok)
    show "pool_ok (pool b)" using repr by (simp add: book_repr_def)
    show "length ns1 = length (nodes (pool b))" using ul(3) by (simp add: splice_frame_def)
    show "ns1 ! a = nodes (pool b) ! a" if "a \<notin> live_nodes (pool b)" for a
      using that live ul(3) by (auto simp: splice_frame_def)
  qed
  with i(6) release_ok [of ?pl1 p] obtain pl where pl: "release p ?pl1 = Some pl" "pool_ok pl"
    "live_nodes pl = live_nodes (pool b) - {p}" "length (nodes pl) = length ns1"
    "\<And>a. a \<noteq> p \<Longrightarrow> nodes pl ! a = ns1 ! a" by auto
  define lvl2 where "lvl2 = lvl1\<lparr>aggregate_size := aggregate_size lvl1 - ucast (o_size ?n),
    order_count := order_count lvl1 - 1\<rparr>"
  define lvl3 where "lvl3 = (if order_count lvl2 = 0
    then lvl2\<lparr>lvl_side := NoSide, aggregate_size := 0\<rparr> else lvl2)"
  let ?idx = "(index b)(r := None)" and ?q = "q(i := xs @ ys)"
  have new: "level_ok (nodes pl) ?idx i lvl3 (xs @ ys) (at_level ?cfg i ?A)
    \<and> (order_count lvl2 = 0 \<longleftrightarrow> at_level ?cfg i ?A = [])
    \<and> lvl_side lvl3 = (if at_level ?cfg i ?A = [] then NoSide else lvl_side ?lvl)"
  proof (rule unlinked_level [OF ok _ ul(2-6) pl(4,5) _ L' lvl2_def lvl3_def])
    show "length ?L < 2 ^ 32" using small length_at_level [of ?cfg i A] by simp
    show "?idx (rs_ref x) = index b (rs_ref x)" if "x \<in> set (at_level ?cfg i ?A)" for x
      using that by (auto simp: set_at_level spec_delete_def)
  qed
  define b0 where "b0 = b\<lparr>levels := (levels b)[i := lvl3], index := ?idx, pool := pl,
    live_orders := live_orders b - 1\<rparr>"
  have "remove_order p b = (if order_count lvl2 = 0 then fix_best (o_side ?n) (int i) b0 else Some b0)"
    using i pl(1) ul(1) by (simp add: remove_order_def access_simps Let_def lvl2_def lvl3_def b0_def)
  then have rem: "remove_order p b = (if at_level ?cfg i ?A = []
      then fix_best (o_side ?n) (int i) b0 else Some b0)"
    using new by simp
  have others: "level_ok (nodes pl) ?idx j (levels b ! j) (q j) (at_level ?cfg j ?A)"
    if j: "j < length (levels b)" "j \<noteq> i" for j
    unfolding Lj(1) [OF j(2)]
  proof (rule level_ok_cong [OF lev [OF j(1)]])
    show "length ?ns \<le> length (nodes pl)" using pl(4) ul(3) by (simp add: splice_frame_def)
    show "nodes pl ! a = ?ns ! a" if "a \<in> set (q j)" for a
    proof -
      have "a \<notin> set (q i)" using repr_queues_disjoint [OF repr j(1) i(1) j(2) that] .
      then show ?thesis using pl(5) [of a] ul(3) i(2) by (auto simp: splice_frame_def)
    qed
    show "?idx (rs_ref x) = index b (rs_ref x)" if "x \<in> set (at_level ?cfg j A)" for x
      using that Lj(2) [OF j(2)] by (auto simp: refs_def)
  qed
  have live': "live_nodes pl = (\<Union>j < length (levels b). set (?q j))"
  proof -
    have "p \<notin> set (xs @ ys)" using d by (auto simp: dll_def)
    moreover have "p \<notin> set (q j)" if "j < length (levels b)" "j \<noteq> i" for j
      using repr_queues_disjoint [OF repr i(1) that(1)] that(2) i(2) by auto
    ultimately have "(\<Union>j < length (levels b). set (q j)) - {p} = (\<Union>j < length (levels b). set (?q j))"
      using i(1,2) unfolding UN_queues [OF i(1)] by auto
    with repr show ?thesis by (simp add: pl(3) book_repr_def)
  qed
  have "refs A - {r} = dom ?idx" using repr by (auto simp: book_repr_def)
  moreover have "length A = Suc (length ?A)"
    using repr r by (intro length_delete [OF sok]) (auto simp: book_repr_def)
  ultimately have "book_repr b0 ?q ?A"
    using repr new others live' pl(2) spec_ok_delete [OF sok, of r] small i(1)
    by (auto simp: book_repr_def b0_def nth_list_update refs_delete)
  with rem show ?thesis
    using that [of i b0 ?q] i(1,3) mem new by (simp add: b0_def)
qed

lemma remove_ok:
  assumes "book_repr b q A" and "index b r = Some p"
  shows "\<exists>b' q'. remove_order p b = Some b' \<and> book_repr b' q' (spec_delete r A)
    \<and> bk_cfg b' = bk_cfg b \<and> bk_stats b' = bk_stats b"
proof -
  obtain i b0 q' where *: "i < length (levels b)" "remove_order p b =
      (if at_level (bk_cfg b) i (spec_delete r A) = []
       then fix_best (o_side (nodes (pool b) ! p)) (int i) b0 else Some b0)"
    "book_repr b0 q' (spec_delete r A)" "bk_cfg b0 = bk_cfg b" "bk_stats b0 = bk_stats b"
    using remove_core [OF assms] by metis
  have "length (levels b0) = length (levels b)"
    using assms(1) *(3,4) by (simp add: book_repr_def)
  with *(1) fix_best_ok [OF *(3), of i "o_side (nodes (pool b) ! p)"] * show ?thesis
    by auto
qed

section \<open>Adding an order\<close>

lemma linked_level:
  assumes ok: "level_ok ns idx i lvl ps L" and small: "Suc (length L) < 2 ^ 32"
    and keep: "\<And>a. a \<in> set ps \<Longrightarrow> ns1 ! a = ns ! a"
    and new: "ns1 ! p = n" "unat (o_level n) = i" "idx' (o_ref n) = Some p"
    and dll: "dll ns2 lvl1 (ps @ [p])" and fr: "splice_frame ns1 ns2 (set (ps @ [p]))"
    and same: "aggregate_size lvl1 = aggregate_size lvl" "order_count lvl1 = order_count lvl"
      "lvl_side lvl1 = (if order_count lvl = 0 then s else lvl_side lvl)"
    and idx: "\<And>x. x \<in> set L \<Longrightarrow> idx' (rs_ref x) = idx (rs_ref x)"
    and lvl2: "lvl2 = lvl1\<lparr>aggregate_size := aggregate_size lvl1 + ucast (o_size n),
                         order_count := order_count lvl1 + 1\<rparr>"
  shows "level_ok ns2 idx' i lvl2 (ps @ [p]) (L @ [view n])
    \<and> lvl_side lvl2 = (if L = [] then s else lvl_side lvl)"
proof -
  have L: "map (\<lambda>a. view (ns ! a)) ps = L" and cnt: "order_count lvl = of_nat (length L)"
    and agg: "aggregate_size lvl = level_total L"
    using ok unfolding level_ok_def by blast+
  have zero: "order_count lvl = 0 \<longleftrightarrow> L = []"
    using small by (subst cnt, subst of_nat_word_0) auto
  have pay: "view (ns2 ! a) = view (ns1 ! a) \<and> o_level (ns2 ! a) = o_level (ns1 ! a)
      \<and> o_ref (ns2 ! a) = o_ref (ns1 ! a)" for a
    using fr payload_view [of "ns2 ! a" "ns1 ! a"] by (simp add: splice_frame_def)
  have "map (\<lambda>a. view (ns2 ! a)) ps = map (\<lambda>a. view (ns ! a)) ps"
    by (rule map_cong) (simp_all add: pay keep)
  then have "map (\<lambda>a. view (ns2 ! a)) (ps @ [p]) = L @ [view n]"
    using L by (simp add: pay new(1))
  moreover have "unat (o_level (ns2 ! a)) = i \<and> idx' (o_ref (ns2 ! a)) = Some a"
    if a: "a \<in> set (ps @ [p])" for a
  proof (cases "a = p")
    case True
    then show ?thesis using new by (simp add: pay)
  next
    case False
    then have m: "a \<in> set ps" using a by simp
    from idx [OF level_ok_view [OF ok m]] ok m show ?thesis
      by (simp add: pay keep level_ok_def)
  qed
  moreover have "dll ns2 lvl2 (ps @ [p])" using dll by (simp add: dll_def lvl2)
  ultimately show ?thesis
    using cnt agg zero same unfolding level_ok_def by (auto simp: lvl2 algebra_simps)
qed

definition event_order :: "market_event \<Rightarrow> resting" where
  "event_order ev = \<lparr>rs_ref = order_ref ev, rs_price = price_ticks ev, rs_size = ev_size ev,
     rs_side = ev_side ev\<rparr>"

lemma event_order_sel [simp]:
  "rs_ref (event_order ev) = order_ref ev" "rs_price (event_order ev) = price_ticks ev"
  "rs_size (event_order ev) = ev_size ev" "rs_side (event_order ev) = ev_side ev"
  by (simp_all add: event_order_def)

lemma unat_of_int_index:
  assumes "0 \<le> i" and "i < 2 ^ 32"
  shows "unat (of_int i :: u32) = nat i"
proof -
  have "(of_int i :: u32) = of_nat (nat i)" using assms(1) by simp
  moreover have "nat i < 2 ^ 32" using assms by simp
  ultimately show ?thesis by (simp add: unat_of_nat del: of_nat_nat)
qed

lemma add_core:
  assumes repr: "book_repr b q A" and idx: "0 \<le> to_index (bk_cfg b) (price_ticks ev)"
    and fresh: "order_ref ev \<notin> refs A" and room: "Suc (length A) < 2 ^ 32"
  obtains i b0 q' where "to_index (bk_cfg b) (price_ticks ev) = int i" and "i < length (levels b)"
    and "on_add ev b = Some (raise_best (ev_side ev) (int i) b0)"
    and "book_repr b0 q' (A @ [event_order ev])"
    and "lvl_side (levels b0 ! i) = (if at_level (bk_cfg b) i A = [] then ev_side ev
           else lvl_side (levels b ! i))"
    and "\<And>j. j \<noteq> i \<Longrightarrow> levels b0 ! j = levels b ! j"
    and "best_bid_idx b0 = best_bid_idx b" and "best_ask_idx b0 = best_ask_idx b"
    and "bk_cfg b0 = bk_cfg b" and "bk_stats b0 = bk_stats b"
proof -
  let ?cfg = "bk_cfg b" and ?ns = "nodes (pool b)" and ?r = "order_ref ev"
  define i where "i = nat (to_index ?cfg (price_ticks ev))"
  have good: "good_config ?cfg" and sok: "spec_ok ?cfg A" using repr by (auto simp: book_repr_def)
  from level_index_less [OF good idx]
  have i: "to_index ?cfg (price_ticks ev) = int i" "i < length (levels b)" "int i < 2 ^ 32"
    using repr by (simp_all add: i_def book_repr_def)
  let ?lvl = "levels b ! i" and ?L = "at_level ?cfg i A"
  have lev: "level_ok ?ns (index b) j (levels b ! j) (q j) (at_level ?cfg j A)"
    if "j < length (levels b)" for j using repr that by (simp add: book_repr_def)
  have "pool_ok (pool b)" using repr by (simp add: book_repr_def)
  from alloc_ok [OF this] obtain p pl where al: "alloc (pool b) = Some (p, pl)" "pool_ok pl"
    "p \<notin> live_nodes (pool b)" "p < length (nodes pl)" "length ?ns \<le> length (nodes pl)"
    "live_nodes pl = insert p (live_nodes (pool b))"
    "\<And>a. a \<in> live_nodes (pool b) \<Longrightarrow> nodes pl ! a = ?ns ! a" by auto
  define n where "n = (nodes pl ! p)\<lparr>o_ref := ?r, o_price := price_ticks ev, o_size := ev_size ev,
    o_level := of_int (int i), o_side := ev_side ev, o_prev := None, o_next := None\<rparr>"
  define ns1 where "ns1 = (nodes pl)[p := n]"
  have n: "view n = event_order ev" "unat (o_level n) = i" "o_ref n = ?r" "ns1 ! p = n"
    using unat_of_int_index [of "int i"] i(3) al(4)
    by (simp_all add: n_def ns1_def view_def event_order_def)
  have keep: "ns1 ! a = ?ns ! a" if "j < length (levels b)" "a \<in> set (q j)" for a j
  proof -
    have "a \<in> live_nodes (pool b)" using repr_level_nodes [OF repr that] by simp
    with al(3,7) show ?thesis by (metis ns1_def nth_list_update_neq)
  qed
  have pq: "p \<notin> set (q j)" if "j < length (levels b)" for j
    using repr_level_nodes [OF repr that] al(3) by blast
  let ?claimed = "if order_count ?lvl = 0 then ?lvl\<lparr>lvl_side := ev_side ev\<rparr> else ?lvl"
  have "dll ?ns ?lvl (q i)" using lev [OF i(2)] unfolding level_ok_def by blast
  moreover have "dseg ns1 None (q i) None = dseg ?ns None (q i) None"
    using keep [OF i(2)] by (intro dseg_cong) simp
  ultimately have "dll ns1 ?claimed (q i)"
    using al(5) by (auto simp: dll_def ns1_def)
  from link_back_ok [OF this, of p] pq [OF i(2)] al(4) obtain ns2 lvl1 where lb:
    "link_back ns1 ?claimed p = Some (ns2, lvl1)" "dll ns2 lvl1 (q i @ [p])"
    "splice_frame ns1 ns2 (set (q i @ [p]))" "aggregate_size lvl1 = aggregate_size ?lvl"
    "order_count lvl1 = order_count ?lvl"
    "lvl_side lvl1 = (if order_count ?lvl = 0 then ev_side ev else lvl_side ?lvl)"
    by (auto simp: ns1_def)
  define lvl2 where "lvl2 = lvl1\<lparr>aggregate_size := aggregate_size lvl1 + ucast (o_size n),
    order_count := order_count lvl1 + 1\<rparr>"
  let ?idx = "(index b)(?r \<mapsto> p)" and ?q = "q(i := q i @ [p])" and ?A = "A @ [event_order ev]"
  have idx_old: "?idx (rs_ref x) = index b (rs_ref x)" if "x \<in> set (at_level ?cfg j A)" for x j
  proof -
    have "rs_ref x \<in> refs A" using that by (auto simp: set_at_level refs_def)
    with fresh show ?thesis by auto
  qed
  have new: "level_ok ns2 ?idx i lvl2 (q i @ [p]) (?L @ [view n])
    \<and> lvl_side lvl2 = (if ?L = [] then ev_side ev else lvl_side ?lvl)"
  proof (rule linked_level [OF lev [OF i(2)] _ keep [OF i(2)] n(4,2) _ lb(2-6) idx_old lvl2_def])
    show "Suc (length ?L) < 2 ^ 32" using room length_at_level [of ?cfg i A] by simp
  qed (simp_all add: n(3))
  have others: "level_ok ns2 ?idx j (levels b ! j) (q j) (at_level ?cfg j A)"
    if j: "j < length (levels b)" "j \<noteq> i" for j
  proof (rule level_ok_cong [OF lev [OF j(1)] _ _ idx_old])
    show "length ?ns \<le> length ns2" using al(5) lb(3) by (simp add: splice_frame_def ns1_def)
    show "ns2 ! a = ?ns ! a" if "a \<in> set (q j)" for a
      using repr_queues_disjoint [OF repr j(1) i(2) j(2) that] pq [OF j(1)] that
        keep [OF j(1) that] lb(3) by (auto simp: splice_frame_def)
  qed
  have pl2: "pool_ok (pl\<lparr>nodes := ns2\<rparr>) \<and> live_nodes (pl\<lparr>nodes := ns2\<rparr>) = live_nodes pl"
  proof (rule put_nodes_ok [OF al(2)])
    show "length ns2 = length (nodes pl)" using lb(3) by (simp add: splice_frame_def ns1_def)
    show "ns2 ! a = nodes pl ! a" if "a \<notin> live_nodes pl" for a
    proof -
      have "a \<noteq> p" "a \<notin> set (q i)"
        using that al(6) repr_level_nodes [OF repr i(2)] by auto
      then show ?thesis using lb(3) by (simp add: splice_frame_def ns1_def)
    qed
  qed
  have live': "live_nodes pl = (\<Union>j < length (levels b). set (?q j))"
    using repr unfolding UN_queues [OF i(2)] by (auto simp: al(6) book_repr_def UN_queues(1) [OF i(2)])
  define b0 where "b0 = b\<lparr>levels := (levels b)[i := lvl2], index := ?idx,
    pool := pl\<lparr>nodes := ns2\<rparr>, live_orders := live_orders b + 1\<rparr>"
  have "index b ?r = None" using repr fresh by (auto simp: book_repr_def)
  then have run: "on_add ev b = Some (raise_best (ev_side ev) (int i) b0)"
    using i al(1,4) lb(1)
    by (simp add: on_add_def access_simps Let_def lvl2_def b0_def n_def ns1_def)
  have "spec_ok ?cfg ?A"
    using sok fresh idx good by (auto simp: spec_ok_def refs_def to_index_nonneg good_config_def)
  moreover have "insert ?r (refs A) = dom ?idx" using repr by (auto simp: book_repr_def)
  ultimately have "book_repr b0 ?q ?A"
    using repr new others live' pl2 room i(1,2)
    by (auto simp: book_repr_def b0_def nth_list_update n(1))
  with run show ?thesis
    using that [of i b0 ?q] i(1,2) new by (simp add: b0_def)
qed

end
