(* ===== verification/Order_Book_Best.thy ===== *)
theory Order_Book_Best
  imports Order_Book_Ops
begin

text \<open>
  The cached best prices. \<open>best_ok b\<close>: \<open>best_bid_idx\<close> is the highest index whose level is populated
  and owned by the buy side, and \<open>best_ask_idx\<close> the lowest one owned by the sell side, -1 if there is
  none. Emptying a level and repairing the cache with \<open>fix_best\<close>, or populating a level and then
  \<open>raise_best\<close>, keeps this, in the order-by-order book and in the aggregated one alike.
\<close>

definition highest :: "(nat \<Rightarrow> bool) \<Rightarrow> int \<Rightarrow> bool" where
  "highest P k \<longleftrightarrow> k = - 1 \<and> (\<forall>j. \<not> P j) \<or> 0 \<le> k \<and> P (nat k) \<and> (\<forall>j. P j \<longrightarrow> int j \<le> k)"

definition lowest :: "(nat \<Rightarrow> bool) \<Rightarrow> int \<Rightarrow> bool" where
  "lowest P k \<longleftrightarrow> k = - 1 \<and> (\<forall>j. \<not> P j) \<or> 0 \<le> k \<and> P (nat k) \<and> (\<forall>j. P j \<longrightarrow> k \<le> int j)"

lemma highest_unique: "highest P k \<Longrightarrow> highest P l \<Longrightarrow> k = l"
  by (smt (verit) highest_def nat_0_le)

lemma lowest_unique: "lowest P k \<Longrightarrow> lowest P l \<Longrightarrow> k = l"
  by (smt (verit) lowest_def nat_0_le)

lemma highest_cong: "(\<And>j. P j = Q j) \<Longrightarrow> highest P k = highest Q k"
  by (simp add: highest_def)

lemma lowest_cong: "(\<And>j. P j = Q j) \<Longrightarrow> lowest P k = lowest Q k"
  by (simp add: lowest_def)

lemma highest_insert:
  assumes "highest Q k" and "\<And>j. P j \<longleftrightarrow> Q j \<or> j = i"
  shows "highest P (if k < 0 \<or> int i > k then int i else k)"
  using assms by (auto simp: highest_def)

lemma lowest_insert:
  assumes "lowest Q k" and "\<And>j. P j \<longleftrightarrow> Q j \<or> j = i"
  shows "lowest P (if k < 0 \<or> int i < k then int i else k)"
  using assms by (auto simp: lowest_def)

lemma highest_below:
  assumes "highest P (int i)" and "highest (\<lambda>j. j < i \<and> Q j) k" and "\<And>j. j \<noteq> i \<Longrightarrow> Q j = P j"
  shows "highest (\<lambda>j. j \<noteq> i \<and> P j) k"
proof (rule highest_cong [THEN iffD1, OF _ assms(2)])
  show "(j < i \<and> Q j) = (j \<noteq> i \<and> P j)" for j
    using assms(1,3) by (auto simp: highest_def)
qed

lemma lowest_above:
  assumes "lowest P (int i)" and "lowest (\<lambda>j. Suc i \<le> j \<and> Q j) k" and "\<And>j. j \<noteq> i \<Longrightarrow> Q j = P j"
  shows "lowest (\<lambda>j. j \<noteq> i \<and> P j) k"
proof (rule lowest_cong [THEN iffD1, OF _ assms(2)])
  show "(Suc i \<le> j \<and> Q j) = (j \<noteq> i \<and> P j)" for j
    using assms(1,3) by (auto simp: lowest_def Suc_le_eq nat_less_le)
qed

lemma highest_remove:
  assumes "highest P k" and "k \<noteq> int i"
  shows "highest (\<lambda>j. j \<noteq> i \<and> P j) k"
  using assms by (auto simp: highest_def)

lemma lowest_remove:
  assumes "lowest P k" and "k \<noteq> int i"
  shows "lowest (\<lambda>j. j \<noteq> i \<and> P j) k"
  using assms by (auto simp: lowest_def)

section \<open>Scans find the best level\<close>

definition owned :: "side \<Rightarrow> price_level list \<Rightarrow> nat \<Rightarrow> bool" where
  "owned s lvs j \<longleftrightarrow> j < length lvs \<and> order_count (lvs ! j) > 0 \<and> lvl_side (lvs ! j) = s"

lemma scan_bid_highest:
  "n \<le> length lvs \<Longrightarrow> \<exists>k. scan_bid lvs n = Some k \<and> highest (\<lambda>j. j < n \<and> owned Buy lvs j) k"
proof (induction n)
  case 0
  then show ?case by (simp add: highest_def)
next
  case (Suc n)
  then obtain k where k: "scan_bid lvs n = Some k" "highest (\<lambda>j. j < n \<and> owned Buy lvs j) k"
    by auto
  show ?case
  proof (cases "owned Buy lvs n")
    case True
    moreover from True have "scan_bid lvs (Suc n) = Some (int n)"
      using Suc.prems by (simp add: owned_def access_simps)
    ultimately show ?thesis by (auto simp: highest_def)
  next
    case False
    then have "scan_bid lvs (Suc n) = Some k"
      using Suc.prems k by (auto simp: owned_def access_simps)
    moreover have "(j < Suc n \<and> owned Buy lvs j) = (j < n \<and> owned Buy lvs j)" for j
      using False by (auto simp: less_Suc_eq)
    ultimately show ?thesis using k(2) by simp
  qed
qed

lemma scan_ask_lowest: "lowest (\<lambda>j. i \<le> j \<and> owned Sell lvs j) (scan_ask lvs i)"
proof (induction lvs i rule: scan_ask.induct)
  case (1 lvs i)
  consider (out) "\<not> i < length lvs" | (hit) "owned Sell lvs i"
    | (miss) "i < length lvs" "\<not> owned Sell lvs i" by blast
  then show ?case
  proof cases
    case out
    then show ?thesis by (auto simp: scan_ask.simps [of lvs i] lowest_def owned_def)
  next
    case hit
    then show ?thesis by (auto simp: scan_ask.simps [of lvs i] lowest_def owned_def)
  next
    case miss
    then have "scan_ask lvs i = scan_ask lvs (Suc i)"
      by (auto simp: scan_ask.simps [of lvs i] owned_def)
    moreover have "(i \<le> j \<and> owned Sell lvs j) = (Suc i \<le> j \<and> owned Sell lvs j)" for j
      using miss(2) by (metis Suc_leD le_antisym not_less_eq_eq)
    moreover have "lowest (\<lambda>j. Suc i \<le> j \<and> owned Sell lvs j) (scan_ask lvs (Suc i))"
      using miss by (intro 1) (auto simp: owned_def)
    ultimately show ?thesis by simp
  qed
qed

section \<open>The cache\<close>

definition best_ok :: "order_book \<Rightarrow> bool" where
  "best_ok b \<longleftrightarrow> highest (owned Buy (levels b)) (best_bid_idx b)
     \<and> lowest (owned Sell (levels b)) (best_ask_idx b)"

definition best_except :: "nat \<Rightarrow> order_book \<Rightarrow> bool" where
  "best_except i b \<longleftrightarrow> highest (\<lambda>j. j \<noteq> i \<and> owned Buy (levels b) j) (best_bid_idx b)
     \<and> lowest (\<lambda>j. j \<noteq> i \<and> owned Sell (levels b) j) (best_ask_idx b)"

text \<open>Repairing the cache after the level \<open>i\<close>, owned by \<open>s\<close> before, has changed.\<close>

lemma fix_best_except:
  assumes ok: "best_ok b" and len: "length (levels b0) = length (levels b)"
    and i: "i < length (levels b)" and rest: "\<And>j. j \<noteq> i \<Longrightarrow> levels b0 ! j = levels b ! j"
    and best: "best_bid_idx b0 = best_bid_idx b" "best_ask_idx b0 = best_ask_idx b"
    and side: "owned Buy (levels b) i \<Longrightarrow> s = Buy" "owned Sell (levels b) i \<Longrightarrow> s = Sell"
    and run: "fix_best s (int i) b0 = Some b'"
  shows "best_except i b' \<and> levels b' = levels b0"
proof -
  let ?P = "owned Buy (levels b)" and ?Q = "owned Sell (levels b)"
  have same: "owned t (levels b0) j = owned t (levels b) j" if "j \<noteq> i" for j t
    using that rest len by (simp add: owned_def)
  have old: "highest ?P (best_bid_idx b)" "lowest ?Q (best_ask_idx b)"
    using ok by (auto simp: best_ok_def)
  have keep_bid: "highest (\<lambda>j. j \<noteq> i \<and> ?P j) (best_bid_idx b)"
    if "\<not> (s = Buy \<and> int i = best_bid_idx b)"
  proof (cases "best_bid_idx b = int i")
    case True
    with that side(1) old(1) show ?thesis by (auto simp: highest_def)
  next
    case False
    with old(1) show ?thesis by (rule highest_remove)
  qed
  have keep_ask: "lowest (\<lambda>j. j \<noteq> i \<and> ?Q j) (best_ask_idx b)"
    if "\<not> (s = Sell \<and> int i = best_ask_idx b)"
  proof (cases "best_ask_idx b = int i")
    case True
    with that side(2) old(2) show ?thesis by (auto simp: lowest_def)
  next
    case False
    with old(2) show ?thesis by (rule lowest_remove)
  qed
  have swap: "best_except i c = (highest (\<lambda>j. j \<noteq> i \<and> ?P j) (best_bid_idx c)
      \<and> lowest (\<lambda>j. j \<noteq> i \<and> ?Q j) (best_ask_idx c))" if "levels c = levels b0" for c
    unfolding best_except_def that using same by (simp cong: conj_cong)
  consider (bid) "s = Buy" "int i = best_bid_idx b" | (ask) "s = Sell" "int i = best_ask_idx b"
    | (none) "\<not> (s = Buy \<and> int i = best_bid_idx b)" "\<not> (s = Sell \<and> int i = best_ask_idx b)"
    by blast
  then show ?thesis
  proof cases
    case bid
    obtain k where k: "scan_bid (levels b0) i = Some k"
      "highest (\<lambda>j. j < i \<and> owned Buy (levels b0) j) k"
      using scan_bid_highest [of i "levels b0"] i len by auto
    then have b': "b' = b0\<lparr>best_bid_idx := k\<rparr>"
      using run bid(1) best by (simp add: fix_best_def rescan_best_bid_from_def bid(2) [symmetric])
    have "highest (\<lambda>j. j \<noteq> i \<and> ?P j) k"
      by (rule highest_below [OF _ k(2) same]) (use old(1) bid(2) in simp)
    moreover have "lowest (\<lambda>j. j \<noteq> i \<and> ?Q j) (best_ask_idx b)"
      by (rule keep_ask) (simp add: bid(1))
    ultimately show ?thesis using swap [of b'] best by (simp add: b')
  next
    case ask
    let ?k = "scan_ask (levels b0) (Suc i)"
    have "nat (int i + 1) = Suc i" by simp
    then have b': "b' = b0\<lparr>best_ask_idx := ?k\<rparr>"
      using run ask(1) best by (simp add: fix_best_def rescan_best_ask_from_def ask(2) [symmetric])
    have "lowest (\<lambda>j. j \<noteq> i \<and> ?Q j) ?k"
      by (rule lowest_above [OF _ scan_ask_lowest same]) (use old(2) ask(2) in simp)
    moreover have "highest (\<lambda>j. j \<noteq> i \<and> ?P j) (best_bid_idx b)"
      by (rule keep_bid) (simp add: ask(1))
    ultimately show ?thesis using swap [of b'] best by (simp add: b')
  next
    case none
    then have "b' = b0" using run best by (auto simp: fix_best_def)
    then show ?thesis using swap [of b0] best keep_bid keep_ask none by simp
  qed
qed

lemma best_ok_of_except:
  assumes "best_except i b" and "order_count (levels b ! i) = 0"
  shows "best_ok b"
proof -
  have "(j \<noteq> i \<and> owned s (levels b) j) = owned s (levels b) j" for j s
    using assms(2) by (auto simp: owned_def)
  with assms(1) show ?thesis by (simp add: best_except_def best_ok_def)
qed

text \<open>Publishing a populated level.\<close>

lemma raise_best_ok:
  assumes "highest Q (best_bid_idx b)" and "\<And>j. owned Buy (levels b) j \<longleftrightarrow> Q j \<or> j = i \<and> s = Buy"
    and "lowest R (best_ask_idx b)" and "\<And>j. owned Sell (levels b) j \<longleftrightarrow> R j \<or> j = i \<and> s = Sell"
  shows "best_ok (raise_best s (int i) b)"
proof -
  have bid: "highest (owned Buy (levels b))
    (if s = Buy \<and> (best_bid_idx b < 0 \<or> int i > best_bid_idx b) then int i else best_bid_idx b)"
  proof (cases "s = Buy")
    case True
    then show ?thesis using highest_insert [OF assms(1), of "owned Buy (levels b)" i] assms(2) by simp
  next
    case False
    then have "owned Buy (levels b) = Q" using assms(2) by (simp add: fun_eq_iff)
    with False assms(1) show ?thesis by simp
  qed
  have ask: "lowest (owned Sell (levels b))
    (if s = Sell \<and> (best_ask_idx b < 0 \<or> int i < best_ask_idx b) then int i else best_ask_idx b)"
  proof (cases "s = Sell")
    case True
    then show ?thesis using lowest_insert [OF assms(3), of "owned Sell (levels b)" i] assms(4) by simp
  next
    case False
    then have "owned Sell (levels b) = R" using assms(4) by (simp add: fun_eq_iff)
    with False assms(3) show ?thesis by simp
  qed
  from bid ask show ?thesis by (cases s) (auto simp: raise_best_def best_ok_def split: if_splits)
qed

lemma raise_best_sel [simp]:
  "levels (raise_best s i b) = levels b" "bk_cfg (raise_best s i b) = bk_cfg b"
  "bk_stats (raise_best s i b) = bk_stats b" "pool (raise_best s i b) = pool b"
  "index (raise_best s i b) = index b" "live_orders (raise_best s i b) = live_orders b"
  by (simp_all add: raise_best_def)

lemma raise_best_repr:
  assumes "book_repr b q A" and "i < length (levels b)"
  shows "book_repr (raise_best s (int i) b) q A"
  using assms by (simp add: book_repr_def raise_best_def)

lemma best_ok_count [simp]: "best_ok (count f b) = best_ok b"
  by (simp add: best_ok_def)

end
