(* ===== verification/Order_Book_Apply.thy ===== *)
theory Order_Book_Apply
  imports Order_Book_Best
begin

text \<open>
  The reducing operations and the event dispatcher: \<open>apply_event\<close> implements \<open>spec_apply\<close>.
\<close>

section \<open>Reducing an order\<close>

definition shrink :: "u64 \<Rightarrow> u32 \<Rightarrow> resting \<Rightarrow> resting" where
  "shrink r d x = (if rs_ref x = r then x\<lparr>rs_size := rs_size x - d\<rparr> else x)"

definition spec_shrink :: "u64 \<Rightarrow> u32 \<Rightarrow> resting list \<Rightarrow> resting list" where
  "spec_shrink r d A = map (shrink r d) A"

lemma shrink_sel [simp]:
  "rs_ref (shrink r d x) = rs_ref x" "rs_price (shrink r d x) = rs_price x"
  "rs_side (shrink r d x) = rs_side x" "rs_ref \<circ> shrink r d = rs_ref"
  by (simp_all add: shrink_def fun_eq_iff)

lemma spec_shrink_simps [simp]:
  "spec_shrink r d [] = []" "spec_shrink r d (x # A) = shrink r d x # spec_shrink r d A"
  "spec_shrink r d (A @ B) = spec_shrink r d A @ spec_shrink r d B"
  "length (spec_shrink r d A) = length A" "spec_shrink r d A = [] \<longleftrightarrow> A = []"
  by (simp_all add: spec_shrink_def)

lemma refs_shrink [simp]: "refs (spec_shrink r d A) = refs A"
  by (induction A) auto

lemma at_level_shrink: "at_level cfg i (spec_shrink r d A) = spec_shrink r d (at_level cfg i A)"
  by (induction A) auto

lemma side_at_level_shrink:
  "x \<in> set (at_level cfg i (spec_shrink r d A)) \<Longrightarrow> \<exists>y \<in> set (at_level cfg i A). rs_side y = rs_side x"
  by (simp only: at_level_shrink) (auto simp: spec_shrink_def)

lemma spec_shrink_notin: "r \<notin> refs A \<Longrightarrow> spec_shrink r d A = A"
  by (induction A) (auto simp: shrink_def)

lemma spec_delete_shrink: "spec_delete r (spec_shrink r d A) = spec_delete r A"
  by (induction A) (auto simp: spec_delete_def shrink_def)

lemma spec_ok_shrink:
  assumes "spec_ok cfg A"
  shows "spec_ok cfg (spec_shrink r d A)"
  using assms by (auto simp: spec_ok_def spec_shrink_def)

lemma spec_reduce_cases:
  assumes "spec_ok cfg A" and "x \<in> set A"
  shows "spec_reduce (rs_ref x) n A =
    (if rs_size x \<le> n then spec_delete (rs_ref x) A else spec_shrink (rs_ref x) n A)"
proof -
  obtain B C where A: "A = B @ x # C" using assms(2) by (meson split_list)
  have d: "distinct (map rs_ref (B @ x # C))" using assms(1) unfolding spec_ok_def A by blast
  then have "rs_ref x \<notin> refs B" "rs_ref x \<notin> refs C" by (auto simp: refs_def)
  then have "spec_shrink (rs_ref x) n (B @ x # C) = B @ x\<lparr>rs_size := rs_size x - n\<rparr> # C"
    using spec_shrink_notin [of "rs_ref x" B n] spec_shrink_notin [of "rs_ref x" C n]
    by (simp add: shrink_def)
  with spec_reduce_split [OF d, of n] spec_delete_split [OF d] show ?thesis by (simp add: A)
qed

lemma ucast_minus_u32:
  assumes "(d :: u32) \<le> s"
  shows "(ucast (s - d) :: u64) = ucast s - ucast d"
proof (rule word_unat_eq_iff [THEN iffD2])
  have "unat d \<le> unat s" using assms by (simp add: word_le_nat_alt)
  moreover have "(ucast d :: u64) \<le> ucast s"
    using assms by (simp add: word_le_nat_alt)
  ultimately show "unat (ucast (s - d) :: u64) = unat (ucast s - ucast d :: u64)"
    using assms by (simp add: unat_sub)
qed

lemma level_total_shrink:
  assumes "distinct (map rs_ref L)" and "x \<in> set L" and "d \<le> rs_size x"
  shows "level_total (spec_shrink (rs_ref x) d L) = level_total L - ucast d"
proof -
  obtain B C where L: "L = B @ x # C" using assms(2) by (meson split_list)
  then have "rs_ref x \<notin> refs B" "rs_ref x \<notin> refs C" using assms(1) by (auto simp: refs_def)
  then have "spec_shrink (rs_ref x) d L = B @ x\<lparr>rs_size := rs_size x - d\<rparr> # C"
    using spec_shrink_notin [of "rs_ref x" B d] spec_shrink_notin [of "rs_ref x" C d]
    by (simp add: shrink_def L)
  then show ?thesis using assms(3) by (simp add: L ucast_minus_u32)
qed

lemma shrunk_level:
  assumes ok: "level_ok ns idx i lvl ps L" and p: "p \<in> set ps" and d: "d \<le> o_size (ns ! p)"
    and dist: "distinct (map rs_ref L)"
  shows "level_ok (ns[p := (ns ! p)\<lparr>o_size := o_size (ns ! p) - d\<rparr>]) idx i
    (lvl\<lparr>aggregate_size := aggregate_size lvl - ucast d\<rparr>) ps (spec_shrink (o_ref (ns ! p)) d L)"
proof -
  let ?ns = "ns[p := (ns ! p)\<lparr>o_size := o_size (ns ! p) - d\<rparr>]" and ?r = "o_ref (ns ! p)"
  have ob: "dll ns lvl ps" "map (\<lambda>a. view (ns ! a)) ps = L"
    "\<And>a. a \<in> set ps \<Longrightarrow> unat (o_level (ns ! a)) = i \<and> idx (o_ref (ns ! a)) = Some a"
    "order_count lvl = of_nat (length L)" "aggregate_size lvl = level_total L"
    "L = [] \<longrightarrow> lvl_side lvl = NoSide"
    using ok unfolding level_ok_def by blast+
  have len: "p < length ns" using ob(1) p by (auto simp: dll_def)
  have at: "?ns ! a = (if a = p then (ns ! p)\<lparr>o_size := o_size (ns ! p) - d\<rparr> else ns ! a)" for a
    using len by (auto simp: nth_list_update)
  have "dseg ?ns None ps None = dseg ns None ps None"
    by (rule dseg_cong) (simp add: at)
  then have "dll ?ns (lvl\<lparr>aggregate_size := aggregate_size lvl - ucast d\<rparr>) ps"
    using ob(1) by (simp add: dll_def)
  moreover have "map (\<lambda>a. view (?ns ! a)) ps = spec_shrink ?r d L"
    unfolding ob(2) [symmetric] spec_shrink_def map_map
  proof (rule map_cong [OF refl])
    fix a assume a: "a \<in> set ps"
    have "o_ref (ns ! a) = ?r \<longleftrightarrow> a = p" using ob(3) [OF a] ob(3) [OF p] by (metis option.inject)
    then show "view (?ns ! a) = (shrink ?r d \<circ> (\<lambda>a. view (ns ! a))) a"
      by (simp add: at view_def shrink_def)
  qed
  moreover have "level_total (spec_shrink ?r d L) = level_total L - ucast d"
    using level_total_shrink [OF dist level_ok_view [OF ok p], of d] d by simp
  ultimately show ?thesis
    using ob by (auto simp: level_ok_def at)
qed

lemma shrink_core:
  assumes repr: "book_repr b q A" and r: "index b r = Some p"
    and d: "d \<le> o_size (nodes (pool b) ! p)"
    and b1: "b1 = b\<lparr>levels := (levels b)[unat (o_level (nodes (pool b) ! p)) :=
        (levels b ! unat (o_level (nodes (pool b) ! p)))
          \<lparr>aggregate_size := aggregate_size (levels b ! unat (o_level (nodes (pool b) ! p))) - ucast d\<rparr>],
      pool := (pool b)\<lparr>nodes := (nodes (pool b))
        [p := (nodes (pool b) ! p)\<lparr>o_size := o_size (nodes (pool b) ! p) - d\<rparr>]\<rparr>\<rparr>"
  shows "book_repr b1 q (spec_shrink r d A)"
proof -
  let ?cfg = "bk_cfg b" and ?ns = "nodes (pool b)" and ?A = "spec_shrink r d A"
  from repr_find [OF repr r] obtain i xs ys where i: "i < length (levels b)" "q i = xs @ p # ys"
    "o_ref (?ns ! p) = r" "unat (o_level (?ns ! p)) = i" "p < length ?ns" "p \<in> live_nodes (pool b)" .
  let ?ns1 = "?ns[p := (?ns ! p)\<lparr>o_size := o_size (?ns ! p) - d\<rparr>]"
  have lev: "level_ok ?ns (index b) j (levels b ! j) (q j) (at_level ?cfg j A)"
    if "j < length (levels b)" for j using repr that by (simp add: book_repr_def)
  have sok: "spec_ok ?cfg A" using repr by (simp add: book_repr_def)
  have p: "p \<in> set (q i)" using i(2) by simp
  have mem: "view (?ns ! p) \<in> set (at_level ?cfg i A)" using repr_level_nodes [OF repr i(1) p] by simp
  from shrunk_level [OF lev [OF i(1)] p d spec_ok_level [OF sok]]
  have new: "level_ok ?ns1 (index b) i ((levels b ! i)\<lparr>aggregate_size :=
      aggregate_size (levels b ! i) - ucast d\<rparr>) (q i) (at_level ?cfg i ?A)"
    by (simp add: at_level_shrink i(3))
  have others: "level_ok ?ns1 (index b) j (levels b ! j) (q j) (at_level ?cfg j ?A)"
    if j: "j < length (levels b)" "j \<noteq> i" for j
  proof -
    have "r \<notin> refs (at_level ?cfg j A)"
      using other_level_ref [OF sok mem, of _ j] j(2) i(3) by (auto simp: refs_def)
    then have "at_level ?cfg j ?A = at_level ?cfg j A"
      by (simp add: at_level_shrink spec_shrink_notin)
    moreover have "?ns1 ! a = ?ns ! a" if "a \<in> set (q j)" for a
      using repr_queues_disjoint [OF repr j(1) i(1) j(2) that] p
      by (metis nth_list_update_neq)
    ultimately show ?thesis using level_ok_cong [OF lev [OF j(1)], of ?ns1 "index b"] by simp
  qed
  have "pool_ok ((pool b)\<lparr>nodes := ?ns1\<rparr>) \<and> live_nodes ((pool b)\<lparr>nodes := ?ns1\<rparr>) = live_nodes (pool b)"
  proof (rule put_nodes_ok)
    show "pool_ok (pool b)" using repr by (simp add: book_repr_def)
    show "?ns1 ! a = ?ns ! a" if "a \<notin> live_nodes (pool b)" for a
      using that i(6) by (metis nth_list_update_neq)
  qed simp
  with repr new others spec_ok_shrink [OF sok, of r d] i(1,4) show ?thesis
    by (auto simp: book_repr_def b1 nth_list_update)
qed

section \<open>Price levels of one side, and the cache\<close>

definition sides_ok :: "order_book \<Rightarrow> resting list \<Rightarrow> bool" where
  "sides_ok b A \<longleftrightarrow> (\<forall>i < length (levels b). \<forall>x \<in> set (at_level (bk_cfg b) i A).
     lvl_side (levels b ! i) = rs_side x)"

definition tops :: "order_book \<Rightarrow> resting list \<Rightarrow> bool" where
  "tops b A \<longleftrightarrow> best_ok b \<and> sides_ok b A"

lemma tops_count [simp]: "tops (count f b) A = tops b A"
  by (simp add: tops_def sides_ok_def)

text \<open>What each operation establishes, for the specification's result \<open>A'\<close>.\<close>

definition refines_to ::
    "order_book option \<Rightarrow> resting list \<Rightarrow> order_book \<Rightarrow> resting list \<Rightarrow> bool" where
  "refines_to res A' b A \<longleftrightarrow> (\<exists>b' q'. res = Some b' \<and> book_repr b' q' A' \<and> bk_cfg b' = bk_cfg b
     \<and> (tops b A \<and> side_pure (bk_cfg b) A' \<longrightarrow> tops b' A'))"

lemma remove_refines:
  assumes repr: "book_repr b q A" and r: "index b r = Some p"
  shows "refines_to (remove_order p b) (spec_delete r A) b A"
proof -
  let ?A = "spec_delete r A" and ?cfg = "bk_cfg b" and ?n = "nodes (pool b) ! p"
  obtain i b0 q' where c: "i < length (levels b)"
    "view ?n \<in> set (at_level ?cfg i A)"
    "remove_order p b = (if at_level ?cfg i ?A = [] then fix_best (o_side ?n) (int i) b0 else Some b0)"
    "book_repr b0 q' ?A"
    "lvl_side (levels b0 ! i) = (if at_level ?cfg i ?A = [] then NoSide else lvl_side (levels b ! i))"
    "\<And>j. j \<noteq> i \<Longrightarrow> levels b0 ! j = levels b ! j"
    "best_bid_idx b0 = best_bid_idx b" "best_ask_idx b0 = best_ask_idx b" "bk_cfg b0 = ?cfg"
    by (rule remove_core [OF repr r]) blast
  have len: "length (levels b0) = length (levels b)"
    using repr c(4,9) by (simp add: book_repr_def)
  have sub: "set (at_level ?cfg j ?A) \<subseteq> set (at_level ?cfg j A)" for j
    by (auto simp: set_at_level spec_delete_def)
  have sides: "sides_ok b' ?A" if "sides_ok b A" "levels b' = levels b0" "bk_cfg b' = ?cfg" for b'
    unfolding sides_ok_def
  proof (intro allI ballI impI)
    fix j x assume j: "j < length (levels b')" and x: "x \<in> set (at_level (bk_cfg b') j ?A)"
    then have "lvl_side (levels b ! j) = rs_side x"
      using that sub [of j] len by (auto simp: sides_ok_def)
    with x c(5,6) that(2,3) show "lvl_side (levels b' ! j) = rs_side x"
      by (cases "j = i") auto
  qed
  show ?thesis
  proof (cases "at_level ?cfg i ?A = []")
    case True
    then obtain b' where b': "remove_order p b = Some b'" "book_repr b' q' ?A"
      "levels b' = levels b0" "bk_cfg b' = bk_cfg b0"
      using fix_best_ok [OF c(4), of i "o_side ?n"] c(1,3) len by auto
    have "best_ok b'" if "tops b A"
    proof -
      have side: "lvl_side (levels b ! i) = o_side ?n"
        using that c(1,2) by (auto simp: tops_def sides_ok_def)
      have "best_except i b' \<and> levels b' = levels b0"
      proof (rule fix_best_except [OF _ len c(1) c(6-8)])
        show "best_ok b" using that by (simp add: tops_def)
        show "fix_best (o_side ?n) (int i) b0 = Some b'" using b'(1) c(3) True by simp
      qed (use side in \<open>auto simp: owned_def\<close>)
      moreover have "order_count (levels b0 ! i) = 0"
        using repr_order_count [OF c(4), of i] c(1,9) len True by simp
      ultimately show ?thesis by (metis best_ok_of_except)
    qed
    with b' c(9) sides [of b'] show ?thesis
      by (auto simp: refines_to_def tops_def)
  next
    case False
    have pos: "order_count (levels b0 ! i) > 0" "order_count (levels b ! i) > 0"
      using repr_order_count [OF c(4), of i] repr_order_count [OF repr c(1)] c(1,2,9) len False
      by (auto simp: word_neq_0_conv)
    have "owned s (levels b0) j = owned s (levels b) j" for s j
      using pos c(5) c(6) [of j] len False by (cases "j = i") (auto simp: owned_def)
    then have "owned s (levels b0) = owned s (levels b)" for s by blast
    then have "best_ok b0" if "best_ok b"
      using that c(7,8) by (simp add: best_ok_def)
    with c(3,4,9) sides [of b0] False show ?thesis
      by (auto simp: refines_to_def tops_def)
  qed
qed

lemma refines_to_count [simp]: "refines_to res A' (count f b) A = refines_to res A' b A"
  by (simp add: refines_to_def)

lemma refines_to_same:
  assumes "book_repr b q A"
  shows "refines_to (Some b) A b A" and "refines_to (Some (count f b)) A b A"
  using assms by (auto simp: refines_to_def)

lemma refines_to_trans:
  assumes "refines_to x A' b A" and "side_pure (bk_cfg b) A'' \<Longrightarrow> side_pure (bk_cfg b) A'"
    and "\<And>b' q'. x = Some b' \<Longrightarrow> book_repr b' q' A' \<Longrightarrow> bk_cfg b' = bk_cfg b \<Longrightarrow> refines_to (f b') A'' b' A'"
  shows "refines_to (Option.bind x f) A'' b A"
proof -
  obtain b' q' where b': "x = Some b'" "book_repr b' q' A'" "bk_cfg b' = bk_cfg b"
    "tops b A \<and> side_pure (bk_cfg b) A' \<longrightarrow> tops b' A'"
    using assms(1) unfolding refines_to_def by blast
  from assms(3) [OF b'(1-3)] obtain b'' q'' where "f b' = Some b''" "book_repr b'' q'' A''"
    "bk_cfg b'' = bk_cfg b'" "tops b' A' \<and> side_pure (bk_cfg b') A'' \<longrightarrow> tops b'' A''"
    unfolding refines_to_def by blast
  with b' assms(2) show ?thesis unfolding refines_to_def by auto
qed

lemma repr_index: "book_repr b q A \<Longrightarrow> index b r \<noteq> None \<longleftrightarrow> r \<in> refs A"
  by (auto simp: book_repr_def)

lemma add_refines:
  assumes repr: "book_repr b q A" and room: "Suc (length A) < 2 ^ 32"
  shows "refines_to (on_add ev b) (spec_add (bk_cfg b) ev A) b A"
proof -
  let ?cfg = "bk_cfg b"
  have tick: "1 \<le> tick_size ?cfg" using repr by (simp add: book_repr_def good_config_def)
  consider (out) "to_index ?cfg (price_ticks ev) < 0" | (dup) "0 \<le> to_index ?cfg (price_ticks ev)"
      "order_ref ev \<in> refs A"
    | (new) "0 \<le> to_index ?cfg (price_ticks ev)" "order_ref ev \<notin> refs A" by linarith
  then show ?thesis
  proof cases
    case out
    then have "spec_add ?cfg ev A = A"
      using to_index_nonneg [OF tick, of "price_ticks ev"] by (auto simp: spec_add_def)
    with out refines_to_same [OF repr] show ?thesis by (simp add: on_add_def Let_def)
  next
    case dup
    then have "on_add ev b = Some b" "spec_add ?cfg ev A = A"
      using repr_index [OF repr, of "order_ref ev"] by (auto simp: on_add_def Let_def spec_add_def)
    with refines_to_same [OF repr] show ?thesis by simp
  next
    case new
    let ?x = "event_order ev"
    have A': "spec_add ?cfg ev A = A @ [?x]"
      using new to_index_nonneg [OF tick, of "price_ticks ev"]
      by (auto simp: spec_add_def event_order_def)
    obtain i b0 q' where c: "to_index ?cfg (price_ticks ev) = int i" "i < length (levels b)"
      "on_add ev b = Some (raise_best (ev_side ev) (int i) b0)" "book_repr b0 q' (A @ [?x])"
      "lvl_side (levels b0 ! i) = (if at_level ?cfg i A = [] then ev_side ev else lvl_side (levels b ! i))"
      "\<And>j. j \<noteq> i \<Longrightarrow> levels b0 ! j = levels b ! j"
      "best_bid_idx b0 = best_bid_idx b" "best_ask_idx b0 = best_ask_idx b" "bk_cfg b0 = ?cfg"
      by (rule add_core [OF repr new room]) blast
    have len: "length (levels b0) = length (levels b)"
      using repr c(4,9) by (simp add: book_repr_def)
    have "tops (raise_best (ev_side ev) (int i) b0) (A @ [?x])"
      if tops: "tops b A" and pure: "side_pure ?cfg (A @ [?x])"
    proof -
      have own: "lvl_side (levels b ! i) = ev_side ev" if ne: "at_level ?cfg i A \<noteq> []"
      proof -
        obtain y where y: "y \<in> set (at_level ?cfg i A)" using ne by (cases "at_level ?cfg i A") auto
        then have "rs_side y = ev_side ev"
          using pure c(1) by (auto simp: side_pure_def set_at_level)
        with y tops c(2) show ?thesis by (auto simp: tops_def sides_ok_def)
      qed
      have side_i: "lvl_side (levels b0 ! i) = ev_side ev" using own c(5) by simp
      have cnt: "order_count (levels b0 ! i) > 0"
        using repr_order_count [OF c(4), of i] c(1,2,9) len by (auto simp: word_neq_0_conv)
      have old: "order_count (levels b ! i) > 0 \<longrightarrow> lvl_side (levels b ! i) = ev_side ev"
        using repr_order_count [OF repr c(2)] own by auto
      have owned: "owned s (levels b0) j \<longleftrightarrow> owned s (levels b) j \<or> j = i \<and> ev_side ev = s" for s j
        using side_i cnt old c(2) c(6) [of j] len by (cases "j = i") (auto simp: owned_def)
      have "best_ok (raise_best (ev_side ev) (int i) b0)"
        by (rule raise_best_ok [OF _ owned _ owned])
           (use tops c(7,8) in \<open>auto simp: tops_def best_ok_def\<close>)
      moreover have "sides_ok (raise_best (ev_side ev) (int i) b0) (A @ [?x])"
        unfolding sides_ok_def
      proof (intro allI ballI impI)
        fix j y assume "j < length (levels (raise_best (ev_side ev) (int i) b0))"
          and "y \<in> set (at_level (bk_cfg (raise_best (ev_side ev) (int i) b0)) j (A @ [?x]))"
        then have y: "y \<in> set (at_level ?cfg j A) \<or> y = ?x \<and> j = i" "j < length (levels b)"
          using c(1,9) len by (auto split: if_splits)
        show "lvl_side (levels (raise_best (ev_side ev) (int i) b0) ! j) = rs_side y"
        proof (cases "j = i")
          case True
          with y(1) side_i pure c(1) show ?thesis by (auto simp: side_pure_def set_at_level)
        next
          case False
          with y tops c(6) show ?thesis by (auto simp: tops_def sides_ok_def)
        qed
      qed
      ultimately show ?thesis by (simp add: tops_def)
    qed
    moreover have "book_repr (raise_best (ev_side ev) (int i) b0) q' (A @ [?x])"
      using raise_best_repr [OF c(4)] c(2) len by simp
    ultimately show ?thesis using c(3,9) by (auto simp: refines_to_def A')
  qed
qed

lemma side_pure_mono: "side_pure cfg A \<Longrightarrow> set B \<subseteq> set A \<Longrightarrow> side_pure cfg B"
  by (auto simp: side_pure_def)

lemma side_pure_delete: "side_pure cfg A \<Longrightarrow> side_pure cfg (spec_delete r A)"
  by (rule side_pure_mono) (auto simp: spec_delete_def)

lemma reduce_refines:
  assumes repr: "book_repr b q A" and r: "index b r = Some p"
  shows "refines_to (reduce_order p sh b) (spec_reduce r sh A) b A"
proof -
  let ?cfg = "bk_cfg b" and ?n = "nodes (pool b) ! p"
  from repr_find [OF repr r] obtain i xs ys where i: "i < length (levels b)" "q i = xs @ p # ys"
    "o_ref ?n = r" "unat (o_level ?n) = i" "p < length (nodes (pool b))" .
  define d where "d = min sh (o_size ?n)"
  define b1 where "b1 = b\<lparr>levels := (levels b)[unat (o_level ?n) :=
      (levels b ! unat (o_level ?n))
        \<lparr>aggregate_size := aggregate_size (levels b ! unat (o_level ?n)) - ucast d\<rparr>],
    pool := (pool b)\<lparr>nodes := (nodes (pool b))[p := ?n\<lparr>o_size := o_size ?n - d\<rparr>]\<rparr>\<rparr>"
  have b1: "book_repr b1 q (spec_shrink r d A)"
    by (rule shrink_core [OF repr r _ b1_def]) (simp add: d_def)
  have run: "reduce_order p sh b = (if o_size ?n - d = 0 then remove_order p b1 else Some b1)"
    using i by (simp add: reduce_order_def access_simps Let_def b1_def d_def)
  have "view ?n \<in> set (at_level ?cfg i A)"
    using repr_level_nodes [OF repr i(1), of p] i(2) by simp
  then have mem: "view ?n \<in> set A" by (simp add: set_at_level)
  have sok: "spec_ok ?cfg A" using repr by (simp add: book_repr_def)
  have spec: "spec_reduce r sh A = (if o_size ?n \<le> sh then spec_delete r A else spec_shrink r sh A)"
    using spec_reduce_cases [OF sok mem, of sh] i(3) by simp
  have "owned s (levels b1) j = owned s (levels b) j" for s j
    by (auto simp: owned_def b1_def nth_list_update_if split: if_splits)
  then have "owned s (levels b1) = owned s (levels b)" for s by blast
  then have best: "best_ok b1 = best_ok b" by (simp add: best_ok_def) (simp add: b1_def)
  have sides: "sides_ok b1 (spec_shrink r d A)" if "sides_ok b A"
    unfolding sides_ok_def
  proof (intro allI ballI impI)
    fix j x assume j: "j < length (levels b1)"
      and x: "x \<in> set (at_level (bk_cfg b1) j (spec_shrink r d A))"
    then obtain y where "y \<in> set (at_level ?cfg j A)" "rs_side y = rs_side x"
      using side_at_level_shrink [of x ?cfg j r d A] by (auto simp: b1_def)
    with that j show "lvl_side (levels b1 ! j) = rs_side x"
      by (auto simp: sides_ok_def b1_def nth_list_update_if)
  qed
  have tops: "tops b A \<longrightarrow> tops b1 (spec_shrink r d A)"
    using best sides by (simp add: tops_def)
  have cfg1: "bk_cfg b1 = ?cfg" by (simp add: b1_def)
  show ?thesis
  proof (cases "o_size ?n \<le> sh")
    case True
    then have d: "d = o_size ?n" by (simp add: d_def)
    have "index b1 r = Some p" using r by (simp add: b1_def)
    from remove_refines [OF b1 this] obtain b' q' where b': "remove_order p b1 = Some b'"
      "book_repr b' q' (spec_delete r A)" "bk_cfg b' = bk_cfg b1"
      "tops b1 (spec_shrink r d A) \<and> side_pure (bk_cfg b1) (spec_delete r A) \<longrightarrow> tops b' (spec_delete r A)"
      by (auto simp: refines_to_def spec_delete_shrink)
    with tops cfg1 run d True show ?thesis by (simp add: refines_to_def spec) blast
  next
    case False
    then have d: "d = sh" "o_size ?n - d \<noteq> 0" by (auto simp: d_def min_def)
    with b1 tops cfg1 run False show ?thesis by (auto simp: refines_to_def spec)
  qed
qed

lemma replace_refines:
  assumes repr: "book_repr b q A" and r: "index b (order_ref ev) = Some p"
    and room: "Suc (length A) < 2 ^ 32"
  shows "refines_to (replace_order ev p b) (spec_replace (bk_cfg b) ev A) b A"
proof -
  let ?cfg = "bk_cfg b" and ?n = "nodes (pool b) ! p" and ?A = "spec_delete (order_ref ev) A"
  from repr_find [OF repr r] obtain i xs ys where i: "i < length (levels b)" "q i = xs @ p # ys"
    "o_ref ?n = order_ref ev" "p < length (nodes (pool b))" .
  let ?ev = "ev\<lparr>ev_type := Add, order_ref := new_order_ref ev, ev_side := o_side ?n\<rparr>"
  have "view ?n \<in> set (at_level ?cfg i A)"
    using repr_level_nodes [OF repr i(1), of p] i(2) by simp
  then have mem: "view ?n \<in> set A" by (simp add: set_at_level)
  have sok: "spec_ok ?cfg A" using repr by (simp add: book_repr_def)
  obtain B C where A: "A = B @ view ?n # C" using mem by (meson split_list)
  have "distinct (map rs_ref (B @ view ?n # C))"
    using sok unfolding spec_ok_def A by blast
  from find_ref_split [OF this] have "find_ref (order_ref ev) A = Some (view ?n)"
    unfolding A using i(3) by simp
  then have spec: "spec_replace ?cfg ev A = spec_add ?cfg ?ev ?A"
    by (simp add: spec_replace_def spec_add_def)
  have run: "replace_order ev p b = remove_order p b \<bind> on_add ?ev"
    using i(4) by (simp add: replace_order_def access_simps)
  show ?thesis
    unfolding run spec
  proof (rule refines_to_trans [OF remove_refines [OF repr r]])
    show "side_pure ?cfg ?A" if "side_pure ?cfg (spec_add ?cfg ?ev ?A)"
      using that by (rule side_pure_mono) (auto simp: spec_add_def)
    show "refines_to (on_add ?ev b') (spec_add ?cfg ?ev ?A) b' ?A"
      if "book_repr b' q' ?A" "bk_cfg b' = ?cfg" for b' q'
      using add_refines [OF that(1), of ?ev] that(2) room length_spec_delete [of "order_ref ev" A]
      by simp
  qed
qed

section \<open>Applying events\<close>

lemma with_ref_refines:
  assumes "book_repr b q A" and "\<And>p. index b r = Some p \<Longrightarrow> refines_to (act p b) A' b A"
    and "r \<notin> refs A \<Longrightarrow> A' = A"
  shows "refines_to (with_ref r act b) A' b A"
proof (cases "index b r")
  case None
  with assms(3) repr_index [OF assms(1), of r] refines_to_same [OF assms(1)] show ?thesis
    by (simp add: with_ref_def)
next
  case (Some p)
  with assms(2) show ?thesis by (simp add: with_ref_def)
qed

lemma dispatch_refines:
  assumes repr: "book_repr b q A" and room: "Suc (length A) < 2 ^ 32"
  shows "refines_to (dispatch ev b) (spec_apply (bk_cfg b) ev A) b A"
proof -
  let ?cfg = "bk_cfg b" and ?r = "order_ref ev"
  have repr': "book_repr (count f b) q A" for f using repr by simp
  have add: "refines_to (on_add ev (count f b)) (spec_add ?cfg ev A) b A" for f
    using add_refines [OF repr' room, of ev f] by simp
  have reduce: "refines_to (with_ref ?r (\<lambda>p. reduce_order p (ev_size ev)) (count f b))
      (spec_reduce ?r (ev_size ev) A) b A" for f
    using with_ref_refines [OF repr', where act = "\<lambda>p. reduce_order p (ev_size ev)" and r = ?r
        and A' = "spec_reduce ?r (ev_size ev) A" and f1 = f]
      reduce_refines [OF repr'] by (simp add: spec_reduce_notin)
  have delete: "refines_to (with_ref ?r remove_order (count f b)) (spec_delete ?r A) b A" for f
    using with_ref_refines [OF repr', where act = remove_order and r = ?r
        and A' = "spec_delete ?r A" and f1 = f]
      remove_refines [OF repr'] by (simp add: spec_delete_notin)
  have none: "?r \<notin> refs A \<Longrightarrow> spec_replace ?cfg ev A = A"
    by (simp add: spec_replace_def find_ref_None [THEN iffD2])
  have replace: "refines_to (with_ref ?r (replace_order ev) (count f b)) (spec_replace ?cfg ev A) b A" for f
    using with_ref_refines [OF repr', where act = "replace_order ev" and r = ?r
        and A' = "spec_replace ?cfg ev A" and f1 = f]
      replace_refines [OF repr' _ room] none by simp
  show ?thesis
    using add reduce delete replace refines_to_same [OF repr]
    by (simp add: dispatch_def spec_apply_def split: event_type.split)
qed

lemma book_repr_note_crossed [simp]: "book_repr (note_crossed b) q A = book_repr b q A"
  by (simp add: note_crossed_def)

lemma tops_note_crossed [simp]: "tops (note_crossed b) A = tops b A"
  by (simp add: note_crossed_def)

lemma bk_cfg_note_crossed [simp]: "bk_cfg (note_crossed b) = bk_cfg b"
  by (simp add: note_crossed_def)

lemma apply_refines:
  assumes "book_repr b q A" and "Suc (length A) < 2 ^ 32"
  shows "refines_to (apply_event ev b) (spec_apply (bk_cfg b) ev A) b A"
  using dispatch_refines [OF assms, of ev] by (auto simp: refines_to_def apply_event_def)

text \<open>A run of events; the number of live orders grows by at most one per event.\<close>

fun always_pure :: "book_config \<Rightarrow> market_event list \<Rightarrow> resting list \<Rightarrow> bool" where
  "always_pure cfg [] A \<longleftrightarrow> side_pure cfg A"
| "always_pure cfg (ev # evs) A \<longleftrightarrow> side_pure cfg A \<and> always_pure cfg evs (spec_apply cfg ev A)"

lemma always_pure_start: "always_pure cfg evs A \<Longrightarrow> side_pure cfg A"
  by (cases evs) simp_all

lemma apply_all_refines:
  assumes "book_repr b q A" and "length A + length evs < 2 ^ 32"
  shows "\<exists>b' q'. apply_all evs b = Some b' \<and> book_repr b' q' (spec_all (bk_cfg b) evs A)
    \<and> bk_cfg b' = bk_cfg b
    \<and> (tops b A \<and> always_pure (bk_cfg b) evs A \<longrightarrow> tops b' (spec_all (bk_cfg b) evs A))"
  using assms
proof (induction evs arbitrary: b q A)
  case Nil
  then show ?case by auto
next
  case (Cons ev evs)
  let ?A = "spec_apply (bk_cfg b) ev A"
  obtain b1 q1 where b1: "apply_event ev b = Some b1" "book_repr b1 q1 ?A" "bk_cfg b1 = bk_cfg b"
    "tops b A \<and> side_pure (bk_cfg b) ?A \<longrightarrow> tops b1 ?A"
    using apply_refines [OF Cons.prems(1), of ev] Cons.prems(2) by (auto simp: refines_to_def)
  have "length ?A + length evs < 2 ^ 32"
    using length_spec_apply [of "bk_cfg b" ev A] Cons.prems(2) by simp
  from Cons.IH [OF b1(2) this] b1 show ?case
    by (auto dest: always_pure_start)
qed

end
