(* ===== verification/Order_Book_Top.thy ===== *)
theory Order_Book_Top
  imports Order_Book_Apply
begin

text \<open>
  What a reader of the book sees after a run of events: each price level, the best bid and ask, the
  spread, the crossed test and the depth arrays, all in terms of the specification's live orders.
  The last section shows what happens when the proviso of these theorems, that no level ever holds
  orders of both sides, is broken.
\<close>

text \<open>The orders a level really links, read by following the \<open>next\<close> pointers from \<open>head\<close>.\<close>

definition orders_at :: "order_book \<Rightarrow> nat \<Rightarrow> resting list" where
  "orders_at b i = map (\<lambda>p. view (nodes (pool b) ! p))
     (follow (length (nodes (pool b))) (nodes (pool b)) (head (levels b ! i)))"

lemma dseg_chain: "dseg ns pv ps None \<Longrightarrow> chain ns (first_or ps None) ps"
  by (induction ps arbitrary: pv) auto

lemma orders_at_repr:
  assumes "book_repr b q A" and "i < length (levels b)"
  shows "orders_at b i = at_level (bk_cfg b) i A"
proof -
  let ?ns = "nodes (pool b)"
  have l: "dll ?ns (levels b ! i) (q i)" "map (\<lambda>p. view (?ns ! p)) (q i) = at_level (bk_cfg b) i A"
    using assms unfolding book_repr_def level_ok_def by blast+
  then have "chain ?ns (head (levels b ! i)) (q i)"
    using dseg_chain [of ?ns None "q i"] by (simp add: dll_def)
  moreover have "length (q i) \<le> length ?ns"
    using l(1) by (metis card_lessThan card_mono distinct_card dll_def finite_lessThan)
  ultimately have "follow (length ?ns) ?ns (head (levels b ! i)) = q i" by (rule chain_follow)
  with l(2) show ?thesis by (simp add: orders_at_def)
qed

lemma level_counters_repr:
  assumes "book_repr b q A" and "i < length (levels b)"
  shows "unat (order_count (levels b ! i)) = length (at_level (bk_cfg b) i A)
    \<and> unat (aggregate_size (levels b ! i)) = (\<Sum>x\<leftarrow>at_level (bk_cfg b) i A. unat (rs_size x))"
proof -
  have "aggregate_size (levels b ! i) = level_total (at_level (bk_cfg b) i A)"
    using assms by (simp add: book_repr_def level_ok_def)
  moreover have "length (at_level (bk_cfg b) i A) \<le> 2 ^ 32"
    using assms(1) length_at_level [of "bk_cfg b" i A] by (simp add: book_repr_def)
  then have "unat (level_total (at_level (bk_cfg b) i A)) = (\<Sum>x\<leftarrow>at_level (bk_cfg b) i A. unat (rs_size x))"
    by (rule level_total_exact)
  ultimately show ?thesis
    using repr_order_count [OF assms] by metis
qed

section \<open>The best indices\<close>

lemma foldr_max_highest:
  "(\<forall>i \<in> set ks. 0 \<le> i) \<Longrightarrow> highest (\<lambda>j. int j \<in> set ks) (foldr max ks (-1))"
proof (induction ks)
  case Nil
  then show ?case by (simp add: highest_def)
next
  case (Cons i ks)
  then obtain m where m: "i = int m" by (metis list.set_intros(1) nat_0_le)
  let ?k = "foldr max ks (-1)"
  have "highest (\<lambda>j. int j \<in> set (i # ks)) (if ?k < 0 \<or> int m > ?k then int m else ?k)"
    using Cons by (intro highest_insert) (auto simp: m)
  moreover have "(if ?k < 0 \<or> int m > ?k then int m else ?k) = max i ?k" by (simp add: m max_def)
  ultimately show ?case by simp
qed

lemma foldr_min_lowest:
  "0 \<le> a \<Longrightarrow> (\<forall>i \<in> set ks. 0 \<le> i) \<Longrightarrow> lowest (\<lambda>j. int j \<in> insert a (set ks)) (foldr min ks a)"
proof (induction ks)
  case Nil
  then show ?case by (simp add: lowest_def)
next
  case (Cons i ks)
  then obtain m where m: "i = int m" by (metis list.set_intros(1) nat_0_le)
  let ?k = "foldr min ks a"
  have k: "lowest (\<lambda>j. int j \<in> insert a (set ks)) ?k" using Cons by simp
  have "int (nat a) = a" using Cons.prems(1) by simp
  then have "\<exists>j. int j \<in> insert a (set ks)" by (metis insertI1)
  with k have "0 \<le> ?k" unfolding lowest_def by blast
  then have "(if ?k < 0 \<or> int m < ?k then int m else ?k) = min i ?k" by (simp add: m min_def)
  moreover have "lowest (\<lambda>j. int j \<in> insert a (set (i # ks))) (if ?k < 0 \<or> int m < ?k then int m else ?k)"
    using k by (rule lowest_insert) (auto simp: m)
  ultimately show ?case by simp
qed

lemma side_indices_nonneg:
  "good_config cfg \<Longrightarrow> spec_ok cfg A \<Longrightarrow> \<forall>i \<in> set (side_indices cfg s A). 0 \<le> i"
  by (auto simp: side_indices_def dest: spec_in_band)

lemma top_bid_highest:
  assumes "good_config cfg" and "spec_ok cfg A"
  shows "highest (\<lambda>j. int j \<in> set (side_indices cfg Buy A)) (top_bid cfg A)"
  unfolding top_bid_def by (rule foldr_max_highest [OF side_indices_nonneg [OF assms]])

lemma top_ask_lowest:
  assumes "good_config cfg" and "spec_ok cfg A"
  shows "lowest (\<lambda>j. int j \<in> set (side_indices cfg Sell A)) (top_ask cfg A)"
proof (cases "side_indices cfg Sell A")
  case Nil
  then show ?thesis by (simp add: top_ask_def lowest_def)
next
  case (Cons i "is")
  then show ?thesis
    using foldr_min_lowest [of i "is"] side_indices_nonneg [OF assms, of Sell]
    by (simp add: top_ask_def)
qed

lemma owned_side_indices:
  assumes "book_repr b q A" and "sides_ok b A" and "s \<noteq> NoSide"
  shows "owned s (levels b) j \<longleftrightarrow> int j \<in> set (side_indices (bk_cfg b) s A)"
proof
  assume o1: "owned s (levels b) j"
  then have j: "j < length (levels b)" by (simp add: owned_def)
  with o1 repr_order_count [OF assms(1) j] obtain x where x: "x \<in> set (at_level (bk_cfg b) j A)"
    by (cases "at_level (bk_cfg b) j A") (auto simp: owned_def)
  with assms(2) j o1 have "rs_side x = s" by (auto simp: sides_ok_def owned_def)
  with x show "int j \<in> set (side_indices (bk_cfg b) s A)"
    by (force simp: side_indices_def set_at_level)
next
  assume "int j \<in> set (side_indices (bk_cfg b) s A)"
  then obtain x where x: "x \<in> set A" "rs_side x = s" "to_index (bk_cfg b) (rs_price x) = int j"
    by (auto simp: side_indices_def)
  then have mem: "x \<in> set (at_level (bk_cfg b) j A)" by (simp add: set_at_level)
  have j: "j < length (levels b)"
    using assms(1) spec_in_band [of "bk_cfg b" A x] x by (auto simp: book_repr_def)
  with assms(2) mem x(2) have "lvl_side (levels b ! j) = s" by (auto simp: sides_ok_def)
  with j mem repr_order_count [OF assms(1) j] show "owned s (levels b) j"
    by (auto simp: owned_def word_neq_0_conv)
qed

lemma best_indices:
  assumes "book_repr b q A" and "tops b A"
  shows "best_bid_idx b = top_bid (bk_cfg b) A \<and> best_ask_idx b = top_ask (bk_cfg b) A"
proof -
  have c: "good_config (bk_cfg b)" "spec_ok (bk_cfg b) A" and t: "best_ok b" "sides_ok b A"
    using assms by (auto simp: book_repr_def tops_def)
  have "owned Buy (levels b) = (\<lambda>j. int j \<in> set (side_indices (bk_cfg b) Buy A))"
    "owned Sell (levels b) = (\<lambda>j. int j \<in> set (side_indices (bk_cfg b) Sell A))"
    using owned_side_indices [OF assms(1) t(2)] by auto
  with t(1) top_bid_highest [OF c] top_ask_lowest [OF c] show ?thesis
    by (auto simp: best_ok_def intro: highest_unique lowest_unique)
qed

lemma tops_new: "tops (new_book cfg) []"
proof -
  have "\<not> owned s (levels (new_book cfg)) j" for s j
    by (auto simp: owned_def new_book_def Let_def empty_level_def simp del: replicate.simps)
  then show ?thesis
    by (simp add: tops_def best_ok_def sides_ok_def highest_def lowest_def new_book_def Let_def)
qed

section \<open>A run from an empty book\<close>

definition spec_run :: "book_config \<Rightarrow> market_event list \<Rightarrow> resting list" where
  "spec_run cfg evs = spec_all (fix_config cfg) evs []"

lemma run_repr:
  assumes "good_config (fix_config cfg)" and "length evs < 2 ^ 32"
  obtains b q where "apply_all evs (new_book cfg) = Some b"
    and "book_repr b q (spec_run cfg evs)" and "bk_cfg b = fix_config cfg"
    and "always_pure (fix_config cfg) evs [] \<Longrightarrow> tops b (spec_run cfg evs)"
proof -
  have c: "bk_cfg (new_book cfg) = fix_config cfg" by (simp add: new_book_def Let_def)
  from apply_all_refines [OF book_repr_new [OF assms(1)], of evs] assms(2) tops_new [of cfg] c
  show ?thesis by (auto simp: spec_run_def intro: that)
qed

text \<open>The specification's view of one side's levels, best first.\<close>

definition spec_level :: "book_config \<Rightarrow> resting list \<Rightarrow> nat \<Rightarrow> book_level" where
  "spec_level cfg A i = \<lparr>bl_price = to_price cfg (int i),
     bl_size = level_total (at_level cfg i A), bl_count = of_nat (length (at_level cfg i A)),
     bl_valid = True\<rparr>"

lemma level_view_repr:
  assumes "book_repr b q A" and "i < length (levels b)"
  shows "level_view b (int i) (levels b ! i) = spec_level (bk_cfg b) A i"
  using assms by (simp add: level_view_def spec_level_def book_repr_def level_ok_def)

definition side_levels :: "side \<Rightarrow> order_book \<Rightarrow> nat list" where
  "side_levels s b = filter (owned s (levels b)) [0..<length (levels b)]"

section \<open>Depth\<close>

lemma take_list_update_Suc:
  assumes "c < length out"
  shows "take (Suc c) (out[c := x]) = take c out @ [x]"
  using assms by (simp add: take_Suc_conv_app_nth)

lemma depth_bids_from_ok:
  assumes "i \<le> length (levels b)" and "n \<le> length out" and "c \<le> n"
  shows "\<exists>out' c'. depth_bids_from b n i out c = Some (out', c') \<and> length out' = length out
    \<and> c' = min n (c + length (filter (owned Buy (levels b)) [0..<i])) \<and> drop c' out' = drop c' out
    \<and> take c' out' = take c out @ take (n - c) (map (\<lambda>j. level_view b (int j) (levels b ! j))
        (filter (owned Buy (levels b)) (rev [0..<i])))"
  using assms
proof (induction i arbitrary: out c)
  case 0
  then show ?case by simp
next
  case (Suc i)
  let ?own = "owned Buy (levels b) i" and ?x = "level_view b (int i) (levels b ! i)"
  have i: "i < length (levels b)" using Suc.prems(1) by simp
  consider (full) "c = n" | (hit) "c < n" ?own | (miss) "c < n" "\<not> ?own"
    using Suc.prems(3) by linarith
  then show ?case
  proof cases
    case full
    then show ?thesis by simp
  next
    case hit
    have len: "c < length out" using hit(1) Suc.prems(2) by simp
    have run: "depth_bids_from b n (Suc i) out c = depth_bids_from b n i (out[c := ?x]) (Suc c)"
      using hit i len by (simp add: owned_def access_simps)
    obtain out' c' where r: "depth_bids_from b n i (out[c := ?x]) (Suc c) = Some (out', c')"
      "length out' = length out"
      "c' = min n (Suc c + length (filter (owned Buy (levels b)) [0..<i]))"
      "drop c' out' = drop c' (out[c := ?x])"
      "take c' out' = take (Suc c) (out[c := ?x]) @ take (n - Suc c)
         (map (\<lambda>j. level_view b (int j) (levels b ! j)) (filter (owned Buy (levels b)) (rev [0..<i])))"
      using Suc.IH [of "out[c := ?x]" "Suc c"] Suc.prems hit(1) by auto
    have "c < c'" using r(3) hit(1) by simp
    then have "drop c' (out[c := ?x]) = drop c' out" by simp
    moreover obtain m where "n - c = Suc m" "n - Suc c = m" using hit(1) by (metis Suc_diff_Suc)
    ultimately show ?thesis
      using r run hit(2) len by (simp add: take_list_update_Suc)
  next
    case miss
    have "depth_bids_from b n (Suc i) out c = depth_bids_from b n i out c"
      using miss i by (auto simp: owned_def access_simps)
    then show ?thesis using Suc.IH [of out c] Suc.prems miss(2) by simp
  qed
qed

lemma depth_asks_from_ok:
  assumes "n \<le> length out" and "c \<le> n"
  shows "\<exists>out' c'. depth_asks_from b n i out c = Some (out', c') \<and> length out' = length out
    \<and> c' = min n (c + length (filter (owned Sell (levels b)) [i..<length (levels b)]))
    \<and> drop c' out' = drop c' out
    \<and> take c' out' = take c out @ take (n - c) (map (\<lambda>j. level_view b (int j) (levels b ! j))
        (filter (owned Sell (levels b)) [i..<length (levels b)]))"
  using assms
proof (induction b n i out c rule: depth_asks_from.induct)
  case (1 b n i out c)
  let ?own = "owned Sell (levels b) i" and ?x = "level_view b (int i) (levels b ! i)"
  consider (over) "\<not> (i < length (levels b) \<and> c < n)" | (hit) "i < length (levels b)" "c < n" ?own
    | (miss) "i < length (levels b)" "c < n" "\<not> ?own" by blast
  then show ?case
  proof cases
    case over
    then show ?thesis using 1(4) by (auto simp: depth_asks_from.simps [of b n i out c])
  next
    case hit
    have len: "c < length out" using hit(2) 1(3) by simp
    have run: "depth_asks_from b n i out c = depth_asks_from b n (Suc i) (out[c := ?x]) (Suc c)"
      using hit len by (subst depth_asks_from.simps) (simp add: owned_def access_simps Let_def)
    have "\<exists>out' c'. depth_asks_from b n (Suc i) (out[c := ?x]) (Suc c) = Some (out', c')
      \<and> length out' = length (out[c := ?x])
      \<and> c' = min n (Suc c + length (filter (owned Sell (levels b)) [Suc i..<length (levels b)]))
      \<and> drop c' out' = drop c' (out[c := ?x])
      \<and> take c' out' = take (Suc c) (out[c := ?x]) @ take (n - Suc c)
         (map (\<lambda>j. level_view b (int j) (levels b ! j))
           (filter (owned Sell (levels b)) [Suc i..<length (levels b)]))"
      using hit len 1(3) by (intro 1(1)) (auto simp: owned_def access_simps)
    then obtain out' c' where r: "depth_asks_from b n (Suc i) (out[c := ?x]) (Suc c) = Some (out', c')"
      "length out' = length out"
      "c' = min n (Suc c + length (filter (owned Sell (levels b)) [Suc i..<length (levels b)]))"
      "drop c' out' = drop c' (out[c := ?x])"
      "take c' out' = take (Suc c) (out[c := ?x]) @ take (n - Suc c)
         (map (\<lambda>j. level_view b (int j) (levels b ! j))
           (filter (owned Sell (levels b)) [Suc i..<length (levels b)]))" by auto
    have "c < c'" using r(3) hit(2) by simp
    then have "drop c' (out[c := ?x]) = drop c' out" by simp
    moreover obtain m where "n - c = Suc m" "n - Suc c = m" using hit(2) by (metis Suc_diff_Suc)
    ultimately show ?thesis
      using r run hit(1,3) len by (simp add: take_list_update_Suc upt_conv_Cons)
  next
    case miss
    have run: "depth_asks_from b n i out c = depth_asks_from b n (Suc i) out c"
      using miss by (subst depth_asks_from.simps) (auto simp: owned_def Let_def)
    have "filter (owned Sell (levels b)) [i..<length (levels b)]
        = filter (owned Sell (levels b)) [Suc i..<length (levels b)]"
      using miss(1,3) by (simp add: upt_conv_Cons)
    moreover have "\<exists>out' c'. depth_asks_from b n (Suc i) out c = Some (out', c') \<and> length out' = length out
      \<and> c' = min n (c + length (filter (owned Sell (levels b)) [Suc i..<length (levels b)]))
      \<and> drop c' out' = drop c' out
      \<and> take c' out' = take c out @ take (n - c) (map (\<lambda>j. level_view b (int j) (levels b ! j))
          (filter (owned Sell (levels b)) [Suc i..<length (levels b)]))"
      using miss 1(3,4) by (intro 1(2)) (auto simp: owned_def)
    ultimately show ?thesis by (simp only: run)
  qed
qed

end
