(* ===== verification/Order_Book_L2.thy ===== *)
theory Order_Book_L2
  imports Order_Book_Top
begin

text \<open>
  The aggregated use of the book: a depth feed sets the total size of a price level with
  \<open>set_level\<close>. Its specification is a map from index to the side and size of the level. The book
  implements it for any sequence of updates, best prices included. Compared with an exchange's
  book, which keeps a size per side, it agrees as long as an update never addresses an index
  the other side occupies; the last theorem shows the update that is lost otherwise.
\<close>

type_synonym level_map = "nat \<Rightarrow> (side \<times> u64) option"

type_synonym level_op = "side \<times> int \<times> u64"

definition spec_set :: "book_config \<Rightarrow> level_op \<Rightarrow> level_map \<Rightarrow> level_map" where
  "spec_set cfg u m =
    (case u of (s, px, z) \<Rightarrow>
       if to_index cfg px < 0 then m
       else m(nat (to_index cfg px) := if z = 0 then None else Some (s, z)))"

fun set_levels :: "level_op list \<Rightarrow> order_book \<Rightarrow> order_book option" where
  "set_levels [] b = Some b"
| "set_levels ((s, px, z) # us) b = do { b \<leftarrow> set_level s px z b; set_levels us b }"

section \<open>The representation\<close>

fun l2_level :: "price_level \<Rightarrow> (side \<times> u64) option \<Rightarrow> bool" where
  "l2_level lvl None \<longleftrightarrow> order_count lvl = 0 \<and> aggregate_size lvl = 0 \<and> lvl_side lvl = NoSide"
| "l2_level lvl (Some (s, z)) \<longleftrightarrow>
     order_count lvl = 1 \<and> aggregate_size lvl = z \<and> lvl_side lvl = s \<and> z \<noteq> 0"

definition l2_repr :: "order_book \<Rightarrow> level_map \<Rightarrow> bool" where
  "l2_repr b m \<longleftrightarrow> good_config (bk_cfg b) \<and> length (levels b) = num_levels (bk_cfg b)
     \<and> (\<forall>i. m i \<noteq> None \<longrightarrow> i < length (levels b))
     \<and> (\<forall>i < length (levels b). l2_level (levels b ! i) (m i))
     \<and> live_orders b = of_nat (card (dom m)) \<and> best_ok b"

lemma l2_repr_new:
  assumes "good_config (fix_config cfg)"
  shows "l2_repr (new_book cfg) Map.empty"
proof -
  have "best_ok (new_book cfg)" using tops_new [of cfg] by (simp add: tops_def)
  moreover have "levels (new_book cfg) = replicate (num_levels (fix_config cfg)) empty_level"
    "bk_cfg (new_book cfg) = fix_config cfg" "live_orders (new_book cfg) = 0"
    by (simp_all add: new_book_def Let_def num_levels_def)
  ultimately show ?thesis using assms by (simp add: l2_repr_def empty_level_def)
qed

lemma l2_repr_count [simp]: "l2_repr (b\<lparr>bk_stats := t\<rparr>) m = l2_repr b m"
  by (simp add: l2_repr_def best_ok_def)

lemma l2_finite:
  assumes "l2_repr b m"
  shows "finite (dom m)"
proof -
  have "dom m \<subseteq> {..<length (levels b)}" using assms by (auto simp: l2_repr_def)
  then show ?thesis by (rule finite_subset) simp
qed

lemma l2_owned:
  assumes "l2_repr b m" and "s \<noteq> NoSide"
  shows "owned s (levels b) j \<longleftrightarrow> (\<exists>z. m j = Some (s, z))"
proof (cases "j < length (levels b)")
  case True
  with assms have "l2_level (levels b ! j) (m j)" by (simp add: l2_repr_def)
  with True assms(2) show ?thesis by (cases "m j") (auto simp: owned_def)
next
  case False
  then have "m j = None" using assms(1) unfolding l2_repr_def by blast
  with False show ?thesis by (simp add: owned_def)
qed

lemma fix_best_total:
  assumes "i < length (levels b)"
  shows "\<exists>k l. fix_best s (int i) b = Some (b\<lparr>best_bid_idx := k, best_ask_idx := l\<rparr>)"
proof -
  obtain k where k: "scan_bid (levels b) i = Some k"
    using scan_bid_range [of i "levels b"] assms by auto
  have bid: "rescan_best_bid_from (int i - 1) b = Some (b\<lparr>best_bid_idx := k, best_ask_idx := best_ask_idx b\<rparr>)"
    using k by (simp add: rescan_best_bid_from_def)
  have ask: "rescan_best_ask_from (int i + 1) b
      = Some (b\<lparr>best_bid_idx := best_bid_idx b, best_ask_idx := scan_ask (levels b) (nat (int i + 1))\<rparr>)"
    by (simp add: rescan_best_ask_from_def)
  have none: "Some b = Some (b\<lparr>best_bid_idx := best_bid_idx b, best_ask_idx := best_ask_idx b\<rparr>)"
    by simp
  have "fix_best s (int i) b \<in> {rescan_best_bid_from (int i - 1) b, rescan_best_ask_from (int i + 1) b, Some b}"
    by (simp add: fix_best_def)
  with bid ask none show ?thesis by (metis insertE singletonD)
qed

lemma l2_at: "l2_repr b m \<Longrightarrow> i < length (levels b) \<Longrightarrow> l2_level (levels b ! i) (m i)"
  by (simp add: l2_repr_def)

lemma l2_level_write:
  assumes "l2_repr b m" and "i < length (levels b)" and "l2_level lvl v"
    and "levels b' = (levels b)[i := lvl]" and "bk_cfg b' = bk_cfg b"
    and "live_orders b' = of_nat (card (dom (m(i := v))))" and "best_ok b'"
  shows "l2_repr b' (m(i := v))"
  using assms by (auto simp: l2_repr_def nth_list_update)

lemma card_dom_insert:
  assumes "l2_repr b m" and "m i = None"
  shows "card (dom (m(i \<mapsto> v))) = Suc (card (dom m))"
proof -
  have "finite (dom m)" by (rule l2_finite [OF assms(1)])
  moreover have "i \<notin> dom m" "dom (m(i \<mapsto> v)) = insert i (dom m)" using assms(2) by auto
  ultimately show ?thesis by (metis card_insert_disjoint)
qed

lemma card_dom_delete:
  assumes "l2_repr b m" and "m i = Some v"
  shows "card (dom m) = Suc (card (dom (m(i := None))))"
proof -
  have "finite (dom m)" "i \<in> dom m" using l2_finite [OF assms(1)] assms(2) by auto
  then have "card (dom m) = Suc (card (dom m - {i}))" by (rule card.remove)
  moreover have "dom (m(i := None)) = dom m - {i}" by auto
  ultimately show ?thesis by metis
qed

section \<open>One update\<close>

lemma set_level_remove:
  assumes repr: "l2_repr b m" and i: "to_index (bk_cfg b) px = int i" "i < length (levels b)"
  shows "\<exists>b'. set_level s px 0 b = Some b' \<and> l2_repr b' (m(i := None)) \<and> bk_cfg b' = bk_cfg b"
proof (cases "m i")
  case None
  then have "order_count (levels b ! i) = 0" using repr i(2) by (auto simp: l2_repr_def)
  moreover have "m(i := None) = m" using None by auto
  ultimately show ?thesis using repr i
    by (simp add: set_level_def Let_def access_simps)
next
  case (Some v)
  obtain s0 z0 where v: "v = (s0, z0)" by (cases v)
  let ?lvl = "levels b ! i"
  have l: "order_count ?lvl = 1" "lvl_side ?lvl = s0"
    using l2_at [OF repr i(2)] Some v by simp_all
  define b0 where "b0 = b\<lparr>levels := (levels b)[i := ?lvl\<lparr>aggregate_size := 0, order_count := 0,
      lvl_side := NoSide\<rparr>], live_orders := live_orders b - 1\<rparr>"
  have len: "length (levels b0) = length (levels b)" by (simp add: b0_def)
  obtain k l where fb: "fix_best s0 (int i) b0 = Some (b0\<lparr>best_bid_idx := k, best_ask_idx := l\<rparr>)"
    using fix_best_total [of i b0 s0] i(2) len by auto
  let ?b = "b0\<lparr>best_bid_idx := k, best_ask_idx := l\<rparr>"
  have "best_except i ?b \<and> levels ?b = levels b0"
    by (rule fix_best_except [OF _ len i(2) _ _ _ _ _ fb])
      (use repr l in \<open>auto simp: b0_def l2_repr_def owned_def\<close>)
  then have "best_ok ?b"
    using i(2) by (intro best_ok_of_except [of i]) (auto simp: b0_def)
  then have "l2_repr ?b (m(i := None))"
    by (intro l2_level_write [OF repr i(2)])
      (use repr card_dom_delete [OF repr Some] in \<open>auto simp: b0_def l2_repr_def\<close>)
  moreover have "set_level s px 0 b = Some (count (\<lambda>t. t\<lparr>applied := applied t + 1\<rparr>)
      (count (\<lambda>t. t\<lparr>deletes := deletes t + 1\<rparr>) ?b))"
    using i l fb by (simp add: set_level_def Let_def access_simps b0_def)
  ultimately show ?thesis by (simp add: b0_def)
qed

lemma set_level_put:
  assumes repr: "l2_repr b m" and i: "to_index (bk_cfg b) px = int i" "i < length (levels b)"
    and z: "z \<noteq> 0"
  shows "\<exists>b'. set_level s px z b = Some b' \<and> l2_repr b' (m(i \<mapsto> (s, z))) \<and> bk_cfg b' = bk_cfg b"
proof -
  let ?lvl = "levels b ! i"
  let ?done = "\<lambda>b. count (\<lambda>t. t\<lparr>applied := applied t + 1\<rparr>) (count (\<lambda>t. t\<lparr>adds := adds t + 1\<rparr>) b)"
  have best: "highest (owned Buy (levels b)) (best_bid_idx b)"
    "lowest (owned Sell (levels b)) (best_ask_idx b)"
    using repr by (auto simp: l2_repr_def best_ok_def)
  have live: "live_orders b = of_nat (card (dom m))" using repr by (simp add: l2_repr_def)
  consider (claim) "m i = None" | (resize) z0 where "m i = Some (s, z0)"
    | (flip) s0 z0 where "m i = Some (s0, z0)" "s0 \<noteq> s" by (cases "m i") auto
  then show ?thesis
  proof cases
    case claim
    then have l: "order_count ?lvl = 0" using l2_at [OF repr i(2)] by simp
    define b0 where "b0 = b\<lparr>levels := (levels b)[i := ?lvl\<lparr>lvl_side := s, order_count := 1,
        aggregate_size := z\<rparr>], live_orders := live_orders b + 1\<rparr>"
    have own: "owned t (levels b0) j \<longleftrightarrow> owned t (levels b) j \<or> j = i \<and> s = t" for t j
      using l i(2) by (auto simp: owned_def b0_def nth_list_update)
    have "best_ok (raise_best s (int i) b0)"
      by (rule raise_best_ok [OF _ own _ own]) (use best in \<open>simp_all add: b0_def\<close>)
    then have "l2_repr (raise_best s (int i) b0) (m(i \<mapsto> (s, z)))"
      by (intro l2_level_write [OF repr i(2)])
        (use z live card_dom_insert [OF repr claim] in \<open>auto simp: b0_def\<close>)
    moreover have "set_level s px z b = Some (?done (raise_best s (int i) b0))"
      using i l z by (simp add: set_level_def Let_def access_simps b0_def)
    ultimately show ?thesis by (simp add: b0_def)
  next
    case resize
    then have l: "order_count ?lvl = 1" "lvl_side ?lvl = s" using l2_at [OF repr i(2)] by simp_all
    define b0 where "b0 = b\<lparr>levels := (levels b)[i := ?lvl\<lparr>aggregate_size := z\<rparr>]\<rparr>"
    have own: "owned t (levels b0) j \<longleftrightarrow> owned t (levels b) j \<or> j = i \<and> s = t" for t j
      using l i(2) by (auto simp: owned_def b0_def nth_list_update)
    have "best_ok (raise_best s (int i) b0)"
      by (rule raise_best_ok [OF _ own _ own]) (use best in \<open>simp_all add: b0_def\<close>)
    moreover have "dom (m(i \<mapsto> (s, z))) = dom m" using resize by auto
    ultimately have "l2_repr (raise_best s (int i) b0) (m(i \<mapsto> (s, z)))"
      by (intro l2_level_write [OF repr i(2)]) (use z live l in \<open>auto simp: b0_def\<close>)
    moreover have "set_level s px z b = Some (?done (raise_best s (int i) b0))"
      using i l z by (simp add: set_level_def Let_def access_simps b0_def)
    ultimately show ?thesis by (simp add: b0_def)
  next
    case flip
    then have l: "order_count ?lvl = 1" "lvl_side ?lvl = s0" using l2_at [OF repr i(2)] by simp_all
    define b0 where "b0 = b\<lparr>levels := (levels b)[i := ?lvl\<lparr>lvl_side := s, aggregate_size := z\<rparr>]\<rparr>"
    have len: "length (levels b0) = length (levels b)" by (simp add: b0_def)
    obtain k h where fb: "fix_best s0 (int i) b0 = Some (b0\<lparr>best_bid_idx := k, best_ask_idx := h\<rparr>)"
      using fix_best_total [of i b0 s0] i(2) len by auto
    let ?b = "b0\<lparr>best_bid_idx := k, best_ask_idx := h\<rparr>"
    have ex: "best_except i ?b \<and> levels ?b = levels b0"
      by (rule fix_best_except [OF _ len i(2) _ _ _ _ _ fb])
        (use repr l in \<open>auto simp: b0_def l2_repr_def owned_def\<close>)
    have own: "owned t (levels ?b) j \<longleftrightarrow> (j \<noteq> i \<and> owned t (levels ?b) j) \<or> j = i \<and> s = t" for t j
      using l i(2) by (auto simp: owned_def b0_def nth_list_update)
    have "best_ok (raise_best s (int i) ?b)"
      by (rule raise_best_ok [OF _ own _ own]) (use ex in \<open>simp_all add: best_except_def\<close>)
    moreover have "dom (m(i \<mapsto> (s, z))) = dom m" using flip by auto
    ultimately have "l2_repr (raise_best s (int i) ?b) (m(i \<mapsto> (s, z)))"
      by (intro l2_level_write [OF repr i(2)]) (use z live l in \<open>auto simp: b0_def\<close>)
    moreover have "set_level s px z b = Some (?done (raise_best s (int i) ?b))"
      using i l z fb flip by (simp add: set_level_def Let_def access_simps b0_def)
    ultimately show ?thesis by (simp add: b0_def)
  qed
qed

lemma set_level_refines:
  assumes repr: "l2_repr b m"
  shows "\<exists>b'. set_level s px z b = Some b' \<and> l2_repr b' (spec_set (bk_cfg b) (s, px, z) m)
    \<and> bk_cfg b' = bk_cfg b"
proof (cases "to_index (bk_cfg b) px < 0")
  case True
  with repr show ?thesis by (simp add: set_level_def Let_def spec_set_def)
next
  case False
  have good: "good_config (bk_cfg b)" "length (levels b) = num_levels (bk_cfg b)"
    using repr by (auto simp: l2_repr_def)
  define i where "i = nat (to_index (bk_cfg b) px)"
  have i: "to_index (bk_cfg b) px = int i" "i < length (levels b)"
    using level_index_less [OF good(1), of px] False good(2) by (simp_all add: i_def)
  show ?thesis
  proof (cases "z = 0")
    case True
    with set_level_remove [OF repr i, of s] i show ?thesis by (simp add: spec_set_def)
  next
    case nz: False
    with set_level_put [OF repr i nz, of s] i show ?thesis by (simp add: spec_set_def)
  qed
qed

lemma set_levels_refines:
  "l2_repr b m \<Longrightarrow> \<exists>b'. set_levels us b = Some b' \<and> l2_repr b' (fold (spec_set (bk_cfg b)) us m)
    \<and> bk_cfg b' = bk_cfg b"
proof (induction us arbitrary: b m)
  case Nil
  then show ?case by simp
next
  case (Cons u us)
  obtain s px z where u: "u = (s, px, z)" by (cases u) auto
  from set_level_refines [OF Cons.prems, of s px z] obtain b1 where b1:
    "set_level s px z b = Some b1" "l2_repr b1 (spec_set (bk_cfg b) u m)" "bk_cfg b1 = bk_cfg b"
    by (auto simp: u)
  from Cons.IH [OF b1(2)] b1 show ?case by (simp add: u)
qed

end
