(* ===== verification/Order_Book_Props.thy ===== *)
theory Order_Book_Props
  imports Order_Book_Top
begin

text \<open>
  The properties of the order-by-order book: a run of events from an empty book is defined, its
  levels are the specification's, and its top of book, depth, spread and counters are the ones the
  live orders determine. Two small concrete runs serve as instances.
\<close>

definition small_config :: book_config where
  "small_config = \<lparr>min_price = 100, max_price = 107, tick_size = 1, pool_chunk = 2\<rparr>"

definition add_event :: "u64 \<Rightarrow> side \<Rightarrow> int \<Rightarrow> u32 \<Rightarrow> market_event" where
  "add_event r s px n = default_event\<lparr>ev_type := Add, order_ref := r, ev_side := s,
     price_ticks := px, ev_size := n\<rparr>"

definition ref_event :: "event_type \<Rightarrow> u64 \<Rightarrow> u32 \<Rightarrow> market_event" where
  "ref_event t r n = default_event\<lparr>ev_type := t, order_ref := r, ev_size := n\<rparr>"

definition small_run :: "market_event list" where
  "small_run = [add_event 1 Buy 102 10, add_event 2 Buy 103 5, add_event 3 Sell 105 7,
     add_event 4 Buy 103 8, ref_event Execute 2 5, ref_event Cancel 4 3, ref_event Delete 9 0]"

definition locked_run :: "market_event list" where
  "locked_run = [add_event 1 Buy 103 5, add_event 2 Sell 103 5, ref_event Delete 1 0,
     ref_event Delete 2 0]"

lemmas small_defs = add_event_def ref_event_def small_run_def default_event_def

lemma fix_small [simp]: "fix_config small_config = small_config"
  by (simp add: fix_config_def small_config_def)

lemma small_sel [simp]:
  "min_price small_config = 100" "max_price small_config = 107" "tick_size small_config = 1"
  by (simp_all add: small_config_def)

lemma small_index [simp]:
  "to_index small_config px = (if px < 100 \<or> px > 107 then - 1 else px - 100)"
  "to_price small_config i = 100 + i"
  by (simp_all add: to_index_def to_price_def)

lemma good_small [simp]: "good_config small_config"
  by (simp add: good_config_def)

lemma num_small [simp]: "num_levels small_config = 8"
  by (simp add: num_levels_def)

lemma spec_small [simp]: "spec_run small_config small_run =
  [\<lparr>rs_ref = 1, rs_price = 102, rs_size = 10, rs_side = Buy\<rparr>,
   \<lparr>rs_ref = 3, rs_price = 105, rs_size = 7, rs_side = Sell\<rparr>,
   \<lparr>rs_ref = 4, rs_price = 103, rs_size = 5, rs_side = Buy\<rparr>]"
  by (simp add: spec_run_def small_defs spec_apply_def spec_add_def spec_delete_def refs_def)

lemma pure_small: "always_pure small_config small_run []"
  by (simp add: small_defs spec_apply_def spec_add_def spec_delete_def refs_def side_pure_def)

section \<open>The levels\<close>

text \<open>
  C4. Any run of events from an empty book is free of undefined behaviour, and afterwards each
  level links exactly the live orders at its index in time priority, its cached count and 64-bit
  aggregate are exact, and the index and live_orders count exactly the live references.
\<close>

theorem book_refines_spec:
  assumes "good_config (fix_config cfg)" and "length evs < 2 ^ 32"
  shows "\<exists>b. apply_all evs (new_book cfg) = Some b
    \<and> length (levels b) = num_levels (fix_config cfg)
    \<and> (\<forall>i < num_levels (fix_config cfg).
         orders_at b i = at_level (fix_config cfg) i (spec_run cfg evs)
         \<and> unat (order_count (levels b ! i)) = length (orders_at b i)
         \<and> unat (aggregate_size (levels b ! i)) = (\<Sum>x\<leftarrow>orders_at b i. unat (rs_size x)))
    \<and> (\<forall>r. index b r \<noteq> None \<longleftrightarrow> r \<in> refs (spec_run cfg evs))
    \<and> unat (live_orders b) = length (spec_run cfg evs)"
proof -
  obtain b q where b: "apply_all evs (new_book cfg) = Some b" "book_repr b q (spec_run cfg evs)"
    "bk_cfg b = fix_config cfg"
    using run_repr [OF assms] by metis
  have len: "length (levels b) = num_levels (fix_config cfg)"
    using b(2,3) by (simp add: book_repr_def)
  have "length (spec_run cfg evs) < 2 ^ 32" "live_orders b = of_nat (length (spec_run cfg evs))"
    using b(2) by (auto simp: book_repr_def)
  then have "unat (live_orders b) = length (spec_run cfg evs)"
    by (simp add: unat_of_nat)
  then show ?thesis
    using b len orders_at_repr [OF b(2)] level_counters_repr [OF b(2)] repr_index [OF b(2)]
    by (auto simp: b(3))
qed

lemma book_refines_spec_witness:
  "\<exists>b. apply_all small_run (new_book small_config) = Some b
    \<and> orders_at b 3 = [\<lparr>rs_ref = 4, rs_price = 103, rs_size = 5, rs_side = Buy\<rparr>]
    \<and> unat (aggregate_size (levels b ! 3)) = 5 \<and> index b 2 = None"
proof -
  have "length small_run < 2 ^ 32" by (simp add: small_run_def)
  from book_refines_spec [of small_config, OF _ this] good_small obtain b
    where b: "apply_all small_run (new_book small_config) = Some b"
      "\<forall>i < 8. orders_at b i = at_level small_config i (spec_run small_config small_run)
         \<and> unat (aggregate_size (levels b ! i)) = (\<Sum>x\<leftarrow>orders_at b i. unat (rs_size x))"
      "\<forall>r. index b r \<noteq> None \<longleftrightarrow> r \<in> refs (spec_run small_config small_run)"
    by (auto simp: num_small)
  have "orders_at b 3 = [\<lparr>rs_ref = 4, rs_price = 103, rs_size = 5, rs_side = Buy\<rparr>]"
    using b(2) by simp
  moreover have "unat (aggregate_size (levels b ! 3)) = (\<Sum>x\<leftarrow>orders_at b 3. unat (rs_size x))"
    using b(2) by simp
  moreover have "index b 2 = None" using b(3) [THEN spec, of 2] by (simp add: spec_small)
  ultimately show ?thesis using b(1) by simp
qed

section \<open>Top of book\<close>

definition best_level :: "book_config \<Rightarrow> resting list \<Rightarrow> int \<Rightarrow> book_level" where
  "best_level cfg A i = (if i < 0 then no_level else spec_level cfg A (nat i))"

lemma best_level_read:
  assumes "book_repr b q A" and "i < int (length (levels b))" and "0 \<le> i"
  shows "(do { lvl \<leftarrow> vec_get (levels b) (nat i); Some (level_view b i lvl) })
    = Some (best_level (bk_cfg b) A i)"
  using level_view_repr [OF assms(1), of "nat i"] assms(2,3)
  by (simp add: access_simps best_level_def)

lemma top_levels:
  assumes "book_repr b q A" and "tops b A"
  shows "best_bid b = Some (best_level (bk_cfg b) A (top_bid (bk_cfg b) A))
    \<and> best_ask b = Some (best_level (bk_cfg b) A (top_ask (bk_cfg b) A))"
proof -
  have "best_bid_idx b < int (length (levels b))" "best_ask_idx b < int (length (levels b))"
    using assms(1) by (auto simp: book_repr_def)
  with best_level_read [OF assms(1)] best_indices [OF assms] show ?thesis
    by (auto simp: best_bid_def best_ask_def best_level_def not_less)
qed

text \<open>
  C5. If no level ever holds orders of both sides, best_bid and best_ask after any run of events
  return the price, aggregate size and order count of the highest buy level and the lowest sell
  level, or an invalid level when the side is empty.
\<close>

theorem top_of_book_correct:
  assumes "good_config (fix_config cfg)" and "length evs < 2 ^ 32"
    and "always_pure (fix_config cfg) evs []"
  shows "\<exists>b. apply_all evs (new_book cfg) = Some b
    \<and> best_bid b = Some (best_level (fix_config cfg) (spec_run cfg evs)
                          (top_bid (fix_config cfg) (spec_run cfg evs)))
    \<and> best_ask b = Some (best_level (fix_config cfg) (spec_run cfg evs)
                          (top_ask (fix_config cfg) (spec_run cfg evs)))"
proof -
  obtain b q where b: "apply_all evs (new_book cfg) = Some b" "book_repr b q (spec_run cfg evs)"
    "bk_cfg b = fix_config cfg" "tops b (spec_run cfg evs)"
    using run_repr [OF assms(1,2)] assms(3) by metis
  with top_levels [OF b(2,4)] show ?thesis by simp
qed

lemma top_of_book_correct_witness:
  "\<exists>b. apply_all small_run (new_book small_config) = Some b
    \<and> best_bid b = Some \<lparr>bl_price = 103, bl_size = 5, bl_count = 1, bl_valid = True\<rparr>
    \<and> best_ask b = Some \<lparr>bl_price = 105, bl_size = 7, bl_count = 1, bl_valid = True\<rparr>"
proof -
  have "length small_run < 2 ^ 32" by (simp add: small_run_def)
  from top_of_book_correct [of small_config, OF _ this] good_small pure_small show ?thesis
    by (simp add: best_level_def spec_level_def top_bid_def top_ask_def side_indices_def)
qed

section \<open>Depth\<close>

definition spec_depth :: "side \<Rightarrow> book_config \<Rightarrow> resting list \<Rightarrow> nat list" where
  "spec_depth s cfg A = filter (\<lambda>i. int i \<in> set (side_indices cfg s A)) [0..<num_levels cfg]"

lemma filter_upto_last:
  assumes "m \<le> n" and "\<And>j. P j \<Longrightarrow> j < m"
  shows "filter P [0..<n] = filter P [0..<m]"
proof -
  have "filter P [m..<n] = []" by (auto simp: filter_empty_conv dest!: assms(2))
  then have "filter P ([0..<m] @ [m..<n]) = filter P [0..<m]" by simp
  then show ?thesis using assms(1) by (simp only: upt_append [of 0 m n, simplified])
qed

lemma filter_from_first:
  assumes "m \<le> n" and "\<And>j. P j \<Longrightarrow> m \<le> j"
  shows "filter P [0..<n] = filter P [m..<n]"
proof -
  have "filter P [0..<m] = []" by (auto simp: filter_empty_conv dest!: assms(2))
  then have "filter P ([0..<m] @ [m..<n]) = filter P [m..<n]" by simp
  then show ?thesis using assms(1) by (simp only: upt_append [of 0 m n, simplified])
qed

lemma owned_spec_depth:
  assumes "book_repr b q A" and "tops b A" and "s \<noteq> NoSide"
  shows "filter (owned s (levels b)) [0..<length (levels b)] = spec_depth s (bk_cfg b) A"
proof -
  have "owned s (levels b) = (\<lambda>i. int i \<in> set (side_indices (bk_cfg b) s A))"
    using owned_side_indices [OF assms(1) _ assms(3)] assms(2) by (auto simp: tops_def)
  with assms(1) show ?thesis by (simp add: spec_depth_def book_repr_def)
qed

lemma map_levels_repr:
  assumes "book_repr b q A" and "set is \<subseteq> {..<length (levels b)}"
  shows "map (\<lambda>j. level_view b (int j) (levels b ! j)) is = map (spec_level (bk_cfg b) A) is"
  using assms level_view_repr [OF assms(1)] by (auto intro!: map_cong)

lemma depth_bids_repr:
  assumes repr: "book_repr b q A" and tops: "tops b A" and n: "n \<le> length out"
  shows "\<exists>out' c. depth_bids b out n = Some (out', c) \<and> length out' = length out
    \<and> c = min n (length (spec_depth Buy (bk_cfg b) A)) \<and> drop c out' = drop c out
    \<and> take c out' = take n (map (spec_level (bk_cfg b) A) (rev (spec_depth Buy (bk_cfg b) A)))"
proof -
  let ?k = "nat (best_bid_idx b + 1)" and ?own = "owned Buy (levels b)"
  have "- 1 \<le> best_bid_idx b" "best_bid_idx b < int (length (levels b))"
    using repr by (auto simp: book_repr_def)
  then have k: "?k \<le> length (levels b)" by simp
  have "j < ?k" if "?own j" for j
    using that tops by (auto simp: tops_def best_ok_def highest_def)
  then have "filter ?own [0..<length (levels b)] = filter ?own [0..<?k]"
    using filter_upto_last [OF k] by blast
  then have sd: "filter ?own [0..<?k] = spec_depth Buy (bk_cfg b) A"
    using owned_spec_depth [OF repr tops, of Buy] by simp
  have "map (\<lambda>j. level_view b (int j) (levels b ! j)) (rev (filter ?own [0..<?k]))
      = map (spec_level (bk_cfg b) A) (rev (filter ?own [0..<?k]))"
    using k by (intro map_levels_repr [OF repr]) auto
  then have m: "map (\<lambda>j. level_view b (int j) (levels b ! j)) (filter ?own (rev [0..<?k]))
      = map (spec_level (bk_cfg b) A) (rev (spec_depth Buy (bk_cfg b) A))"
    unfolding sd [symmetric] by (simp only: rev_filter)
  from depth_bids_from_ok [OF k n, of 0] show ?thesis
    unfolding m sd depth_bids_def by simp
qed

lemma depth_asks_repr:
  assumes repr: "book_repr b q A" and tops: "tops b A" and n: "n \<le> length out"
  shows "\<exists>out' c. depth_asks b out n = Some (out', c) \<and> length out' = length out
    \<and> c = min n (length (spec_depth Sell (bk_cfg b) A)) \<and> drop c out' = drop c out
    \<and> take c out' = take n (map (spec_level (bk_cfg b) A) (spec_depth Sell (bk_cfg b) A))"
proof (cases "best_ask_idx b < 0")
  case True
  then have "\<not> owned Sell (levels b) j" for j
    using tops by (auto simp: tops_def best_ok_def lowest_def)
  then have "spec_depth Sell (bk_cfg b) A = []"
    using owned_spec_depth [OF repr tops, of Sell] by simp
  with True show ?thesis by (simp add: depth_asks_def)
next
  case False
  let ?k = "nat (best_ask_idx b)" and ?own = "owned Sell (levels b)"
  have k: "?k \<le> length (levels b)" using repr by (auto simp: book_repr_def)
  have "?k \<le> j" if "?own j" for j
    using that tops by (auto simp: tops_def best_ok_def lowest_def)
  then have "filter ?own [0..<length (levels b)] = filter ?own [?k..<length (levels b)]"
    using filter_from_first [OF k] by blast
  then have sd: "filter ?own [?k..<length (levels b)] = spec_depth Sell (bk_cfg b) A"
    using owned_spec_depth [OF repr tops, of Sell] by simp
  have "map (\<lambda>j. level_view b (int j) (levels b ! j)) (filter ?own [?k..<length (levels b)])
      = map (spec_level (bk_cfg b) A) (filter ?own [?k..<length (levels b)])"
    by (intro map_levels_repr [OF repr]) auto
  then have m: "map (\<lambda>j. level_view b (int j) (levels b ! j)) (spec_depth Sell (bk_cfg b) A)
      = map (spec_level (bk_cfg b) A) (spec_depth Sell (bk_cfg b) A)"
    by (simp only: sd)
  from depth_asks_from_ok [OF n, of 0 b ?k] False show ?thesis
    unfolding m sd depth_asks_def by simp
qed

text \<open>
  C6. Under the same condition depth_bids and depth_asks write exactly the first n populated
  levels of their side, best first, leave the rest of the caller's array alone and return the
  number written.
\<close>

theorem depth_correct:
  assumes "good_config (fix_config cfg)" and "length evs < 2 ^ 32"
    and "always_pure (fix_config cfg) evs []" and "n \<le> length out"
  shows "\<exists>b bids nb asks na. apply_all evs (new_book cfg) = Some b
    \<and> depth_bids b out n = Some (bids, nb) \<and> depth_asks b out n = Some (asks, na)
    \<and> nb = min n (length (spec_depth Buy (fix_config cfg) (spec_run cfg evs)))
    \<and> na = min n (length (spec_depth Sell (fix_config cfg) (spec_run cfg evs)))
    \<and> take nb bids = take n (map (spec_level (fix_config cfg) (spec_run cfg evs))
                           (rev (spec_depth Buy (fix_config cfg) (spec_run cfg evs))))
    \<and> take na asks = take n (map (spec_level (fix_config cfg) (spec_run cfg evs))
                           (spec_depth Sell (fix_config cfg) (spec_run cfg evs)))
    \<and> drop nb bids = drop nb out \<and> drop na asks = drop na out"
proof -
  obtain b q where b: "apply_all evs (new_book cfg) = Some b" "book_repr b q (spec_run cfg evs)"
    "bk_cfg b = fix_config cfg" "tops b (spec_run cfg evs)"
    using run_repr [OF assms(1,2)] assms(3) by metis
  with depth_bids_repr [OF b(2,4) assms(4)] depth_asks_repr [OF b(2,4) assms(4)] show ?thesis
    by (auto simp: b(3))
qed

lemma depth_correct_witness:
  "\<exists>b bids nb. apply_all small_run (new_book small_config) = Some b
    \<and> depth_bids b (replicate 4 no_level) 4 = Some (bids, nb) \<and> nb = 2
    \<and> map bl_price (take 2 bids) = [103, 102]"
proof -
  have "length small_run < 2 ^ 32" by (simp add: small_run_def)
  from depth_correct [of small_config, OF _ this, of 4 "replicate 4 no_level"] good_small pure_small
  obtain b bids nb where b: "apply_all small_run (new_book small_config) = Some b"
    "depth_bids b (replicate 4 no_level) 4 = Some (bids, nb)"
    "nb = min 4 (length (spec_depth Buy small_config (spec_run small_config small_run)))"
    "take nb bids = take 4 (map (spec_level small_config (spec_run small_config small_run))
       (rev (spec_depth Buy small_config (spec_run small_config small_run))))"
    by auto
  have "spec_depth Buy small_config (spec_run small_config small_run) = [2, 3]"
    by (simp add: spec_depth_def side_indices_def upt_conv_Cons)
  then have "nb = 2" "take nb bids = map (spec_level small_config (spec_run small_config small_run)) [3, 2]"
    using b(3,4) by simp_all
  then have "map bl_price (take 2 bids) = [103, 102]" by (simp add: spec_level_def)
  with b(1,2) \<open>nb = 2\<close> show ?thesis
    by (intro exI [of _ b] exI [of _ bids] exI [of _ nb]) simp
qed

section \<open>Spread and crossed books\<close>

lemma sides_ok_pure:
  assumes "book_repr b q A" and "sides_ok b A"
  shows "side_pure (bk_cfg b) A"
  unfolding side_pure_def
proof (intro ballI impI)
  fix x y
  assume xy: "x \<in> set A" "y \<in> set A"
    and same: "to_index (bk_cfg b) (rs_price x) = to_index (bk_cfg b) (rs_price y)"
  let ?i = "nat (to_index (bk_cfg b) (rs_price x))"
  have c: "good_config (bk_cfg b)" "spec_ok (bk_cfg b) A" "length (levels b) = num_levels (bk_cfg b)"
    using assms(1) by (auto simp: book_repr_def)
  from spec_in_band [OF c(1,2) xy(1)] spec_in_band [OF c(1,2) xy(2)] same c(3)
  have "?i < length (levels b)" "x \<in> set (at_level (bk_cfg b) ?i A)" "y \<in> set (at_level (bk_cfg b) ?i A)"
    by simp_all
  with assms(2) show "rs_side x = rs_side y" unfolding sides_ok_def by metis
qed

lemma top_bid_iff:
  assumes "good_config cfg" and "spec_ok cfg A"
  shows "0 \<le> top_bid cfg A \<longleftrightarrow> side_indices cfg Buy A \<noteq> []"
    and "i \<in> set (side_indices cfg Buy A) \<Longrightarrow> i \<le> top_bid cfg A"
    and "0 \<le> top_bid cfg A \<Longrightarrow> top_bid cfg A \<in> set (side_indices cfg Buy A)"
proof -
  let ?K = "side_indices cfg Buy A"
  have h: "highest (\<lambda>j. int j \<in> set ?K) (top_bid cfg A)" by (rule top_bid_highest [OF assms])
  have nn: "\<And>i. i \<in> set ?K \<Longrightarrow> int (nat i) = i" using side_indices_nonneg [OF assms, of Buy] by auto
  show le: "i \<le> top_bid cfg A" if "i \<in> set ?K" for i
    using h nn [OF that] that unfolding highest_def by metis
  show mem: "top_bid cfg A \<in> set ?K" if "0 \<le> top_bid cfg A"
    using h that unfolding highest_def by auto
  show "0 \<le> top_bid cfg A \<longleftrightarrow> ?K \<noteq> []"
  proof
    assume "?K \<noteq> []"
    then obtain i where i: "i \<in> set ?K" by (cases ?K) auto
    with le [OF i] nn [OF i] show "0 \<le> top_bid cfg A" by linarith
  qed (use mem in auto)
qed

lemma top_ask_iff:
  assumes "good_config cfg" and "spec_ok cfg A"
  shows "0 \<le> top_ask cfg A \<longleftrightarrow> side_indices cfg Sell A \<noteq> []"
    and "i \<in> set (side_indices cfg Sell A) \<Longrightarrow> top_ask cfg A \<le> i"
    and "0 \<le> top_ask cfg A \<Longrightarrow> top_ask cfg A \<in> set (side_indices cfg Sell A)"
proof -
  let ?K = "side_indices cfg Sell A"
  have h: "lowest (\<lambda>j. int j \<in> set ?K) (top_ask cfg A)" by (rule top_ask_lowest [OF assms])
  have nn: "\<And>i. i \<in> set ?K \<Longrightarrow> int (nat i) = i" using side_indices_nonneg [OF assms, of Sell] by auto
  show "top_ask cfg A \<le> i" if "i \<in> set ?K" for i
    using h nn [OF that] that unfolding lowest_def by metis
  show mem: "top_ask cfg A \<in> set ?K" if "0 \<le> top_ask cfg A"
    using h that unfolding lowest_def by auto
  show "0 \<le> top_ask cfg A \<longleftrightarrow> ?K \<noteq> []"
  proof
    assume "?K \<noteq> []"
    then obtain i where i: "i \<in> set ?K" by (cases ?K) auto
    with h nn [OF i] show "0 \<le> top_ask cfg A" unfolding lowest_def by metis
  qed (use mem in auto)
qed

lemma crossed_spec:
  assumes "good_config (fix_config cfg)" and "length evs < 2 ^ 32"
    and "always_pure (fix_config cfg) evs []"
  shows "\<exists>b. apply_all evs (new_book cfg) = Some b
    \<and> (is_crossed b \<longleftrightarrow>
        (\<exists>x \<in> set (spec_run cfg evs). \<exists>y \<in> set (spec_run cfg evs). rs_side x = Buy \<and> rs_side y = Sell
          \<and> to_index (fix_config cfg) (rs_price y) < to_index (fix_config cfg) (rs_price x)))
    \<and> (spread_ticks b =
        (if 0 \<le> top_bid (fix_config cfg) (spec_run cfg evs)
            \<and> 0 \<le> top_ask (fix_config cfg) (spec_run cfg evs)
         then tick_size (fix_config cfg) * (top_ask (fix_config cfg) (spec_run cfg evs)
                - top_bid (fix_config cfg) (spec_run cfg evs))
         else -1))"
proof -
  let ?c = "fix_config cfg" and ?A = "spec_run cfg evs"
  obtain b q where b: "apply_all evs (new_book cfg) = Some b" "book_repr b q ?A"
    "bk_cfg b = ?c" "tops b ?A"
    using run_repr [OF assms(1,2)] assms(3) by metis
  have ok: "spec_ok ?c ?A" using b(2,3) by (simp add: book_repr_def)
  have pure: "side_pure ?c ?A"
    using sides_ok_pure [OF b(2)] b(3,4) by (simp add: tops_def)
  note best = best_indices [OF b(2,4), unfolded b(3)]
  note B = top_bid_iff [OF assms(1) ok] and S = top_ask_iff [OF assms(1) ok]
  have "is_crossed b \<longleftrightarrow> (\<exists>i \<in> set (side_indices ?c Buy ?A). \<exists>j \<in> set (side_indices ?c Sell ?A). j \<le> i)"
  proof
    assume "is_crossed b"
    then show "\<exists>i \<in> set (side_indices ?c Buy ?A). \<exists>j \<in> set (side_indices ?c Sell ?A). j \<le> i"
      using B(3) S(3) best unfolding is_crossed_def by metis
  next
    assume "\<exists>i \<in> set (side_indices ?c Buy ?A). \<exists>j \<in> set (side_indices ?c Sell ?A). j \<le> i"
    then obtain i j where ij: "i \<in> set (side_indices ?c Buy ?A)" "j \<in> set (side_indices ?c Sell ?A)"
      "j \<le> i" by blast
    then have "0 \<le> top_bid ?c ?A" "0 \<le> top_ask ?c ?A" using B(1) S(1) by auto
    with ij B(2) [OF ij(1)] S(2) [OF ij(2)] best show "is_crossed b"
      unfolding is_crossed_def by linarith
  qed
  also have "\<dots> \<longleftrightarrow> (\<exists>x \<in> set ?A. \<exists>y \<in> set ?A. rs_side x = Buy \<and> rs_side y = Sell
      \<and> to_index ?c (rs_price y) \<le> to_index ?c (rs_price x))"
    by (auto simp: side_indices_def)
  also have "\<dots> \<longleftrightarrow> (\<exists>x \<in> set ?A. \<exists>y \<in> set ?A. rs_side x = Buy \<and> rs_side y = Sell
      \<and> to_index ?c (rs_price y) < to_index ?c (rs_price x))"
    using pure unfolding side_pure_def by (metis order_le_less side.distinct(5))
  finally have "is_crossed b \<longleftrightarrow> (\<exists>x \<in> set ?A. \<exists>y \<in> set ?A. rs_side x = Buy \<and> rs_side y = Sell
      \<and> to_index ?c (rs_price y) < to_index ?c (rs_price x))" .
  moreover have "spread_ticks b = (if 0 \<le> top_bid ?c ?A \<and> 0 \<le> top_ask ?c ?A
      then tick_size ?c * (top_ask ?c ?A - top_bid ?c ?A) else -1)"
    using best by (simp add: spread_ticks_def b(3) to_price_def algebra_simps not_less)
  ultimately show ?thesis using b(1) by blast
qed

text \<open>
  C7. Under the same condition is_crossed holds exactly when some live buy order is at a higher
  index than some live sell order, and spread_ticks is the tick distance of the two best levels,
  or -1 when a side is empty.
\<close>

theorem crossed_iff_orders_cross:
  assumes "good_config (fix_config cfg)" and "length evs < 2 ^ 32"
    and "always_pure (fix_config cfg) evs []"
  shows "\<exists>b. apply_all evs (new_book cfg) = Some b
    \<and> (is_crossed b \<longleftrightarrow>
        (\<exists>x \<in> set (spec_run cfg evs). \<exists>y \<in> set (spec_run cfg evs). rs_side x = Buy \<and> rs_side y = Sell
          \<and> to_index (fix_config cfg) (rs_price y) < to_index (fix_config cfg) (rs_price x)))
    \<and> (spread_ticks b =
        (if 0 \<le> top_bid (fix_config cfg) (spec_run cfg evs)
            \<and> 0 \<le> top_ask (fix_config cfg) (spec_run cfg evs)
         then tick_size (fix_config cfg) * (top_ask (fix_config cfg) (spec_run cfg evs)
                - top_bid (fix_config cfg) (spec_run cfg evs))
         else -1))"
  by (rule crossed_spec [OF assms])

lemma crossed_iff_orders_cross_witness:
  "\<exists>b. apply_all small_run (new_book small_config) = Some b \<and> \<not> is_crossed b \<and> spread_ticks b = 2"
proof -
  have "length small_run < 2 ^ 32" by (simp add: small_run_def)
  from crossed_iff_orders_cross [of small_config, OF _ this] pure_small obtain b
    where "apply_all small_run (new_book small_config) = Some b" "\<not> is_crossed b"
      "spread_ticks b = (if 0 \<le> top_bid small_config (spec_run small_config small_run)
            \<and> 0 \<le> top_ask small_config (spec_run small_config small_run)
         then tick_size small_config * (top_ask small_config (spec_run small_config small_run)
                - top_bid small_config (spec_run small_config small_run))
         else -1)" by auto
  then show ?thesis by (auto simp: top_bid_def top_ask_def side_indices_def)
qed

section \<open>A locked level\<close>

lemma locked_run_result:
  "(case apply_all locked_run (new_book small_config) of
      None \<Rightarrow> False
    | Some b \<Rightarrow> live_orders b = 0 \<and> index b 1 = None \<and> index b 2 = None
        \<and> list_all (\<lambda>lvl. order_count lvl = 0) (levels b)
        \<and> best_bid b = Some \<lparr>bl_price = 103, bl_size = 0, bl_count = 0, bl_valid = True\<rparr>)"
  by code_simp

text \<open>
  After a buy and a sell order at one price and their deletion the book is empty, but \<open>best_bid\<close> still returns a
  valid level with count 0.
\<close>

lemma locked_level_leaves_stale_best:
  "\<exists>b. apply_all locked_run (new_book small_config) = Some b
    \<and> live_orders b = 0 \<and> index b 1 = None \<and> index b 2 = None
    \<and> list_all (\<lambda>lvl. order_count lvl = 0) (levels b)
    \<and> best_bid b = Some \<lparr>bl_price = 103, bl_size = 0, bl_count = 0, bl_valid = True\<rparr>"
  using locked_run_result by (auto split: option.splits)

section \<open>Counters\<close>

text \<open>Whether an event names an order that is not live, and whether it adds outside the band.\<close>

definition needs_ref :: "event_type \<Rightarrow> bool" where
  "needs_ref t \<longleftrightarrow> t \<in> {Cancel, Execute, ExecuteWithPrice, Delete, Replace}"

definition misses_ref :: "market_event \<Rightarrow> resting list \<Rightarrow> bool" where
  "misses_ref ev A \<longleftrightarrow> needs_ref (ev_type ev) \<and> order_ref ev \<notin> refs A"

definition misses_band :: "book_config \<Rightarrow> market_event \<Rightarrow> resting list \<Rightarrow> bool" where
  "misses_band cfg ev A \<longleftrightarrow> (ev_type ev = Add \<or> ev_type ev = Replace \<and> order_ref ev \<in> refs A)
     \<and> (price_ticks ev < min_price cfg \<or> max_price cfg < price_ticks ev)"

definition bump :: "bool \<Rightarrow> u64 \<Rightarrow> u64" where
  "bump c n = (if c then n + 1 else n)"

lemma bump_simps [simp]: "bump True n = n + 1" "bump False n = n"
  by (simp_all add: bump_def)

lemma fix_best_stats: "fix_best s i b = Some b' \<Longrightarrow> bk_stats b' = bk_stats b"
  by (auto simp: fix_best_def rescan_best_bid_from_def rescan_best_ask_from_def
      split: if_splits Option.bind_splits)

lemma remove_stats: "remove_order p b = Some b' \<Longrightarrow> bk_stats b' = bk_stats b"
  by (auto simp: remove_order_def Let_def bind_eq_Some_conv split: if_splits dest: fix_best_stats)

lemma reduce_stats: "reduce_order p n b = Some b' \<Longrightarrow> bk_stats b' = bk_stats b"
  by (auto simp: reduce_order_def Let_def bind_eq_Some_conv split: if_splits dest: remove_stats)

lemma add_stats:
  "on_add ev b = Some b' \<Longrightarrow> bk_stats b' =
    (if to_index (bk_cfg b) (price_ticks ev) < 0
     then (bk_stats b)\<lparr>rejected_out_of_band := rejected_out_of_band (bk_stats b) + 1\<rparr> else bk_stats b)"
  by (auto simp: on_add_def Let_def bind_eq_Some_conv split: if_splits)

lemma dispatch_stats:
  assumes repr: "book_repr b q A" and run: "dispatch ev b = Some b'"
  shows "bk_stats b' = (bk_stats b)
    \<lparr>adds := bump (ev_type ev = Add) (adds (bk_stats b)),
     cancels := bump (ev_type ev = Cancel) (cancels (bk_stats b)),
     deletes := bump (ev_type ev = Delete) (deletes (bk_stats b)),
     executes := bump (ev_type ev \<in> {Execute, ExecuteWithPrice}) (executes (bk_stats b)),
     replaces := bump (ev_type ev = Replace) (replaces (bk_stats b)),
     trades := bump (ev_type ev = Trade) (trades (bk_stats b)),
     rejected_out_of_band := bump (misses_band (bk_cfg b) ev A) (rejected_out_of_band (bk_stats b)),
     unknown_ref := bump (misses_ref ev A) (unknown_ref (bk_stats b))\<rparr>"
proof -
  have tick: "1 \<le> tick_size (bk_cfg b)" using repr by (simp add: book_repr_def good_config_def)
  have band: "to_index (bk_cfg b) px < 0 \<longleftrightarrow> px < min_price (bk_cfg b) \<or> max_price (bk_cfg b) < px" for px
    using to_index_nonneg [OF tick, of px] by linarith
  have known: "index b r = None \<longleftrightarrow> r \<notin> refs A" for r
    using repr_index [OF repr, of r] by blast
  have known': "index b r = Some p \<Longrightarrow> r \<in> refs A" for r p
    using repr_index [OF repr, of r] by simp
  note defs = misses_ref_def misses_band_def needs_ref_def dispatch_def with_ref_def
  show ?thesis
  proof (cases "ev_type ev")
    case Add
    with run show ?thesis by (auto simp: defs band dest!: add_stats)
  next
    case Cancel
    with run show ?thesis
      by (auto simp: defs known known' dest!: reduce_stats split: option.splits)
  next
    case Execute
    with run show ?thesis
      by (auto simp: defs known known' dest!: reduce_stats split: option.splits)
  next
    case ExecuteWithPrice
    with run show ?thesis
      by (auto simp: defs known known' dest!: reduce_stats split: option.splits)
  next
    case Delete
    with run show ?thesis
      by (auto simp: defs known known' dest!: remove_stats split: option.splits)
  next
    case Replace
    let ?b = "count (\<lambda>s. s\<lparr>replaces := replaces s + 1\<rparr>) b"
    show ?thesis
    proof (cases "index b (order_ref ev)")
      case None
      with Replace run show ?thesis by (auto simp: defs known)
    next
      case (Some p)
      then have "replace_order ev p ?b = Some b'"
        using Replace run by (simp add: defs)
      then obtain n :: order and b1 where b1: "remove_order p ?b = Some b1"
        "on_add (ev\<lparr>ev_type := Add, order_ref := new_order_ref ev, ev_side := o_side n\<rparr>) b1 = Some b'"
        unfolding replace_order_def bind_eq_Some_conv by blast
      have "book_repr ?b q A" "index ?b (order_ref ev) = Some p" using repr Some by simp_all
      from remove_ok [OF this] b1(1) have "bk_cfg b1 = bk_cfg b" by auto
      with add_stats [OF b1(2)] remove_stats [OF b1(1)] Replace known' [OF Some] show ?thesis
        by (auto simp: defs band)
    qed
  qed (use run in \<open>auto simp: defs\<close>)
qed

text \<open>
  Each apply adds one to applied and to the counter of its type, to unknown_ref exactly when the
  event names an order that is not live, to rejected_out_of_band exactly when it adds outside the
  band, and to crossed_observed exactly when the book is crossed afterwards.
\<close>

lemma apply_counters:
  assumes "good_config (fix_config cfg)" and "Suc (length evs) < 2 ^ 32"
    and "apply_all evs (new_book cfg) = Some b" and "apply_event ev b = Some b'"
  shows "applied (bk_stats b') = applied (bk_stats b) + 1
    \<and> adds (bk_stats b') = bump (ev_type ev = Add) (adds (bk_stats b))
    \<and> deletes (bk_stats b') = bump (ev_type ev = Delete) (deletes (bk_stats b))
    \<and> executes (bk_stats b') = bump (ev_type ev \<in> {Execute, ExecuteWithPrice}) (executes (bk_stats b))
    \<and> rejected_out_of_band (bk_stats b')
        = bump (misses_band (fix_config cfg) ev (spec_run cfg evs)) (rejected_out_of_band (bk_stats b))
    \<and> unknown_ref (bk_stats b') = bump (misses_ref ev (spec_run cfg evs)) (unknown_ref (bk_stats b))
    \<and> crossed_observed (bk_stats b') = bump (is_crossed b') (crossed_observed (bk_stats b))"
proof -
  obtain q where q: "book_repr b q (spec_run cfg evs)" "bk_cfg b = fix_config cfg"
    using run_repr [OF assms(1), of evs] assms(2,3) by auto
  obtain b1 where b1: "dispatch ev b = Some b1"
    "b' = note_crossed (count (\<lambda>s. s\<lparr>applied := applied s + 1\<rparr>) b1)"
    using assms(4) by (auto simp: apply_event_def bind_eq_Some_conv)
  have crossed: "is_crossed b' = is_crossed b1"
    by (simp add: b1(2) note_crossed_def is_crossed_def)
  show ?thesis
    using dispatch_stats [OF q(1) b1(1)] q(2)
    by (simp add: crossed) (simp add: b1(2) note_crossed_def is_crossed_def bump_def)
qed

lemma apply_counters_witness:
  "\<exists>b b'. apply_all small_run (new_book small_config) = Some b
    \<and> apply_event (ref_event Delete 2 0) b = Some b'
    \<and> unknown_ref (bk_stats b') = unknown_ref (bk_stats b) + 1"
proof -
  have len: "length small_run < 2 ^ 32" "Suc (length small_run) < 2 ^ 32"
    by (simp_all add: small_run_def)
  obtain b q where b: "apply_all small_run (new_book small_config) = Some b"
    "book_repr b q (spec_run small_config small_run)"
    using run_repr [of small_config small_run] len(1) good_small by (metis fix_small)
  obtain b' where b': "apply_event (ref_event Delete 2 0) b = Some b'"
    using apply_refines [OF b(2), of "ref_event Delete 2 0"] by (auto simp: refines_to_def)
  have "unknown_ref (bk_stats b')
      = bump (misses_ref (ref_event Delete 2 0) (spec_run small_config small_run)) (unknown_ref (bk_stats b))"
    using apply_counters [of small_config, OF _ len(2) b(1) b'] by simp
  moreover have "misses_ref (ref_event Delete 2 0) (spec_run small_config small_run)"
    by (simp add: misses_ref_def needs_ref_def ref_event_def)
  ultimately have "unknown_ref (bk_stats b') = unknown_ref (bk_stats b) + 1"
    by (simp only: bump_simps)
  with b(1) b' show ?thesis by blast
qed

section \<open>Index arithmetic\<close>

text \<open>
  For a configuration whose band fits in 64 bits, no index or price computation overflows a signed
  64-bit integer, and an index converts back to the price of its level, which is at most one tick
  below.
\<close>

lemma price_index_in_range:
  assumes "in_i64 (min_price cfg)" and "in_i64 (max_price cfg)" and "in_i64 (tick_size cfg)"
    and "1 \<le> tick_size cfg" and "in_i64 (max_price cfg - min_price cfg)"
    and "min_price cfg \<le> px" and "px \<le> max_price cfg"
  shows "in_i64 (px - min_price cfg) \<and> in_i64 (to_index cfg px) \<and> 0 \<le> to_index cfg px
    \<and> in_i64 (to_index cfg px * tick_size cfg) \<and> in_i64 (to_price cfg (to_index cfg px))
    \<and> to_price cfg (to_index cfg px) \<le> px \<and> px < to_price cfg (to_index cfg px) + tick_size cfg
    \<and> to_index cfg (to_price cfg (to_index cfg px)) = to_index cfg px"
proof -
  let ?d = "px - min_price cfg" and ?t = "tick_size cfg"
  have i: "to_index cfg px = ?d div ?t" using assms(6,7) by (simp add: to_index_def)
  have nn: "0 \<le> ?d div ?t" using assms(4,6) by (simp add: pos_imp_zdiv_nonneg_iff)
  have mul: "?d div ?t * ?t \<le> ?d" "?d < ?d div ?t * ?t + ?t"
    using assms(4) by (simp_all add: minus_mod_eq_div_mult [symmetric])
  have le: "?d div ?t \<le> ?d div ?t * ?t" using nn assms(4) by (simp add: mult_le_cancel_left1)
  have nn2: "0 \<le> ?d div ?t * ?t" using nn assms(4) by simp
  have "to_price cfg (?d div ?t) \<le> max_price cfg" using mul(1) assms(7) by (simp add: to_price_def)
  then have "to_index cfg (to_price cfg (?d div ?t)) = ?d div ?t"
    using to_index_to_price [OF assms(4) nn] by simp
  with i nn nn2 mul le assms show ?thesis
    by (auto simp: to_price_def in_i64_def)
qed

lemma price_index_in_range_witness:
  "to_price default_book_config (to_index default_book_config 1234567) = 1234567"
  using price_index_in_range [of default_book_config 1234567]
  by (simp add: in_i64_def default_book_config_def)

end
