(* ===== verification/Order_Book_L2_Props.thy ===== *)
theory Order_Book_L2_Props
  imports Order_Book_L2 Order_Book_Props
begin

text \<open>
  The properties of the aggregated book: it implements the level map, it tracks an exchange's
  two-sided book when updates keep the sides apart and loses a level when they do not, and its
  crossed counter counts the episodes seen at event boundaries.
\<close>

section \<open>The level map\<close>

definition l2_top :: "book_config \<Rightarrow> level_map \<Rightarrow> int \<Rightarrow> book_level" where
  "l2_top cfg m k =
    (if k < 0 then no_level
     else case m (nat k) of
       None \<Rightarrow> no_level
     | Some (s, z) \<Rightarrow> \<lparr>bl_price = to_price cfg k, bl_size = z, bl_count = 1, bl_valid = True\<rparr>)"

lemma l2_best:
  assumes "l2_repr b m"
  shows "highest (\<lambda>j. \<exists>z. m j = Some (Buy, z)) (best_bid_idx b)
    \<and> lowest (\<lambda>j. \<exists>z. m j = Some (Sell, z)) (best_ask_idx b)"
proof -
  have "owned Buy (levels b) = (\<lambda>j. \<exists>z. m j = Some (Buy, z))"
    "owned Sell (levels b) = (\<lambda>j. \<exists>z. m j = Some (Sell, z))"
    using l2_owned [OF assms] by auto
  then show ?thesis using assms by (simp add: l2_repr_def best_ok_def)
qed

lemma l2_read_top:
  assumes repr: "l2_repr b m" and k: "k = - 1 \<or> 0 \<le> k \<and> m (nat k) = Some (s, z)"
  shows "(if k < 0 then Some no_level
      else do { lvl \<leftarrow> vec_get (levels b) (nat k); Some (level_view b k lvl) })
    = Some (l2_top (bk_cfg b) m k)"
proof (cases "k < 0")
  case True
  then show ?thesis by (simp add: l2_top_def)
next
  case False
  then have m: "m (nat k) = Some (s, z)" using k by auto
  then have len: "nat k < length (levels b)" using repr unfolding l2_repr_def by blast
  from l2_at [OF repr len] m have "order_count (levels b ! nat k) = 1" "aggregate_size (levels b ! nat k) = z"
    by simp_all
  with False m len show ?thesis by (simp add: l2_top_def level_view_def access_simps)
qed

lemma l2_tops:
  assumes "l2_repr b m"
  shows "best_bid b = Some (l2_top (bk_cfg b) m (best_bid_idx b))
    \<and> best_ask b = Some (l2_top (bk_cfg b) m (best_ask_idx b))"
proof -
  have "best_bid_idx b = - 1 \<or> (\<exists>z. 0 \<le> best_bid_idx b \<and> m (nat (best_bid_idx b)) = Some (Buy, z))"
    using l2_best [OF assms] unfolding highest_def by blast
  moreover have "best_ask_idx b = - 1 \<or> (\<exists>z. 0 \<le> best_ask_idx b \<and> m (nat (best_ask_idx b)) = Some (Sell, z))"
    using l2_best [OF assms] unfolding lowest_def by blast
  ultimately show ?thesis
    using l2_read_top [OF assms, of "best_bid_idx b" Buy] l2_read_top [OF assms, of "best_ask_idx b" Sell]
    unfolding best_bid_def best_ask_def by blast
qed

lemma l2_run:
  assumes "good_config (fix_config cfg)"
  obtains b where "set_levels us (new_book cfg) = Some b"
    and "l2_repr b (fold (spec_set (fix_config cfg)) us Map.empty)" and "bk_cfg b = fix_config cfg"
proof -
  have "bk_cfg (new_book cfg) = fix_config cfg" by (simp add: new_book_def Let_def)
  with set_levels_refines [OF l2_repr_new [OF assms], of us] that show ?thesis by auto
qed

text \<open>
  C32. Any sequence of set_level calls on an empty book implements a map from level index to
  (side, size): every level holds the entry of its index, live_orders counts the entries,
  best_bid and best_ask are the highest Buy and the lowest Sell entry.
\<close>

theorem set_level_refines_map:
  assumes "good_config (fix_config cfg)" and "m = fold (spec_set (fix_config cfg)) us Map.empty"
  shows "\<exists>b kb ka. set_levels us (new_book cfg) = Some b
    \<and> (\<forall>i < num_levels (fix_config cfg). l2_level (levels b ! i) (m i))
    \<and> live_orders b = of_nat (card (dom m))
    \<and> highest (\<lambda>j. \<exists>z. m j = Some (Buy, z)) kb \<and> best_bid b = Some (l2_top (fix_config cfg) m kb)
    \<and> lowest (\<lambda>j. \<exists>z. m j = Some (Sell, z)) ka \<and> best_ask b = Some (l2_top (fix_config cfg) m ka)"
proof -
  obtain b where b: "set_levels us (new_book cfg) = Some b" "l2_repr b m" "bk_cfg b = fix_config cfg"
    using l2_run [OF assms(1), of us] assms(2) by metis
  have "length (levels b) = num_levels (fix_config cfg)" "live_orders b = of_nat (card (dom m))"
    using b(2,3) by (simp_all add: l2_repr_def)
  with b l2_at [OF b(2)] l2_best [OF b(2)] l2_tops [OF b(2)] show ?thesis
    by (intro exI [of _ b] exI [of _ "best_bid_idx b"] exI [of _ "best_ask_idx b"]) simp
qed

definition map_ops :: "level_op list" where
  "map_ops = [(Buy, 103, 9), (Sell, 105, 4), (Buy, 103, 7)]"

lemma map_ops_map:
  "fold (spec_set small_config) map_ops Map.empty = [3 \<mapsto> (Buy, 7), 5 \<mapsto> (Sell, 4)]"
  by (auto simp: map_ops_def spec_set_def)

lemma set_level_refines_map_witness:
  "\<exists>b. set_levels map_ops (new_book small_config) = Some b
    \<and> l2_level (levels b ! 3) (Some (Buy, 7)) \<and> live_orders b = 2"
proof -
  let ?m = "[3 \<mapsto> (Buy, 7), 5 \<mapsto> (Sell, 4)] :: level_map"
  have m: "?m = fold (spec_set (fix_config small_config)) map_ops Map.empty"
    by (simp only: map_ops_map fix_small)
  obtain b where b: "set_levels map_ops (new_book small_config) = Some b"
    "\<forall>i < num_levels (fix_config small_config). l2_level (levels b ! i) (?m i)"
    "live_orders b = of_nat (card (dom ?m))"
    using set_level_refines_map [OF _ m] by auto
  have "l2_level (levels b ! 3) (?m 3)" using b(2) by (simp del: fun_upd_apply)
  with b show ?thesis by auto
qed

section \<open>An exchange's two-sided book\<close>

text \<open>The exchange keeps a size per side and index; 0 is an absent level.\<close>

type_synonym sided_book = "side \<Rightarrow> nat \<Rightarrow> u64"

definition sided_set :: "book_config \<Rightarrow> level_op \<Rightarrow> sided_book \<Rightarrow> sided_book" where
  "sided_set cfg u x =
    (case u of (s, px, z) \<Rightarrow>
       if to_index cfg px < 0 then x else x(s := (x s)(nat (to_index cfg px) := z)))"

fun opposite :: "side \<Rightarrow> side" where
  "opposite Buy = Sell"
| "opposite Sell = Buy"
| "opposite NoSide = NoSide"

text \<open>Every update names a side, and the other side has nothing at its index at that moment.\<close>

fun sides_apart :: "book_config \<Rightarrow> level_op list \<Rightarrow> sided_book \<Rightarrow> bool" where
  "sides_apart cfg [] x \<longleftrightarrow> True"
| "sides_apart cfg ((s, px, z) # us) x \<longleftrightarrow> s \<noteq> NoSide
     \<and> (0 \<le> to_index cfg px \<longrightarrow> x (opposite s) (nat (to_index cfg px)) = 0)
     \<and> sides_apart cfg us (sided_set cfg (s, px, z) x)"

definition agrees :: "level_map \<Rightarrow> sided_book \<Rightarrow> bool" where
  "agrees m x \<longleftrightarrow> (\<forall>i. case m i of
       None \<Rightarrow> x Buy i = 0 \<and> x Sell i = 0
     | Some (s, z) \<Rightarrow> s \<noteq> NoSide \<and> x s i = z \<and> x (opposite s) i = 0)"

lemma agrees_step:
  assumes "agrees m x" and "s \<noteq> NoSide"
    and "0 \<le> to_index cfg px \<longrightarrow> x (opposite s) (nat (to_index cfg px)) = 0"
  shows "agrees (spec_set cfg (s, px, z) m) (sided_set cfg (s, px, z) x)"
proof (cases "to_index cfg px < 0")
  case True
  with assms(1) show ?thesis by (simp add: spec_set_def sided_set_def)
next
  case False
  let ?i = "nat (to_index cfg px)"
  have free: "x (opposite s) ?i = 0" using assms(3) False by simp
  have opp: "opposite s \<noteq> s" using assms(2) by (cases s) simp_all
  show ?thesis
    unfolding agrees_def
  proof
    fix j
    show "case spec_set cfg (s, px, z) m j of
        None \<Rightarrow> sided_set cfg (s, px, z) x Buy j = 0 \<and> sided_set cfg (s, px, z) x Sell j = 0
      | Some (t, y) \<Rightarrow> t \<noteq> NoSide \<and> sided_set cfg (s, px, z) x t j = y
          \<and> sided_set cfg (s, px, z) x (opposite t) j = 0"
    proof (cases "j = ?i")
      case True
      then show ?thesis using False free opp assms(2)
        by (cases s) (auto simp: spec_set_def sided_set_def)
    next
      case other: False
      then have "spec_set cfg (s, px, z) m j = m j" "sided_set cfg (s, px, z) x t j = x t j" for t
        using False by (auto simp: spec_set_def sided_set_def)
      then show ?thesis
        using assms(1) [unfolded agrees_def, THEN spec, of j] by (cases "m j") auto
    qed
  qed
qed

lemma agrees_run:
  "agrees m x \<Longrightarrow> sides_apart cfg us x \<Longrightarrow>
    agrees (fold (spec_set cfg) us m) (fold (sided_set cfg) us x)"
proof (induction us arbitrary: m x)
  case Nil
  then show ?case by simp
next
  case (Cons u us)
  obtain s px z where u: "u = (s, px, z)" by (cases u) auto
  from Cons.prems agrees_step [of m x s cfg px z] Cons.IH show ?case by (simp add: u)
qed

text \<open>
  C33. When updates keep the sides apart (none touches an index the other side occupies), the
  book holds the same size at every index of either side as the exchange's two-sided book.
\<close>

theorem set_level_tracks_exchange:
  assumes "good_config (fix_config cfg)" and "sides_apart (fix_config cfg) us (\<lambda>s i. 0)"
    and "s = Buy \<or> s = Sell"
  shows "\<exists>b. set_levels us (new_book cfg) = Some b
    \<and> (\<forall>i < num_levels (fix_config cfg).
         fold (sided_set (fix_config cfg)) us (\<lambda>s i. 0) s i
           = (if lvl_side (levels b ! i) = s then aggregate_size (levels b ! i) else 0))"
proof -
  let ?m = "fold (spec_set (fix_config cfg)) us Map.empty"
  let ?x = "fold (sided_set (fix_config cfg)) us (\<lambda>s i. 0)"
  obtain b where b: "set_levels us (new_book cfg) = Some b" "l2_repr b ?m" "bk_cfg b = fix_config cfg"
    using l2_run [OF assms(1), of us] by metis
  have ag: "agrees ?m ?x" by (rule agrees_run [OF _ assms(2)]) (simp add: agrees_def)
  have "?x s i = (if lvl_side (levels b ! i) = s then aggregate_size (levels b ! i) else 0)"
    if "i < num_levels (fix_config cfg)" for i
  proof -
    have "i < length (levels b)" using b(2,3) that by (simp add: l2_repr_def)
    from l2_at [OF b(2) this] ag [unfolded agrees_def, rule_format, of i] assms(3) show ?thesis
      by (cases "?m i"; cases "lvl_side (levels b ! i)") auto
  qed
  with b(1) show ?thesis by blast
qed

definition apart_ops :: "level_op list" where
  "apart_ops = [(Buy, 103, 9), (Sell, 105, 4), (Buy, 103, 0), (Sell, 103, 2)]"

lemma set_level_tracks_exchange_witness:
  "\<exists>b. set_levels apart_ops (new_book small_config) = Some b
    \<and> (if lvl_side (levels b ! 3) = Sell then aggregate_size (levels b ! 3) else 0) = 2"
proof -
  have apart: "sides_apart small_config apart_ops (\<lambda>s i. 0)"
    and final: "fold (sided_set small_config) apart_ops (\<lambda>s i. 0) Sell 3 = 2"
    by (simp_all add: apart_ops_def sided_set_def)
  obtain b where b: "set_levels apart_ops (new_book small_config) = Some b"
    "\<forall>i < 8. fold (sided_set small_config) apart_ops (\<lambda>s i. 0) Sell i
      = (if lvl_side (levels b ! i) = Sell then aggregate_size (levels b ! i) else 0)"
    using set_level_tracks_exchange [of small_config apart_ops Sell] apart by auto
  have "(if lvl_side (levels b ! 3) = Sell then aggregate_size (levels b ! 3) else 0) = 2"
    using b(2) final by simp
  with b(1) show ?thesis by blast
qed

text \<open>One exchange event moves the price 103 from the ask side to the bid side, bids first.\<close>

definition flip_ops :: "level_op list" where
  "flip_ops = [(Sell, 103, 5), (Buy, 103, 4), (Sell, 103, 0)]"

lemma flip_ops_result:
  "(case set_levels flip_ops (new_book small_config) of
      None \<Rightarrow> False
    | Some b \<Rightarrow> best_bid b = Some no_level \<and> live_orders b = 0)"
  by code_simp

text \<open>
  When an index changes side, a removal sent for the old side wipes the level of the new side.
\<close>

lemma flipped_level_is_lost:
  "fold (sided_set small_config) flip_ops (\<lambda>s i. 0) Buy 3 = 4
    \<and> (\<exists>b. set_levels flip_ops (new_book small_config) = Some b
        \<and> best_bid b = Some no_level \<and> live_orders b = 0)"
  using flip_ops_result by (auto simp: flip_ops_def sided_set_def split: option.splits)

section \<open>Crossed episodes\<close>

text \<open>One exchange event is a list of level updates and one boundary observation; the flags tell
  whether the book was crossed at each boundary.\<close>

fun l2_events :: "level_op list list \<Rightarrow> order_book \<Rightarrow> (bool list \<times> order_book) option" where
  "l2_events [] b = Some ([], b)"
| "l2_events (us # evs) b = do {
     b \<leftarrow> set_levels us b;
     (fl, b') \<leftarrow> l2_events evs (observe_event_boundary b);
     Some (is_crossed b # fl, b') }"

fun rises :: "bool \<Rightarrow> bool list \<Rightarrow> nat" where
  "rises p [] = 0"
| "rises p (c # cs) = (if c \<and> \<not> p then 1 else 0) + rises c cs"

lemma set_level_keeps:
  assumes "set_level s px z b = Some b'"
  shows "crossed_observed (bk_stats b') = crossed_observed (bk_stats b)
    \<and> crossed_at_last_boundary b' = crossed_at_last_boundary b"
proof -
  have fixed: "fix_best t i c = Some c' \<Longrightarrow> bk_stats c' = bk_stats c
      \<and> crossed_at_last_boundary c' = crossed_at_last_boundary c" for t i c c'
    by (auto simp: fix_best_def rescan_best_bid_from_def rescan_best_ask_from_def bind_eq_Some_conv
        split: if_splits)
  have raise: "crossed_at_last_boundary (raise_best t i c) = crossed_at_last_boundary c" for t i c
    by (simp add: raise_best_def)
  show ?thesis
    using assms
    by (auto simp: set_level_def Let_def bind_eq_Some_conv raise split: if_splits dest!: fixed)
qed

lemma set_levels_keeps:
  "set_levels us b = Some b' \<Longrightarrow> crossed_observed (bk_stats b') = crossed_observed (bk_stats b)
    \<and> crossed_at_last_boundary b' = crossed_at_last_boundary b"
proof (induction us arbitrary: b)
  case Nil
  then show ?case by simp
next
  case (Cons u us)
  obtain s px z where u: "u = (s, px, z)" by (cases u) auto
  from Cons.prems obtain b1 where "set_level s px z b = Some b1" "set_levels us b1 = Some b'"
    by (auto simp: u bind_eq_Some_conv)
  with set_level_keeps [of s px z b b1] Cons.IH [of b1] show ?case by simp
qed

text \<open>
  Observed once per exchange event, crossed_observed grows by exactly the number of events at which
  the book became crossed.
\<close>

lemma crossed_counts_episodes:
  assumes "l2_events evs b = Some (fl, b')"
  shows "crossed_observed (bk_stats b')
    = crossed_observed (bk_stats b) + of_nat (rises (crossed_at_last_boundary b) fl)"
  using assms
proof (induction evs arbitrary: b fl)
  case Nil
  then show ?case by simp
next
  case (Cons us evs)
  then obtain b1 fl1 where b1: "set_levels us b = Some b1"
    "l2_events evs (observe_event_boundary b1) = Some (fl1, b')" "fl = is_crossed b1 # fl1"
    by (auto simp: bind_eq_Some_conv)
  from Cons.IH [OF b1(2)] set_levels_keeps [OF b1(1)] b1(3) show ?case
    by (simp add: observe_event_boundary_def Let_def)
qed

definition crossing_events :: "level_op list list" where
  "crossing_events = [[(Buy, 103, 5), (Sell, 105, 5)], [(Sell, 102, 1)], [(Sell, 101, 1)], [(Buy, 103, 0)]]"

lemma crossing_events_flags:
  "map_option fst (l2_events crossing_events (new_book small_config)) = Some [False, True, True, False]"
  by code_simp

lemma crossed_counts_episodes_witness:
  "\<exists>fl b. l2_events crossing_events (new_book small_config) = Some (fl, b) \<and> crossed_observed (bk_stats b) = 1"
proof -
  obtain b where b: "l2_events crossing_events (new_book small_config)
      = Some ([False, True, True, False], b)"
    using crossing_events_flags by auto
  from crossed_counts_episodes [OF b] b show ?thesis
    by (simp add: new_book_def Let_def zero_book_stats_def)
qed

end
