(* ===== verification/Spsc_Ring.thy ===== *)
theory Spsc_Ring
  imports FH_Prelude
begin

text \<open>
  \<^verbatim>\<open>SpscRingBuffer\<close> of \<^verbatim>\<open>include/feedhandler/spsc_ring_buffer.hpp\<close>. The two indices and their cached
  copies are 64-bit counters whose arithmetic wraps; a slot is \<open>index & (Capacity - 1)\<close>. The
  operations are cut where another thread can intervene: the test with its (possibly stale) load
  of the other index, the access to the slot, and the store of the own index. \<open>push\<close> and \<open>pop\<close> are
  the three parts in a row. The contract of a bounded queue is the locale \<open>bounded_fifo\<close>, which the
  ring is shown to satisfy.
\<close>

record 'a ring =
  rb_buf :: "'a list"
  rb_head :: u64
  rb_tail :: u64
  cached_tail :: u64
  cached_head :: u64

definition new_ring :: "nat \<Rightarrow> 'a \<Rightarrow> 'a ring" where
  "new_ring cap x = \<lparr>rb_buf = replicate cap x, rb_head = 0, rb_tail = 0, cached_tail = 0, cached_head = 0\<rparr>"

definition capacity :: "'a ring \<Rightarrow> u64" where
  "capacity r = of_nat (length (rb_buf r))"

definition slot :: "'a ring \<Rightarrow> u64 \<Rightarrow> nat" where
  "slot r i = unat (i AND (capacity r - 1))"

text \<open>\<open>obs\<close> is the value the load of the other thread's index returns.\<close>

definition push_check :: "u64 \<Rightarrow> 'a ring \<Rightarrow> bool \<times> 'a ring" where
  "push_check obs r =
    (if rb_tail r - cached_head r \<ge> capacity r then
       (let r = r\<lparr>cached_head := obs\<rparr> in
        if rb_tail r - cached_head r \<ge> capacity r then (False, r) else (True, r))
     else (True, r))"

definition push_write :: "'a \<Rightarrow> 'a ring \<Rightarrow> 'a ring" where
  "push_write x r = r\<lparr>rb_buf := (rb_buf r)[slot r (rb_tail r) := x]\<rparr>"

definition push_publish :: "'a ring \<Rightarrow> 'a ring" where
  "push_publish r = r\<lparr>rb_tail := rb_tail r + 1\<rparr>"

definition push :: "'a \<Rightarrow> 'a ring \<Rightarrow> bool \<times> 'a ring" where
  "push x r =
    (let (room, r) = push_check (rb_head r) r
     in if room then (True, push_publish (push_write x r)) else (False, r))"

definition pop_check :: "u64 \<Rightarrow> 'a ring \<Rightarrow> bool \<times> 'a ring" where
  "pop_check obs r =
    (if rb_head r = cached_tail r then
       (let r = r\<lparr>cached_tail := obs\<rparr> in
        if rb_head r = cached_tail r then (False, r) else (True, r))
     else (True, r))"

definition pop_read :: "'a ring \<Rightarrow> 'a" where
  "pop_read r = rb_buf r ! slot r (rb_head r)"

definition pop_release :: "'a ring \<Rightarrow> 'a ring" where
  "pop_release r = r\<lparr>rb_head := rb_head r + 1\<rparr>"

definition pop :: "'a ring \<Rightarrow> 'a option \<times> 'a ring" where
  "pop r =
    (let (some, r) = pop_check (rb_tail r) r
     in if some then (Some (pop_read r), pop_release r) else (None, r))"

definition size_approx :: "'a ring \<Rightarrow> u64" where
  "size_approx r = rb_tail r - rb_head r"

section \<open>Counters modulo two to the 64\<close>

lemma unat_diff_counters:
  assumes "h \<le> t" and "t \<le> h + 2 ^ k" and "k < 64"
  shows "unat (of_nat t - of_nat h :: u64) = t - h"
proof -
  have "(of_nat t - of_nat h :: u64) = of_nat (t - h)" using assms(1) by (simp add: of_nat_diff)
  moreover have "t - h < 2 ^ 64"
  proof -
    have "t - h \<le> 2 ^ k" using assms(2) by simp
    also have "\<dots> < (2 :: nat) ^ 64" using assms(3) by (rule power_strict_increasing) simp
    finally show ?thesis .
  qed
  ultimately show ?thesis by (simp add: unat_of_nat)
qed

lemma counters_equal:
  assumes "h \<le> t" and "t \<le> h + 2 ^ k" and "k < 64"
  shows "(of_nat h :: u64) = of_nat t \<longleftrightarrow> h = t"
  using unat_diff_counters [OF assms] assms(1) by (metis diff_is_0_eq le_antisym right_minus_eq unat_eq_0)

lemma unat_capacity:
  assumes "k < 64"
  shows "unat (of_nat (2 ^ k) :: u64) = 2 ^ k"
proof -
  have "(2 :: nat) ^ k < 2 ^ LENGTH(64)" using power_strict_increasing [OF assms, of "2 :: nat"] by simp
  then show ?thesis by (simp only: unat_of_nat mod_less)
qed

lemma slot_mod:
  assumes "length (rb_buf r) = 2 ^ k" and "k < 64"
  shows "slot r (of_nat j) = j mod 2 ^ k"
proof -
  have "capacity r - 1 = mask k"
    using assms(1) by (simp add: capacity_def mask_eq_exp_minus_1)
  then have "slot r (of_nat j) = unat (take_bit k (of_nat j :: u64))"
    by (simp add: slot_def take_bit_eq_mask)
  also have "\<dots> = take_bit k (take_bit 64 j)"
    by (simp add: unsigned_take_bit_eq unsigned_of_nat)
  also have "\<dots> = take_bit k j" using assms(2) by (simp add: min_def)
  finally show ?thesis by (simp add: take_bit_eq_mod)
qed

lemma slot_in_range:
  assumes "length (rb_buf r) = 2 ^ k" and "k < 64"
  shows "slot r i < length (rb_buf r)"
  using slot_mod [OF assms, of "unat i"] assms(1) by simp

lemma mod_window_inj:
  assumes "a mod 2 ^ k = b mod (2 ^ k :: nat)" and "a \<le> b" and "b < a + 2 ^ k"
  shows "a = b"
proof (rule ccontr)
  assume "a \<noteq> b"
  then have "0 < b - a" using assms(2) by simp
  moreover have "2 ^ k dvd b - a" using assms(1,2) by (metis mod_eq_dvd_iff_nat)
  ultimately have "2 ^ k \<le> b - a" by (metis dvd_imp_le)
  with assms(2,3) show False by (simp add: le_diff_conv2)
qed

section \<open>The ring against the history\<close>

text \<open>\<open>sent\<close> are the items whose push has completed, \<open>got\<close> the number of completed pops.\<close>

definition ring_inv :: "nat \<Rightarrow> 'a ring \<Rightarrow> 'a list \<Rightarrow> nat \<Rightarrow> bool" where
  "ring_inv k r sent got \<longleftrightarrow> k < 64 \<and> length (rb_buf r) = 2 ^ k
     \<and> rb_tail r = of_nat (length sent) \<and> rb_head r = of_nat got
     \<and> got \<le> length sent \<and> length sent \<le> got + 2 ^ k
     \<and> (\<exists>h \<le> got. cached_head r = of_nat h \<and> length sent \<le> h + 2 ^ k)
     \<and> (\<exists>t. got \<le> t \<and> t \<le> length sent \<and> cached_tail r = of_nat t)
     \<and> (\<forall>j. got \<le> j \<and> j < length sent \<longrightarrow> rb_buf r ! (j mod 2 ^ k) = sent ! j)"

lemma ring_inv_new: "k < 64 \<Longrightarrow> ring_inv k (new_ring (2 ^ k) x) [] 0"
  by (auto simp: ring_inv_def new_ring_def)

text \<open>What a passed test leaves behind: the cached head proves that one more item fits.\<close>

definition has_room :: "nat \<Rightarrow> 'a ring \<Rightarrow> 'a list \<Rightarrow> nat \<Rightarrow> bool" where
  "has_room k r sent got \<longleftrightarrow> (\<exists>h \<le> got. cached_head r = of_nat h \<and> length sent < h + 2 ^ k)"

lemma has_roomD: "has_room k r sent got \<Longrightarrow> length sent < got + 2 ^ k"
  by (auto simp: has_room_def)

text \<open>The producer's test: any value the head has had may be observed, as long as it is not older
  than the cached one.\<close>

lemma push_check_ok:
  assumes inv: "ring_inv k r sent got" and seen: "h \<le> got" "length sent \<le> h + 2 ^ k"
    and run: "push_check (of_nat h) r = (room, r')"
  shows "ring_inv k r' sent got" and "room \<Longrightarrow> has_room k r' sent got"
    and "\<not> room \<Longrightarrow> length sent = h + 2 ^ k"
    and "rb_buf r' = rb_buf r" and "rb_tail r' = rb_tail r" and "rb_head r' = rb_head r"
proof -
  obtain h0 where h0: "h0 \<le> got" "cached_head r = of_nat h0" "length sent \<le> h0 + 2 ^ k"
    using inv by (auto simp: ring_inv_def)
  have k: "k < 64" and cap: "unat (capacity r) = 2 ^ k" and tl: "rb_tail r = of_nat (length sent)"
    and gl: "got \<le> length sent"
    using inv unat_capacity [of k] by (auto simp: ring_inv_def capacity_def)
  have full: "rb_tail r - of_nat a \<ge> capacity r \<longleftrightarrow> length sent = a + 2 ^ k"
    if "a \<le> got" "length sent \<le> a + 2 ^ k" for a
    using unat_diff_counters [of a "length sent" k] that k gl cap
    by (auto simp: tl word_le_nat_alt)
  have capr: "capacity (r\<lparr>cached_head := c\<rparr>) = capacity r" for c by (simp add: capacity_def)
  have cases: "(length sent \<noteq> h0 + 2 ^ k \<and> room \<and> r' = r)
      \<or> (length sent = h0 + 2 ^ k \<and> r' = r\<lparr>cached_head := of_nat h\<rparr>
         \<and> (room \<longleftrightarrow> length sent \<noteq> h + 2 ^ k))"
    using run full [OF h0(1,3)] full [OF seen] h0(2)
    by (auto simp: push_check_def Let_def capr split: if_splits)
  show "ring_inv k r' sent got"
    using cases inv seen by (auto simp: ring_inv_def)
  show "room \<Longrightarrow> has_room k r' sent got"
    using cases h0 seen by (auto simp: has_room_def)
  show "\<not> room \<Longrightarrow> length sent = h + 2 ^ k"
    using cases by auto
  show "rb_buf r' = rb_buf r" "rb_tail r' = rb_tail r" "rb_head r' = rb_head r"
    using cases by auto
qed

lemma push_write_ok:
  assumes inv: "ring_inv k r sent got" and has: "has_room k r sent got"
  shows "ring_inv k (push_write x r) sent got" and "has_room k (push_write x r) sent got"
    and "rb_buf (push_write x r) ! (length sent mod 2 ^ k) = x"
proof -
  note room = has_roomD [OF has]
  have b: "k < 64" "length (rb_buf r) = 2 ^ k" "rb_tail r = of_nat (length sent)"
    using inv by (auto simp: ring_inv_def)
  show "has_room k (push_write x r) sent got"
    using has by (simp add: has_room_def push_write_def)
  have buf: "rb_buf (push_write x r) = (rb_buf r)[length sent mod 2 ^ k := x]"
    using slot_mod [OF b(2,1)] b(3) by (simp add: push_write_def)
  have "rb_buf (push_write x r) ! (j mod 2 ^ k) = rb_buf r ! (j mod 2 ^ k)"
    if "got \<le> j" "j < length sent" for j
  proof -
    have "j mod 2 ^ k \<noteq> length sent mod 2 ^ k"
      using mod_window_inj [of j k "length sent"] that room by auto
    then show ?thesis by (simp add: buf)
  qed
  then show "ring_inv k (push_write x r) sent got"
    using inv by (auto simp: ring_inv_def push_write_def)
  show "rb_buf (push_write x r) ! (length sent mod 2 ^ k) = x"
    using b(2) by (simp add: buf)
qed

lemma push_publish_ok:
  assumes inv: "ring_inv k r sent got" and has: "has_room k r sent got"
    and x: "rb_buf r ! (length sent mod 2 ^ k) = x"
  shows "ring_inv k (push_publish r) (sent @ [x]) got"
proof -
  note room = has_roomD [OF has]
  have "rb_buf r ! (j mod 2 ^ k) = (sent @ [x]) ! j" if "got \<le> j" "j < Suc (length sent)" for j
    using that inv x by (cases "j = length sent") (auto simp: ring_inv_def nth_append)
  moreover have "\<exists>t. got \<le> t \<and> t \<le> Suc (length sent) \<and> cached_tail r = of_nat t"
    using inv by (auto simp: ring_inv_def intro: le_SucI)
  moreover have "\<exists>h \<le> got. cached_head r = of_nat h \<and> Suc (length sent) \<le> h + 2 ^ k"
    using has by (auto simp: has_room_def)
  ultimately show ?thesis
    using inv room by (auto simp: ring_inv_def push_publish_def add.commute)
qed

text \<open>The consumer's test: any value the tail has had may be observed.\<close>

lemma pop_check_ok:
  assumes inv: "ring_inv k r sent got" and seen: "got \<le> t" "t \<le> length sent"
    and run: "pop_check (of_nat t) r = (some, r')"
  shows "ring_inv k r' sent got" and "some \<Longrightarrow> got < length sent" and "\<not> some \<Longrightarrow> t = got"
    and "rb_buf r' = rb_buf r" and "rb_tail r' = rb_tail r" and "rb_head r' = rb_head r"
proof -
  obtain t0 where t0: "got \<le> t0" "t0 \<le> length sent" "cached_tail r = of_nat t0"
    using inv by (auto simp: ring_inv_def)
  have b: "k < 64" "rb_head r = of_nat got" "length sent \<le> got + 2 ^ k"
    using inv by (auto simp: ring_inv_def)
  have eq: "rb_head r = of_nat a \<longleftrightarrow> a = got" if "got \<le> a" "a \<le> length sent" for a
    using counters_equal [of got a k] that b by auto
  have cases: "(t0 \<noteq> got \<and> some \<and> r' = r)
      \<or> (t0 = got \<and> r' = r\<lparr>cached_tail := of_nat t\<rparr> \<and> (some \<longleftrightarrow> t \<noteq> got))"
    using run eq [OF t0(1,2)] eq [OF seen] t0(3)
    by (auto simp: pop_check_def Let_def split: if_splits)
  show "ring_inv k r' sent got"
    using cases inv seen by (auto simp: ring_inv_def)
  show "some \<Longrightarrow> got < length sent" using cases t0(1,2) seen by auto
  show "\<not> some \<Longrightarrow> t = got" using cases by auto
  show "rb_buf r' = rb_buf r" "rb_tail r' = rb_tail r" "rb_head r' = rb_head r"
    using cases by auto
qed

lemma pop_read_ok:
  assumes "ring_inv k r sent got" and "got < length sent"
  shows "pop_read r = sent ! got"
proof -
  have b: "k < 64" "length (rb_buf r) = 2 ^ k" "rb_head r = of_nat got"
    and v: "rb_buf r ! (got mod 2 ^ k) = sent ! got"
    using assms by (auto simp: ring_inv_def)
  show ?thesis using slot_mod [OF b(2,1), of got] b(3) v by (simp add: pop_read_def)
qed

lemma pop_release_ok:
  assumes inv: "ring_inv k r sent got" and some: "got < length sent" "t \<noteq> got" "got \<le> t"
    "t \<le> length sent" "cached_tail r = of_nat t"
  shows "ring_inv k (pop_release r) sent (Suc got)"
proof -
  have "\<exists>u. Suc got \<le> u \<and> u \<le> length sent \<and> cached_tail r = of_nat u"
    using some by (intro exI [of _ t]) auto
  moreover have "\<exists>h \<le> Suc got. cached_head r = of_nat h \<and> length sent \<le> h + 2 ^ k"
    using inv by (auto simp: ring_inv_def intro: le_SucI)
  ultimately show ?thesis
    using inv some(1) by (auto simp: ring_inv_def pop_release_def add.commute)
qed

text \<open>What a passed consumer test leaves behind.\<close>

definition has_item :: "'a ring \<Rightarrow> 'a list \<Rightarrow> nat \<Rightarrow> bool" where
  "has_item r sent got \<longleftrightarrow> (\<exists>t. got < t \<and> t \<le> length sent \<and> cached_tail r = of_nat t)"

lemma pop_check_item:
  assumes inv: "ring_inv k r sent got" and seen: "got \<le> t" "t \<le> length sent"
    and run: "pop_check (of_nat t) r = (True, r')"
  shows "has_item r' sent got"
proof -
  obtain t0 where t0: "got \<le> t0" "t0 \<le> length sent" "cached_tail r = of_nat t0"
    using inv by (auto simp: ring_inv_def)
  have b: "k < 64" "rb_head r = of_nat got" "length sent \<le> got + 2 ^ k"
    using inv by (auto simp: ring_inv_def)
  have eq: "rb_head r = of_nat a \<longleftrightarrow> a = got" if "got \<le> a" "a \<le> length sent" for a
    using counters_equal [of got a k] that b by auto
  show ?thesis
  proof (cases "t0 = got")
    case True
    then have "r' = r\<lparr>cached_tail := of_nat t\<rparr>" "t \<noteq> got"
      using run eq [OF t0(1,2)] eq [OF seen] t0(3) by (auto simp: pop_check_def Let_def split: if_splits)
    with seen show ?thesis unfolding has_item_def by (intro exI [of _ t]) simp
  next
    case False
    then have "r' = r" using run eq [OF t0(1,2)] t0(3) by (auto simp: pop_check_def)
    with t0 False show ?thesis unfolding has_item_def by (intro exI [of _ t0]) simp
  qed
qed

lemma pop_release_item:
  assumes "ring_inv k r sent got" and "has_item r sent got"
  shows "ring_inv k (pop_release r) sent (Suc got)"
proof -
  obtain t where t: "got < t" "t \<le> length sent" "cached_tail r = of_nat t"
    using assms(2) by (auto simp: has_item_def)
  then show ?thesis by (intro pop_release_ok [OF assms(1), of t]) auto
qed

section \<open>The contract of a bounded queue\<close>

datatype 'a queue_op = Push 'a | Pop

fun queue_run ::
    "('a \<Rightarrow> 'r \<Rightarrow> bool \<times> 'r) \<Rightarrow> ('r \<Rightarrow> 'a option \<times> 'r) \<Rightarrow> 'a queue_op list \<Rightarrow> 'r
      \<Rightarrow> 'a list \<times> 'a list \<times> 'r" where
  "queue_run psh pp [] r = ([], [], r)"
| "queue_run psh pp (Push x # ops) r =
    (let (ok, r) = psh x r; (ins, outs, r) = queue_run psh pp ops r
     in (if ok then x # ins else ins, outs, r))"
| "queue_run psh pp (Pop # ops) r =
    (let (v, r) = pp r; (ins, outs, r) = queue_run psh pp ops r
     in (ins, case v of None \<Rightarrow> outs | Some x \<Rightarrow> x # outs, r))"

locale bounded_fifo =
  fixes ok :: "'r \<Rightarrow> bool"
    and items :: "'r \<Rightarrow> 'a list"
    and cap :: "'r \<Rightarrow> nat"
    and psh :: "'a \<Rightarrow> 'r \<Rightarrow> bool \<times> 'r"
    and pp :: "'r \<Rightarrow> 'a option \<times> 'r"
  assumes bound: "ok r \<Longrightarrow> length (items r) \<le> cap r"
    and push_law: "ok r \<Longrightarrow> psh x r = (acc, r') \<Longrightarrow>
      ok r' \<and> cap r' = cap r \<and> (acc \<longleftrightarrow> length (items r) < cap r)
      \<and> items r' = (if acc then items r @ [x] else items r)"
    and pop_law: "ok r \<Longrightarrow> pp r = (v, r') \<Longrightarrow>
      ok r' \<and> cap r' = cap r
      \<and> (case items r of [] \<Rightarrow> v = None \<and> items r' = [] | x # xs \<Rightarrow> v = Some x \<and> items r' = xs)"

context bounded_fifo begin

lemma fifo_run:
  "ok r \<Longrightarrow> queue_run psh pp ops r = (ins, outs, r') \<Longrightarrow>
    ok r' \<and> cap r' = cap r \<and> items r @ ins = outs @ items r' \<and> length (items r') \<le> cap r"
proof (induction ops arbitrary: r ins outs r')
  case Nil
  then show ?case using bound by simp
next
  case (Cons op ops)
  show ?case
  proof (cases op)
    case (Push x)
    obtain acc r1 where p: "psh x r = (acc, r1)" by (cases "psh x r")
    obtain ins1 outs1 r2 where q: "queue_run psh pp ops r1 = (ins1, outs1, r2)"
      by (cases "queue_run psh pp ops r1") auto
    from push_law [OF Cons.prems(1) p] have l: "ok r1" "cap r1 = cap r"
      "items r1 = (if acc then items r @ [x] else items r)" by auto
    from Cons.IH [OF l(1) q] Cons.prems(2) p q Push l show ?thesis
      by (auto split: if_splits)
  next
    case Pop
    obtain v r1 where p: "pp r = (v, r1)" by (cases "pp r")
    obtain ins1 outs1 r2 where q: "queue_run psh pp ops r1 = (ins1, outs1, r2)"
      by (cases "queue_run psh pp ops r1") auto
    from pop_law [OF Cons.prems(1) p] have l: "ok r1" "cap r1 = cap r" by auto
    from Cons.IH [OF l(1) q] pop_law [OF Cons.prems(1) p] Cons.prems(2) p q Pop l show ?thesis
      by (cases "items r") auto
  qed
qed

end

section \<open>The ring is a bounded queue\<close>

definition ring_items :: "'a ring \<Rightarrow> 'a list" where
  "ring_items r = map (\<lambda>i. rb_buf r ! slot r (rb_head r + of_nat i)) [0..<unat (rb_tail r - rb_head r)]"

definition ring_ok :: "'a ring \<Rightarrow> bool" where
  "ring_ok r \<longleftrightarrow> (\<exists>k sent got. ring_inv k r sent got)"

lemma ring_items_drop:
  assumes "ring_inv k r sent got"
  shows "ring_items r = drop got sent"
proof -
  have b: "k < 64" "length (rb_buf r) = 2 ^ k" "rb_head r = of_nat got" "rb_tail r = of_nat (length sent)"
    "got \<le> length sent" "length sent \<le> got + 2 ^ k"
    using assms by (auto simp: ring_inv_def)
  have n: "unat (rb_tail r - rb_head r) = length sent - got"
    using unat_diff_counters [OF b(5,6,1)] by (simp add: b(3,4))
  have at: "rb_buf r ! slot r (rb_head r + of_nat i) = sent ! (got + i)" if "i < length sent - got" for i
  proof -
    have "slot r (rb_head r + of_nat i) = (got + i) mod 2 ^ k"
      using slot_mod [OF b(2,1), of "got + i"] by (simp add: b(3))
    moreover have "rb_buf r ! ((got + i) mod 2 ^ k) = sent ! (got + i)"
      using assms that by (auto simp: ring_inv_def)
    ultimately show ?thesis by simp
  qed
  show ?thesis
    unfolding ring_items_def n by (rule nth_equalityI) (simp_all add: at b(5))
qed

lemma ring_push:
  assumes inv: "ring_inv k r sent got" and run: "push x r = (acc, r')"
  shows "ring_inv k r' (if acc then sent @ [x] else sent) got \<and> (acc \<longleftrightarrow> length sent < got + 2 ^ k)"
proof -
  obtain room r1 where c: "push_check (rb_head r) r = (room, r1)" by (cases "push_check (rb_head r) r")
  have h: "rb_head r = of_nat got" "length sent \<le> got + 2 ^ k" using inv by (auto simp: ring_inv_def)
  note chk = push_check_ok [OF inv order_refl h(2), of room r1] 
  have c': "push_check (of_nat got) r = (room, r1)" using c h(1) by simp
  show ?thesis
  proof (cases room)
    case True
    note w = push_write_ok [OF chk(1) [OF c'] chk(2) [OF c' True], of x]
    have "ring_inv k (push_publish (push_write x r1)) (sent @ [x]) got"
      by (rule push_publish_ok [OF w])
    with run c True has_roomD [OF chk(2) [OF c' True]] show ?thesis by (simp add: push_def)
  next
    case False
    with run c chk(1,3) [OF c'] show ?thesis by (auto simp: push_def)
  qed
qed

lemma ring_pop:
  assumes inv: "ring_inv k r sent got" and run: "pop r = (v, r')"
  shows "(if got < length sent then v = Some (sent ! got) \<and> ring_inv k r' sent (Suc got)
    else v = None \<and> ring_inv k r' sent got)"
proof -
  obtain some r1 where c: "pop_check (rb_tail r) r = (some, r1)" by (cases "pop_check (rb_tail r) r")
  have t: "rb_tail r = of_nat (length sent)" "got \<le> length sent" using inv by (auto simp: ring_inv_def)
  have c': "pop_check (of_nat (length sent)) r = (some, r1)" using c t(1) by simp
  note chk = pop_check_ok [OF inv t(2) order_refl c']
  show ?thesis
  proof (cases some)
    case True
    note lt = chk(2) [OF True]
    have "has_item r1 sent got" using pop_check_item [OF inv t(2) order_refl] c' True by simp
    with pop_release_item [OF chk(1)] pop_read_ok [OF chk(1) lt] run c True lt show ?thesis
      by (simp add: pop_def)
  next
    case False
    with chk(1,3) run c show ?thesis by (simp add: pop_def)
  qed
qed

lemma ring_inv_length: "ring_inv k r sent got \<Longrightarrow> length (rb_buf r) = 2 ^ k"
  by (simp add: ring_inv_def)

interpretation rq: bounded_fifo ring_ok ring_items "\<lambda>r. length (rb_buf r)" push pop
proof (unfold_locales, goal_cases)
  case (1 r)
  then obtain k sent got where inv: "ring_inv k r sent got" by (auto simp: ring_ok_def)
  then show ?case by (auto simp: ring_items_drop [OF inv] ring_inv_def)
next
  case (2 r x acc r')
  then obtain k sent got where inv: "ring_inv k r sent got" by (auto simp: ring_ok_def)
  from ring_push [OF inv 2(2)] have p: "ring_inv k r' (if acc then sent @ [x] else sent) got"
    "acc \<longleftrightarrow> length sent < got + 2 ^ k" by auto
  have "got \<le> length sent" using inv by (simp add: ring_inv_def)
  with p ring_items_drop [OF inv] ring_items_drop [OF p(1)] ring_inv_length [OF inv]
    ring_inv_length [OF p(1)] show ?case
    by (auto simp: ring_ok_def)
next
  case (3 r v r')
  then obtain k sent got where inv: "ring_inv k r sent got" by (auto simp: ring_ok_def)
  note p = ring_pop [OF inv 3(2)]
  show ?case
  proof (cases "got < length sent")
    case True
    then have "drop got sent = sent ! got # drop (Suc got) sent" by (simp add: Cons_nth_drop_Suc)
    with True p ring_items_drop [OF inv] ring_inv_length [OF inv] show ?thesis
      by (auto simp: ring_ok_def ring_items_drop ring_inv_length)
  next
    case False
    with p ring_items_drop [OF inv] ring_inv_length [OF inv] show ?thesis
      by (auto simp: ring_ok_def ring_items_drop ring_inv_length)
  qed
qed

text \<open>
  Any sequence of push and pop behaves as a FIFO queue bounded by the capacity: what was accepted is
  what was returned followed by the content, size_approx is its length, and a push succeeds exactly
  when there is room, also after the 64-bit counters wrap.
\<close>

lemma ring_is_bounded_fifo:
  assumes "k < 64" and "queue_run push pop ops (new_ring (2 ^ k) x) = (ins, outs, r)"
  shows "ins = outs @ ring_items r \<and> length (ring_items r) \<le> 2 ^ k
    \<and> unat (size_approx r) = length (ring_items r)
    \<and> (fst (push y r) \<longleftrightarrow> length (ring_items r) < 2 ^ k)"
proof -
  have inv: "ring_inv k (new_ring (2 ^ k) x) [] 0" by (rule ring_inv_new [OF assms(1)])
  then have ok: "ring_ok (new_ring (2 ^ k) x)" unfolding ring_ok_def by blast
  have len: "length (rb_buf (new_ring (2 ^ k) x)) = 2 ^ k" by (simp add: new_ring_def)
  have "ring_items (new_ring (2 ^ k) x) = []" using ring_items_drop [OF inv] by simp
  with rq.fifo_run [OF ok assms(2)] len have run: "ring_ok r" "length (rb_buf r) = 2 ^ k"
    "ins = outs @ ring_items r" "length (ring_items r) \<le> 2 ^ k" by auto
  obtain acc r' where p: "push y r = (acc, r')" by (cases "push y r")
  have "fst (push y r) \<longleftrightarrow> length (ring_items r) < 2 ^ k"
    using rq.push_law [OF run(1) p] p run(2) by simp
  moreover have "unat (size_approx r) = length (ring_items r)"
    by (simp add: size_approx_def ring_items_def)
  ultimately show ?thesis using run by blast
qed

lemma ring_is_bounded_fifo_witness:
  "case queue_run push pop [Push 1, Push 2, Push 3, Pop, Push (4::nat)] (new_ring 2 0) of
    (ins, outs, r) \<Rightarrow> ins = [1, 2, 4] \<and> outs = [1] \<and> ins = outs @ ring_items r"
proof -
  obtain ins outs r where q: "queue_run push pop [Push 1, Push 2, Push 3, Pop, Push (4::nat)]
      (new_ring (2 ^ 1) 0) = (ins, outs, r)"
    by (cases "queue_run push pop [Push 1, Push 2, Push 3, Pop, Push (4::nat)] (new_ring (2 ^ 1) 0)") auto
  have "case queue_run push pop [Push 1, Push 2, Push 3, Pop, Push (4::nat)] (new_ring 2 0) of
    (ins, outs, r) \<Rightarrow> ins = [1, 2, 4] \<and> outs = [1]" by code_simp
  with q ring_is_bounded_fifo [OF _ q, of 0] show ?thesis by auto
qed

end
