(* ===== verification/Spsc_Channel.thy ===== *)
theory Spsc_Channel
  imports Spsc_Ring
begin

text \<open>
  \<^verbatim>\<open>SpscChannel\<close> and the two threads that share it (\<^verbatim>\<open>include/feedhandler/spsc_ring_buffer.hpp\<close>, used
  by \<^verbatim>\<open>src/pipeline.cpp\<close>). \<open>send\<close> is modelled with the number of spins its loop takes. The
  concurrent system is a step relation: the producer sends the items of its program one by one
  and then raises the done flag; the consumer receives until it has seen the flag and then finds
  the ring empty. Every shared access is a step of its own, and a load of the other thread's
  index may return any value that index has had since the one last observed. The acquire load of
  the done flag synchronises with the release store that follows the last send, so a consumer
  that has seen the flag sees the final tail.
\<close>

datatype backpressure = Block | Drop_item

record 'a channel =
  ch_policy :: backpressure
  ch_ring :: "'a ring"
  ch_dropped :: u64

definition new_channel :: "backpressure \<Rightarrow> nat \<Rightarrow> 'a \<Rightarrow> 'a channel" where
  "new_channel pol cap x = \<lparr>ch_policy = pol, ch_ring = new_ring cap x, ch_dropped = 0\<rparr>"

text \<open>One attempt of \<open>send\<close>: pushed, dropped (and counted), or to be retried.\<close>

datatype send_result = Sent | Lost | Retry

definition send_attempt :: "'a \<Rightarrow> 'a channel \<Rightarrow> send_result \<times> 'a channel" where
  "send_attempt x c =
    (let (ok, r) = push x (ch_ring c); c = c\<lparr>ch_ring := r\<rparr> in
     if ok then (Sent, c)
     else if ch_policy c = Block then (Retry, c)
     else (Lost, c\<lparr>ch_dropped := ch_dropped c + 1\<rparr>))"

definition receive :: "'a channel \<Rightarrow> 'a option \<times> 'a channel" where
  "receive c = (let (v, r) = pop (ch_ring c) in (v, c\<lparr>ch_ring := r\<rparr>))"

text \<open>One attempt to send accounts for its item.\<close>

lemma send_accounts_every_item:
  assumes "ring_ok (ch_ring c)" and "send_attempt x c = (res, c')"
  shows "ring_ok (ch_ring c')
    \<and> (res = Sent \<longleftrightarrow> length (ring_items (ch_ring c)) < length (rb_buf (ch_ring c)))
    \<and> ring_items (ch_ring c') = ring_items (ch_ring c) @ (if res = Sent then [x] else [])
    \<and> ch_dropped c' = ch_dropped c + (if res = Lost then 1 else 0)
    \<and> (res = Retry \<longrightarrow> ch_policy c = Block) \<and> (res = Lost \<longrightarrow> ch_policy c = Drop_item)"
proof -
  obtain ok r where p: "push x (ch_ring c) = (ok, r)" by (cases "push x (ch_ring c)")
  from rq.push_law [OF assms(1) p] assms(2) p show ?thesis
    by (cases "ch_policy c") (auto simp: send_attempt_def split: if_splits)
qed

lemma send_accounts_every_item_witness:
  "ch_dropped (snd (send_attempt 5 (snd (send_attempt (4::nat) (new_channel Drop_item (2 ^ 0) 0))))) = 1"
proof -
  let ?c0 = "new_channel Drop_item (2 ^ 0) (0::nat)"
  have "ring_inv 0 (ch_ring ?c0) [] 0" unfolding new_channel_def using ring_inv_new [of 0 "0::nat"] by simp
  then have ok: "ring_ok (ch_ring ?c0)" unfolding ring_ok_def by blast
  obtain r1 c1 where s1: "send_attempt 4 ?c0 = (r1, c1)" by (cases "send_attempt 4 ?c0")
  obtain r2 c2 where s2: "send_attempt 5 c1 = (r2, c2)" by (cases "send_attempt 5 c1")
  have "case send_attempt 4 ?c0 of (_, c) \<Rightarrow> fst (send_attempt 5 c) = Lost \<and> ch_dropped c = 0"
    by code_simp
  with send_accounts_every_item [OF _ s2] send_accounts_every_item [OF ok s1] s1 s2 show ?thesis
    by simp
qed

section \<open>The two threads\<close>

datatype prod_phase = P_idle | P_checked | P_written

datatype 'a cons_phase = C_idle | C_checked | C_read 'a | C_finished

text \<open>\<open>todo\<close> is the rest of the producer's program; \<open>trace\<close> its past, each item with whether it
  entered the ring; \<open>received\<close> the consumer's past.\<close>

record 'a duo =
  d_ring :: "'a ring"
  d_policy :: backpressure
  d_dropped :: u64
  d_done :: bool
  todo :: "'a list"
  p_phase :: prod_phase
  c_phase :: "'a cons_phase"
  saw_done :: bool
  trace :: "('a \<times> bool) list"
  received :: "'a list"

definition sent :: "'a duo \<Rightarrow> 'a list" where
  "sent s = map fst (filter snd (trace s))"

definition start_duo :: "nat \<Rightarrow> backpressure \<Rightarrow> 'a \<Rightarrow> 'a list \<Rightarrow> 'a duo" where
  "start_duo cap pol x xs = \<lparr>d_ring = new_ring cap x, d_policy = pol, d_dropped = 0, d_done = False,
     todo = xs, p_phase = P_idle, c_phase = C_idle, saw_done = False, trace = [], received = []\<rparr>"

inductive duo_step :: "'a duo \<Rightarrow> 'a duo \<Rightarrow> bool" where
  send_check: "p_phase s = P_idle \<Longrightarrow> todo s \<noteq> [] \<Longrightarrow> h \<le> length (received s) \<Longrightarrow>
    length (sent s) \<le> h + length (rb_buf (d_ring s)) \<Longrightarrow>
    push_check (of_nat h) (d_ring s) = (True, r) \<Longrightarrow>
    duo_step s (s\<lparr>d_ring := r, p_phase := P_checked\<rparr>)"
| send_spin: "p_phase s = P_idle \<Longrightarrow> todo s \<noteq> [] \<Longrightarrow> h \<le> length (received s) \<Longrightarrow>
    length (sent s) \<le> h + length (rb_buf (d_ring s)) \<Longrightarrow>
    push_check (of_nat h) (d_ring s) = (False, r) \<Longrightarrow> d_policy s = Block \<Longrightarrow>
    duo_step s (s\<lparr>d_ring := r\<rparr>)"
| send_drop: "p_phase s = P_idle \<Longrightarrow> todo s = x # xs \<Longrightarrow> h \<le> length (received s) \<Longrightarrow>
    length (sent s) \<le> h + length (rb_buf (d_ring s)) \<Longrightarrow>
    push_check (of_nat h) (d_ring s) = (False, r) \<Longrightarrow> d_policy s = Drop_item \<Longrightarrow>
    duo_step s (s\<lparr>d_ring := r, todo := xs, d_dropped := d_dropped s + 1, trace := trace s @ [(x, False)]\<rparr>)"
| send_write: "p_phase s = P_checked \<Longrightarrow> todo s = x # xs \<Longrightarrow>
    duo_step s (s\<lparr>d_ring := push_write x (d_ring s), p_phase := P_written\<rparr>)"
| send_publish: "p_phase s = P_written \<Longrightarrow> todo s = x # xs \<Longrightarrow>
    duo_step s (s\<lparr>d_ring := push_publish (d_ring s), p_phase := P_idle, todo := xs,
      trace := trace s @ [(x, True)]\<rparr>)"
| send_done: "p_phase s = P_idle \<Longrightarrow> todo s = [] \<Longrightarrow> duo_step s (s\<lparr>d_done := True\<rparr>)"
| see_done: "c_phase s = C_idle \<Longrightarrow> d_done s \<Longrightarrow> duo_step s (s\<lparr>saw_done := True\<rparr>)"
| recv_check: "c_phase s = C_idle \<Longrightarrow> length (received s) \<le> t \<Longrightarrow> t \<le> length (sent s) \<Longrightarrow>
    (saw_done s \<longrightarrow> t = length (sent s)) \<Longrightarrow> pop_check (of_nat t) (d_ring s) = (True, r) \<Longrightarrow>
    duo_step s (s\<lparr>d_ring := r, c_phase := C_checked\<rparr>)"
| recv_empty: "c_phase s = C_idle \<Longrightarrow> length (received s) \<le> t \<Longrightarrow> t \<le> length (sent s) \<Longrightarrow>
    (saw_done s \<longrightarrow> t = length (sent s)) \<Longrightarrow> pop_check (of_nat t) (d_ring s) = (False, r) \<Longrightarrow>
    duo_step s (s\<lparr>d_ring := r, c_phase := (if saw_done s then C_finished else C_idle)\<rparr>)"
| recv_read: "c_phase s = C_checked \<Longrightarrow> duo_step s (s\<lparr>c_phase := C_read (pop_read (d_ring s))\<rparr>)"
| recv_release: "c_phase s = C_read x \<Longrightarrow>
    duo_step s (s\<lparr>d_ring := pop_release (d_ring s), c_phase := C_idle, received := received s @ [x]\<rparr>)"

inductive duo_reach :: "'a duo \<Rightarrow> 'a duo \<Rightarrow> bool" for s0 where
  start: "duo_reach s0 s0"
| step: "duo_reach s0 s \<Longrightarrow> duo_step s s' \<Longrightarrow> duo_reach s0 s'"

section \<open>The invariant\<close>

definition producer_ok :: "nat \<Rightarrow> 'a duo \<Rightarrow> bool" where
  "producer_ok k s \<longleftrightarrow>
    (case p_phase s of
       P_idle \<Rightarrow> True
     | P_checked \<Rightarrow> todo s \<noteq> [] \<and> has_room k (d_ring s) (sent s) (length (received s))
     | P_written \<Rightarrow> todo s \<noteq> [] \<and> has_room k (d_ring s) (sent s) (length (received s))
         \<and> rb_buf (d_ring s) ! (length (sent s) mod 2 ^ k) = hd (todo s))"

definition consumer_ok :: "'a duo \<Rightarrow> bool" where
  "consumer_ok s \<longleftrightarrow>
    (case c_phase s of
       C_idle \<Rightarrow> True
     | C_checked \<Rightarrow> has_item (d_ring s) (sent s) (length (received s))
     | C_read x \<Rightarrow> has_item (d_ring s) (sent s) (length (received s))
         \<and> x = sent s ! length (received s)
     | C_finished \<Rightarrow> saw_done s \<and> length (received s) = length (sent s))"

definition duo_inv :: "nat \<Rightarrow> backpressure \<Rightarrow> 'a list \<Rightarrow> 'a duo \<Rightarrow> bool" where
  "duo_inv k pol xs s \<longleftrightarrow> ring_inv k (d_ring s) (sent s) (length (received s))
     \<and> received s = take (length (received s)) (sent s)
     \<and> producer_ok k s \<and> consumer_ok s
     \<and> map fst (trace s) @ todo s = xs \<and> d_policy s = pol
     \<and> d_dropped s = of_nat (length (filter (\<lambda>e. \<not> snd e) (trace s)))
     \<and> (pol = Block \<longrightarrow> list_all snd (trace s))
     \<and> (saw_done s \<longrightarrow> d_done s) \<and> (d_done s \<longrightarrow> todo s = [] \<and> p_phase s = P_idle)"

lemma duo_inv_start: "k < 64 \<Longrightarrow> duo_inv k pol xs (start_duo (2 ^ k) pol x xs)"
  using ring_inv_new [of k x]
  by (simp add: duo_inv_def start_duo_def sent_def producer_ok_def consumer_ok_def)

lemma has_item_lt: "has_item r xs n \<Longrightarrow> n < length xs"
  by (auto simp: has_item_def)

lemma has_item_append: "has_item r xs n \<Longrightarrow> has_item r (xs @ ys) n"
  by (auto simp: has_item_def intro: trans_le_add1)

lemma has_room_Suc: "has_room k r xs n \<Longrightarrow> has_room k r xs (Suc n)"
  by (auto simp: has_room_def intro: le_SucI)

lemma has_item_check:
  "push_check obs r = (b, r') \<Longrightarrow> has_item r' xs n = has_item r xs n"
  by (auto simp: push_check_def has_item_def Let_def split: if_splits)

lemma has_room_check:
  "pop_check obs r = (b, r') \<Longrightarrow> has_room k r' xs n = has_room k r xs n \<and> rb_buf r' = rb_buf r"
  by (auto simp: pop_check_def has_room_def Let_def split: if_splits)

lemma has_item_simps [simp]:
  "has_item (push_write x r) xs n = has_item r xs n" "has_item (push_publish r) xs n = has_item r xs n"
  by (simp_all add: has_item_def push_write_def push_publish_def)

lemma has_room_release [simp]:
  "has_room k (pop_release r) xs n = has_room k r xs n" "rb_buf (pop_release r) = rb_buf r"
  by (simp_all add: has_room_def pop_release_def)

lemma sent_update [simp]:
  "sent (s\<lparr>d_ring := r\<rparr>) = sent s" "sent (s\<lparr>p_phase := p\<rparr>) = sent s" "sent (s\<lparr>c_phase := c\<rparr>) = sent s"
  "sent (s\<lparr>saw_done := b\<rparr>) = sent s" "sent (s\<lparr>d_done := b\<rparr>) = sent s" "sent (s\<lparr>todo := xs\<rparr>) = sent s"
  "sent (s\<lparr>d_dropped := n\<rparr>) = sent s" "sent (s\<lparr>received := xs\<rparr>) = sent s"
  "sent (s\<lparr>trace := trace s @ [(x, True)]\<rparr>) = sent s @ [x]"
  "sent (s\<lparr>trace := trace s @ [(x, False)]\<rparr>) = sent s"
  by (simp_all add: sent_def)

lemma duo_inv_buf: "duo_inv k pol xs s \<Longrightarrow> length (rb_buf (d_ring s)) = 2 ^ k"
  by (simp add: duo_inv_def ring_inv_def)

lemma duo_inv_step:
  assumes inv: "duo_inv k pol xs s" and step: "duo_step s s'"
  shows "duo_inv k pol xs s'"
proof -
  have ring: "ring_inv k (d_ring s) (sent s) (length (received s))"
    and rec: "received s = take (length (received s)) (sent s)"
    and p: "producer_ok k s" and c: "consumer_ok s"
    using inv by (auto simp: duo_inv_def)
  note buf = duo_inv_buf [OF inv]
  from step show ?thesis
  proof cases
    case (send_check h r)
    note chk = push_check_ok [OF ring send_check(4) _ send_check(6)]
    have h: "length (sent s) \<le> h + 2 ^ k" using send_check(5) buf by simp
    have "has_item r (sent s) (length (received s)) = has_item (d_ring s) (sent s) (length (received s))"
      by (rule has_item_check [OF send_check(6)])
    with inv c send_check(1-3) chk(1,2) [OF h] show ?thesis
      by (auto simp: duo_inv_def producer_ok_def consumer_ok_def split: cons_phase.splits)
  next
    case (send_spin h r)
    note chk = push_check_ok [OF ring send_spin(4) _ send_spin(6)]
    have h: "length (sent s) \<le> h + 2 ^ k" using send_spin(5) buf by simp
    have "has_item r (sent s) (length (received s)) = has_item (d_ring s) (sent s) (length (received s))"
      by (rule has_item_check [OF send_spin(6)])
    with inv c send_spin(1-3) chk(1) [OF h] show ?thesis
      by (auto simp: duo_inv_def producer_ok_def consumer_ok_def split: cons_phase.splits)
  next
    case (send_drop x ys h r)
    note chk = push_check_ok [OF ring send_drop(4) _ send_drop(6)]
    have h: "length (sent s) \<le> h + 2 ^ k" using send_drop(5) buf by simp
    have "has_item r (sent s) (length (received s)) = has_item (d_ring s) (sent s) (length (received s))"
      by (rule has_item_check [OF send_drop(6)])
    moreover have "sent s' = sent s" using send_drop(1) by (simp add: sent_def)
    ultimately show ?thesis
      using inv c send_drop(1-3,7) chk(1) [OF h]
      by (auto simp: duo_inv_def producer_ok_def consumer_ok_def split: cons_phase.splits)
  next
    case (send_write x ys)
    have room: "has_room k (d_ring s) (sent s) (length (received s))"
      using p send_write(2) by (simp add: producer_ok_def)
    note w = push_write_ok [OF ring room, of x]
    from inv c send_write w show ?thesis
      by (auto simp: duo_inv_def producer_ok_def consumer_ok_def split: cons_phase.splits)
  next
    case (send_publish x ys)
    have room: "has_room k (d_ring s) (sent s) (length (received s))"
      and x: "rb_buf (d_ring s) ! (length (sent s) mod 2 ^ k) = x"
      using p send_publish(2,3) by (simp_all add: producer_ok_def)
    have le: "length (received s) \<le> length (sent s)" using ring by (simp add: ring_inv_def)
    have snt: "sent s' = sent s @ [x]" using send_publish(1) by (simp add: sent_def)
    have c': "consumer_ok s'"
      using c inv snt send_publish(1,2) has_item_append [of "d_ring s" "sent s" "length (received s)" "[x]"]
        has_item_lt [of "d_ring s" "sent s" "length (received s)"]
      by (auto simp: duo_inv_def consumer_ok_def nth_append split: cons_phase.splits)
    have "received s' = take (length (received s')) (sent s')"
      using rec le snt send_publish(1) by simp
    with c' inv send_publish snt push_publish_ok [OF ring room x] show ?thesis
      by (auto simp: duo_inv_def producer_ok_def)
  next
    case send_done
    with c have "consumer_ok s'" by (cases "c_phase s") (simp_all add: consumer_ok_def)
    with send_done inv show ?thesis by (simp add: duo_inv_def producer_ok_def)
  next
    case see_done
    with p have "producer_ok k s'" by (cases "p_phase s") (simp_all add: producer_ok_def)
    with see_done inv show ?thesis by (auto simp: duo_inv_def consumer_ok_def)
  next
    case (recv_check t r)
    note chk = pop_check_ok [OF ring recv_check(3,4,6)]
    note item = pop_check_item [OF ring recv_check(3,4,6)]
    from inv p recv_check(1,2) chk(1) item has_room_check [OF recv_check(6)] show ?thesis
      by (simp add: duo_inv_def producer_ok_def consumer_ok_def split: prod_phase.splits)
  next
    case (recv_empty t r)
    note chk = pop_check_ok [OF ring recv_empty(3,4,6)]
    from inv p recv_empty(1,2,5) chk(1,3) has_room_check [OF recv_empty(6)] show ?thesis
      by (simp add: duo_inv_def producer_ok_def consumer_ok_def split: prod_phase.splits)
  next
    case recv_read
    have item: "has_item (d_ring s) (sent s) (length (received s))"
      using c recv_read(2) by (simp add: consumer_ok_def)
    have "producer_ok k s'" using p recv_read(1) by (cases "p_phase s") (simp_all add: producer_ok_def)
    with inv recv_read item pop_read_ok [OF ring has_item_lt [OF item]] show ?thesis
      by (simp add: duo_inv_def consumer_ok_def)
  next
    case (recv_release x)
    have item: "has_item (d_ring s) (sent s) (length (received s))"
      and x: "x = sent s ! length (received s)"
      using c recv_release(2) by (simp_all add: consumer_ok_def)
    note lt = has_item_lt [OF item]
    have len: "length (received s') = Suc (length (received s))" and snt: "sent s' = sent s"
      using recv_release(1) by (simp_all add: sent_def)
    have "received s' = take (length (received s')) (sent s')"
      unfolding len snt using rec x lt recv_release(1) by (simp add: take_Suc_conv_app_nth)
    moreover have "producer_ok k s'"
      using p recv_release(1) len snt has_room_Suc [of k "d_ring s" "sent s" "length (received s)"]
      by (cases "p_phase s") (simp_all add: producer_ok_def)
    moreover have "ring_inv k (d_ring s') (sent s') (length (received s'))"
      unfolding len snt using pop_release_item [OF ring item] recv_release(1) by simp
    moreover have "consumer_ok s'" using recv_release(1) by (simp add: consumer_ok_def)
    moreover have "todo s' = todo s" "trace s' = trace s" "d_policy s' = d_policy s"
      "d_dropped s' = d_dropped s" "saw_done s' = saw_done s" "d_done s' = d_done s"
      "p_phase s' = p_phase s"
      using recv_release(1) by simp_all
    ultimately show ?thesis using inv unfolding duo_inv_def by metis
  qed
qed

lemma duo_inv_reach:
  assumes "duo_reach (start_duo (2 ^ k) pol x xs) s" and "k < 64"
  shows "duo_inv k pol xs s"
  using assms(1)
proof (induction rule: duo_reach.induct)
  case start
  then show ?case by (rule duo_inv_start [OF assms(2)])
next
  case (step s s')
  then show ?case by (blast intro: duo_inv_step)
qed

section \<open>The threads can always finish\<close>

lemma duo_reach_trans: "duo_reach s t \<Longrightarrow> duo_reach r s \<Longrightarrow> duo_reach r t"
  by (induction rule: duo_reach.induct) (auto intro: duo_reach.intros)

lemma duo_reach_step: "duo_step s t \<Longrightarrow> duo_reach s t"
  by (blast intro: duo_reach.intros)

lemma duo_inv_reach_from: "duo_reach s t \<Longrightarrow> duo_inv k pol xs s \<Longrightarrow> duo_inv k pol xs t"
  by (induction rule: duo_reach.induct) (auto intro: duo_inv_step)

text \<open>The consumer finishes the item it is at.\<close>

lemma settle_consumer:
  "\<exists>t. duo_reach s t \<and> (c_phase t = C_idle \<or> c_phase t = C_finished) \<and> p_phase t = p_phase s
    \<and> todo t = todo s \<and> sent t = sent s \<and> length (received s) \<le> length (received t)
    \<and> (c_phase s = C_checked \<longrightarrow> length (received s) < length (received t))"
proof -
  have read: "\<exists>t. duo_reach s t \<and> c_phase t = C_idle \<and> p_phase t = p_phase s \<and> todo t = todo s
      \<and> sent t = sent s \<and> length (received s) < length (received t)"
    if "c_phase s = C_read x" for s :: "'a duo" and x
    by (rule exI, rule conjI [OF duo_reach_step [OF duo_step.recv_release [OF that]]])
      (simp add: sent_def)
  show ?thesis
  proof (cases "c_phase s")
    case C_checked
    let ?s = "s\<lparr>c_phase := C_read (pop_read (d_ring s))\<rparr>"
    have "duo_reach s ?s" using C_checked by (intro duo_reach_step duo_step.recv_read)
    moreover obtain t where "duo_reach ?s t" "c_phase t = C_idle" "p_phase t = p_phase s" "todo t = todo s"
        "sent t = sent s" "length (received s) < length (received t)"
      using read [of ?s] by auto
    ultimately show ?thesis using duo_reach_trans by (metis less_imp_le)
  next
    case (C_read x)
    from read [OF this] C_read show ?thesis by (auto intro: less_imp_le)
  qed (auto intro: duo_reach.start)
qed

text \<open>The producer finishes the item it is at.\<close>

lemma settle_producer:
  assumes "duo_inv k pol xs s"
  shows "\<exists>t. duo_reach s t \<and> p_phase t = P_idle \<and> c_phase t = c_phase s
    \<and> length (todo t) \<le> length (todo s) \<and> (p_phase s = P_checked \<longrightarrow> length (todo t) < length (todo s))"
proof -
  have written: "\<exists>t. duo_reach s t \<and> p_phase t = P_idle \<and> c_phase t = c_phase s
      \<and> length (todo t) < length (todo s)"
    if "p_phase s = P_written" "todo s = x # ys" for s :: "'a duo" and x ys
    by (rule exI, rule conjI [OF duo_reach_step [OF duo_step.send_publish [OF that]]])
      (simp add: that)
  show ?thesis
  proof (cases "p_phase s")
    case P_idle
    then show ?thesis by (auto intro: duo_reach.start)
  next
    case P_checked
    then obtain x ys where todo: "todo s = x # ys"
      using assms by (auto simp: duo_inv_def producer_ok_def neq_Nil_conv)
    let ?s = "s\<lparr>d_ring := push_write x (d_ring s), p_phase := P_written\<rparr>"
    have "duo_reach s ?s" using P_checked todo by (intro duo_reach_step duo_step.send_write)
    moreover obtain t where "duo_reach ?s t" "p_phase t = P_idle" "c_phase t = c_phase s"
        "length (todo t) < length (todo s)"
      using written [of ?s x ys] todo by auto
    ultimately show ?thesis using duo_reach_trans by (metis less_imp_le)
  next
    case P_written
    then obtain x ys where "todo s = x # ys"
      using assms by (auto simp: duo_inv_def producer_ok_def neq_Nil_conv)
    from written [OF P_written this] P_written show ?thesis by (auto intro: less_imp_le)
  qed
qed

text \<open>With both idle, the consumer empties the ring.\<close>

lemma drain_ring:
  assumes "duo_inv k pol xs s" and "c_phase s = C_idle"
  shows "\<exists>t. duo_reach s t \<and> p_phase t = p_phase s \<and> todo t = todo s
    \<and> (c_phase t = C_finished \<or> c_phase t = C_idle \<and> length (received t) = length (sent t))"
  using assms
proof (induction "length (sent s) - length (received s)" arbitrary: s rule: less_induct)
  case less
  have ring: "ring_inv k (d_ring s) (sent s) (length (received s))"
    using less.prems(1) by (simp add: duo_inv_def)
  then have le: "length (received s) \<le> length (sent s)" by (simp add: ring_inv_def)
  show ?case
  proof (cases "length (received s) = length (sent s)")
    case True
    with less.prems(2) show ?thesis by (auto intro: duo_reach.start)
  next
    case False
    obtain some r where chk: "pop_check (of_nat (length (sent s))) (d_ring s) = (some, r)"
      by (cases "pop_check (of_nat (length (sent s))) (d_ring s)")
    from pop_check_ok(3) [OF ring le order_refl chk] False have some by auto
    let ?s1 = "s\<lparr>d_ring := r, c_phase := C_checked\<rparr>"
    have r1: "duo_reach s ?s1"
      using chk \<open>some\<close> le less.prems(2) by (intro duo_reach_step duo_step.recv_check) auto
    obtain t where t: "duo_reach ?s1 t" "c_phase t = C_idle \<or> c_phase t = C_finished"
        "p_phase t = p_phase s" "todo t = todo s" "sent t = sent s"
        "length (received s) < length (received t)"
      using settle_consumer [of ?s1] by (auto simp: sent_def)
    note rt = duo_reach_trans [OF t(1) r1]
    show ?thesis
    proof (cases "c_phase t = C_finished")
      case True
      with rt t(3,4) show ?thesis by blast
    next
      case idle: False
      have "length (sent t) - length (received t) < length (sent s) - length (received s)"
        using t(5,6) le False by simp
      from less.hyps [OF this duo_inv_reach_from [OF rt less.prems(1)]] t(2,3,4) idle rt
      show ?thesis by (metis duo_reach_trans)
    qed
  qed
qed

text \<open>With an empty ring there is room for one more item.\<close>

lemma send_one:
  assumes "duo_inv k pol xs s" and "p_phase s = P_idle" and "todo s = x # ys"
    and "length (received s) = length (sent s)"
  shows "\<exists>t. duo_reach s t \<and> length (todo t) < length (todo s)"
proof -
  have ring: "ring_inv k (d_ring s) (sent s) (length (received s))" and buf: "length (rb_buf (d_ring s)) = 2 ^ k"
    using assms(1) duo_inv_buf by (auto simp: duo_inv_def)
  obtain room r where chk: "push_check (of_nat (length (received s))) (d_ring s) = (room, r)"
    by (cases "push_check (of_nat (length (received s))) (d_ring s)")
  have le: "length (sent s) \<le> length (received s) + 2 ^ k" using assms(4) by simp
  have room
  proof (rule ccontr)
    assume "\<not> room"
    with push_check_ok(3) [OF ring order_refl le chk] assms(4) show False by simp
  qed
  let ?s1 = "s\<lparr>d_ring := r, p_phase := P_checked\<rparr>"
  have r1: "duo_reach s ?s1"
    using chk \<open>room\<close> assms(2-4) by (intro duo_reach_step duo_step.send_check [where h = "length (received s)"]) auto
  from settle_producer [OF duo_inv_reach_from [OF r1 assms(1)]] obtain t
    where "duo_reach ?s1 t" "length (todo t) < length (todo s)" by auto
  with r1 show ?thesis using duo_reach_trans by metis
qed

lemma duo_finishes:
  assumes "duo_inv k pol xs s"
  shows "\<exists>t. duo_reach s t \<and> c_phase t = C_finished"
  using assms
proof (induction "length (todo s)" arbitrary: s rule: less_induct)
  case less
  obtain s1 where s1: "duo_reach s s1" "p_phase s1 = P_idle" "length (todo s1) \<le> length (todo s)"
    using settle_producer [OF less.prems] by blast
  obtain s2 where s2: "duo_reach s1 s2" "c_phase s2 = C_idle \<or> c_phase s2 = C_finished"
      "p_phase s2 = P_idle" "todo s2 = todo s1"
    using settle_consumer [of s1] s1(2) by auto
  note r2 = duo_reach_trans [OF s2(1) s1(1)]
  show ?case
  proof (cases "c_phase s2 = C_finished")
    case True
    with r2 show ?thesis by blast
  next
    case False
    then have "c_phase s2 = C_idle" using s2(2) by blast
    from drain_ring [OF duo_inv_reach_from [OF r2 less.prems] this] obtain s3
      where s3: "duo_reach s2 s3" "p_phase s3 = P_idle" "todo s3 = todo s1"
        "c_phase s3 = C_finished \<or> c_phase s3 = C_idle \<and> length (received s3) = length (sent s3)"
      using s2(3,4) by auto
    note r3 = duo_reach_trans [OF s3(1) r2]
    note inv3 = duo_inv_reach_from [OF r3 less.prems]
    show ?thesis
    proof (cases "c_phase s3 = C_finished")
      case True
      with r3 show ?thesis by blast
    next
      case False
      then have idle: "c_phase s3 = C_idle" "length (received s3) = length (sent s3)" using s3(4) by auto
      show ?thesis
      proof (cases "todo s3")
        case (Cons x ys)
        obtain s4 where s4: "duo_reach s3 s4" "length (todo s4) < length (todo s3)"
          using send_one [OF inv3 s3(2) Cons idle(2)] by blast
        note r4 = duo_reach_trans [OF s4(1) r3]
        have "length (todo s4) < length (todo s)" using s4(2) s3(3) s1(3) by simp
        from less.hyps [OF this duo_inv_reach_from [OF r4 less.prems]] r4 show ?thesis
          using duo_reach_trans by blast
      next
        case Nil
        let ?a = "s3\<lparr>d_done := True\<rparr>"
        let ?b = "?a\<lparr>saw_done := True\<rparr>"
        have "duo_step s3 ?a" using s3(2) Nil by (rule duo_step.send_done)
        moreover have "duo_step ?a ?b" using idle(1) by (intro duo_step.see_done) simp_all
        ultimately have rb: "duo_reach s3 ?b" by (meson duo_reach.intros)
        note invb = duo_inv_reach_from [OF rb inv3]
        have ring: "ring_inv k (d_ring s3) (sent s3) (length (received s3))"
          using inv3 by (simp add: duo_inv_def)
        obtain some r where chk: "pop_check (of_nat (length (sent s3))) (d_ring s3) = (some, r)"
          by (cases "pop_check (of_nat (length (sent s3))) (d_ring s3)")
        have "\<not> some"
          using pop_check_ok(2) [OF ring _ order_refl chk] idle(2) by auto
        have "duo_step ?b (?b\<lparr>d_ring := r, c_phase := (if saw_done ?b then C_finished else C_idle)\<rparr>)"
          using chk \<open>\<not> some\<close> idle by (intro duo_step.recv_empty [where t = "length (sent s3)"]) auto
        with rb have "duo_reach s3 (?b\<lparr>d_ring := r, c_phase := (if saw_done ?b then C_finished else C_idle)\<rparr>)"
          by (rule duo_reach.step)
        with r3 have "duo_reach s (?b\<lparr>d_ring := r, c_phase := (if saw_done ?b then C_finished else C_idle)\<rparr>)"
          by (meson duo_reach_trans)
        then show ?thesis by (intro exI conjI, assumption) simp
      qed
    qed
  qed
qed

lemma duo_can_finish:
  "k < 64 \<Longrightarrow> \<exists>s. duo_reach (start_duo (2 ^ k) pol x xs) s \<and> c_phase s = C_finished"
  by (rule duo_finishes [OF duo_inv_start])

section \<open>The properties\<close>

text \<open>
  C28. In every interleaving of the two threads the received items are a prefix of the items
  that entered the ring, in order, at most capacity of them are in flight, and the drop counter
  counts exactly the items that did not enter.
\<close>

theorem channel_fifo_exact_drops:
  assumes "duo_reach (start_duo (2 ^ k) pol x xs) s" and "k < 64"
  shows "map fst (trace s) @ todo s = xs
    \<and> received s = take (length (received s)) (map fst (filter snd (trace s)))
    \<and> length (filter snd (trace s)) \<le> length (received s) + 2 ^ k
    \<and> d_dropped s = of_nat (length (filter (\<lambda>e. \<not> snd e) (trace s)))"
  using duo_inv_reach [OF assms] by (simp add: duo_inv_def ring_inv_def sent_def)

text \<open>A run of the two threads over three items through a ring of two slots.\<close>

definition one_sent :: "nat duo" where
  "one_sent = (start_duo 2 Drop_item 0 [7, 8])
    \<lparr>d_ring := push_publish (push_write 7 (new_ring 2 0)), todo := [8], trace := [(7, True)]\<rparr>"

lemma reach_one_sent: "duo_reach (start_duo (2 ^ 1) Drop_item 0 [7, 8]) one_sent"
proof -
  let ?s0 = "start_duo (2 ^ 1) Drop_item 0 [7, 8 :: nat]"
  let ?s1 = "?s0\<lparr>d_ring := new_ring 2 0, p_phase := P_checked\<rparr>"
  let ?s2 = "?s1\<lparr>d_ring := push_write 7 (new_ring 2 0), p_phase := P_written\<rparr>"
  have "push_check (of_nat 0) (new_ring 2 (0 :: nat)) = (True, new_ring 2 0)" by code_simp
  then have "duo_step ?s0 ?s1"
    by (intro duo_step.send_check [where h = 0]) (simp_all add: start_duo_def sent_def new_ring_def)
  moreover have "duo_step ?s1 ?s2"
    using duo_step.send_write [of ?s1 7 "[8]"] by (simp add: start_duo_def)
  moreover have "duo_step ?s2 one_sent"
    using duo_step.send_publish [of ?s2 7 "[8]"] by (simp add: start_duo_def one_sent_def)
  ultimately show ?thesis by (blast intro: duo_reach.intros)
qed

lemma channel_fifo_exact_drops_witness:
  "received one_sent = take (length (received one_sent)) [7] \<and> d_dropped one_sent = 0"
  using channel_fifo_exact_drops [OF reach_one_sent] by (simp add: one_sent_def start_duo_def)

lemma channel_complete:
  assumes "duo_reach (start_duo (2 ^ k) pol x xs) s" and "k < 64" and "c_phase s = C_finished"
  shows "received s = map fst (filter snd (trace s)) \<and> map fst (trace s) = xs
    \<and> (pol = Block \<longrightarrow> received s = xs)"
proof -
  note inv = duo_inv_reach [OF assms(1,2)]
  have all: "received s = sent s"
  proof -
    have "received s = take (length (received s)) (sent s)" using inv unfolding duo_inv_def by blast
    moreover have "consumer_ok s" using inv unfolding duo_inv_def by blast
    then have "length (received s) = length (sent s)" using assms(3) by (simp add: consumer_ok_def)
    ultimately show ?thesis by (metis order_refl take_all)
  qed
  have tr: "map fst (trace s) = xs"
    using inv assms(3) by (auto simp: duo_inv_def consumer_ok_def)
  have "filter snd (trace s) = trace s" if "pol = Block"
    using inv that by (simp add: duo_inv_def list_all_iff)
  with all tr show ?thesis by (auto simp: sent_def)
qed

text \<open>
  From every state the two threads can reach they can run on until the consumer has finished: no
  interleaving leads to a deadlock.
\<close>

lemma channel_never_deadlocks:
  assumes "duo_reach (start_duo (2 ^ k) pol x xs) s" and "k < 64"
  shows "\<exists>s'. duo_reach s s' \<and> c_phase s' = C_finished"
  using duo_finishes [OF duo_inv_reach [OF assms]] by blast

lemma channel_never_deadlocks_witness: "\<exists>s'. duo_reach one_sent s' \<and> c_phase s' = C_finished"
  using channel_never_deadlocks [OF reach_one_sent] by simp

end
