(* ===== verification/Instrumentation.thy ===== *)
theory Instrumentation
  imports FH_Prelude Complex_Main
begin

text \<open>
  \<^verbatim>\<open>LatencyHistogram\<close> of \<^verbatim>\<open>include/feedhandler/instrumentation.hpp\<close>: the HDR histogram that records
  end-to-end latencies. C++ \<open>int\<close> fields are \<open>int\<close>, \<open>std::size_t\<close> and \<open>std::uint64_t\<close> values are 64-bit
  words, the counts array is a list read and written with checked access. The histogram has one
  writer, so the relaxed atomic counters are plain fields. The loops of \<open>init\<close> that may not end are
  partial functions. The rank \<open>ceil(p / 100 * total)\<close> that \<open>value_at_percentile\<close> computes in floating
  point is an argument; the mean is the exact rational.
\<close>

section \<open>The data\<close>

record histogram =
  h_highest :: u64
  h_unit_mag :: int
  h_half_mag :: int
  h_clz_base :: int
  h_sub_count :: u32
  h_half_count :: u32
  h_mask :: u64
  h_buckets :: int
  h_counts :: "u64 list"
  h_total :: u64
  h_sum :: u64
  h_min :: u64
  h_max :: u64

record latency_snapshot =
  s_count :: u64
  s_min :: u64
  s_max :: u64
  s_mean :: rat
  s_p50 :: u64
  s_p90 :: u64
  s_p99 :: u64
  s_p999 :: u64
  s_p9999 :: u64

definition zero_snapshot :: latency_snapshot where
  "zero_snapshot = \<lparr>s_count = 0, s_min = 0, s_max = 0, s_mean = 0, s_p50 = 0, s_p90 = 0, s_p99 = 0,
     s_p999 = 0, s_p9999 = 0\<rparr>"

text \<open>\<open>static_cast<int>\<close> of an unsigned 64-bit value keeps the low 32 bits.\<close>

definition to_i32 :: "u64 \<Rightarrow> int" where
  "to_i32 v = sint (ucast v :: 32 word)"

fun bit_len :: "nat \<Rightarrow> nat" where
  "bit_len n = (if n = 0 then 0 else Suc (bit_len (n div 2)))"

declare bit_len.simps [simp del]

text \<open>\<open>__builtin_clzll\<close>; its argument is never 0 here.\<close>

definition clz64 :: "u64 \<Rightarrow> int" where
  "clz64 v = 64 - int (bit_len (unat v))"

section \<open>Bucket and index computations\<close>

definition get_bucket_index :: "histogram \<Rightarrow> u64 \<Rightarrow> int" where
  "get_bucket_index h v = h_clz_base h - clz64 (v OR h_mask h)"

definition get_sub_bucket_index :: "histogram \<Rightarrow> u64 \<Rightarrow> int \<Rightarrow> int" where
  "get_sub_bucket_index h v bi = to_i32 (drop_bit (nat (bi + h_unit_mag h)) v)"

definition counts_index :: "histogram \<Rightarrow> int \<Rightarrow> int \<Rightarrow> u64" where
  "counts_index h bi sub =
    (let base = (bi + 1) * 2 ^ nat (h_half_mag h);
         offset = sub - sint (h_half_count h)
     in of_int (base + offset))"

definition counts_index_for :: "histogram \<Rightarrow> u64 \<Rightarrow> u64" where
  "counts_index_for h v =
    (let bi = get_bucket_index h v in counts_index h bi (get_sub_bucket_index h v bi))"

definition value_from_sub :: "histogram \<Rightarrow> int \<Rightarrow> int \<Rightarrow> u64" where
  "value_from_sub h bi sub = push_bit (nat (bi + h_unit_mag h)) (of_int sub)"

definition value_from_index :: "histogram \<Rightarrow> u64 \<Rightarrow> u64" where
  "value_from_index h i =
    (let bi = to_i32 (drop_bit (nat (h_half_mag h)) i) - 1;
         sub = to_i32 (i AND ucast (h_half_count h - 1)) + sint (h_half_count h)
     in if bi < 0 then value_from_sub h 0 (sub - sint (h_half_count h))
        else value_from_sub h bi sub)"

definition size_of_equivalent_range :: "histogram \<Rightarrow> u64 \<Rightarrow> u64" where
  "size_of_equivalent_range h v = push_bit (nat (h_unit_mag h + get_bucket_index h v)) 1"

definition lowest_equivalent :: "histogram \<Rightarrow> u64 \<Rightarrow> u64" where
  "lowest_equivalent h v =
    (let bi = get_bucket_index h v in value_from_sub h bi (get_sub_bucket_index h v bi))"

definition highest_equivalent :: "histogram \<Rightarrow> u64 \<Rightarrow> u64" where
  "highest_equivalent h v = lowest_equivalent h v + size_of_equivalent_range h v - 1"

section \<open>Construction\<close>

partial_function (option) ceil_log2_loop :: "u64 \<Rightarrow> u64 \<Rightarrow> int \<Rightarrow> int option" where
  "ceil_log2_loop v x m = (if x < v then ceil_log2_loop v (push_bit 1 x) (m + 1) else Some m)"

definition ceil_log2 :: "u64 \<Rightarrow> int option" where
  "ceil_log2 v = ceil_log2_loop v 1 0"

partial_function (option) buckets_loop :: "u64 \<Rightarrow> u64 \<Rightarrow> int \<Rightarrow> int option" where
  "buckets_loop val smallest needed =
    (if smallest \<le> val
     then if smallest > drop_bit 1 (- 1) then Some (needed + 1)
          else buckets_loop val (push_bit 1 smallest) (needed + 1)
     else Some needed)"

definition buckets_needed :: "u32 \<Rightarrow> int \<Rightarrow> u64 \<Rightarrow> int option" where
  "buckets_needed sub_count unit val = buckets_loop val (push_bit (nat unit) (ucast sub_count)) 1"

fun times_ten :: "nat \<Rightarrow> u64 \<Rightarrow> u64" where
  "times_ten 0 x = x"
| "times_ten (Suc n) x = times_ten n (x * 10)"

definition new_histogram :: "u64 \<Rightarrow> int \<Rightarrow> histogram option" where
  "new_histogram highest0 sig = do {
     let highest = (if highest0 < 2 then 2 else highest0);
     mag \<leftarrow> ceil_log2 (times_ten (nat sig) 2);
     let half_mag = (if mag > 1 then mag - 1 else 0);
     let sub_count = (push_bit (nat (half_mag + 1)) 1 :: u32);
     let mask = push_bit 0 (ucast sub_count - 1);
     buckets \<leftarrow> buckets_needed sub_count 0 highest;
     let len = (of_int (buckets + 1) :: u64) * ucast (sub_count div 2);
     Some \<lparr>h_highest = highest, h_unit_mag = 0, h_half_mag = half_mag,
       h_clz_base = 64 - 0 - (half_mag + 1), h_sub_count = sub_count,
       h_half_count = drop_bit 1 sub_count, h_mask = mask, h_buckets = buckets,
       h_counts = replicate (unat len) 0, h_total = 0, h_sum = 0, h_min = - 1, h_max = 0\<rparr> }"

section \<open>Recording and reading\<close>

definition clamp_value :: "histogram \<Rightarrow> u64 \<Rightarrow> u64" where
  "clamp_value h v = (let v = (if v < 1 then 1 else v) in if v > h_highest h then h_highest h else v)"

definition record_value :: "u64 \<Rightarrow> histogram \<Rightarrow> histogram option" where
  "record_value v0 h = do {
     let v = clamp_value h v0;
     let i = unat (counts_index_for h v);
     c \<leftarrow> vec_get (h_counts h) i;
     cs \<leftarrow> vec_set (h_counts h) i (c + 1);
     Some (h\<lparr>h_counts := cs, h_total := h_total h + 1, h_sum := h_sum h + v,
       h_min := (if v < h_min h then v else h_min h),
       h_max := (if v > h_max h then v else h_max h)\<rparr>) }"

text \<open>The loop of \<open>value_at_percentile\<close> over the counts from index \<open>i\<close> on.\<close>

fun find_rank :: "u64 \<Rightarrow> u64 list \<Rightarrow> nat \<Rightarrow> u64 \<Rightarrow> nat option" where
  "find_rank target [] i running = None"
| "find_rank target (c # cs) i running =
    (if running + c \<ge> target then Some i else find_rank target cs (Suc i) (running + c))"

definition value_at_percentile :: "u64 \<Rightarrow> histogram \<Rightarrow> u64" where
  "value_at_percentile target_d h =
    (if h_total h = 0 then 0
     else let target = (if target_d < 1 then 1 else target_d);
              target = (if target > h_total h then h_total h else target)
          in case find_rank target (h_counts h) 0 0 of
               Some i \<Rightarrow> highest_equivalent h (value_from_index h (of_nat i))
             | None \<Rightarrow> h_max h)"

text \<open>\<open>rank p total\<close> stands for the floating-point \<open>ceil(p / 100 * total)\<close>, with \<open>p\<close> in hundredths of a
  percent.\<close>

definition snapshot :: "(nat \<Rightarrow> u64 \<Rightarrow> u64) \<Rightarrow> histogram \<Rightarrow> latency_snapshot" where
  "snapshot rank h =
    (if h_total h = 0 then zero_snapshot
     else \<lparr>s_count = h_total h, s_min = h_min h, s_max = h_max h,
       s_mean = of_nat (unat (h_sum h)) / of_nat (unat (h_total h)),
       s_p50 = value_at_percentile (rank 5000 (h_total h)) h,
       s_p90 = value_at_percentile (rank 9000 (h_total h)) h,
       s_p99 = value_at_percentile (rank 9900 (h_total h)) h,
       s_p999 = value_at_percentile (rank 9990 (h_total h)) h,
       s_p9999 = value_at_percentile (rank 9999 (h_total h)) h\<rparr>)"

definition reset_histogram :: "histogram \<Rightarrow> histogram" where
  "reset_histogram h = h\<lparr>h_counts := replicate (length (h_counts h)) 0, h_total := 0, h_sum := 0,
     h_min := - 1, h_max := 0\<rparr>"

text \<open>\<^verbatim>\<open>ThroughputCounter\<close>.\<close>

definition counter_add :: "u64 \<Rightarrow> u64 \<Rightarrow> u64" where
  "counter_add n c = c + n"

section \<open>Bit lengths\<close>

lemma bit_len_0 [simp]: "bit_len 0 = 0"
  by (subst bit_len.simps) simp

lemma bit_len_bounds: "0 < n \<Longrightarrow> 2 ^ (bit_len n - 1) \<le> n \<and> n < 2 ^ bit_len n \<and> 0 < bit_len n"
proof (induction n rule: bit_len.induct)
  case (1 n)
  show ?case
  proof (cases "n = 1")
    case True
    then show ?thesis by (simp add: bit_len.simps)
  next
    case False
    with 1 have h: "0 < n div 2" by auto
    note IH = 1(1) [OF _ h]
    have e: "bit_len n = Suc (bit_len (n div 2))" using 1(2) by (subst bit_len.simps) simp
    have p: "(2::nat) ^ bit_len (n div 2) = 2 * 2 ^ (bit_len (n div 2) - 1)"
      using IH 1(2) by (cases "bit_len (n div 2)") auto
    show ?thesis using IH 1(2) by (auto simp: e p)
  qed
qed

lemma bit_len_le: "bit_len n \<le> k \<longleftrightarrow> n < 2 ^ k"
proof (cases "n = 0")
  case True
  then show ?thesis by simp
next
  case False
  then have b: "2 ^ (bit_len n - 1) \<le> n" "n < 2 ^ bit_len n" "0 < bit_len n"
    using bit_len_bounds [of n] by auto
  show ?thesis
  proof
    assume "bit_len n \<le> k"
    then have "(2::nat) ^ bit_len n \<le> 2 ^ k" by (simp add: power_increasing)
    with b(2) show "n < 2 ^ k" by linarith
  next
    assume lt: "n < 2 ^ k"
    show "bit_len n \<le> k"
    proof (rule ccontr)
      assume "\<not> bit_len n \<le> k"
      then have "(2::nat) ^ k \<le> 2 ^ (bit_len n - 1)" by (intro power_increasing) auto
      with b(1) lt show False by linarith
    qed
  qed
qed

lemma unat_less_power_iff: "unat (a :: 'w::len word) < 2 ^ k \<longleftrightarrow> uint a < 2 ^ k"
proof -
  have "int (unat a) < int (2 ^ k) \<longleftrightarrow> unat a < 2 ^ k" by (rule of_nat_less_iff)
  then show ?thesis by simp
qed

lemma unat_or_less:
  fixes a b :: u64
  shows "unat (a OR b) < 2 ^ k \<longleftrightarrow> unat a < 2 ^ k \<and> unat b < 2 ^ k"
proof -
  let ?a = "uint a" and ?b = "uint b"
  have or: "uint (a OR b) = ?a OR ?b" by (rule unsigned_or_eq)
  have "?a \<le> ?a OR ?b" by (rule or_greater_eq) simp
  moreover have "?b \<le> ?a OR ?b" using or_greater_eq [of ?a ?b] by (simp add: or.commute)
  moreover have "?a < 2 ^ k \<Longrightarrow> ?b < 2 ^ k \<Longrightarrow> ?a OR ?b < 2 ^ k" by (rule OR_upper) simp_all
  ultimately have "uint (a OR b) < 2 ^ k \<longleftrightarrow> ?a < 2 ^ k \<and> ?b < 2 ^ k"
    unfolding or by linarith
  then show ?thesis by (simp only: unat_less_power_iff)
qed

lemma bit_len_or: "bit_len (unat (a OR b :: u64)) = max (bit_len (unat a)) (bit_len (unat b))"
proof -
  have "bit_len (unat (a OR b)) \<le> k \<longleftrightarrow> max (bit_len (unat a)) (bit_len (unat b)) \<le> k" for k
    by (simp add: bit_len_le unat_or_less)
  then show ?thesis by (meson antisym order_refl)
qed

lemma sint_small:
  fixes w :: u32
  assumes "unat w < 2 ^ 31"
  shows "sint w = int (unat w)"
proof -
  have u: "uint w < 2 ^ 31" using assms by (simp only: unat_less_power_iff)
  have "sint w = signed_take_bit 31 (uint w)" by (simp add: sint_uint)
  also have "\<dots> = uint w"
  proof (rule signed_take_bit_int_eq_self)
    show "- (2 ^ 31) \<le> uint w" by (rule order_trans [of _ 0]) simp_all
  qed (rule u)
  finally show ?thesis by (simp only: uint_nat)
qed

lemma to_i32_small:
  assumes "unat v < 2 ^ 31"
  shows "to_i32 v = int (unat v)"
proof -
  have "unat (ucast v :: 32 word) = unat v"
    using assms by (simp only: unsigned_ucast_eq) (rule take_bit_nat_eq_self, simp)
  with assms show ?thesis unfolding to_i32_def by (simp add: sint_small del: unsigned_ucast_eq)
qed

end
