(* ===== verification/Latency_Geometry.thy ===== *)
theory Latency_Geometry
  imports Instrumentation
begin

text \<open>
  The bucket arithmetic of the latency histogram, first on natural numbers and then for the word
  computations of the code: the index of a value, the range of values that share an index, and the
  loops that size the histogram.
\<close>

named_theorems geometry \<open>the word computations of the histogram as natural-number functions\<close>

section \<open>The bucket arithmetic on natural numbers\<close>

definition bk :: "nat \<Rightarrow> nat \<Rightarrow> nat" where
  "bk m v = bit_len v - Suc m"

definition sb :: "nat \<Rightarrow> nat \<Rightarrow> nat" where
  "sb m v = v div 2 ^ bk m v"

definition ix :: "nat \<Rightarrow> nat \<Rightarrow> nat" where
  "ix m v = bk m v * 2 ^ m + sb m v"

definition lo :: "nat \<Rightarrow> nat \<Rightarrow> nat" where
  "lo m v = sb m v * 2 ^ bk m v"

definition hi :: "nat \<Rightarrow> nat \<Rightarrow> nat" where
  "hi m v = lo m v + 2 ^ bk m v - 1"

lemma bit_len_mono: "v \<le> w \<Longrightarrow> bit_len v \<le> bit_len w"
  by (meson bit_len_le le_less_trans order_refl)

lemma bit_len_eq: "2 ^ k \<le> v \<Longrightarrow> v < 2 ^ Suc k \<Longrightarrow> bit_len v = Suc k"
  using bit_len_le [of v "Suc k"] bit_len_le [of v k] by simp

lemma bk_mono: "v \<le> w \<Longrightarrow> bk m v \<le> bk m w"
  by (simp add: bk_def bit_len_mono diff_le_mono)

lemma bk_bounds:
  assumes "0 < bk m v"
  shows "2 ^ (bk m v + m) \<le> v" and "v < 2 ^ Suc (bk m v + m)"
proof -
  have "0 < v" using assms by (cases "v = 0") (simp_all add: bk_def)
  moreover have "bit_len v = Suc (bk m v + m)" using assms by (simp add: bk_def)
  ultimately show "2 ^ (bk m v + m) \<le> v" "v < 2 ^ Suc (bk m v + m)"
    using bit_len_bounds [of v] by auto
qed

lemma bk_0: "bk m v = 0 \<longleftrightarrow> v < 2 ^ Suc m"
  using bit_len_le [of v "Suc m"] by (simp add: bk_def)

lemma sb_less: "sb m v < 2 ^ Suc m"
proof (cases "bk m v = 0")
  case True
  then have "v < 2 ^ Suc m" by (simp only: bk_0)
  with True show ?thesis by (simp add: sb_def)
next
  case False
  then have "v < 2 ^ Suc m * 2 ^ bk m v"
    using bk_bounds(2) [of m v] by (simp add: power_add mult_ac)
  then show ?thesis unfolding sb_def by (simp add: less_mult_imp_div_less)
qed

lemma sb_ge:
  assumes "0 < bk m v"
  shows "2 ^ m \<le> sb m v"
proof -
  have "2 ^ m * 2 ^ bk m v \<le> v" using bk_bounds(1) [OF assms] by (simp add: power_add mult.commute)
  then show ?thesis unfolding sb_def by (simp add: less_eq_div_iff_mult_less_eq)
qed

lemma bk_less:
  assumes "v < 2 ^ (m + n)" and "1 \<le> n"
  shows "bk m v < n"
  using assms bit_len_le [of v "m + n"] by (simp add: bk_def)

lemma ix_less:
  assumes "v < 2 ^ (m + n)" and "1 \<le> n"
  shows "ix m v < (n + 1) * 2 ^ m"
proof -
  have "Suc (bk m v) * 2 ^ m \<le> n * 2 ^ m" using bk_less [OF assms] by (intro mult_right_mono) auto
  with sb_less [of m v] show ?thesis by (simp add: ix_def)
qed

lemma ix_mono:
  assumes "v \<le> w"
  shows "ix m v \<le> ix m w"
proof (cases "bk m v = bk m w")
  case True
  then show ?thesis using assms by (simp add: ix_def sb_def div_le_mono)
next
  case False
  then have lt: "bk m v < bk m w" using bk_mono [OF assms, of m] by simp
  have "(bk m v + 2) * 2 ^ m \<le> (bk m w + 1) * 2 ^ m" using lt by (intro mult_right_mono) auto
  with sb_less [of m v] sb_ge [of m w] lt show ?thesis by (simp add: ix_def)
qed

lemma lo_le: "lo m v \<le> v"
  by (simp add: lo_def sb_def)

lemma le_hi: "v \<le> hi m v"
proof -
  have "v = lo m v + v mod 2 ^ bk m v"
    unfolding lo_def sb_def by (rule div_mult_mod_eq [symmetric])
  moreover have "v mod 2 ^ bk m v < 2 ^ bk m v" by simp
  ultimately show ?thesis unfolding hi_def by linarith
qed

lemma hi_diff: "hi m v - v \<le> 2 ^ bk m v"
  using lo_le [of m v] unfolding hi_def by linarith

lemma bk_lo: "bk m (lo m v) = bk m v"
proof (cases "bk m v = 0")
  case True
  then show ?thesis by (simp add: lo_def sb_def)
next
  case False
  have "2 ^ m * 2 ^ bk m v \<le> lo m v" using sb_ge [of m v] False by (simp add: lo_def)
  moreover have "lo m v < 2 ^ Suc m * 2 ^ bk m v"
    unfolding lo_def using sb_less [of m v] by (intro mult_strict_right_mono) auto
  ultimately have "bit_len (lo m v) = Suc (m + bk m v)"
    by (intro bit_len_eq) (simp_all add: power_add)
  then show ?thesis by (simp add: bk_def)
qed

lemma lo_idem: "lo m (lo m v) = lo m v" "hi m (lo m v) = hi m v"
proof -
  have "sb m (lo m v) = sb m v" by (simp add: sb_def [of m "lo m v"] bk_lo) (simp add: lo_def)
  then show "lo m (lo m v) = lo m v" by (simp add: lo_def [of m "lo m v"] bk_lo) (simp add: lo_def)
  then show "hi m (lo m v) = hi m v" by (simp add: hi_def bk_lo)
qed

text \<open>The width of a range: one value below \<open>2 ^ (m + 1)\<close>, then at most \<open>v / 2 ^ m\<close>.\<close>

lemma range_width:
  "2 ^ bk m v * 2 ^ m \<le> max v (2 ^ m)"
proof (cases "bk m v = 0")
  case False
  then show ?thesis using bk_bounds(1) [of m v] by (simp add: power_add)
qed simp

lemma hi_less:
  assumes "v < 2 ^ k" and "Suc m \<le> k"
  shows "hi m v < 2 ^ k"
proof -
  have "bk m v + Suc m \<le> k" using assms bit_len_le [of v k] by (simp add: bk_def)
  have "(sb m v + 1) * 2 ^ bk m v \<le> 2 ^ Suc m * 2 ^ bk m v"
    using sb_less [of m v] by (intro mult_right_mono) auto
  also have "\<dots> = 2 ^ (bk m v + Suc m)" by (simp add: power_add)
  also have "\<dots> \<le> 2 ^ k" using \<open>bk m v + Suc m \<le> k\<close> by (intro power_increasing) auto
  finally have le: "(sb m v + 1) * 2 ^ bk m v \<le> 2 ^ k" .
  have "(0::nat) < 2 ^ bk m v" by simp
  then have "hi m v < (sb m v + 1) * 2 ^ bk m v" unfolding hi_def lo_def distrib_right mult_1 by linarith
  with le show ?thesis by linarith
qed

lemma hi_mono:
  assumes "v \<le> w"
  shows "hi m v \<le> hi m w"
proof (cases "bk m v = bk m w")
  case True
  then have "sb m v \<le> sb m w" using assms by (simp add: sb_def div_le_mono)
  then have "lo m v \<le> lo m w" using True by (simp add: lo_def)
  then show ?thesis by (simp add: hi_def True diff_le_mono)
next
  case False
  then have lt: "bk m v < bk m w" using bk_mono [OF assms, of m] by simp
  have "v < 2 ^ Suc (bk m v + m)" using bk_bounds(2) [of m v] bk_0 [of m v] by (cases "bk m v = 0") auto
  then have "hi m v < 2 ^ Suc (bk m v + m)" by (rule hi_less) simp
  also have "\<dots> \<le> 2 ^ (bk m w + m)" using lt by (intro power_increasing) auto
  also have "\<dots> \<le> w" using bk_bounds(1) [of m w] lt by simp
  finally show ?thesis using le_hi [of w m] by simp
qed

text \<open>The value an index starts at.\<close>

definition from_ix :: "nat \<Rightarrow> nat \<Rightarrow> nat" where
  "from_ix m i = (if i < 2 ^ m then i else (i mod 2 ^ m + 2 ^ m) * 2 ^ (i div 2 ^ m - 1))"

lemma from_ix_ix: "from_ix m (ix m v) = lo m v"
proof (cases "sb m v < 2 ^ m")
  case True
  then have "bk m v = 0" using sb_ge [of m v] by fastforce
  with True show ?thesis by (simp add: from_ix_def ix_def lo_def)
next
  case False
  then obtain d where d: "sb m v = d + 2 ^ m" by (metis add.commute le_add_diff_inverse not_less)
  then have "d < 2 ^ m" using sb_less [of m v] by simp
  moreover have "ix m v = d + (bk m v + 1) * 2 ^ m" by (simp add: ix_def d)
  ultimately have "ix m v mod 2 ^ m = d" "ix m v div 2 ^ m = bk m v + 1" "\<not> ix m v < 2 ^ m"
    by (simp_all only: mod_mult_self1 mod_less div_mult_self1 [OF power_not_zero] div_less) simp_all
  then show ?thesis by (simp add: from_ix_def lo_def d)
qed

section \<open>The word computations\<close>

definition geom :: "nat \<Rightarrow> nat \<Rightarrow> histogram \<Rightarrow> bool" where
  "geom m n h \<longleftrightarrow> m \<le> 20 \<and> 1 \<le> n \<and> m + n \<le> 64 \<and> h_unit_mag h = 0 \<and> h_half_mag h = int m
     \<and> h_clz_base h = 63 - int m \<and> h_half_count h = of_nat (2 ^ m)
     \<and> h_mask h = of_nat (2 ^ Suc m - 1) \<and> length (h_counts h) = (n + 1) * 2 ^ m
     \<and> unat (h_highest h) < 2 ^ (m + n) \<and> 1 \<le> unat (h_highest h)"

lemma unat_64: "unat (v :: u64) < 2 ^ 64"
  using unsigned_less [of v] by simp

lemma unat_of_nat_64: "a < 2 ^ 64 \<Longrightarrow> unat (of_nat a :: u64) = a"
  by (simp add: unat_of_nat)

lemma two_power_20:
  fixes m k :: nat
  assumes "m \<le> 20"
  shows "(2::nat) ^ m \<le> 1048576" and "(2::nat) ^ Suc m \<le> 2097152"
proof -
  have "(2::nat) ^ m \<le> 2 ^ 20" using assms by (intro power_increasing) auto
  then show "(2::nat) ^ m \<le> 1048576" "(2::nat) ^ Suc m \<le> 2097152" by simp_all
qed

lemma half_sint [geometry]: "geom m n h \<Longrightarrow> sint (h_half_count h) = 2 ^ m"
proof -
  assume g: "geom m n h"
  then have "m \<le> 20" by (simp add: geom_def)
  then have "unat (h_half_count h) = 2 ^ m"
    using g two_power_20 [of m] by (simp add: geom_def unat_of_nat del: of_nat_power)
  then show ?thesis using sint_small [of "h_half_count h"] two_power_20 [OF \<open>m \<le> 20\<close>] by simp
qed

lemma bucket_index [geometry]:
  assumes "geom m n h"
  shows "get_bucket_index h v = int (bk m (unat v))"
proof -
  have m: "m \<le> 20" "h_mask h = of_nat (2 ^ Suc m - 1)" "h_clz_base h = 63 - int m"
    using assms by (simp_all add: geom_def)
  have "unat (h_mask h) = 2 ^ Suc m - 1"
    unfolding m(2) using two_power_20(2) [OF m(1)] by (intro unat_of_nat_64) simp
  then have "bit_len (unat (h_mask h)) = Suc m" by (intro bit_len_eq) (simp_all add: less_imp_diff_less)
  then have "clz64 (v OR h_mask h) = 64 - int (max (bit_len (unat v)) (Suc m))"
    by (simp only: clz64_def bit_len_or)
  then show ?thesis by (simp add: get_bucket_index_def m(3) bk_def)
qed

lemma sub_index [geometry]:
  assumes "geom m n h"
  shows "get_sub_bucket_index h v (int (bk m (unat v))) = int (sb m (unat v))"
proof -
  have m: "m \<le> 20" "h_unit_mag h = 0" using assms by (simp_all add: geom_def)
  have "unat (drop_bit (bk m (unat v)) v) = sb m (unat v)"
    by (simp only: unat_drop_bit_eq sb_def) (simp add: drop_bit_eq_div)
  moreover have "sb m (unat v) < 2 ^ 31" using sb_less [of m "unat v"] two_power_20 [OF m(1)] by simp
  ultimately show ?thesis by (simp add: get_sub_bucket_index_def m(2) to_i32_small)
qed

lemma index_word:
  assumes "geom m n h"
  shows "counts_index_for h v = of_nat (ix m (unat v))"
proof -
  have "h_half_mag h = int m" using assms by (simp add: geom_def)
  then have "counts_index_for h v
      = of_int ((int (bk m (unat v)) + 1) * 2 ^ m + (int (sb m (unat v)) - 2 ^ m))"
    by (simp only: counts_index_for_def counts_index_def Let_def geometry [OF assms] nat_int)
  also have "(int (bk m (unat v)) + 1) * 2 ^ m + (int (sb m (unat v)) - 2 ^ m) = int (ix m (unat v))"
    by (simp add: ix_def algebra_simps)
  finally show ?thesis by simp
qed

lemma index_bound:
  assumes "geom m n h" and "unat v < 2 ^ (m + n)"
  shows "unat (counts_index_for h v) = ix m (unat v)" and "ix m (unat v) < length (h_counts h)"
    and "length (h_counts h) < 2 ^ 31"
proof -
  have m: "m \<le> 20" "1 \<le> n" "m + n \<le> 64" "length (h_counts h) = (n + 1) * 2 ^ m"
    using assms by (simp_all add: geom_def)
  have "(n + 1) * 2 ^ m \<le> 65 * 1048576" using m two_power_20 [OF m(1)] by (intro mult_le_mono) auto
  then show small: "length (h_counts h) < 2 ^ 31" using m(4) by simp
  show lt: "ix m (unat v) < length (h_counts h)" using ix_less [OF assms(2) m(2)] m(4) by simp
  show "unat (counts_index_for h v) = ix m (unat v)"
    unfolding index_word [OF assms(1)] using lt small by (intro unat_of_nat_64) simp
qed

lemma lowest_word:
  assumes "geom m n h"
  shows "lowest_equivalent h v = of_nat (lo m (unat v))"
proof -
  have "h_unit_mag h = 0" using assms by (simp add: geom_def)
  then show ?thesis
    by (simp add: lowest_equivalent_def Let_def geometry [OF assms] value_from_sub_def
        push_bit_eq_mult lo_def)
qed

lemma highest_word:
  assumes "geom m n h"
  shows "unat (highest_equivalent h v) = hi m (unat v)"
proof -
  have m: "m \<le> 20" "h_unit_mag h = 0" using assms by (simp_all add: geom_def)
  have "1 \<le> lo m (unat v) + 2 ^ bk m (unat v)" by (simp add: Suc_leI)
  then have "highest_equivalent h v = of_nat (hi m (unat v))"
    by (simp add: highest_equivalent_def size_of_equivalent_range_def lowest_word [OF assms]
        geometry [OF assms] m(2) push_bit_eq_mult hi_def of_nat_diff)
  moreover have "hi m (unat v) < 2 ^ 64" using m(1) by (intro hi_less unat_64) simp
  ultimately show ?thesis by (simp only: unat_of_nat_64)
qed

end
