(* ===== verification/Latency_Histogram.thy ===== *)
theory Latency_Histogram
  imports Latency_Geometry "HOL-Library.Multiset"
begin

text \<open>
  What the latency histogram represents: the multiset of the recorded values, after clamping to the
  trackable range. Construction establishes the geometry, every record adds one value, and a
  percentile query returns the top of the range that holds the value of that rank.
\<close>

section \<open>The value an index starts at\<close>

lemma from_index_word:
  assumes g: "geom m n h" and i: "i < length (h_counts h)"
  shows "value_from_index h (of_nat i) = of_nat (from_ix m i)"
proof -
  have m: "m \<le> 20" "h_unit_mag h = 0" "h_half_mag h = int m" "h_half_count h = of_nat (2 ^ m)"
    using g by (simp_all add: geom_def)
  have len: "length (h_counts h) = (n + 1) * 2 ^ m" "n \<le> 64" using g by (simp_all add: geom_def)
  have "(n + 1) * 2 ^ m \<le> 65 * 1048576" using len(2) two_power_20 [OF m(1)] by (intro mult_le_mono) auto
  then have i31: "i < 2 ^ 31" using i len(1) by simp
  have ui: "unat (of_nat i :: u64) = i" using i31 by (intro unat_of_nat_64) simp
  have hi: "to_i32 (drop_bit m (of_nat i)) = int (i div 2 ^ m)"
  proof -
    have u: "unat (drop_bit m (of_nat i :: u64)) = i div 2 ^ m"
      by (simp only: unat_drop_bit_eq ui) (simp add: drop_bit_eq_div)
    have "i div 2 ^ m < 2 ^ 31" using i31 div_le_dividend [of i "2 ^ m"] by linarith
    then show ?thesis using u to_i32_small [of "drop_bit m (of_nat i)"] by simp
  qed
  have lo: "to_i32 (of_nat i AND ucast (h_half_count h - 1)) = int (i mod 2 ^ m)"
  proof -
    have "h_half_count h - 1 = mask m" by (simp add: m(4) mask_eq_exp_minus_1)
    then have "ucast (h_half_count h - 1) = (mask m :: u64)" using m(1) by (simp add: ucast_mask_eq)
    then have "of_nat i AND ucast (h_half_count h - 1) = take_bit m (of_nat i :: u64)"
      by (simp add: take_bit_eq_mask)
    moreover have u: "unat (take_bit m (of_nat i :: u64)) = i mod 2 ^ m"
      by (simp only: unsigned_take_bit_eq ui) (simp add: take_bit_eq_mod)
    moreover have "i mod 2 ^ m < 2 ^ 31" using i31 mod_less_eq_dividend [of i "2 ^ m"] by linarith
    ultimately show ?thesis using to_i32_small [of "take_bit m (of_nat i)"] by simp
  qed
  show ?thesis
  proof (cases "i < 2 ^ m")
    case True
    with hi lo show ?thesis
      by (simp add: value_from_index_def m(2,3) value_from_sub_def from_ix_def)
  next
    case False
    then have "1 \<le> i div 2 ^ m" by (simp add: Suc_le_eq div_greater_zero_iff not_less)
    then have nat: "nat (int (i div 2 ^ m) - 1) = i div 2 ^ m - 1" "\<not> int (i div 2 ^ m) - 1 < 0" by auto
    have "value_from_index h (of_nat i)
        = push_bit (i div 2 ^ m - 1) (of_int (int (i mod 2 ^ m) + 2 ^ m))"
      using nat by (simp only: value_from_index_def Let_def m(2,3) nat_int hi lo half_sint [OF g]
          value_from_sub_def if_False add_0_right)
    also have "of_int (int (i mod 2 ^ m) + 2 ^ m) = (of_nat (i mod 2 ^ m + 2 ^ m) :: u64)" by simp
    finally show ?thesis using False by (simp add: from_ix_def push_bit_eq_mult)
  qed
qed

lemma highest_of_index:
  fixes v :: u64
  assumes g: "geom m n h" and v: "unat v < 2 ^ (m + n)"
  shows "unat (highest_equivalent h (value_from_index h (of_nat (ix m (unat v))))) = hi m (unat v)"
proof -
  have "lo m (unat v) < 2 ^ 64" using lo_le [of m "unat v"] unat_64 [of v] by linarith
  then have "unat (value_from_index h (of_nat (ix m (unat v)))) = lo m (unat v)"
    using from_index_word [OF g index_bound(2) [OF g v]] by (simp add: from_ix_ix unat_of_nat_64 unat_of_nat)
  then show ?thesis by (simp add: highest_word [OF g] lo_idem)
qed

section \<open>The sizing loops\<close>

lemma push_bit_one_double: "unat x < 2 ^ 63 \<Longrightarrow> unat (push_bit 1 x :: u64) = 2 * unat x"
  unfolding unsigned_push_bit_eq by (simp add: push_bit_nat_def take_bit_nat_eq_self)

lemma ceil_log2_loop:
  assumes "unat x = 2 ^ j" and "j \<le> 63" and "unat v \<le> 2 ^ 63" and "0 < j \<Longrightarrow> 2 ^ (j - 1) < unat v"
  shows "\<exists>k. ceil_log2_loop v x (int j) = Some (int k) \<and> k \<le> 63 \<and> unat v \<le> 2 ^ k
    \<and> (0 < k \<longrightarrow> 2 ^ (k - 1) < unat v)"
  using assms
proof (induction "63 - j" arbitrary: j x)
  case 0
  then have "\<not> x < v" by (simp add: word_less_nat_alt)
  with 0 show ?case by (subst ceil_log2_loop.simps) (auto simp: word_less_nat_alt intro!: exI [of _ j])
next
  case (Suc d)
  show ?case
  proof (cases "x < v")
    case True
    have "(2::nat) ^ j < 2 ^ 63" using Suc.hyps(2) by (intro power_strict_increasing) auto
    then have "unat (push_bit 1 x) = 2 ^ Suc j" 
      using push_bit_one_double [of x] Suc.prems(1) by simp
    moreover have "d = 63 - Suc j" "Suc j \<le> 63" using Suc.hyps(2) by auto
    ultimately have "\<exists>k. ceil_log2_loop v (push_bit 1 x) (int (Suc j)) = Some (int k) \<and> k \<le> 63
        \<and> unat v \<le> 2 ^ k \<and> (0 < k \<longrightarrow> 2 ^ (k - 1) < unat v)"
      using Suc.prems True by (intro Suc.hyps(1)) (auto simp: word_less_nat_alt)
    moreover have "int (Suc j) = int j + 1" by simp
    ultimately show ?thesis using True by (subst ceil_log2_loop.simps) (simp add: add.commute)
  next
    case False
    with Suc.prems show ?thesis
      by (subst ceil_log2_loop.simps) (auto simp: word_less_nat_alt intro!: exI [of _ j])
  qed
qed

lemma buckets_loop:
  assumes "unat x = 2 ^ (m + j)" and "1 \<le> j" and "m + j \<le> 63"
  shows "\<exists>n. buckets_loop v x (int j) = Some (int n) \<and> 1 \<le> n \<and> m + n \<le> 64 \<and> unat v < 2 ^ (m + n)"
  using assms
proof (induction "63 - (m + j)" arbitrary: j x)
  case 0
  then have mj: "m + j = 63" by simp
  have big: "x > drop_bit 1 (- 1)" using 0 mj by (simp add: word_less_nat_alt unat_drop_bit_eq drop_bit_eq_div)
  show ?case
  proof (cases "x \<le> v")
    case True
    with 0 mj big unat_64 [of v] show ?thesis
      by (subst buckets_loop.simps) (auto intro!: exI [of _ "Suc j"])
  next
    case False
    with 0 mj show ?thesis
      by (subst buckets_loop.simps) (auto simp: word_le_nat_alt not_le intro!: exI [of _ j])
  qed
next
  case (Suc d)
  show ?case
  proof (cases "x \<le> v")
    case True
    have lt: "(2::nat) ^ (m + j) < 2 ^ 63" using Suc.hyps(2) by (intro power_strict_increasing) auto
    then have "\<not> x > drop_bit 1 (- 1)"
      using Suc.prems(1) by (simp add: word_less_nat_alt unat_drop_bit_eq drop_bit_eq_div)
    moreover have "unat (push_bit 1 x) = 2 ^ (m + Suc j)" 
      using push_bit_one_double [of x] Suc.prems(1) lt by simp
    moreover have "d = 63 - (m + Suc j)" "m + Suc j \<le> 63" using Suc.hyps(2) by auto
    ultimately have "\<not> x > drop_bit 1 (- 1)" "\<exists>n. buckets_loop v (push_bit 1 x) (int (Suc j)) = Some (int n)
        \<and> 1 \<le> n \<and> m + n \<le> 64 \<and> unat v < 2 ^ (m + n)"
      using Suc.hyps(1) [of "Suc j" "push_bit 1 x"] by auto
    moreover have "int (Suc j) = int j + 1" by simp
    ultimately show ?thesis using True by (subst buckets_loop.simps) (simp add: add.commute)
  next
    case False
    with Suc.prems show ?thesis
      by (subst buckets_loop.simps) (auto simp: word_le_nat_alt not_le intro!: exI [of _ j])
  qed
qed

section \<open>Construction\<close>

text \<open>The values recorded so far, newest last.\<close>

definition hist_repr :: "nat \<Rightarrow> nat \<Rightarrow> histogram \<Rightarrow> u64 list \<Rightarrow> bool" where
  "hist_repr m n h vs \<longleftrightarrow> geom m n h \<and> length vs < 2 ^ 64
     \<and> (\<forall>i < length (h_counts h). unat (h_counts h ! i) = count_list (map (ix m \<circ> unat) vs) i)
     \<and> h_total h = of_nat (length vs) \<and> h_sum h = sum_list vs
     \<and> (\<forall>v \<in> set vs. 1 \<le> v \<and> v \<le> h_highest h)
     \<and> h_min h = fold min vs (- 1) \<and> h_max h = fold max vs 0"

lemma times_ten_mult: "times_ten n x = x * 10 ^ n"
  by (induction n arbitrary: x) (simp_all add: ac_simps)

lemma times_ten: "n \<le> 5 \<Longrightarrow> unat (times_ten n 2) = 2 * 10 ^ n"
proof -
  assume "n \<le> 5"
  then have "(10::nat) ^ n \<le> 10 ^ 5" by (intro power_increasing) auto
  then have "unat (of_nat (2 * 10 ^ n) :: u64) = 2 * 10 ^ n" by (intro unat_of_nat_64) simp
  then show ?thesis by (simp add: times_ten_mult)
qed

lemma new_histogram_repr:
  assumes "sig \<le> 5"
  shows "\<exists>h m n. new_histogram highest sig = Some h \<and> hist_repr m n h [] \<and> 10 ^ nat sig \<le> (2::nat) ^ m
    \<and> h_highest h = max 2 highest"
proof -
  let ?v = "times_ten (nat sig) 2" and ?hi = "if highest < 2 then 2 else highest"
  have "nat sig \<le> 5" using assms by simp
  note ten = times_ten [OF this]
  have "(10::nat) ^ nat sig \<le> 10 ^ 5" using \<open>nat sig \<le> 5\<close> by (intro power_increasing) auto
  with ten have ten_le: "unat ?v \<le> 200000" by simp
  obtain k where k: "ceil_log2_loop ?v 1 (int 0) = Some (int k)" "unat ?v \<le> 2 ^ k"
      "0 < k \<longrightarrow> 2 ^ (k - 1) < unat ?v"
    using ceil_log2_loop [of 1 0 ?v] ten_le by auto
  have "2 \<le> unat ?v" using ten by simp
  with k(2) have k0: "0 < k" by (cases k) auto
  then obtain m where m: "k = Suc m" by (cases k) auto
  have "(2::nat) ^ m < 2 ^ 18" using k(3) k0 m ten_le by simp
  then have m18: "m < 18" by (rule power_less_imp_less_exp [rotated]) simp
  have m20: "m \<le> 20" using m18 by simp
  let ?sub = "push_bit (Suc m) 1 :: u32"
  have usub: "unat ?sub = 2 ^ Suc m"
  proof -
    have "?sub = of_nat (2 ^ Suc m)" by (simp add: push_bit_eq_mult)
    moreover have "(2::nat) ^ Suc m < 2 ^ 32" using two_power_20(2) [OF m20] by simp
    ultimately show ?thesis by (simp only: unat_of_nat) simp
  qed
  have "unat (ucast ?sub :: u64) = 2 ^ (m + 1)"
    using usub by simp
  then obtain n where n: "buckets_loop ?hi (ucast ?sub) (int 1) = Some (int n)"
      "1 \<le> n" "m + n \<le> 64" "unat ?hi < 2 ^ (m + n)"
    using buckets_loop [of "ucast ?sub" m 1 ?hi] m20 by auto
  let ?h = "\<lparr>h_highest = ?hi, h_unit_mag = 0, h_half_mag = int m, h_clz_base = 63 - int m,
    h_sub_count = ?sub, h_half_count = drop_bit 1 ?sub, h_mask = push_bit 0 (ucast ?sub - 1),
    h_buckets = int n, h_counts = replicate ((n + 1) * 2 ^ m) 0, h_total = 0, h_sum = 0,
    h_min = - 1, h_max = 0\<rparr>"
  have "(2::nat) ^ Suc m < 2 ^ 32" using two_power_20(2) [OF m20] by simp
  then have half: "drop_bit 1 ?sub = of_nat (2 ^ m)"
    by (simp only: word_unat_eq_iff unat_drop_bit_eq usub unat_of_nat) (simp add: drop_bit_eq_div)
  have mask: "push_bit 0 (ucast ?sub - 1 :: u64) = of_nat (2 ^ Suc m - 1)"
  proof -
    have "ucast ?sub = (of_nat (2 ^ Suc m) :: u64)"
      using two_power_20(2) [OF m20]
      by (simp only: word_unat_eq_iff unat_ucast_u32 usub unat_of_nat) simp
    then show ?thesis by (simp add: of_nat_diff)
  qed
  have sub2: "unat (?sub div 2) = 2 ^ m" by (simp only: unat_div_distrib usub) simp
  have "(of_int (int n + 1) :: u64) * ucast (?sub div 2) = of_nat ((n + 1) * 2 ^ m)"
  proof -
    have "ucast (?sub div 2) = (of_nat (2 ^ m) :: u64)"
      using two_power_20(1) [OF m20] 
      by (simp only: word_unat_eq_iff unat_ucast_u32 sub2 unat_of_nat) simp
    moreover have "(of_int (int n + 1) :: u64) = of_nat (n + 1)" by simp
    ultimately show ?thesis by (simp only: of_nat_mult)
  qed
  moreover have "(n + 1) * 2 ^ m \<le> 65 * 1048576"
    using n(3) two_power_20(1) [OF m20] by (intro mult_le_mono) auto
  ultimately have len: "unat ((of_int (int n + 1) :: u64) * ucast (?sub div 2)) = (n + 1) * 2 ^ m"
    using unat_of_nat_64 [of "(n + 1) * 2 ^ m"] by (simp only:) simp
  have mag: "(if int (Suc m) > 1 then int (Suc m) - 1 else 0) = int m" by simp
  have "ceil_log2 ?v = Some (int (Suc m))" using k(1) m by (simp add: ceil_log2_def)
  moreover have "nat (int m + 1) = Suc m" by simp
  moreover have "buckets_needed ?sub 0 ?hi = Some (int n)" using n(1) by (simp add: buckets_needed_def)
  ultimately have "new_histogram highest sig = Some ?h"
    unfolding new_histogram_def Let_def
    by (simp only: bind.simps mag len) (simp only: bind.simps mag len diff_0_right minus_add_distrib
        Let_def cong: if_weak_cong, simp)
  moreover have "geom m n ?h"
    using m20 n half mask by (simp add: geom_def word_le_nat_alt word_less_nat_alt)
  moreover have "10 ^ nat sig \<le> (2::nat) ^ m" using k(2) ten m by simp
  moreover have "?hi = max 2 highest" by (cases "highest < 2") (auto simp: max_def not_less)
  ultimately show ?thesis
    by (intro exI [of _ ?h] exI [of _ m] exI [of _ n]) (simp add: hist_repr_def)
qed

section \<open>Recording\<close>

lemma clamp_value_range:
  assumes "geom m n h"
  shows "1 \<le> clamp_value h v" and "clamp_value h v \<le> h_highest h"
  using assms by (auto simp: clamp_value_def geom_def word_le_nat_alt word_less_nat_alt)

lemma recorded_bound: "geom m n h \<Longrightarrow> v \<le> h_highest h \<Longrightarrow> unat v < 2 ^ (m + n)"
  by (auto simp: geom_def word_le_nat_alt)

lemma count_list_snoc: "count_list (xs @ [x]) y = count_list xs y + (if x = y then 1 else 0)"
  by (induction xs) auto

lemma record_repr:
  assumes repr: "hist_repr m n h vs" and small: "Suc (length vs) < 2 ^ 64"
  shows "\<exists>h'. record_value v h = Some h' \<and> hist_repr m n h' (vs @ [clamp_value h v])
    \<and> h_highest h' = h_highest h"
proof -
  let ?v = "clamp_value h v"
  let ?i = "ix m (unat ?v)"
  have g: "geom m n h" using repr by (simp add: hist_repr_def)
  note rng = clamp_value_range [OF g, of v]
  note idx = index_bound [OF g recorded_bound [OF g rng(2)]]
  have cnt: "unat (h_counts h ! i) = count_list (map (ix m \<circ> unat) vs) i" if "i < length (h_counts h)" for i
    using repr that by (simp add: hist_repr_def)
  have "unat (h_counts h ! ?i) \<le> length vs"
    using cnt [OF idx(2)] count_le_length [of "map (ix m \<circ> unat) vs" ?i] by simp
  then have bump: "unat (h_counts h ! ?i + 1) = Suc (unat (h_counts h ! ?i))"
    using small by (intro unat_Suc_no_wrap) simp
  let ?h' = "h\<lparr>h_counts := (h_counts h)[?i := h_counts h ! ?i + 1], h_total := h_total h + 1,
    h_sum := h_sum h + ?v, h_min := (if ?v < h_min h then ?v else h_min h),
    h_max := (if ?v > h_max h then ?v else h_max h)\<rparr>"
  have "record_value v h = Some ?h'"
    using idx by (simp add: record_value_def Let_def access_simps)
  moreover have "geom m n ?h'" using g by (simp add: geom_def)
  moreover have "\<forall>i < length (h_counts ?h'). unat (h_counts ?h' ! i)
      = count_list (map (ix m \<circ> unat) (vs @ [?v])) i"
    using cnt bump idx(2) by (auto simp: nth_list_update count_list_snoc)
  moreover have "h_min ?h' = fold min (vs @ [?v]) (- 1)" "h_max ?h' = fold max (vs @ [?v]) 0"
    using repr by (auto simp: hist_repr_def min_def max_def)
  ultimately show ?thesis
    using repr small rng by (intro exI [of _ ?h']) (auto simp: hist_repr_def)
qed

fun record_all :: "u64 list \<Rightarrow> histogram \<Rightarrow> histogram option" where
  "record_all [] h = Some h"
| "record_all (v # vs) h = do { h \<leftarrow> record_value v h; record_all vs h }"

lemma record_all_repr:
  assumes "hist_repr m n h us" and "length us + length vs < 2 ^ 64"
  shows "\<exists>h'. record_all vs h = Some h' \<and> hist_repr m n h' (us @ map (clamp_value h) vs)
    \<and> h_highest h' = h_highest h"
  using assms
proof (induction vs arbitrary: h us)
  case (Cons v vs)
  have "Suc (length us) < 2 ^ 64" using Cons.prems(2) by simp
  from record_repr [OF Cons.prems(1) this, of v] obtain h1
    where h1: "record_value v h = Some h1" "hist_repr m n h1 (us @ [clamp_value h v])"
      "h_highest h1 = h_highest h" by blast
  have "clamp_value h1 = clamp_value h" by (simp add: clamp_value_def h1(3) fun_eq_iff)
  with Cons.IH [OF h1(2)] Cons.prems(2) h1(1,3) show ?case by simp
qed simp

section \<open>Percentiles\<close>

lemma find_rank_least:
  assumes "unat running + (\<Sum>c\<leftarrow>cs. unat c) < 2 ^ 64" and "unat running < unat target"
    and "unat target \<le> unat running + (\<Sum>c\<leftarrow>cs. unat c)"
  shows "\<exists>j < length cs. find_rank target cs i running = Some (i + j)
    \<and> unat target \<le> unat running + (\<Sum>c\<leftarrow>take (Suc j) cs. unat c)
    \<and> unat running + (\<Sum>c\<leftarrow>take j cs. unat c) < unat target"
  using assms
proof (induction cs arbitrary: i running)
  case (Cons c cs)
  have sum: "unat (running + c) = unat running + unat c"
    using Cons.prems(1) by (intro unat_plus_no_wrap) simp
  show ?case
  proof (cases "running + c \<ge> target")
    case True
    with Cons.prems(2) sum show ?thesis by (intro exI [of _ 0]) (simp add: word_le_nat_alt)
  next
    case False
    then have "unat (running + c) < unat target" by (simp add: word_le_nat_alt)
    with Cons.IH [of "running + c" "Suc i"] Cons.prems sum obtain j where
      "j < length cs" "find_rank target cs (Suc i) (running + c) = Some (Suc i + j)"
      "unat target \<le> unat (running + c) + (\<Sum>c\<leftarrow>take (Suc j) cs. unat c)"
      "unat (running + c) + (\<Sum>c\<leftarrow>take j cs. unat c) < unat target" by auto
    with False sum show ?thesis by (intro exI [of _ "Suc j"]) simp
  qed
qed simp

lemma sum_counts_below:
  "(\<Sum>i\<leftarrow>[0..<k]. count_list xs i) = length (filter (\<lambda>x. x < k) xs)"
proof (induction xs)
  case (Cons x xs)
  have "(\<Sum>i\<leftarrow>[0..<k]. count_list (x # xs) i)
      = (\<Sum>i\<leftarrow>[0..<k]. count_list xs i) + (\<Sum>i\<leftarrow>[0..<k]. if x = i then 1 else 0)"
    by (simp flip: sum_list_addf) (rule arg_cong [of _ _ sum_list], auto)
  moreover have "(\<Sum>i\<leftarrow>[0..<k]. if x = i then 1 else 0) = (if x < k then 1 else (0::nat))"
    by (induction k) auto
  ultimately show ?case using Cons.IH by simp
qed (simp add: sum_list_0)

lemma sorted_rank:
  "sorted xs \<Longrightarrow> r < length xs \<Longrightarrow> r < length (filter (\<lambda>x. x < k) xs) \<longleftrightarrow> xs ! r < (k :: 'a :: linorder)"
proof (induction xs arbitrary: r)
  case (Cons x xs)
  have none: "filter (\<lambda>x. x < k) xs = []" if "\<not> x < k"
    using Cons.prems(1) that by (force simp: filter_empty_conv)
  show ?case
  proof (cases r)
    case 0
    then show ?thesis using none by (cases "x < k") auto
  next
    case (Suc r')
    then show ?thesis
      using Cons none nth_mem [of r' xs] by (cases "x < k") (auto simp: filter_empty_conv)
  qed
qed simp

lemma rank_unique:
  assumes "sorted xs" and "r < length xs" and "r < length (filter (\<lambda>x. x < Suc j) xs)"
    and "\<not> r < length (filter (\<lambda>x. x < j) xs)"
  shows "xs ! r = (j :: nat)"
  using assms sorted_rank [OF assms(1,2), of "Suc j"] sorted_rank [OF assms(1,2), of j] by simp

lemma sort_map_mono:
  fixes f :: "'a::linorder \<Rightarrow> 'b::linorder"
  assumes "mono f"
  shows "sort (map f xs) = map f (sort xs)"
proof (rule properties_for_sort)
  show "sorted (map f (sort xs))"
    using assms by (simp add: sorted_map) (metis (mono_tags, lifting) monoD sorted_sort sorted_wrt_mono_rel)
qed simp

definition rank_of :: "u64 \<Rightarrow> nat \<Rightarrow> nat" where
  "rank_of target n = max 1 (min (unat target) n)"

lemma percentile_repr:
  assumes repr: "hist_repr m n h vs" and ne: "vs \<noteq> []"
  shows "unat (value_at_percentile t h)
    = hi m (unat (sort vs ! (rank_of t (length vs) - 1)))"
proof -
  have g: "geom m n h" and len: "length vs < 2 ^ 64" and tot: "h_total h = of_nat (length vs)"
    and rng: "\<forall>v \<in> set vs. 1 \<le> v \<and> v \<le> h_highest h"
    and cnt: "\<forall>i < length (h_counts h). unat (h_counts h ! i) = count_list (map (ix m \<circ> unat) vs) i"
    using repr by (auto simp: hist_repr_def)
  have ut: "unat (h_total h) = length vs" unfolding tot using len by (rule unat_of_nat_64)
  let ?r = "rank_of t (length vs)" and ?xs = "map (ix m \<circ> unat) vs"
  define t1 where "t1 = (if t < 1 then 1 else t)"
  define t2 where "t2 = (if t1 > h_total h then h_total h else t1)"
  have t2: "unat t2 = ?r"
    using ne ut by (cases vs) (auto simp: t1_def t2_def rank_of_def word_less_nat_alt not_less min_def max_def)
  have r: "1 \<le> ?r" "?r \<le> length vs" using ne by (auto simp: rank_of_def Suc_le_eq)
  have pre: "(\<Sum>c\<leftarrow>take k (h_counts h). unat c) = length (filter (\<lambda>x. x < k) ?xs)"
    if "k \<le> length (h_counts h)" for k
  proof -
    have "map unat (take k (h_counts h)) = map (count_list ?xs) [0..<k]"
      using that cnt by (intro nth_equalityI) auto
    then show ?thesis by (simp add: sum_counts_below)
  qed
  have "ix m (unat v) < length (h_counts h)" if "v \<in> set vs" for v
    using index_bound(2) [OF g recorded_bound [OF g]] rng that by blast
  then have all: "filter (\<lambda>x. x < length (h_counts h)) ?xs = ?xs" by (simp add: filter_id_conv)
  have total: "(\<Sum>c\<leftarrow>h_counts h. unat c) = length vs" using pre [of "length (h_counts h)"] all by simp
  obtain j where j: "j < length (h_counts h)" "find_rank t2 (h_counts h) 0 0 = Some j"
      "?r \<le> (\<Sum>c\<leftarrow>take (Suc j) (h_counts h). unat c)" "(\<Sum>c\<leftarrow>take j (h_counts h). unat c) < ?r"
    using find_rank_least [of 0 "h_counts h" t2 0] total len r t2 by auto
  have perm: "length (filter P ?xs) = length (filter P (sort ?xs))" for P
    by (metis mset_filter mset_sort size_mset)
  have "sort ?xs ! (?r - 1) = j"
    using j(1,3,4) pre [of "Suc j"] pre [of j] r perm [of "\<lambda>x. x < Suc j"] perm [of "\<lambda>x. x < j"]
    by (intro rank_unique) auto
  moreover have "sort ?xs = map (ix m \<circ> unat) (sort vs)"
    by (rule sort_map_mono) (auto intro!: monoI ix_mono simp: word_le_nat_alt)
  ultimately have jx: "j = ix m (unat (sort vs ! (?r - 1)))" using r by simp
  have "sort vs ! (?r - 1) \<in> set vs" using r nth_mem [of "?r - 1" "sort vs"] by simp
  then have "unat (sort vs ! (?r - 1)) < 2 ^ (m + n)" using rng recorded_bound [OF g] by blast
  moreover have "value_at_percentile t h = highest_equivalent h (value_from_index h (of_nat j))"
    using j(2) ut ne unfolding value_at_percentile_def t1_def [symmetric] Let_def t2_def [symmetric]
    by auto
  ultimately show ?thesis using highest_of_index [OF g] jx by simp
qed

section \<open>The properties\<close>

lemma unat_mono: "mono (unat :: u64 \<Rightarrow> nat)"
  by (rule monoI) (simp add: word_le_nat_alt)


lemma if_less_max_min:
  fixes a b :: "'a::linorder"
  shows "(if a < b then b else a) = max a b" and "(if a > b then b else a) = min a b"
  by (auto simp: max_def min_def)

lemma clamp_value_min_max:
  "h_highest h = max 2 highest \<Longrightarrow> clamp_value h v = min (max v 1) (max 2 highest)"
  by (simp only: clamp_value_def Let_def if_less_max_min)

text \<open>
  C34. value_at_percentile returns at least the recorded value of the requested rank (values
  clamped to 1..highest) and exceeds it by at most one part in 10^sig_figs.
\<close>

theorem histogram_percentile_precise:
  fixes vs :: "u64 list"
  assumes "sig \<le> 5" and "vs \<noteq> []" and "length vs < 2 ^ 64"
    and "ordered = sort (map (\<lambda>v. unat (min (max v 1) (max 2 highest))) vs)"
    and "rank = max 1 (min (unat t) (length vs))"
  shows "\<exists>h0 h. new_histogram highest sig = Some h0 \<and> record_all vs h0 = Some h
    \<and> ordered ! (rank - 1) \<le> unat (value_at_percentile t h)
    \<and> (unat (value_at_percentile t h) - ordered ! (rank - 1)) * 10 ^ nat sig \<le> ordered ! (rank - 1)"
proof -
  obtain h0 m n where h0: "new_histogram highest sig = Some h0" "hist_repr m n h0 []"
      "10 ^ nat sig \<le> (2::nat) ^ m" "h_highest h0 = max 2 highest"
    using new_histogram_repr [OF assms(1)] by blast
  from record_all_repr [OF h0(2), of vs] assms(3) obtain h
    where h: "record_all vs h0 = Some h" "hist_repr m n h (map (clamp_value h0) vs)" by auto
  let ?ws = "map (clamp_value h0) vs"
  note clamp = clamp_value_min_max [OF h0(4)]
  have ord: "ordered = map unat (sort ?ws)"
    unfolding assms(4)
    by (simp only: sort_map_mono [OF unat_mono, symmetric] list.map_comp comp_def clamp)
  have r: "rank - 1 < length vs" using assms(2,5) by (cases vs) auto
  let ?w = "unat (sort ?ws ! (rank - 1))"
  have w: "ordered ! (rank - 1) = ?w" using r ord by simp
  have "unat (value_at_percentile t h) = hi m ?w"
    using percentile_repr [OF h(2), of t] assms(2,5) by (simp add: rank_of_def)
  moreover have "(hi m ?w - ?w) * 10 ^ nat sig \<le> ?w"
  proof (cases "bk m ?w = 0")
    case True
    then show ?thesis by (simp add: hi_def lo_def sb_def)
  next
    case False
    have "(hi m ?w - ?w) * 10 ^ nat sig \<le> 2 ^ bk m ?w * 2 ^ m" using h0(3) hi_diff by (intro mult_le_mono)
    also have "\<dots> \<le> ?w" using bk_bounds(1) [of m ?w] False by (simp add: power_add)
    finally show ?thesis .
  qed
  ultimately show ?thesis using h0(1) h(1) le_hi [of ?w m] w by auto
qed

lemma histogram_percentile_precise_witness:
  "\<exists>h0 h. new_histogram 60000000000 3 = Some h0 \<and> record_all [700, 5000000, 20] h0 = Some h
    \<and> 700 \<le> unat (value_at_percentile 2 h) \<and> (unat (value_at_percentile 2 h) - 700) * 1000 \<le> 700"
proof -
  have vals: "[20, 700, 5000000]
      = sort (map (\<lambda>v. unat (min (max v 1) (max 2 60000000000))) [700, 5000000, 20 :: u64])"
    by (simp add: min_def max_def word_le_nat_alt)
  have rank: "2 = max 1 (min (unat (2 :: u64)) (length [700, 5000000, 20 :: u64]))" by simp
  have "(3 :: int) \<le> 5" "[700, 5000000, 20 :: u64] \<noteq> []" "length [700, 5000000, 20 :: u64] < 2 ^ 64" by simp_all
  note histogram_percentile_precise [OF this vals rank]
  moreover have "[20, 700, 5000000 :: nat] ! (2 - 1) = 700" "10 ^ nat 3 = (1000 :: nat)" by simp_all
  ultimately show ?thesis by (simp only:)
qed

lemma fold_min_le: "fold min vs (a :: 'a :: linorder) \<le> a \<and> (\<forall>v \<in> set vs. fold min vs a \<le> v)"
proof (induction vs arbitrary: a)
  case (Cons v vs)
  note IH = Cons.IH [of "min v a"]
  have "fold min vs (min v a) \<le> v" by (rule order_trans [OF conjunct1 [OF IH] min.cobounded1])
  moreover have "fold min vs (min v a) \<le> a" by (rule order_trans [OF conjunct1 [OF IH] min.cobounded2])
  ultimately show ?case using conjunct2 [OF IH] unfolding fold_simps list.set ball_simps by blast
qed simp

text \<open>
  Construction terminates for up to 5 significant figures; every record stays inside the counts
  array; afterwards the total, the sum, the minimum, the maximum and the sum of all counts are exact
  for the clamped values.
\<close>

lemma histogram_counts_exact:
  fixes vs :: "u64 list"
  assumes "sig \<le> 5" and "vs \<noteq> []" and "length vs < 2 ^ 64"
    and "ws = map (\<lambda>v. min (max v 1) (max 2 highest)) vs"
  shows "\<exists>h0 h. new_histogram highest sig = Some h0 \<and> record_all vs h0 = Some h
    \<and> unat (h_total h) = length vs \<and> h_sum h = sum_list ws
    \<and> h_min h = Min (set ws) \<and> h_max h = Max (set ws)
    \<and> (\<Sum>c\<leftarrow>h_counts h. unat c) = length vs"
proof -
  obtain h0 m n where h0: "new_histogram highest sig = Some h0" "hist_repr m n h0 []"
      "h_highest h0 = max 2 highest"
    using new_histogram_repr [OF assms(1)] by blast
  from record_all_repr [OF h0(2), of vs] assms(3) obtain h
    where h: "record_all vs h0 = Some h" "hist_repr m n h (map (clamp_value h0) vs)" by auto
  have ws: "map (clamp_value h0) vs = ws"
    unfolding assms(4) clamp_value_min_max [OF h0(3)] by (rule refl)
  have ne: "ws \<noteq> []" using assms(2,4) by simp
  have "h_total h = of_nat (length vs)" and sum: "h_sum h = sum_list ws"
    and mm: "h_min h = fold min ws (- 1)" "h_max h = fold max ws 0"
    using h(2) ws assms(4) by (simp_all add: hist_repr_def)
  then have total: "unat (h_total h) = length vs" using assms(3) by (simp only: unat_of_nat_64)
  have "h_min h = Min (insert (- 1) (set ws))" "h_max h = Max (insert 0 (set ws))"
    unfolding mm by (simp_all only: Min.set_eq_fold Max.set_eq_fold list.set(2) [symmetric] set_rev)
  moreover have "Min (insert (- 1) (set ws)) = Min (set ws)" "Max (insert 0 (set ws)) = Max (set ws)"
    using ne by (simp_all add: min_absorb2 word_n1_ge)
  moreover have "(\<Sum>c\<leftarrow>h_counts h. unat c) = length vs"
  proof -
    have g: "geom m n h" and rng: "\<forall>v \<in> set ws. v \<le> h_highest h"
      and cnt: "\<forall>i < length (h_counts h). unat (h_counts h ! i) = count_list (map (ix m \<circ> unat) ws) i"
      using h(2) ws by (auto simp: hist_repr_def)
    have "map unat (h_counts h) = map (count_list (map (ix m \<circ> unat) ws)) [0..<length (h_counts h)]"
      using cnt by (intro nth_equalityI) auto
    then have "(\<Sum>c\<leftarrow>h_counts h. unat c)
        = length (filter (\<lambda>x. x < length (h_counts h)) (map (ix m \<circ> unat) ws))"
      by (simp only: sum_counts_below)
    also have "filter (\<lambda>x. x < length (h_counts h)) (map (ix m \<circ> unat) ws) = map (ix m \<circ> unat) ws"
      using index_bound(2) [OF g recorded_bound [OF g]] rng by (auto simp: filter_id_conv)
    finally show ?thesis by (simp add: assms(4))
  qed
  ultimately show ?thesis using h0(1) h(1) total sum by metis
qed

lemma histogram_counts_exact_witness:
  "\<exists>h0 h. new_histogram 60000000000 3 = Some h0 \<and> record_all [700, 0, 90000000000] h0 = Some h
    \<and> unat (h_total h) = 3 \<and> h_min h = 1 \<and> h_max h = 60000000000"
  using histogram_counts_exact [of 3 "[700, 0, 90000000000]" "[700, 1, 60000000000]" 60000000000]
  by (simp add: min_def max_def word_le_nat_alt numeral_3_eq_3 del: record_all.simps) blast

text \<open>
  In every snapshot min <= p50 <= p90 <= p99 <= p99.9 <= p99.99, and the count is the number of
  recorded values.
\<close>

lemma snapshot_percentiles_ordered:
  assumes "sig \<le> 5" and "length vs < 2 ^ 64"
    and "\<And>p q n. p \<le> q \<Longrightarrow> rank p n \<le> rank q n"
  shows "\<exists>h0 h. new_histogram highest sig = Some h0 \<and> record_all vs h0 = Some h
    \<and> (let s = snapshot rank h in s_min s \<le> s_p50 s \<and> s_p50 s \<le> s_p90 s \<and> s_p90 s \<le> s_p99 s
         \<and> s_p99 s \<le> s_p999 s \<and> s_p999 s \<le> s_p9999 s \<and> s_count s = of_nat (length vs))"
proof -
  obtain h0 m n where h0: "new_histogram highest sig = Some h0" "hist_repr m n h0 []"
    using new_histogram_repr [OF assms(1)] by blast
  from record_all_repr [OF h0(2), of vs] assms(2) obtain h
    where h: "record_all vs h0 = Some h" "hist_repr m n h (map (clamp_value h0) vs)" by auto
  let ?ws = "map (clamp_value h0) vs"
  have tot: "h_total h = of_nat (length vs)" and mn: "h_min h = fold min ?ws (- 1)"
    using h(2) by (simp_all add: hist_repr_def)
  show ?thesis
  proof (cases "vs = []")
    case True
    with h tot h0(1) show ?thesis
      by (intro exI [of _ h0] exI [of _ h]) (simp add: snapshot_def zero_snapshot_def)
  next
    case False
    then have ne: "?ws \<noteq> []" and "unat (h_total h) \<noteq> 0"
      using assms(2) unfolding tot by (simp_all only: unat_of_nat_64) auto
    then have nz: "h_total h \<noteq> 0" by auto
    have idx: "rank_of t (length ?ws) - 1 < length ?ws" for t
      using False by (cases vs) (auto simp: rank_of_def)
    have mono: "value_at_percentile a h \<le> value_at_percentile b h" if "a \<le> b" for a b
    proof -
      have "rank_of a (length ?ws) \<le> rank_of b (length ?ws)"
        using that by (auto simp: rank_of_def word_le_nat_alt)
      then have "sort ?ws ! (rank_of a (length ?ws) - 1) \<le> sort ?ws ! (rank_of b (length ?ws) - 1)"
        using idx [of b] by (intro sorted_nth_mono) auto
      then have "hi m (unat (sort ?ws ! (rank_of a (length ?ws) - 1)))
          \<le> hi m (unat (sort ?ws ! (rank_of b (length ?ws) - 1)))"
        by (simp add: hi_mono word_le_nat_alt)
      then show ?thesis by (simp only: word_le_nat_alt percentile_repr [OF h(2) ne])
    qed
    have "h_min h \<le> value_at_percentile t h" for t
    proof -
      have "sort ?ws ! (rank_of t (length ?ws) - 1) \<in> set ?ws"
        using idx [of t] nth_mem [of "rank_of t (length ?ws) - 1" "sort ?ws"] by simp
      then have "h_min h \<le> sort ?ws ! (rank_of t (length ?ws) - 1)"
        using fold_min_le [of ?ws "- 1"] mn by metis
      with le_hi [of "unat (sort ?ws ! (rank_of t (length ?ws) - 1))" m] show ?thesis
        by (simp only: word_le_nat_alt percentile_repr [OF h(2) ne])
    qed
    with mono assms(3) h0(1) h(1) nz tot show ?thesis
      by (intro exI [of _ h0] exI [of _ h]) (simp add: snapshot_def Let_def)
  qed
qed

lemma step_rank_mono:
  "p \<le> q \<Longrightarrow> (if p < 9000 then 0 else n) \<le> (if q < (9000::nat) then 0 else (n :: u64))"
  by auto

lemma snapshot_percentiles_ordered_witness:
  "\<exists>h0 h. new_histogram 60000000000 3 = Some h0 \<and> record_all [700, 20, 90] h0 = Some h
    \<and> (let s = snapshot (\<lambda>p n. if p < 9000 then 0 else n) h in s_p50 s \<le> s_p90 s \<and> s_count s = 3)"
  using snapshot_percentiles_ordered [where sig = 3 and vs = "[700, 20, 90]" and highest = 60000000000
      and rank = "\<lambda>p n. if p < 9000 then 0 else n", OF _ _ step_rank_mono]
  unfolding Let_def by (simp del: record_all.simps) blast

end
