(* ===== verification/Publisher.thy ===== *)
theory Publisher
  imports Order_Book_Props
begin

text \<open>
  \<^verbatim>\<open>Publisher\<close> of \<^verbatim>\<open>include/feedhandler/publisher.hpp\<close>: after every update of the book it compares
  the best bid and ask with the last ones it published, on validity, price and aggregate size only.
\<close>

record publisher =
  pub_updates :: u64
  l1_deltas :: u64
  last_bid :: book_level
  last_ask :: book_level

definition new_publisher :: publisher where
  "new_publisher = \<lparr>pub_updates = 0, l1_deltas = 0, last_bid = no_level, last_ask = no_level\<rparr>"

definition same_level :: "book_level \<Rightarrow> book_level \<Rightarrow> bool" where
  "same_level a b \<longleftrightarrow> bl_valid a = bl_valid b \<and> bl_price a = bl_price b \<and> bl_size a = bl_size b"

definition on_update :: "order_book \<Rightarrow> publisher \<Rightarrow> (bool \<times> publisher) option" where
  "on_update b p = do {
     let p = p\<lparr>pub_updates := pub_updates p + 1\<rparr>;
     bid \<leftarrow> best_bid b;
     ask \<leftarrow> best_ask b;
     let changed = (\<not> same_level bid (last_bid p) \<or> \<not> same_level ask (last_ask p));
     Some (changed, if changed
       then p\<lparr>l1_deltas := l1_deltas p + 1, last_bid := bid, last_ask := ask\<rparr> else p) }"

section \<open>What is published\<close>

text \<open>The part of a level a subscriber sees, and the pairs a sequence of books shows.\<close>

definition l1_key :: "book_level \<Rightarrow> bool \<times> int \<times> u64" where
  "l1_key l = (bl_valid l, bl_price l, bl_size l)"

definition l1_view :: "book_level \<times> book_level \<Rightarrow> (bool \<times> int \<times> u64) \<times> (bool \<times> int \<times> u64)" where
  "l1_view = map_prod l1_key l1_key"

lemma same_level_key: "same_level a b \<longleftrightarrow> l1_key a = l1_key b"
  by (auto simp: same_level_def l1_key_def)

fun publish_all :: "order_book list \<Rightarrow> publisher \<Rightarrow> (bool list \<times> publisher) option" where
  "publish_all [] p = Some ([], p)"
| "publish_all (b # bs) p = do {
     (c, p) \<leftarrow> on_update b p;
     (cs, p) \<leftarrow> publish_all bs p;
     Some (c # cs, p) }"

fun tops_of :: "order_book list \<Rightarrow> (book_level \<times> book_level) list option" where
  "tops_of [] = Some []"
| "tops_of (b # bs) = do {
     bid \<leftarrow> best_bid b; ask \<leftarrow> best_ask b; ts \<leftarrow> tops_of bs; Some ((bid, ask) # ts) }"

text \<open>The positions at which a sequence differs from the value before it.\<close>

fun changes :: "'a \<Rightarrow> 'a list \<Rightarrow> bool list" where
  "changes x [] = []"
| "changes x (y # ys) = (x \<noteq> y) # changes y ys"

lemma on_update_view:
  assumes "best_bid b = Some bid" and "best_ask b = Some ask"
  shows "\<exists>p'. on_update b p = Some (l1_view (last_bid p, last_ask p) \<noteq> l1_view (bid, ask), p')
    \<and> l1_view (last_bid p', last_ask p') = l1_view (bid, ask) \<and> pub_updates p' = pub_updates p + 1
    \<and> l1_deltas p' = l1_deltas p
        + of_bool (l1_view (last_bid p, last_ask p) \<noteq> l1_view (bid, ask))"
  using assms by (auto simp: on_update_def same_level_key l1_view_def Let_def)

lemma publish_all_view:
  assumes "tops_of bs = Some ts"
  shows "\<exists>p'. publish_all bs p = Some (changes (l1_view (last_bid p, last_ask p)) (map l1_view ts), p')
    \<and> l1_view (last_bid p', last_ask p') = last (l1_view (last_bid p, last_ask p) # map l1_view ts)
    \<and> pub_updates p' = pub_updates p + of_nat (length bs)
    \<and> l1_deltas p' = l1_deltas p + of_nat (length (filter id
        (changes (l1_view (last_bid p, last_ask p)) (map l1_view ts))))"
  using assms
proof (induction bs arbitrary: ts p)
  case (Cons b bs)
  then obtain bid ask us where t: "best_bid b = Some bid" "best_ask b = Some ask"
      "tops_of bs = Some us" "ts = (bid, ask) # us"
    by (auto simp: bind_eq_Some_conv)
  obtain p1 where p1: "on_update b p = Some (l1_view (last_bid p, last_ask p) \<noteq> l1_view (bid, ask), p1)"
      "l1_view (last_bid p1, last_ask p1) = l1_view (bid, ask)" "pub_updates p1 = pub_updates p + 1"
      "l1_deltas p1 = l1_deltas p
        + of_bool (l1_view (last_bid p, last_ask p) \<noteq> l1_view (bid, ask))"
    using on_update_view [OF t(1,2)] by blast
  from Cons.IH [OF t(3), of p1] p1 show ?case
    by (cases "l1_view (last_bid p, last_ask p) = l1_view (bid, ask)") (auto simp: t(4) add.assoc)
qed simp

text \<open>
  C35. Over any sequence of books on_update returns true exactly when the (valid, price, size)
  view of the two best levels differs from the one before, l1_deltas counts exactly those
  changes, and the retained levels show the current view.
\<close>

theorem publisher_counts_changes:
  assumes "tops_of bs = Some ts"
  shows "\<exists>p. publish_all bs new_publisher
      = Some (changes (l1_view (no_level, no_level)) (map l1_view ts), p)
    \<and> l1_deltas p = of_nat (length (filter id
        (changes (l1_view (no_level, no_level)) (map l1_view ts))))
    \<and> pub_updates p = of_nat (length bs)
    \<and> l1_view (last_bid p, last_ask p) = last (map l1_view ((no_level, no_level) # ts))"
  using publish_all_view [OF assms, of new_publisher] by (auto simp: new_publisher_def)

text \<open>Two books: an order arrives at an empty book, then a second one behind the best price.\<close>

definition bid_102 :: order_book where
  "bid_102 = the (apply_all [add_event 1 Buy 102 10] (new_book small_config))"

definition bid_102_101 :: order_book where
  "bid_102_101 = the (apply_all [add_event 1 Buy 102 10, add_event 2 Buy 101 4] (new_book small_config))"

lemma two_tops:
  "tops_of [bid_102, bid_102_101]
    = Some [(\<lparr>bl_price = 102, bl_size = 10, bl_count = 1, bl_valid = True\<rparr>, no_level),
            (\<lparr>bl_price = 102, bl_size = 10, bl_count = 1, bl_valid = True\<rparr>, no_level)]"
  by code_simp

lemma publisher_counts_changes_witness:
  "\<exists>p. publish_all [bid_102, bid_102_101] new_publisher = Some ([True, False], p) \<and> l1_deltas p = 1"
  using publisher_counts_changes [OF two_tops] by (auto simp: l1_view_def l1_key_def no_level_def)

end
