(* ===== verification/Pipeline.thy ===== *)
theory Pipeline
  imports Itch_Parser Itch_File_Source Sequencer Publisher Latency_Histogram Spsc_Channel
begin

text \<open>
  \<^verbatim>\<open>include/feedhandler/pipeline.hpp\<close> and \<^verbatim>\<open>src/pipeline.cpp\<close>: the two-thread pipeline. The ingest
  thread is \<open>producer_run\<close>, from the frames of the source to the messages it sends, with the pacing
  and the gap injection; the book thread is \<open>consume\<close>, from the messages it receives to the book.
  What lies between them is the channel of Spsc_Channel. \<open>now k\<close> is what the \<open>k\<close>-th reading of the
  clock in a thread returns. The floating-point pacing computations are functions of the
  configuration record \<open>pacing\<close>; the value of \<open>size_approx\<close> sampled after a message is \<open>occ\<close>. The
  simulated downstream cost is a loop without effect and is left out.
\<close>

section \<open>The data\<close>

record pipeline_msg =
  pm_event :: market_event
  pm_recv_ns :: u64
  pm_sequence :: u64

definition default_msg :: pipeline_msg where
  "default_msg = \<lparr>pm_event = default_event, pm_recv_ns = 0, pm_sequence = 0\<rparr>"

record pacing =
  rate_pace :: bool
  speed_pace :: bool
  raw_batch :: u64
  rate_offset :: "u64 \<Rightarrow> u64"
  ts_offset :: "u64 \<Rightarrow> u64"

record pipeline_config =
  pc_book :: book_config
  pc_backpressure :: backpressure
  pc_pacing :: pacing
  inject_gap_at :: u64
  gap_reorder_distance :: u64

definition ring_capacity :: nat where
  "ring_capacity = 2 ^ 16"

section \<open>The ingest thread\<close>

record producer =
  pr_clock :: nat
  have_base :: bool
  base_event_ts :: u64
  base_wall :: u64
  produced :: u64
  holding :: bool
  held :: pipeline_msg
  release_at :: u64
  parse_errors :: u64
  local_peak :: u64

definition new_producer :: producer where
  "new_producer = \<lparr>pr_clock = 0, have_base = False, base_event_ts = 0, base_wall = 0, produced = 0,
     holding = False, held = default_msg, release_at = 0, parse_errors = 0, local_peak = 0\<rparr>"

text \<open>The number of clock readings made when the loop of \<open>wait_until\<close> ends.\<close>

partial_function (option) wait_until :: "(nat \<Rightarrow> u64) \<Rightarrow> u64 \<Rightarrow> nat \<Rightarrow> nat option" where
  "wait_until now target k = (if now k \<ge> target then Some (Suc k) else wait_until now target (Suc k))"

definition rate_batch :: "pacing \<Rightarrow> u64" where
  "rate_batch pc =
    (if rate_pace pc
     then if raw_batch pc < 1 then 1 else if 4096 < raw_batch pc then 4096 else raw_batch pc
     else 1)"

definition maybe_pace :: "(nat \<Rightarrow> u64) \<Rightarrow> pacing \<Rightarrow> u64 \<Rightarrow> producer \<Rightarrow> producer option" where
  "maybe_pace now pc ev_ts p =
    (if rate_pace pc then
       let p = (if \<not> have_base p
                then p\<lparr>base_wall := now (pr_clock p), pr_clock := Suc (pr_clock p), have_base := True\<rparr>
                else p) in
       if produced p mod rate_batch pc = 0 then do {
         k \<leftarrow> wait_until now (base_wall p + rate_offset pc (produced p)) (pr_clock p);
         Some (p\<lparr>pr_clock := k\<rparr>) }
       else Some p
     else if \<not> speed_pace pc then Some p
     else if \<not> have_base p then
       Some (p\<lparr>base_event_ts := ev_ts, base_wall := now (pr_clock p), pr_clock := Suc (pr_clock p),
               have_base := True\<rparr>)
     else if ev_ts < base_event_ts p then Some p
     else do {
       k \<leftarrow> wait_until now (base_wall p + ts_offset pc (ev_ts - base_event_ts p)) (pr_clock p);
       Some (p\<lparr>pr_clock := k\<rparr>) })"

text \<open>The body of the ingest loop for one frame: the messages it sends, and the state afterwards.\<close>

definition send_or_hold ::
    "pipeline_config \<Rightarrow> (u64 \<Rightarrow> u64) \<Rightarrow> pipeline_msg \<Rightarrow> producer \<Rightarrow> pipeline_msg list \<times> producer" where
  "send_or_hold cfg occ m p =
    (if inject_gap_at cfg \<noteq> 0 \<and> gap_reorder_distance cfg \<noteq> 0 \<and> \<not> holding p
        \<and> pm_sequence m = inject_gap_at cfg
     then ([], p\<lparr>holding := True, held := m,
                 release_at := pm_sequence m + gap_reorder_distance cfg\<rparr>)
     else
       let (sends, p) = (if holding p \<and> pm_sequence m \<ge> release_at p
                         then ([m, held p], p\<lparr>holding := False\<rparr>) else ([m], p));
           o1 = occ (produced p)
       in (sends, if o1 > local_peak p then p\<lparr>local_peak := o1\<rparr> else p))"

definition produce_frame ::
    "pipeline_config \<Rightarrow> (nat \<Rightarrow> u64) \<Rightarrow> (u64 \<Rightarrow> u64) \<Rightarrow> byte_buf \<Rightarrow> raw_frame \<Rightarrow> producer
      \<Rightarrow> (pipeline_msg list \<times> producer) option" where
  "produce_frame cfg now occ mem f p = do {
     (st, ev) \<leftarrow> parse mem (fr_data f) (fr_len f) default_event;
     if st \<noteq> Ok then Some ([], p\<lparr>parse_errors := parse_errors p + 1\<rparr>)
     else do {
       p \<leftarrow> maybe_pace now (pc_pacing cfg) (timestamp_ns ev) p;
       let p = p\<lparr>produced := produced p + 1\<rparr>;
       let m = \<lparr>pm_event = ev, pm_recv_ns = now (pr_clock p), pm_sequence = fr_sequence f\<rparr>;
       Some (send_or_hold cfg occ m (p\<lparr>pr_clock := Suc (pr_clock p)\<rparr>)) } }"

fun produce_frames ::
    "pipeline_config \<Rightarrow> (nat \<Rightarrow> u64) \<Rightarrow> (u64 \<Rightarrow> u64) \<Rightarrow> byte_buf \<Rightarrow> raw_frame list \<Rightarrow> producer
      \<Rightarrow> (pipeline_msg list \<times> producer) option" where
  "produce_frames cfg now occ mem [] p = Some ([], p)"
| "produce_frames cfg now occ mem (f # fs) p = do {
     (ms, p) \<leftarrow> produce_frame cfg now occ mem f p;
     (ms', p) \<leftarrow> produce_frames cfg now occ mem fs p;
     Some (ms @ ms', p) }"

text \<open>The whole thread over a file: the loop over the frames, then the message still held back.\<close>

definition producer_run ::
    "pipeline_config \<Rightarrow> (nat \<Rightarrow> u64) \<Rightarrow> (u64 \<Rightarrow> u64) \<Rightarrow> byte_buf \<Rightarrow> (pipeline_msg list \<times> producer) option" where
  "producer_run cfg now occ bytes = do {
     let src = open_file_source (Some bytes) True;
     fs \<leftarrow> source_frames next_frame (length bytes + 1) src default_frame;
     (ms, p) \<leftarrow> produce_frames cfg now occ bytes fs new_producer;
     Some (if holding p then (ms @ [held p], p) else (ms, p)) }"

section \<open>The book thread\<close>

record consumer =
  cs_book :: order_book
  cs_seq :: sequencer
  cs_pub :: publisher
  cs_hist :: histogram
  cs_msgs :: u64
  recovery_max :: u64
  recovery_last :: u64
  gap_open_ns :: u64
  was_stale :: bool
  cs_clock :: nat

definition new_consumer :: "pipeline_config \<Rightarrow> consumer option" where
  "new_consumer cfg = do {
     h \<leftarrow> new_histogram 60000000000 3;
     Some \<lparr>cs_book = new_book (pc_book cfg), cs_seq = new_sequencer default_seq_config,
       cs_pub = new_publisher, cs_hist = h, cs_msgs = 0, recovery_max = 0, recovery_last = 0,
       gap_open_ns = 0, was_stale = False, cs_clock = 0\<rparr> }"

definition apply_ev :: "market_event \<Rightarrow> consumer \<Rightarrow> consumer option" where
  "apply_ev e c = do {
     b \<leftarrow> apply_event e (cs_book c);
     (changed, p) \<leftarrow> on_update b (cs_pub c);
     Some (c\<lparr>cs_book := b, cs_pub := p\<rparr>) }"

lemma apply_ev_seq: "apply_ev e c = Some c' \<Longrightarrow> cs_seq c' = cs_seq c"
  by (auto simp: apply_ev_def bind_eq_Some_conv)

function apply_ready :: "consumer \<Rightarrow> consumer option" where
  "apply_ready c =
    (case pop_ready (cs_seq c) of
       (None, q) \<Rightarrow> Some (c\<lparr>cs_seq := q\<rparr>)
     | (Some r, q) \<Rightarrow> Option.bind (apply_ev r (c\<lparr>cs_seq := q\<rparr>)) apply_ready)"
  by pat_completeness auto
termination
proof (relation "measure (\<lambda>c. length (reorder (cs_seq c)))", goal_cases)
  case (2 c r q ev c')
  then have "cs_seq c' = q" using apply_ev_seq by fastforce
  with 2 show ?case
    by (auto simp: pop_ready_def Let_def erase_shorter split: option.splits)
qed simp

declare apply_ready.simps [simp del]

text \<open>\<open>handle\<close>: the offer and its consequences, then the timing of the gap episode.\<close>

definition deliver :: "(nat \<Rightarrow> u64) \<Rightarrow> pipeline_msg \<Rightarrow> consumer \<Rightarrow> consumer option" where
  "deliver now m c =
    (let (d, q) = offer (pm_sequence m) (pm_event m) (cs_seq c);
         c = c\<lparr>cs_msgs := cs_msgs c + 1, cs_seq := q\<rparr>
     in case d of
         Apply \<Rightarrow> do {
           c \<leftarrow> apply_ev (pm_event m) c;
           c \<leftarrow> apply_ready c;
           h \<leftarrow> record_value (now (cs_clock c) - pm_recv_ns m) (cs_hist c);
           Some (c\<lparr>cs_hist := h, cs_clock := Suc (cs_clock c)\<rparr>) }
       | Overflow \<Rightarrow>
           apply_ev (pm_event m)
             (c\<lparr>cs_book := reset_book (cs_book c), cs_seq := resync_to_snapshot (pm_sequence m) (cs_seq c)\<rparr>)
       | _ \<Rightarrow> Some c)"

definition time_gap :: "(nat \<Rightarrow> u64) \<Rightarrow> consumer \<Rightarrow> consumer" where
  "time_gap now c =
    (let s = stale (cs_seq c);
         c = (if s \<and> \<not> was_stale c
              then c\<lparr>gap_open_ns := now (cs_clock c), cs_clock := Suc (cs_clock c)\<rparr> else c);
         c = (if \<not> s \<and> was_stale c
              then let d = now (cs_clock c) - gap_open_ns c in
                c\<lparr>recovery_last := d, recovery_max := (if d > recovery_max c then d else recovery_max c),
                  cs_clock := Suc (cs_clock c)\<rparr>
              else c)
     in c\<lparr>was_stale := s\<rparr>)"

definition handle :: "(nat \<Rightarrow> u64) \<Rightarrow> pipeline_msg \<Rightarrow> consumer \<Rightarrow> consumer option" where
  "handle now m c = map_option (time_gap now) (deliver now m c)"

fun consume :: "(nat \<Rightarrow> u64) \<Rightarrow> pipeline_msg list \<Rightarrow> consumer \<Rightarrow> consumer option" where
  "consume now [] c = Some c"
| "consume now (m # ms) c = do { c \<leftarrow> handle now m c; consume now ms c }"

section \<open>The result\<close>

record pipeline_result =
  r_book_stats :: book_stats
  r_seq_stats :: seq_stats
  r_latency :: latency_snapshot
  r_messages :: u64
  r_parse_errors :: u64
  r_drops :: u64
  r_peak_queue :: u64
  r_l1_deltas :: u64
  r_recovery_max :: u64
  r_recovery_last :: u64
  r_final_bid :: book_level
  r_final_ask :: book_level
  r_live_orders :: u64
  r_top_bids :: "book_level list"
  r_top_asks :: "book_level list"
  r_n_bids :: nat
  r_n_asks :: nat

definition assemble :: "(nat \<Rightarrow> u64 \<Rightarrow> u64) \<Rightarrow> producer \<Rightarrow> u64 \<Rightarrow> consumer \<Rightarrow> pipeline_result option" where
  "assemble rank p drops c = do {
     bid \<leftarrow> best_bid (cs_book c);
     ask \<leftarrow> best_ask (cs_book c);
     (bids, nb) \<leftarrow> depth_bids (cs_book c) (replicate 5 no_level) 5;
     (asks, na) \<leftarrow> depth_asks (cs_book c) (replicate 5 no_level) 5;
     Some \<lparr>r_book_stats = bk_stats (cs_book c), r_seq_stats = sq_stats (cs_seq c),
       r_latency = snapshot rank (cs_hist c), r_messages = cs_msgs c,
       r_parse_errors = parse_errors p, r_drops = drops, r_peak_queue = local_peak p,
       r_l1_deltas = l1_deltas (cs_pub c), r_recovery_max = recovery_max c,
       r_recovery_last = recovery_last c, r_final_bid = bid, r_final_ask = ask,
       r_live_orders = live_orders (cs_book c), r_top_bids = bids, r_top_asks = asks,
       r_n_bids = nb, r_n_asks = na\<rparr> }"

end
