(* ===== verification/Pipeline_Book.thy ===== *)
theory Pipeline_Book
  imports Pipeline
begin

text \<open>
  The book thread implements the composition of the sequencer with a plain loop over the delivered
  events: as long as the reorder buffer does not overflow, the book and the publisher are those of
  the clean run \<open>apply_publish\<close> over the events the sequencer delivers.
\<close>

section \<open>The clean run\<close>

fun apply_publish ::
    "market_event list \<Rightarrow> order_book \<times> publisher \<Rightarrow> (order_book \<times> publisher) option" where
  "apply_publish [] bp = Some bp"
| "apply_publish (e # es) (b, p) = do {
     b \<leftarrow> apply_event e b;
     (changed, p) \<leftarrow> on_update b p;
     apply_publish es (b, p) }"

lemma apply_publish_append:
  "apply_publish (es @ fs) bp = Option.bind (apply_publish es bp) (apply_publish fs)"
proof (induction es arbitrary: bp)
  case (Cons e es)
  obtain b p where bp: "bp = (b, p)" by (cases bp)
  show ?case
    by (cases "apply_event e b"; cases "on_update (the (apply_event e b)) p") (auto simp: bp Cons.IH)
qed simp

lemma tops_defined:
  assumes "book_repr b q A"
  shows "\<exists>bid ask. best_bid b = Some bid \<and> best_ask b = Some ask"
proof -
  have "best_bid_idx b < int (length (levels b))" "best_ask_idx b < int (length (levels b))"
    using assms by (auto simp: book_repr_def)
  then show ?thesis by (auto simp: best_bid_def best_ask_def access_simps not_less)
qed

text \<open>The clean run is defined, and its book is the one of \<open>apply_all\<close>.\<close>

lemma apply_publish_defined:
  assumes "book_repr b q A" and "length A + length es < 2 ^ 32"
  shows "\<exists>b' p'. apply_publish es (b, p) = Some (b', p') \<and> apply_all es b = Some b'"
  using assms
proof (induction es arbitrary: b q A p)
  case (Cons e es)
  let ?A = "spec_apply (bk_cfg b) e A"
  obtain b1 q1 where b1: "apply_event e b = Some b1" "book_repr b1 q1 ?A"
    using apply_refines [OF Cons.prems(1), of e] Cons.prems(2) by (auto simp: refines_to_def)
  obtain bid ask where "best_bid b1 = Some bid" "best_ask b1 = Some ask"
    using tops_defined [OF b1(2)] by blast
  from on_update_view [OF this, of p] obtain ch p1 where p1: "on_update b1 p = Some (ch, p1)" by blast
  have "length ?A + length es < 2 ^ 32"
    using length_spec_apply [of "bk_cfg b" e A] Cons.prems(2) by simp
  from Cons.IH [OF b1(2) this, of p1] b1(1) p1 show ?case by simp
qed simp

section \<open>Draining the sequencer into the book\<close>

lemma apply_publish_Cons:
  "apply_publish (e # es) (cs_book c, cs_pub c) = Some bp \<longleftrightarrow>
    (\<exists>c'. apply_ev e c = Some c' \<and> apply_publish es (cs_book c', cs_pub c') = Some bp)"
  by (auto simp: apply_ev_def bind_eq_Some_conv)

lemma apply_ev_frame:
  "apply_ev e c = Some c' \<Longrightarrow> c' = c\<lparr>cs_book := cs_book c', cs_pub := cs_pub c'\<rparr>"
  by (auto simp: apply_ev_def bind_eq_Some_conv)

lemma apply_ev_rest:
  "apply_ev e c = Some c' \<Longrightarrow> cs_seq c' = cs_seq c \<and> cs_hist c' = cs_hist c \<and> cs_msgs c' = cs_msgs c
    \<and> cs_clock c' = cs_clock c"
  by (auto simp: apply_ev_def bind_eq_Some_conv)

lemma apply_ready_drain:
  assumes "drain (cs_seq c) = (evs, q)" and "apply_publish evs (cs_book c, cs_pub c) = Some (b, p)"
  shows "apply_ready c = Some (c\<lparr>cs_book := b, cs_pub := p, cs_seq := q\<rparr>)"
  using assms
proof (induction "cs_seq c" arbitrary: c evs rule: drain.induct)
  case 1
  obtain r q1 where pop: "pop_ready (cs_seq c) = (r, q1)" by (cases "pop_ready (cs_seq c)")
  show ?case
  proof (cases r)
    case None
    with pop "1.prems" show ?thesis
      by (auto simp: apply_ready.simps [of c] drain.simps [of "cs_seq c"])
  next
    case (Some ev)
    obtain es q2 where d: "drain q1 = (es, q2)" by (cases "drain q1")
    with pop Some "1.prems"(1) have eqs: "evs = ev # es" "q2 = q"
      by (simp_all add: drain.simps [of "cs_seq c"])
    let ?c = "c\<lparr>cs_seq := q1\<rparr>"
    have "apply_publish (ev # es) (cs_book ?c, cs_pub ?c) = Some (b, p)"
      using "1.prems"(2) eqs by simp
    then obtain c1 where c1: "apply_ev ev ?c = Some c1"
        "apply_publish es (cs_book c1, cs_pub c1) = Some (b, p)"
      unfolding apply_publish_Cons by blast
    have q1: "q1 = cs_seq c1" using apply_ev_seq [OF c1(1)] by simp
    have "drain (cs_seq c1) = (es, q)" using d eqs(2) q1 by simp
    from "1.hyps" [OF pop [unfolded q1, symmetric] Some this c1(2)]
    have "apply_ready c1 = Some (c1\<lparr>cs_book := b, cs_pub := p, cs_seq := q\<rparr>)" .
    moreover have "c1\<lparr>cs_book := b, cs_pub := p, cs_seq := q\<rparr>
        = c\<lparr>cs_book := b, cs_pub := p, cs_seq := q\<rparr>"
      by (subst apply_ev_frame [OF c1(1)]) simp
    ultimately show ?thesis
      using pop Some c1(1) by (simp add: apply_ready.simps [of c])
  qed
qed

section \<open>One message, and a run of messages\<close>

text \<open>The state a message must leave intact: the latency histogram can take one more value.\<close>

definition hist_room :: "histogram \<Rightarrow> nat \<Rightarrow> bool" where
  "hist_room h k \<longleftrightarrow> (\<exists>m n vs. hist_repr m n h vs \<and> length vs \<le> k)"

lemma hist_room_record:
  assumes "hist_room h k" and "Suc k < 2 ^ 64"
  shows "\<exists>h'. record_value v h = Some h' \<and> hist_room h' (Suc k)"
proof -
  obtain m n vs where r: "hist_repr m n h vs" "length vs \<le> k" using assms(1) by (auto simp: hist_room_def)
  then have "Suc (length vs) < 2 ^ 64" using assms(2) by simp
  from record_repr [OF r(1) this, of v] obtain h'
    where "record_value v h = Some h'" "hist_repr m n h' (vs @ [clamp_value h v])" by blast
  moreover have "length (vs @ [clamp_value h v]) \<le> Suc k" using r(2) by simp
  ultimately show ?thesis unfolding hist_room_def by blast
qed

lemma hist_room_Suc: "hist_room h k \<Longrightarrow> hist_room h (Suc k)"
  by (auto simp: hist_room_def intro: le_SucI)

definition to_offer :: "pipeline_msg \<Rightarrow> u64 \<times> market_event" where
  "to_offer m = (pm_sequence m, pm_event m)"

definition book_part :: "consumer \<Rightarrow> order_book \<times> publisher" where
  "book_part c = (cs_book c, cs_pub c)"

lemma time_gap_frame [simp]:
  "cs_book (time_gap now c) = cs_book c" "cs_pub (time_gap now c) = cs_pub c"
  "cs_seq (time_gap now c) = cs_seq c" "cs_hist (time_gap now c) = cs_hist c"
  "cs_msgs (time_gap now c) = cs_msgs c" "was_stale (time_gap now c) = stale (cs_seq c)"
  by (simp_all add: time_gap_def Let_def)

text \<open>Without an overflow, one message has the effect of the sequencer's step on the clean run.\<close>

lemma handle_step:
  assumes step: "seq_step (cs_seq c) (to_offer m) = (d, evs, q)" and no: "d \<noteq> Overflow"
    and run: "apply_publish evs (book_part c) = Some bp"
    and room: "hist_room (cs_hist c) k" "Suc k < 2 ^ 64"
  shows "\<exists>c'. handle now m c = Some c' \<and> book_part c' = bp \<and> cs_seq c' = q
    \<and> hist_room (cs_hist c') (Suc k) \<and> cs_msgs c' = cs_msgs c + 1"
proof -
  obtain d' q1 where off: "offer (pm_sequence m) (pm_event m) (cs_seq c) = (d', q1)"
    by (cases "offer (pm_sequence m) (pm_event m) (cs_seq c)")
  then have d': "d' = d"
    using step seq_step_disposition [of "cs_seq c" "to_offer m"] by (simp add: to_offer_def)
  let ?c = "c\<lparr>cs_msgs := cs_msgs c + 1, cs_seq := q1\<rparr>"
  show ?thesis
  proof (cases "d = Apply")
    case True
    obtain es q2 where dr: "drain q1 = (es, q2)" by (cases "drain q1")
    have eqs: "evs = pm_event m # es" "q2 = q"
      using step off d' True dr by (simp_all add: seq_step_def to_offer_def)
    obtain b p where bp: "bp = (b, p)" by (cases bp)
    have "apply_publish (pm_event m # es) (cs_book ?c, cs_pub ?c) = Some (b, p)"
      using run by (simp add: eqs(1) bp book_part_def)
    then obtain c1 where c1: "apply_ev (pm_event m) ?c = Some c1"
        "apply_publish es (cs_book c1, cs_pub c1) = Some (b, p)"
      unfolding apply_publish_Cons by blast
    have fr: "cs_seq c1 = q1" "cs_hist c1 = cs_hist c" "cs_msgs c1 = cs_msgs c + 1"
      using apply_ev_rest [OF c1(1)] by simp_all
    have "drain (cs_seq c1) = (es, q)" using dr eqs(2) fr(1) by simp
    note ready = apply_ready_drain [OF this c1(2)]
    obtain h where h: "record_value (now (cs_clock c1) - pm_recv_ns m) (cs_hist c) = Some h"
        "hist_room h (Suc k)"
      using hist_room_record [OF room] by blast
    show ?thesis
      using off d' True c1(1) ready h fr
      by (simp add: handle_def deliver_def Let_def book_part_def bp)
  next
    case False
    then have "deliver now m c = Some ?c" and eqs: "evs = []" "q1 = q"
      using off d' no step by (cases d; simp add: deliver_def seq_step_def to_offer_def)+
    with run hist_room_Suc [OF room(1)] show ?thesis
      by (simp add: handle_def book_part_def)
  qed
qed

lemma consume_run:
  assumes "seq_run (cs_seq c) (map to_offer ms) = (ds, evs, q)" and "Overflow \<notin> set ds"
    and "apply_publish evs (book_part c) = Some bp"
    and "hist_room (cs_hist c) k" and "k + length ms < 2 ^ 64"
  shows "\<exists>c'. consume now ms c = Some c' \<and> book_part c' = bp \<and> cs_seq c' = q
    \<and> cs_msgs c' = cs_msgs c + of_nat (length ms) \<and> hist_room (cs_hist c') (k + length ms)"
  using assms
proof (induction ms arbitrary: c ds evs k)
  case (Cons m ms)
  obtain d es q1 where st: "seq_step (cs_seq c) (to_offer m) = (d, es, q1)"
    by (cases "seq_step (cs_seq c) (to_offer m)") auto
  obtain ds' evs' q2 where rn: "seq_run q1 (map to_offer ms) = (ds', evs', q2)"
    by (cases "seq_run q1 (map to_offer ms)") auto
  have eqs: "ds = d # ds'" "evs = es @ evs'" "q2 = q" using Cons.prems(1) st rn by auto
  obtain bp1 where bp1: "apply_publish es (book_part c) = Some bp1" "apply_publish evs' bp1 = Some bp"
    using Cons.prems(3) by (auto simp: eqs(2) apply_publish_append bind_eq_Some_conv)
  have "d \<noteq> Overflow" "Suc k < 2 ^ 64" using Cons.prems(2,5) eqs(1) by auto
  from handle_step [OF st this(1) bp1(1) Cons.prems(4) this(2)] obtain c1
    where c1: "handle now m c = Some c1" "book_part c1 = bp1" "cs_seq c1 = q1"
      "hist_room (cs_hist c1) (Suc k)" "cs_msgs c1 = cs_msgs c + 1" by blast
  have "seq_run (cs_seq c1) (map to_offer ms) = (ds', evs', q)" using rn eqs(3) c1(3) by simp
  from Cons.IH [OF this _ _ c1(4)] Cons.prems(2,5) eqs(1) bp1(2) c1 show ?case
    by (simp add: add.assoc)
qed simp

lemma new_consumer_ok:
  "\<exists>c. new_consumer cfg = Some c \<and> book_part c = (new_book (pc_book cfg), new_publisher)
    \<and> cs_seq c = new_sequencer default_seq_config \<and> hist_room (cs_hist c) 0 \<and> cs_msgs c = 0"
proof -
  obtain h m n where "new_histogram 60000000000 3 = Some h" "hist_repr m n h []"
    using new_histogram_repr [of 3 60000000000] by auto
  then show ?thesis by (auto simp: new_consumer_def book_part_def hist_room_def)
qed

end
