(* ===== verification/Pipeline_Feed.thy ===== *)
theory Pipeline_Feed
  imports Pipeline
begin

text \<open>
  What the ingest thread sends: the events of the file, numbered by their frames, frames that do
  not decode skipped, and with gap injection one message moved behind the \<open>gap_reorder_distance\<close>
  that follow it. The specification is on lists of numbered events.
\<close>

section \<open>The events of a file\<close>

definition decode_payload :: "byte_buf \<Rightarrow> market_event option" where
  "decode_payload pl =
    (case parse pl 0 (length pl) default_event of Some (Ok, ev) \<Rightarrow> Some ev | _ \<Rightarrow> None)"

definition file_events :: "byte_buf \<Rightarrow> market_event option list" where
  "file_events bytes = map decode_payload (split_frames bytes)"

fun number_events :: "nat \<Rightarrow> market_event option list \<Rightarrow> (u64 \<times> market_event) list" where
  "number_events k [] = []"
| "number_events k (None # es) = number_events (Suc k) es"
| "number_events k (Some e # es) = (of_nat k, e) # number_events (Suc k) es"

text \<open>Holding one message back; the state is the flag, the message and the release number.\<close>

type_synonym hold_state = "bool \<times> (u64 \<times> market_event) \<times> u64"

fun hold_list ::
    "u64 \<Rightarrow> u64 \<Rightarrow> hold_state \<Rightarrow> (u64 \<times> market_event) list \<Rightarrow> (u64 \<times> market_event) list \<times> hold_state" where
  "hold_list g d st [] = ([], st)"
| "hold_list g d (h, x, r) (m # ms) =
    (if g \<noteq> 0 \<and> d \<noteq> 0 \<and> \<not> h \<and> fst m = g then hold_list g d (True, m, fst m + d) ms
     else if h \<and> fst m \<ge> r then
       (let (out, st) = hold_list g d (False, x, r) ms in (m # x # out, st))
     else (let (out, st) = hold_list g d (h, x, r) ms in (m # out, st)))"

definition flush_held :: "(u64 \<times> market_event) list \<times> hold_state \<Rightarrow> (u64 \<times> market_event) list" where
  "flush_held r = (case r of (out, h, x, _) \<Rightarrow> if h then out @ [x] else out)"

definition offers :: "pipeline_msg list \<Rightarrow> (u64 \<times> market_event) list" where
  "offers = map (\<lambda>m. (pm_sequence m, pm_event m))"

definition hold_of :: "producer \<Rightarrow> hold_state" where
  "hold_of p = (holding p, (pm_sequence (held p), pm_event (held p)), release_at p)"

section \<open>The ingest loop sends them\<close>

lemma maybe_pace_frame:
  assumes "maybe_pace now pc ts p = Some p'"
  shows "hold_of p' = hold_of p \<and> parse_errors p' = parse_errors p"
  using assms
  by (auto simp: maybe_pace_def hold_of_def Let_def bind_eq_Some_conv split: if_splits)

lemma send_or_hold_spec:
  assumes "send_or_hold cfg occ m p = (out, p')"
  shows "hold_list (inject_gap_at cfg) (gap_reorder_distance cfg) (hold_of p)
      ((pm_sequence m, pm_event m) # ms)
    = (case hold_list (inject_gap_at cfg) (gap_reorder_distance cfg) (hold_of p') ms of
         (out', st) \<Rightarrow> (offers out @ out', st)) \<and> parse_errors p' = parse_errors p"
proof -
  let ?g = "inject_gap_at cfg" and ?d = "gap_reorder_distance cfg"
  consider (hold) "?g \<noteq> 0 \<and> ?d \<noteq> 0 \<and> \<not> holding p \<and> pm_sequence m = ?g"
    | (release) "\<not> (?g \<noteq> 0 \<and> ?d \<noteq> 0 \<and> \<not> holding p \<and> pm_sequence m = ?g)"
        "holding p \<and> pm_sequence m \<ge> release_at p"
    | (plain) "\<not> (?g \<noteq> 0 \<and> ?d \<noteq> 0 \<and> \<not> holding p \<and> pm_sequence m = ?g)"
        "\<not> (holding p \<and> pm_sequence m \<ge> release_at p)"
    by blast
  then show ?thesis
  proof cases
    case hold
    then have "out = []" "p' = p\<lparr>holding := True, held := m, release_at := pm_sequence m + ?d\<rparr>"
      using assms by (simp_all add: send_or_hold_def)
    with hold show ?thesis by (simp add: hold_of_def offers_def split: prod.split)
  next
    case release
    then have "out = [m, held p]" "hold_of p' = (False, snd (hold_of p))" "parse_errors p' = parse_errors p"
      using assms by (auto simp: send_or_hold_def hold_of_def Let_def split: if_splits)
    with release show ?thesis by (simp add: hold_of_def offers_def split: prod.split)
  next
    case plain
    then have "out = [m]" "hold_of p' = hold_of p" "parse_errors p' = parse_errors p"
      using assms unfolding send_or_hold_def if_not_P [OF plain(1)] if_not_P [OF plain(2)]
      by (auto simp: hold_of_def Let_def split: if_splits)
    then show ?thesis using plain by (cases "hold_of p") (auto simp: hold_of_def offers_def split: prod.split)
  qed
qed

lemma frame_decoded:
  assumes "fr_data f + fr_len f \<le> length mem"
  shows "\<exists>st ev. parse mem (fr_data f) (fr_len f) default_event = Some (st, ev)
    \<and> decode_payload (payload_of mem f) = (if st = Ok then Some ev else None)"
proof -
  obtain st ev where pr: "parse mem (fr_data f) (fr_len f) default_event = Some (st, ev)"
    using parse_total [OF assms, of default_event] by (metis not_None_eq surj_pair)
  have "length (payload_of mem f) = fr_len f"
    using assms by (simp add: payload_of_def bytes_at_def)
  then have "parse (payload_of mem f) 0 (length (payload_of mem f)) default_event = Some (st, ev)"
    using parse_local [OF assms, of default_event] pr unfolding payload_of_def by metis
  then have "decode_payload (payload_of mem f) = (if st = Ok then Some ev else None)"
    by (cases st) (simp_all add: decode_payload_def)
  with pr show ?thesis by blast
qed

lemma produce_frame_spec:
  assumes "produce_frame cfg now occ mem f p = Some (out, p')"
    and "fr_data f + fr_len f \<le> length mem" and "fr_sequence f = of_nat k"
  shows "hold_list (inject_gap_at cfg) (gap_reorder_distance cfg) (hold_of p)
      (number_events k (decode_payload (payload_of mem f) # es))
    = (case hold_list (inject_gap_at cfg) (gap_reorder_distance cfg) (hold_of p') (number_events (Suc k) es) of
         (out', st) \<Rightarrow> (offers out @ out', st))
    \<and> parse_errors p' = parse_errors p + of_bool (decode_payload (payload_of mem f) = None)"
proof -
  obtain st ev where pr: "parse mem (fr_data f) (fr_len f) default_event = Some (st, ev)"
    and dec: "decode_payload (payload_of mem f) = (if st = Ok then Some ev else None)"
    using frame_decoded [OF assms(2)] by blast
  show ?thesis
  proof (cases "st = Ok")
    case False
    with assms(1) pr have "out = []" "p' = p\<lparr>parse_errors := parse_errors p + 1\<rparr>"
      by (auto simp: produce_frame_def)
    with False dec show ?thesis
      by (simp add: hold_of_def offers_def split: prod.split)
  next
    case True
    with assms(1) pr obtain p1 where p1: "maybe_pace now (pc_pacing cfg) (timestamp_ns ev) p = Some p1"
      and out: "send_or_hold cfg occ
        \<lparr>pm_event = ev, pm_recv_ns = now (pr_clock p1), pm_sequence = fr_sequence f\<rparr>
        (p1\<lparr>produced := produced p1 + 1, pr_clock := Suc (pr_clock p1)\<rparr>) = (out, p')"
      by (auto simp: produce_frame_def Let_def bind_eq_Some_conv)
    have "hold_of (p1\<lparr>produced := produced p1 + 1, pr_clock := Suc (pr_clock p1)\<rparr>) = hold_of p"
      using maybe_pace_frame [OF p1] by (simp add: hold_of_def)
    with send_or_hold_spec [OF out, of "number_events (Suc k) es"] maybe_pace_frame [OF p1] True dec assms(3)
    show ?thesis by simp
  qed
qed

lemma produce_frames_spec:
  assumes "produce_frames cfg now occ mem fs p = Some (out, p')"
    and "\<And>i. i < length fs \<Longrightarrow> fr_sequence (fs ! i) = of_nat (k + i)
      \<and> fr_data (fs ! i) + fr_len (fs ! i) \<le> length mem"
  shows "hold_list (inject_gap_at cfg) (gap_reorder_distance cfg) (hold_of p)
      (number_events k (map (decode_payload \<circ> payload_of mem) fs)) = (offers out, hold_of p')
    \<and> parse_errors p' = parse_errors p
        + of_nat (length (filter (\<lambda>f. decode_payload (payload_of mem f) = None) fs))"
  using assms
proof (induction fs arbitrary: p out k)
  case Nil
  then show ?case by (simp add: offers_def)
next
  case (Cons f fs)
  obtain o1 p1 o2 where r: "produce_frame cfg now occ mem f p = Some (o1, p1)"
      "produce_frames cfg now occ mem fs p1 = Some (o2, p')" "out = o1 @ o2"
    using Cons.prems(1) by (auto simp: bind_eq_Some_conv)
  have f: "fr_data f + fr_len f \<le> length mem" "fr_sequence f = of_nat k"
    using Cons.prems(2) [of 0] by auto
  have "fr_sequence (fs ! i) = of_nat (Suc k + i) \<and> fr_data (fs ! i) + fr_len (fs ! i) \<le> length mem"
    if "i < length fs" for i
    using Cons.prems(2) [of "Suc i"] that by simp
  from Cons.IH [OF r(2) this] produce_frame_spec [OF r(1) f]
  show ?case by (auto simp: r(3) offers_def)
qed

lemma producer_run_spec:
  assumes "producer_run cfg now occ bytes = Some (ms, p)" and "bytes \<noteq> []"
  shows "offers ms = flush_held (hold_list (inject_gap_at cfg) (gap_reorder_distance cfg)
      (False, (0, default_event), 0) (number_events 1 (file_events bytes)))
    \<and> parse_errors p = of_nat (length (filter (\<lambda>e. e = None) (file_events bytes)))"
proof -
  obtain fs where fs: "source_frames next_frame (length bytes + 1) (open_file_source (Some bytes) True)
        default_frame = Some fs"
      "map (payload_of bytes) fs = split_frames bytes"
      "\<And>i. i < length fs \<Longrightarrow> fr_sequence (fs ! i) = of_nat (1 + i)
         \<and> fr_data (fs ! i) + fr_len (fs ! i) \<le> length bytes"
    using file_replay [OF assms(2), of default_frame] by auto
  obtain ms1 where ms1: "produce_frames cfg now occ bytes fs new_producer = Some (ms1, p)"
      "ms = (if holding p then ms1 @ [held p] else ms1)"
    using assms(1) fs(1) by (auto simp: producer_run_def Let_def bind_eq_Some_conv split: if_splits)
  have ev: "map (decode_payload \<circ> payload_of bytes) fs = file_events bytes"
    by (simp add: file_events_def flip: fs(2))
  have "hold_of new_producer = (False, (0, default_event), 0)"
    by (simp add: hold_of_def new_producer_def default_msg_def)
  with produce_frames_spec [OF ms1(1) fs(3)] ev
  have sp: "hold_list (inject_gap_at cfg) (gap_reorder_distance cfg) (False, (0, default_event), 0)
      (number_events 1 (file_events bytes)) = (offers ms1, hold_of p)" by simp
  have "parse_errors p = of_nat (length (filter (\<lambda>f. decode_payload (payload_of bytes f) = None) fs))"
    using produce_frames_spec [OF ms1(1) fs(3)] by (simp add: new_producer_def)
  moreover have "length (filter (\<lambda>f. decode_payload (payload_of bytes f) = None) fs)
      = length (filter (\<lambda>e. e = None) (file_events bytes))"
    by (simp add: filter_map comp_def flip: ev)
  ultimately show ?thesis
    using ms1(2) sp by (simp add: flush_held_def hold_of_def offers_def)
qed

end
