(* ===== verification/Pipeline_Order.thy ===== *)
theory Pipeline_Order
  imports Pipeline_Feed
begin

text \<open>
  The order in which the events of a file arrive at the sequencer, with and without gap injection and
  with an undecodable frame, and what the sequencer delivers from it.
\<close>

section \<open>Numbered events\<close>

definition numbered :: "(nat \<Rightarrow> market_event) \<Rightarrow> nat list \<Rightarrow> (u64 \<times> market_event) list" where
  "numbered feed xs = map (\<lambda>i. (of_nat i, feed i)) xs"

lemma numbered_mem: "m \<in> set (numbered feed xs) \<Longrightarrow> \<exists>i \<in> set xs. fst m = of_nat i"
  by (auto simp: numbered_def)

lemma numbered_append: "numbered feed (xs @ ys) = numbered feed xs @ numbered feed ys"
  by (simp add: numbered_def)

lemma number_events_append:
  "number_events k (es @ fs) = number_events k es @ number_events (k + length es) fs"
  by (induction k es rule: number_events.induct) simp_all

lemma number_events_Some:
  assumes "\<And>i. i < length evs \<Longrightarrow> feed (k + i) = evs ! i"
  shows "number_events k (map Some evs) = numbered feed [k..<k + length evs]"
  using assms
proof (induction evs arbitrary: k)
  case (Cons e evs)
  have "feed (Suc k + i) = evs ! i" if "i < length evs" for i
    using Cons.prems [of "Suc i"] that by simp
  moreover have "[k..<k + length (e # evs)] = k # [Suc k..<Suc k + length evs]"
    by (simp add: upt_conv_Cons del: upt_Suc)
  moreover have "feed k = e" using Cons.prems [of 0] by simp
  ultimately show ?case using Cons.IH by (simp add: numbered_def del: upt_Suc)
qed (simp add: numbered_def)

section \<open>Gap injection\<close>

lemma hold_list_append:
  "hold_list g d st (ms @ ns) =
    (case hold_list g d st ms of (o1, st1) \<Rightarrow> case hold_list g d st1 ns of (o2, st2) \<Rightarrow> (o1 @ o2, st2))"
  by (induction g d st ms rule: hold_list.induct) (auto simp: Let_def split: prod.split)

lemma hold_list_idle:
  assumes "g = 0 \<or> d = 0 \<or> (\<forall>m \<in> set ms. fst m \<noteq> g)"
  shows "hold_list g d (False, x, r) ms = (ms, False, x, r)"
  using assms by (induction ms) auto

lemma hold_list_wait:
  assumes "\<forall>m \<in> set ms. fst m < r"
  shows "hold_list g d (True, x, r) ms = (ms, True, x, r)"
  using assms by (induction ms) (auto simp: not_le)

text \<open>The numbers in the order they are sent.\<close>

definition sent_order :: "nat \<Rightarrow> nat \<Rightarrow> nat \<Rightarrow> nat list" where
  "sent_order n g d =
    (if g = 0 \<or> d = 0 \<or> n < g then [1..<Suc n]
     else [1..<g] @ [Suc g..<Suc (min (g + d) n)] @ [g] @ [Suc (min (g + d) n)..<Suc n])"

lemma of_nat_less_64:
  "a < 2 ^ 64 \<Longrightarrow> b < 2 ^ 64 \<Longrightarrow> (of_nat a :: u64) < of_nat b \<longleftrightarrow> a < b"
  by (simp add: word_less_nat_alt unat_of_nat_64 unat_of_nat)

lemma of_nat_inj_64: "a < 2 ^ 64 \<Longrightarrow> b < 2 ^ 64 \<Longrightarrow> (of_nat a :: u64) = of_nat b \<longleftrightarrow> a = b"
  using of_nat_word_inj [of a b, where 'w = 64] by auto

lemma gap_injection_order:
  fixes g d :: u64
  assumes "n < 2 ^ 64 - 1" and "unat g + unat d < 2 ^ 64"
  shows "flush_held (hold_list g d (False, x, r) (numbered feed [1..<Suc n]))
    = numbered feed (sent_order n (unat g) (unat d))"
proof (cases "g = 0 \<or> d = 0 \<or> n < unat g")
  case True
  have "fst m \<noteq> g" if lt: "n < unat g" and m: "m \<in> set (numbered feed [1..<Suc n])" for m
  proof -
    obtain i where "i \<in> set [1..<Suc n]" and fm: "fst m = of_nat i" using numbered_mem [OF m] by blast
    then have i: "i \<le> n" "fst m = of_nat i" by auto
    have "unat (fst m) = i" unfolding i(2) using i(1) assms(1) by (intro unat_of_nat_64) simp
    with i(1) lt show ?thesis by auto
  qed
  then have "hold_list g d (False, x, r) (numbered feed [1..<Suc n]) = (numbered feed [1..<Suc n], False, x, r)"
    using True by (intro hold_list_idle) blast
  with True show ?thesis by (auto simp: flush_held_def sent_order_def unat_eq_0)
next
  case False
  let ?g = "unat g" and ?d = "unat d"
  have g: "0 < ?g" "?g \<le> n" "0 < ?d" "g \<noteq> 0" "d \<noteq> 0" using False by (auto simp: unat_gt_0 unat_eq_0)
  let ?m = "(g, feed ?g)" and ?k = "min (?g + ?d) n"
  have split: "[1..<Suc n] = [1..<?g] @ [?g] @ [Suc ?g..<?g + ?d] @ [?g + ?d..<Suc n]" if "?g + ?d \<le> n"
    using that g by (simp add: upt_append flip: upt_conv_Cons del: upt_Suc)
  have split': "[1..<Suc n] = [1..<?g] @ [?g] @ [Suc ?g..<Suc n]"
    using g by (simp add: upt_append flip: upt_conv_Cons del: upt_Suc)
  have before: "hold_list g d (False, x, r) (numbered feed [1..<?g]) = (numbered feed [1..<?g], False, x, r)"
  proof (rule hold_list_idle, intro disjI2 ballI)
    fix m assume "m \<in> set (numbered feed [1..<?g])"
    then obtain i where "i \<in> set [1..<?g]" and fm: "fst m = of_nat i" using numbered_mem by blast
    then have i: "i < ?g" "fst m = of_nat i" by auto
    have "unat (fst m) = i" unfolding i(2) using i(1) unat_64 [of g] by (intro unat_of_nat_64) simp
    with i(1) show "fst m \<noteq> g" by auto
  qed
  have hold: "hold_list g d (False, x, r) (numbered feed [?g]) = ([], True, ?m, g + d)"
    using g by (simp add: numbered_def)
  have sum: "g + d = of_nat (?g + ?d)" by simp
  have wait: "hold_list g d (True, y, g + d) (numbered feed [Suc ?g..<b]) = (numbered feed [Suc ?g..<b], True, y, g + d)"
    if "b \<le> ?g + ?d" for y b
  proof (rule hold_list_wait, rule ballI)
    fix m assume "m \<in> set (numbered feed [Suc ?g..<b])"
    then obtain i where "i \<in> set [Suc ?g..<b]" and fm: "fst m = of_nat i" using numbered_mem by blast
    then have i: "i < ?g + ?d" "fst m = of_nat i" using that by auto
    show "fst m < g + d" unfolding i(2) sum using i(1) assms(2) by (subst of_nat_less_64) auto
  qed
  show ?thesis
  proof (cases "?g + ?d \<le> n")
    case True
    have after: "hold_list g d (False, y, q) (numbered feed [Suc (?g + ?d)..<Suc n])
        = (numbered feed [Suc (?g + ?d)..<Suc n], False, y, q)" for y q
    proof (rule hold_list_idle, intro disjI2 ballI)
      fix m assume "m \<in> set (numbered feed [Suc (?g + ?d)..<Suc n])"
      then obtain i where "i \<in> set [Suc (?g + ?d)..<Suc n]" and fm: "fst m = of_nat i" using numbered_mem by blast
      then have i: "?g < i" "i \<le> n" "fst m = of_nat i" by auto
      have "unat (fst m) = i" unfolding i(3) using i(2) assms(1) by (intro unat_of_nat_64) simp
      with i(1) show "fst m \<noteq> g" by auto
    qed
    have release: "hold_list g d (True, ?m, g + d) (numbered feed [?g + ?d..<Suc n])
        = (numbered feed [?g + ?d] @ numbered feed [?g] @ numbered feed [Suc (?g + ?d)..<Suc n], False, ?m, g + d)"
    proof -
      have "[?g + ?d..<Suc n] = (?g + ?d) # [Suc (?g + ?d)..<Suc n]"
        using True by (intro upt_conv_Cons) simp
      then have "numbered feed [?g + ?d..<Suc n]
          = (g + d, feed (?g + ?d)) # numbered feed [Suc (?g + ?d)..<Suc n]"
        unfolding numbered_def sum by simp
      moreover have "numbered feed [?g + ?d] = [(g + d, feed (?g + ?d))]" "numbered feed [?g] = [?m]"
        by (simp_all add: numbered_def)
      ultimately show ?thesis using after by simp
    qed
    have "hold_list g d (False, x, r) (numbered feed [1..<Suc n])
        = (numbered feed [1..<?g] @ numbered feed [Suc ?g..<?g + ?d] @ numbered feed [?g + ?d]
            @ numbered feed [?g] @ numbered feed [Suc (?g + ?d)..<Suc n], False, ?m, g + d)"
      unfolding split [OF True] numbered_append hold_list_append before prod.case hold wait [OF order_refl]
        release by simp
    moreover have "[Suc ?g..<?g + ?d] @ [?g + ?d] = [Suc ?g..<Suc (?g + ?d)]" using g by simp
    then have cat: "numbered feed [Suc ?g..<?g + ?d] @ numbered feed [?g + ?d] = numbered feed [Suc ?g..<Suc (?g + ?d)]"
      by (simp only: numbered_append [symmetric])
    moreover have "sent_order n ?g ?d
        = [1..<?g] @ [Suc ?g..<Suc (?g + ?d)] @ [?g] @ [Suc (?g + ?d)..<Suc n]"
      using True False by (simp add: sent_order_def min_absorb1 unat_eq_0 del: upt_Suc)
    ultimately show ?thesis
      by (simp only: flush_held_def numbered_append cat [symmetric] append_assoc prod.case if_False)
  next
    case late: False
    have "hold_list g d (False, x, r) (numbered feed [1..<Suc n])
        = (numbered feed [1..<?g] @ numbered feed [Suc ?g..<Suc n], True, ?m, g + d)"
      unfolding split' numbered_append hold_list_append before prod.case hold
      using wait [of "Suc n"] late by simp
    then show ?thesis
      using late g False
      by (simp add: flush_held_def sent_order_def numbered_append min_def del: upt_Suc)
         (simp add: numbered_def)
  qed
qed

section \<open>What is delivered\<close>

lemma carries_numbered: "(\<forall>i \<in> set xs. i < 2 ^ 64 - 1) \<Longrightarrow> carries feed (numbered feed xs)"
  by (auto simp: carries_def numbered_def unat_of_nat)

lemma arrived_numbered:
  assumes "\<forall>i \<in> set xs. 1 \<le> i \<and> i < 2 ^ 64 - 1"
  shows "arrived 1 (numbered feed xs) = set xs"
    and "list_all (\<lambda>m. 1 \<le> fst m) (numbered feed xs)"
    and "map (unat \<circ> fst) (numbered feed xs) = xs"
proof -
  have u: "unat (of_nat i :: u64) = i" if "i \<in> set xs" for i
    using assms that by (intro unat_of_nat_64) auto
  then have one: "(1 :: u64) \<le> of_nat i" if "i \<in> set xs" for i
    using assms that by (simp add: word_le_nat_alt)
  have all: "{m \<in> set (numbered feed xs). 1 \<le> fst m} = set (numbered feed xs)"
    using one numbered_mem [of _ feed xs] by fastforce
  have "(\<lambda>m. unat (fst m)) ` set (numbered feed xs) = set xs"
    using u by (force simp: numbered_def image_image)
  then show "arrived 1 (numbered feed xs) = set xs" unfolding arrived_def all .
  show "list_all (\<lambda>m. 1 \<le> fst m) (numbered feed xs)"
    using one by (simp add: list_all_iff numbered_def)
  show "map (unat \<circ> fst) (numbered feed xs) = xs"
    using u by (simp add: numbered_def map_idI)
qed

lemma run_fits:
  assumes "\<forall>i \<in> set xs. 1 \<le> i \<and> i < 2 ^ 64 - 1" and "fits 4096 1 {} xs"
    and "seq_run (new_sequencer default_seq_config) (numbered feed xs) = (ds, evs, s)"
  shows "Overflow \<notin> set ds"
proof -
  have "fits (reorder_capacity (sq_cfg (new_sequencer default_seq_config)))
      (unat (start_seq (sq_cfg (new_sequencer default_seq_config)))) {} (map (unat \<circ> fst) (numbered feed xs))"
    using assms(2) unfolding arrived_numbered(3) [OF assms(1)] by (simp add: new_sequencer_def default_seq_config_def)
  from seq_run_fits [OF seq_inv_new carries_numbered this] assms(1) arrived_numbered(2) [OF assms(1)]
  have "Overflow \<notin> set (fst (seq_run (new_sequencer default_seq_config) (numbered feed xs)))"
    by (auto simp: new_sequencer_def default_seq_config_def)
  with assms(3) show ?thesis by simp
qed

text \<open>A reordering of \<open>1..n\<close> that fits the buffer is delivered in order and completely.\<close>

lemma run_delivers_all:
  assumes "set xs = {1..n}" and "n < 2 ^ 64 - 1" and "fits 4096 1 {} xs"
  shows "\<exists>ds s. seq_run (new_sequencer default_seq_config) (numbered feed xs)
    = (ds, map feed [1..<Suc n], s) \<and> Overflow \<notin> set ds \<and> \<not> stale s"
proof -
  have rng: "\<forall>i \<in> set xs. 1 \<le> i \<and> i < 2 ^ 64 - 1" using assms(1,2) by auto
  obtain ds evs s where run: "seq_run (new_sequencer default_seq_config) (numbered feed xs) = (ds, evs, s)"
    by (cases "seq_run (new_sequencer default_seq_config) (numbered feed xs)") auto
  have no: "Overflow \<notin> set ds" by (rule run_fits [OF rng assms(3) run])
  have st: "start_seq default_seq_config = 1" "unat (1 :: u64) = 1" by (simp_all add: default_seq_config_def)
  have "carries feed (numbered feed xs)" using rng by (intro carries_numbered) auto
  moreover have "arrived (start_seq default_seq_config) (numbered feed xs)
      = {unat (start_seq default_seq_config)..<unat (start_seq default_seq_config) + n}"
    unfolding st arrived_numbered(1) [OF rng] assms(1) by auto
  ultimately have "evs = map feed [1..<1 + n] \<and> \<not> stale s"
    using run_complete [OF _ run no] unfolding st by blast
  with run no show ?thesis by auto
qed

lemma sent_order_set: "set (sent_order n g d) = {1..n}"
  by (auto simp: sent_order_def)

lemma sent_order_fits:
  assumes "d \<le> 4096"
  shows "fits 4096 1 {} (sent_order n g d)"
proof (cases "g = 0 \<or> d = 0 \<or> n < g")
  case True
  have "fits 4096 1 {} [1..<Suc n]" by (rule fits_in_order) simp
  then show ?thesis unfolding sent_order_def if_P [OF True] .
next
  case False
  let ?k = "min (g + d) n"
  have "fits 4096 1 {} [1..<g]" by (rule fits_in_order) simp
  moreover have "fits 4096 1 {1..<g} [Suc g..<Suc ?k]" using assms by (intro fits_window) auto
  moreover have "fits 4096 1 ({1..<g} \<union> {Suc g..<Suc ?k}) [g]" by simp
  moreover have "fits 4096 1 ({1..<g} \<union> {Suc g..<Suc ?k} \<union> {g}) [Suc ?k..<Suc n]"
    by (rule fits_in_order) auto
  ultimately show ?thesis
    unfolding sent_order_def if_not_P [OF False] Let_def by (simp only: fits_append set_upt list.set) simp
qed

end
