(* ===== verification/Pipeline_Props.thy ===== *)
theory Pipeline_Props
  imports Pipeline_Book Pipeline_Order
begin

text \<open>
  The pipeline as a whole, from the bytes of a file to the book: the lemmas that compose the ingest
  thread, the channel, the sequencer and the book, and the properties of the single threads.
\<close>

section \<open>The ingest thread returns\<close>

text \<open>
  A paced thread waits for the clock before some events: before every \<open>rate_batch\<close>-th one until the
  time of its place in the file, or until the time its timestamp asks for. \<open>pace_targets\<close> lists the
  readings it waits for, \<open>w\<close> being the first reading; without pacing there are none. A steady clock
  never goes back. Over such a clock the thread returns exactly when the clock gets to each of them.
\<close>

definition decoded_events :: "byte_buf \<Rightarrow> market_event list" where
  "decoded_events bytes = List.map_filter id (file_events bytes)"

definition pace_targets :: "pacing \<Rightarrow> u64 \<Rightarrow> market_event list \<Rightarrow> u64 list" where
  "pace_targets pc w evs =
    (if rate_pace pc then
       map (\<lambda>n. w + rate_offset pc (of_nat n)) (filter (\<lambda>n. of_nat n mod rate_batch pc = 0) [0..<length evs])
     else if speed_pace pc then
       map (\<lambda>e. w + ts_offset pc (timestamp_ns e - timestamp_ns (hd evs)))
         (filter (\<lambda>e. timestamp_ns (hd evs) \<le> timestamp_ns e) (tl evs))
     else [])"

definition next_targets :: "pacing \<Rightarrow> u64 \<Rightarrow> market_event list \<Rightarrow> market_event \<Rightarrow> u64 list" where
  "next_targets pc w pre e =
    (if rate_pace pc then
       if of_nat (length pre) mod rate_batch pc = 0 then [w + rate_offset pc (of_nat (length pre))] else []
     else if speed_pace pc \<and> pre \<noteq> [] \<and> timestamp_ns (hd pre) \<le> timestamp_ns e then
       [w + ts_offset pc (timestamp_ns e - timestamp_ns (hd pre))]
     else [])"

fun targets_from :: "pacing \<Rightarrow> u64 \<Rightarrow> market_event list \<Rightarrow> market_event list \<Rightarrow> u64 list" where
  "targets_from pc w pre [] = []"
| "targets_from pc w pre (e # es) = next_targets pc w pre e @ targets_from pc w (pre @ [e]) es"

lemma targets_from_rate:
  "rate_pace pc \<Longrightarrow> targets_from pc w pre es
    = map (\<lambda>n. w + rate_offset pc (of_nat n))
        (filter (\<lambda>n. of_nat n mod rate_batch pc = 0) [length pre..<length pre + length es])"
proof (induction es arbitrary: pre)
  case (Cons e es)
  have "[length pre..<length pre + length (e # es)]
      = length pre # [length (pre @ [e])..<length (pre @ [e]) + length es]"
    by (simp add: upt_rec)
  with Cons show ?case by (simp add: next_targets_def del: upt_Suc)
qed simp

lemma targets_from_speed:
  "\<not> rate_pace pc \<Longrightarrow> speed_pace pc \<Longrightarrow> pre \<noteq> [] \<Longrightarrow> targets_from pc w pre es
    = map (\<lambda>e. w + ts_offset pc (timestamp_ns e - timestamp_ns (hd pre)))
        (filter (\<lambda>e. timestamp_ns (hd pre) \<le> timestamp_ns e) es)"
  by (induction es arbitrary: pre) (simp_all add: next_targets_def)

lemma targets_from_none: "\<not> rate_pace pc \<Longrightarrow> \<not> speed_pace pc \<Longrightarrow> targets_from pc w pre es = []"
  by (induction es arbitrary: pre) (simp_all add: next_targets_def)

lemma targets_from_start: "targets_from pc w [] es = pace_targets pc w es"
proof (cases "rate_pace pc")
  case False
  then show ?thesis
    by (cases "speed_pace pc"; cases es)
      (simp_all add: pace_targets_def targets_from_speed targets_from_none next_targets_def)
qed (simp add: pace_targets_def targets_from_rate)

lemma wait_until_reaches:
  assumes "wait_until now t k = Some k'"
  shows "\<exists>j. t \<le> now j"
  by (rule wait_until.raw_induct [OF _ assms]) (auto split: if_splits)

lemma wait_until_returns:
  assumes "k \<le> j" and "t \<le> now j"
  shows "\<exists>k'. wait_until now t k = Some k'"
  using assms
proof (induction "j - k" arbitrary: k)
  case 0
  then show ?case by (subst wait_until.simps) simp
next
  case (Suc d)
  show ?case
  proof (cases "now k \<ge> t")
    case False
    have "k \<noteq> j" using Suc.hyps(2) by auto
    with Suc have "\<exists>k'. wait_until now t (Suc k) = Some k'" by simp
    with False show ?thesis by (subst wait_until.simps) simp
  qed (subst wait_until.simps, simp)
qed

lemma wait_until_iff:
  assumes "mono now"
  shows "(\<exists>k'. wait_until now t k = Some k') \<longleftrightarrow> (\<exists>j. t \<le> now j)"
proof
  assume "\<exists>j. t \<le> now j"
  then obtain j where "t \<le> now j" by blast
  moreover have "now j \<le> now (max k j)" using assms by (simp add: monoD)
  ultimately have "t \<le> now (max k j)" by simp
  then show "\<exists>k'. wait_until now t k = Some k'" by (rule wait_until_returns [rotated]) simp
qed (use wait_until_reaches in blast)

text \<open>The pacing variables after the events \<open>pre\<close>.\<close>

definition paced :: "pacing \<Rightarrow> (nat \<Rightarrow> u64) \<Rightarrow> market_event list \<Rightarrow> producer \<Rightarrow> bool" where
  "paced pc now pre p \<longleftrightarrow> produced p = of_nat (length pre)
    \<and> (rate_pace pc \<or> speed_pace pc \<longrightarrow>
        (if pre = [] then \<not> have_base p \<and> pr_clock p = 0
         else have_base p \<and> base_wall p = now 0
           \<and> (\<not> rate_pace pc \<longrightarrow> base_event_ts p = timestamp_ns (hd pre))))"

lemma maybe_pace_iff:
  assumes "mono now" and "paced pc now pre p"
  shows "(\<exists>p'. maybe_pace now pc (timestamp_ns e) p = Some p')
    \<longleftrightarrow> (\<forall>t \<in> set (next_targets pc (now 0) pre e). \<exists>j. t \<le> now j)"
proof -
  have w: "(\<exists>p'. Option.bind (wait_until now t k) (\<lambda>k. Some (q\<lparr>pr_clock := k\<rparr>)) = Some p')
      \<longleftrightarrow> (\<exists>j. t \<le> now j)" for t k and q :: producer
    using wait_until_iff [OF assms(1), of t k] by (cases "wait_until now t k") auto
  show ?thesis
    using assms(2) by (cases "pre = []") (auto simp: maybe_pace_def next_targets_def paced_def Let_def not_less w)
qed

lemma maybe_pace_paced:
  assumes "paced pc now pre p" and "maybe_pace now pc (timestamp_ns e) p = Some p'"
  shows "paced pc now (pre @ [e]) (p'\<lparr>produced := produced p' + 1, pr_clock := k\<rparr>)"
  using assms
  by (cases "pre = []")
    (auto simp: maybe_pace_def paced_def Let_def bind_eq_Some_conv add.commute split: if_splits)

lemma send_or_hold_paced:
  "send_or_hold cfg occ m p = (ms, p') \<Longrightarrow> paced pc now pre p' = paced pc now pre p"
  by (auto simp: send_or_hold_def paced_def Let_def split: if_splits)

lemma produce_frame_paced:
  assumes "mono now" and "paced (pc_pacing cfg) now pre p" and "fr_data f + fr_len f \<le> length mem"
    and "decode_payload (payload_of mem f) = d"
  shows "(\<exists>r. produce_frame cfg now occ mem f p = Some r) \<longleftrightarrow>
      (\<forall>e t. d = Some e \<and> t \<in> set (next_targets (pc_pacing cfg) (now 0) pre e) \<longrightarrow> (\<exists>j. t \<le> now j))"
    and "produce_frame cfg now occ mem f p = Some (ms, p') \<Longrightarrow>
      paced (pc_pacing cfg) now (pre @ (case d of None \<Rightarrow> [] | Some e \<Rightarrow> [e])) p'"
proof -
  obtain st ev where pr: "parse mem (fr_data f) (fr_len f) default_event = Some (st, ev)"
    and dec: "d = (if st = Ok then Some ev else None)"
    using frame_decoded [OF assms(3)] assms(4) by blast
  note iff = maybe_pace_iff [OF assms(1,2), of ev]
  show "(\<exists>r. produce_frame cfg now occ mem f p = Some r) \<longleftrightarrow>
      (\<forall>e t. d = Some e \<and> t \<in> set (next_targets (pc_pacing cfg) (now 0) pre e) \<longrightarrow> (\<exists>j. t \<le> now j))"
    using iff pr by (auto simp: produce_frame_def dec Let_def bind_eq_Some_conv)
  show "paced (pc_pacing cfg) now (pre @ (case d of None \<Rightarrow> [] | Some e \<Rightarrow> [e])) p'"
    if r: "produce_frame cfg now occ mem f p = Some (ms, p')"
  proof (cases "st = Ok")
    case False
    with r pr dec assms(2) show ?thesis by (auto simp: produce_frame_def paced_def)
  next
    case True
    with r pr obtain p1 where p1: "maybe_pace now (pc_pacing cfg) (timestamp_ns ev) p = Some p1"
      and out: "send_or_hold cfg occ
        \<lparr>pm_event = ev, pm_recv_ns = now (pr_clock p1), pm_sequence = fr_sequence f\<rparr>
        (p1\<lparr>produced := produced p1 + 1, pr_clock := Suc (pr_clock p1)\<rparr>) = (ms, p')"
      by (auto simp: produce_frame_def Let_def bind_eq_Some_conv)
    from maybe_pace_paced [OF assms(2) p1] send_or_hold_paced [OF out] True dec show ?thesis by simp
  qed
qed

lemma produce_frames_iff:
  assumes "mono now" and "paced (pc_pacing cfg) now pre p"
    and "\<forall>f \<in> set fs. fr_data f + fr_len f \<le> length mem"
  shows "(\<exists>r. produce_frames cfg now occ mem fs p = Some r) \<longleftrightarrow>
    (\<forall>t \<in> set (targets_from (pc_pacing cfg) (now 0) pre
        (List.map_filter (\<lambda>f. decode_payload (payload_of mem f)) fs)). \<exists>j. t \<le> now j)"
  using assms(2,3)
proof (induction fs arbitrary: pre p)
  case (Cons f fs)
  let ?d = "decode_payload (payload_of mem f)"
  have f: "fr_data f + fr_len f \<le> length mem" using Cons.prems(2) by simp
  note frame = produce_frame_paced [OF assms(1) Cons.prems(1) f refl]
  show ?case
  proof (cases "produce_frame cfg now occ mem f p")
    case None
    with frame(1) [of occ] show ?thesis by (cases ?d) (auto simp: List.map_filter_simps)
  next
    case (Some r)
    obtain ms p1 where r: "r = (ms, p1)" by (cases r)
    from Cons.IH [OF frame(2) [OF Some [unfolded r]]] Cons.prems(2)
    have "(\<exists>r. produce_frames cfg now occ mem fs p1 = Some r) \<longleftrightarrow>
      (\<forall>t \<in> set (targets_from (pc_pacing cfg) (now 0) (pre @ (case ?d of None \<Rightarrow> [] | Some e \<Rightarrow> [e]))
        (List.map_filter (\<lambda>f. decode_payload (payload_of mem f)) fs)). \<exists>j. t \<le> now j)" by simp
    moreover have "(\<exists>r. produce_frames cfg now occ mem (f # fs) p = Some r)
        \<longleftrightarrow> (\<exists>r. produce_frames cfg now occ mem fs p1 = Some r)"
      using Some r by (cases "produce_frames cfg now occ mem fs p1") auto
    ultimately show ?thesis
      using frame(1) [of occ] Some by (cases ?d) (auto simp: List.map_filter_simps)
  qed
qed simp

lemma producer_returns_iff:
  assumes "mono now" and "bytes \<noteq> []"
  shows "(\<exists>ms p. producer_run cfg now occ bytes = Some (ms, p)) \<longleftrightarrow>
    (\<forall>t \<in> set (pace_targets (pc_pacing cfg) (now 0) (decoded_events bytes)). \<exists>j. t \<le> now j)"
proof -
  obtain fs where fs: "source_frames next_frame (length bytes + 1) (open_file_source (Some bytes) True)
        default_frame = Some fs"
      "map (payload_of bytes) fs = split_frames bytes"
      "\<And>i. i < length fs \<Longrightarrow> fr_data (fs ! i) + fr_len (fs ! i) \<le> length bytes"
    using file_replay [OF assms(2), of default_frame] by auto
  then have bounds: "\<forall>f \<in> set fs. fr_data f + fr_len f \<le> length bytes" by (auto simp: in_set_conv_nth)
  have evs: "List.map_filter (\<lambda>f. decode_payload (payload_of bytes f)) fs = decoded_events bytes"
    by (simp add: decoded_events_def file_events_def List.map_filter_def comp_def filter_map flip: fs(2))
  have "paced (pc_pacing cfg) now [] new_producer" by (simp add: paced_def new_producer_def)
  note frames = produce_frames_iff [OF assms(1) this bounds, of occ, unfolded evs targets_from_start]
  have "(\<exists>ms p. producer_run cfg now occ bytes = Some (ms, p))
      \<longleftrightarrow> (\<exists>r. produce_frames cfg now occ bytes fs new_producer = Some r)"
    using fs(1) by (cases "produce_frames cfg now occ bytes fs new_producer")
      (auto simp: producer_run_def Let_def split: prod.split)
  with frames show ?thesis by simp
qed

lemma producer_returns_unpaced:
  assumes "\<not> rate_pace (pc_pacing cfg)" and "\<not> speed_pace (pc_pacing cfg)" and "mono now" and "bytes \<noteq> []"
  shows "\<exists>ms p. producer_run cfg now occ bytes = Some (ms, p)"
  using producer_returns_iff [OF assms(3,4)] assms(1,2) by (simp add: pace_targets_def)

text \<open>
  C40. Over a clock that never goes back, the ingest thread returns, for every file, injection
  and occupancy, if and only if the clock reaches each of the finitely many times the pacing
  waits for: those of the rate batches, or of the timestamps not before the first; without
  pacing it always returns.
\<close>

theorem producer_terminates:
  assumes "\<And>i j. i \<le> j \<Longrightarrow> now i \<le> now j" and "bytes \<noteq> []"
  shows "(\<exists>ms p. producer_run cfg now occ bytes = Some (ms, p)) \<longleftrightarrow>
    (\<forall>t \<in> set (pace_targets (pc_pacing cfg) (now 0) (decoded_events bytes)). \<exists>j. t \<le> now j)"
  using producer_returns_iff [OF monoI assms(2)] assms(1) by blast

text \<open>A file of two frames, an add and a delete of the same order, and a configuration without pacing.\<close>

definition two_frames :: byte_buf where
  "two_frames = [0, 36, 65, 0, 1, 0, 0, 0, 0, 0, 0, 0, 5, 0, 0, 0, 0, 0, 0, 0, 42, 66, 0, 0, 0, 10,
     83, 89, 78, 84, 72, 32, 32, 32, 0, 0, 0, 102] @ [0, 19] @ sample_delete"

definition two_events :: "market_event list" where
  "two_events = [default_event\<lparr>stock_locate := 1, timestamp_ns := 5, ev_type := Add, order_ref := 42,
      ev_side := Buy, ev_size := 10, symbol := [83, 89, 78, 84, 72, 32, 32, 32], price_ticks := 102\<rparr>,
    default_event\<lparr>stock_locate := 1, timestamp_ns := 5, ev_type := Delete, order_ref := 42\<rparr>]"

definition plain_config :: "u64 \<Rightarrow> u64 \<Rightarrow> pipeline_config" where
  "plain_config g d = \<lparr>pc_book = small_config, pc_backpressure = Block,
     pc_pacing = \<lparr>rate_pace = False, speed_pace = False, raw_batch = 0, rate_offset = id, ts_offset = id\<rparr>,
     inject_gap_at = g, gap_reorder_distance = d\<rparr>"

lemma plain_sel [simp]:
  "pc_book (plain_config g d) = small_config" "pc_backpressure (plain_config g d) = Block" "inject_gap_at (plain_config g d) = g"
  "gap_reorder_distance (plain_config g d) = d"
  by (simp_all add: plain_config_def)

lemma two_frames_events: "file_events two_frames = map Some two_events"
  by code_simp

lemma two_frames_run: "\<exists>ms p. producer_run (plain_config 1 1) (\<lambda>k. - 1) id two_frames = Some (ms, p)"
proof -
  have "producer_run (plain_config 1 1) (\<lambda>k. - 1) id two_frames \<noteq> None" by code_simp
  then show ?thesis by auto
qed

text \<open>A clock that shows 1000 at first and goes on by 40 ns a reading, up to the last value of an \<open>int64\<close>.\<close>

definition ticking :: "nat \<Rightarrow> u64" where
  "ticking k = of_nat (min (1000 + 40 * k) (2 ^ 63 - 1))"

lemma ticking_mono: "i \<le> j \<Longrightarrow> ticking i \<le> ticking j"
proof -
  have "unat (ticking k) = min (1000 + 40 * k) (2 ^ 63 - 1)" for k
    by (simp add: ticking_def unat_of_nat take_bit_nat_eq_self)
  then show "ticking i \<le> ticking j" if "i \<le> j" using that by (simp add: word_le_nat_alt)
qed

definition rate_config :: pipeline_config where
  "rate_config = (plain_config 0 0)\<lparr>pc_pacing :=
     \<lparr>rate_pace = True, speed_pace = False, raw_batch = 0, rate_offset = (\<lambda>n. 500 * n), ts_offset = id\<rparr>\<rparr>"

lemma rate_config_targets:
  "pace_targets (pc_pacing rate_config) (ticking 0) (decoded_events two_frames) = [1000, 1500]"
proof -
  have "decoded_events two_frames = two_events"
    unfolding decoded_events_def two_frames_events by (simp add: two_events_def List.map_filter_simps)
  then show ?thesis
    by (simp add: pace_targets_def rate_config_def ticking_def two_events_def rate_batch_def upt_rec)
qed

lemma producer_terminates_witness:
  "\<exists>ms p. producer_run rate_config ticking id two_frames = Some (ms, p)"
proof -
  have "ticking 13 = 1520" by (simp add: ticking_def)
  then have "\<forall>t \<in> set [1000, 1500]. \<exists>j. t \<le> ticking j" by (auto intro!: exI [of _ 13])
  moreover have "two_frames \<noteq> []" by (simp add: two_frames_def)
  ultimately show ?thesis
    using producer_terminates [OF ticking_mono, where cfg = rate_config and bytes = two_frames and occ = id] by (simp add: rate_config_targets)
qed

section \<open>From the file to the book\<close>

lemma file_book:
  assumes good: "good_config (fix_config (pc_book cfg))" and len: "length evs < 2 ^ 32"
    and run: "seq_run (new_sequencer default_seq_config) (offers ms) = (ds, evs, q)" "Overflow \<notin> set ds"
    and small: "length ms < 2 ^ 64"
  shows "\<exists>c0 c. new_consumer cfg = Some c0 \<and> consume now ms c0 = Some c
    \<and> apply_publish evs (new_book (pc_book cfg), new_publisher) = Some (book_part c)
    \<and> apply_all evs (new_book (pc_book cfg)) = Some (cs_book c)
    \<and> cs_seq c = q \<and> cs_msgs c = of_nat (length ms)"
proof -
  obtain c0 where c0: "new_consumer cfg = Some c0" "book_part c0 = (new_book (pc_book cfg), new_publisher)"
      "cs_seq c0 = new_sequencer default_seq_config" "hist_room (cs_hist c0) 0" "cs_msgs c0 = 0"
    using new_consumer_ok [of cfg] by blast
  obtain b p where bp: "apply_publish evs (new_book (pc_book cfg), new_publisher) = Some (b, p)"
      "apply_all evs (new_book (pc_book cfg)) = Some b"
    using apply_publish_defined [OF book_repr_new [OF good], of evs new_publisher] len by auto
  have "offers ms = map to_offer ms" by (simp add: offers_def to_offer_def)
  with run have r: "seq_run (cs_seq c0) (map to_offer ms) = (ds, evs, q)" by (simp add: c0(3))
  from consume_run [OF r run(2) _ c0(4), of "(b, p)" now] bp(1) c0(2,5) small obtain c
    where c: "consume now ms c0 = Some c" "book_part c = (b, p)" "cs_seq c = q"
      "cs_msgs c = of_nat (length ms)" by auto
  with c0(1) bp show ?thesis by (intro exI [of _ c0] exI [of _ c]) (auto simp: book_part_def)
qed

text \<open>The result is assembled without a read outside the book or the two sample arrays.\<close>

lemma depth_defined:
  assumes "book_repr b q A" and "n \<le> length out"
  shows "\<exists>o1 n1 o2 n2. depth_bids b out n = Some (o1, n1) \<and> depth_asks b out n = Some (o2, n2)"
proof -
  have "nat (best_bid_idx b + 1) \<le> length (levels b)" using assms(1) by (auto simp: book_repr_def)
  from depth_bids_from_ok [OF this assms(2), of 0] depth_asks_from_ok [OF assms(2), of 0 b]
  show ?thesis unfolding depth_bids_def depth_asks_def by fastforce
qed

lemma unat_live_orders: "book_repr b q A \<Longrightarrow> unat (live_orders b) = length A"
  by (simp add: book_repr_def unat_of_nat)

lemma assemble_repr:
  assumes "book_repr (cs_book c) q A"
  shows "\<exists>r. assemble rank p drops c = Some r \<and> best_bid (cs_book c) = Some (r_final_bid r)
    \<and> best_ask (cs_book c) = Some (r_final_ask r) \<and> r_live_orders r = live_orders (cs_book c)
    \<and> r_messages r = cs_msgs c \<and> r_parse_errors r = parse_errors p \<and> r_drops r = drops
    \<and> r_l1_deltas r = l1_deltas (cs_pub c) \<and> r_seq_stats r = sq_stats (cs_seq c)"
proof -
  obtain bid ask where tops: "best_bid (cs_book c) = Some bid" "best_ask (cs_book c) = Some ask"
    using tops_defined [OF assms] by blast
  obtain o1 n1 o2 n2 where "depth_bids (cs_book c) (replicate 5 no_level) 5 = Some (o1, n1)"
      "depth_asks (cs_book c) (replicate 5 no_level) 5 = Some (o2, n2)"
    using depth_defined [OF assms, of 5 "replicate 5 no_level"] by auto
  with tops show ?thesis by (simp add: assemble_def)
qed

lemma assemble_defined:
  assumes "good_config (fix_config cfg)" and "length evs < 2 ^ 32"
    and "apply_all evs (new_book cfg) = Some (cs_book c)"
  shows "\<exists>r. assemble rank p drops c = Some r \<and> best_bid (cs_book c) = Some (r_final_bid r)
    \<and> best_ask (cs_book c) = Some (r_final_ask r) \<and> r_live_orders r = live_orders (cs_book c)
    \<and> r_messages r = cs_msgs c \<and> r_parse_errors r = parse_errors p \<and> r_drops r = drops
    \<and> r_l1_deltas r = l1_deltas (cs_pub c)"
  using run_repr [OF assms(1,2)] assms(3) assemble_repr by (metis option.inject)

lemma number_events_all:
  "number_events 1 (map Some evs) = numbered (\<lambda>i. evs ! (i - 1)) [1..<Suc (length evs)]"
  using number_events_Some [of evs "\<lambda>i. evs ! (i - 1)" 1] by simp

lemma feed_back: "map (\<lambda>i. evs ! (i - 1)) [1..<Suc (length evs)] = evs"
  by (intro nth_equalityI) (simp_all del: upt_Suc)

lemma clean_offers:
  assumes "producer_run cfg now occ bytes = Some (ms, p)" and "bytes \<noteq> []"
    and "file_events bytes = map Some evs" and "length evs < 2 ^ 64 - 1"
    and "unat (inject_gap_at cfg) + unat (gap_reorder_distance cfg) < 2 ^ 64"
  shows "offers ms = numbered (\<lambda>i. evs ! (i - 1))
      (sent_order (length evs) (unat (inject_gap_at cfg)) (unat (gap_reorder_distance cfg)))
    \<and> parse_errors p = 0"
  using producer_run_spec [OF assms(1,2)] gap_injection_order [OF assms(4,5)]
  by (simp only: assms(3) number_events_all) (simp add: filter_map comp_def)

lemma length_offers: "length (offers ms) = length ms"
  by (simp add: offers_def)

lemma length_sent_order: "length (sent_order n g d) = n"
  by (auto simp: sent_order_def)

text \<open>What the finished threads leave behind, under Block.\<close>

lemma finished_run:
  assumes "good_config (fix_config (pc_book cfg))" and "bytes \<noteq> []"
    and "file_events bytes = map Some evs" and "length evs < 2 ^ 32"
    and "unat (inject_gap_at cfg) + unat (gap_reorder_distance cfg) < 2 ^ 64"
    and "gap_reorder_distance cfg \<le> 4096"
    and "producer_run cfg now occ bytes = Some (ms, p)"
    and "duo_reach (start_duo ring_capacity Block default_msg ms) s" and "c_phase s = C_finished"
  shows "\<exists>c0 c r. new_consumer cfg = Some c0 \<and> consume now' (received s) c0 = Some c
    \<and> apply_publish evs (new_book (pc_book cfg), new_publisher) = Some (cs_book c, cs_pub c)
    \<and> apply_all evs (new_book (pc_book cfg)) = Some (cs_book c)
    \<and> \<not> stale (cs_seq c) \<and> assemble rank p (d_dropped s) c = Some r
    \<and> r_messages r = of_nat (length evs) \<and> r_parse_errors r = 0 \<and> r_drops r = 0
    \<and> r_l1_deltas r = l1_deltas (cs_pub c) \<and> r_live_orders r = live_orders (cs_book c)
    \<and> best_bid (cs_book c) = Some (r_final_bid r) \<and> best_ask (cs_book c) = Some (r_final_ask r)"
proof -
  let ?g = "unat (inject_gap_at cfg)" and ?d = "unat (gap_reorder_distance cfg)"
  let ?feed = "\<lambda>i. evs ! (i - 1)"
  have small: "length evs < 2 ^ 64 - 1" using assms(4) by simp
  note off = clean_offers [OF assms(7,2,3) small assms(5)]
  have len: "length ms = length evs"
    using arg_cong [OF conjunct1 [OF off], of length]
    by (simp add: length_offers numbered_def length_sent_order)
  have "?d \<le> 4096" using assms(6) by (simp add: word_le_nat_alt)
  from run_delivers_all [OF sent_order_set small sent_order_fits [OF this, of "length evs" ?g], of ?feed]
    off feed_back [of evs]
  obtain ds q where r: "seq_run (new_sequencer default_seq_config) (offers ms) = (ds, evs, q)"
      "Overflow \<notin> set ds" "\<not> stale q" by auto
  have "length ms < 2 ^ 64" using len small by simp
  from file_book [OF assms(1,4) r(1,2) this, of now'] obtain c0 c
    where c: "new_consumer cfg = Some c0" "consume now' ms c0 = Some c"
      "apply_publish evs (new_book (pc_book cfg), new_publisher) = Some (book_part c)"
      "apply_all evs (new_book (pc_book cfg)) = Some (cs_book c)" "cs_seq c = q"
      "cs_msgs c = of_nat (length ms)" by blast
  have reach: "duo_reach (start_duo (2 ^ 16) Block default_msg ms) s"
    using assms(8) by (simp only: ring_capacity_def)
  have "(16 :: nat) < 64" by simp
  from channel_complete [OF reach this assms(9)] have rec: "received s = ms" by blast
  have "list_all snd (trace s)" "d_dropped s = of_nat (length (filter (\<lambda>e. \<not> snd e) (trace s)))"
    using duo_inv_reach [OF reach] by (simp_all add: duo_inv_def)
  then have drops: "d_dropped s = 0" by (simp add: list_all_iff)
  obtain res where "assemble rank p (d_dropped s) c = Some res" "best_bid (cs_book c) = Some (r_final_bid res)"
      "best_ask (cs_book c) = Some (r_final_ask res)" "r_live_orders res = live_orders (cs_book c)"
      "r_messages res = cs_msgs c" "r_parse_errors res = parse_errors p" "r_drops res = d_dropped s"
      "r_l1_deltas res = l1_deltas (cs_pub c)"
    using assemble_defined [OF assms(1,4) c(4), of rank p "d_dropped s"] by blast
  with c r(3) rec drops off len show ?thesis
    by (intro exI [of _ c0] exI [of _ c] exI [of _ res]) (simp add: book_part_def)
qed

section \<open>A file with a frame that does not decode\<close>

definition bad_first_frame :: byte_buf where
  "bad_first_frame = [0, 1, 0] @ two_frames"

lemma bad_first_events: "file_events bad_first_frame = map Some [] @ None # map Some two_events"
  by code_simp

lemma bad_first_run:
  "map_option fst (producer_run (plain_config 0 0) (\<lambda>k. 7) id bad_first_frame)
    = Some [\<lparr>pm_event = two_events ! 0, pm_recv_ns = 7, pm_sequence = 2\<rparr>,
            \<lparr>pm_event = two_events ! 1, pm_recv_ns = 7, pm_sequence = 3\<rparr>]"
  by code_simp

section \<open>Overflow\<close>

text \<open>
  When a message overflows the reorder buffer, the book thread ends with a book built from that one
  event alone, expects the next number, and holds nothing back: all earlier live orders are gone.
\<close>

lemma overflow_rebuilds_from_one_event:
  assumes "good_config (fix_config cfg)" and "length evs < 2 ^ 32"
    and "apply_all evs (new_book cfg) = Some (cs_book c)"
    and "fst (offer (pm_sequence m) (pm_event m) (cs_seq c)) = Overflow"
  shows "\<exists>c'. handle now m c = Some c'
    \<and> (\<forall>i < num_levels (fix_config cfg).
         orders_at (cs_book c') i = at_level (fix_config cfg) i (spec_apply (fix_config cfg) (pm_event m) []))
    \<and> expected (cs_seq c') = pm_sequence m + 1 \<and> reorder (cs_seq c') = [] \<and> \<not> stale (cs_seq c')"
proof -
  obtain b q where repr: "apply_all evs (new_book cfg) = Some b" "book_repr b q (spec_run cfg evs)"
      "bk_cfg b = fix_config cfg"
    using run_repr [OF assms(1,2)] by metis
  have b: "b = cs_book c" using repr(1) assms(3) by simp
  obtain s1 where off: "offer (pm_sequence m) (pm_event m) (cs_seq c) = (Overflow, s1)"
    using assms(4) by (cases "offer (pm_sequence m) (pm_event m) (cs_seq c)") auto
  note reset = book_repr_reset [OF repr(2)]
  have cfg': "bk_cfg (reset_book b) = fix_config cfg" using repr(3) by (simp add: reset_book_def)
  obtain b1 q1 where b1: "apply_event (pm_event m) (reset_book b) = Some b1"
      "book_repr b1 q1 (spec_apply (fix_config cfg) (pm_event m) [])" "bk_cfg b1 = fix_config cfg"
    using apply_refines [OF reset, of "pm_event m"] cfg' by (auto simp: refines_to_def)
  obtain bid ask where "best_bid b1 = Some bid" "best_ask b1 = Some ask" using tops_defined [OF b1(2)] by blast
  then obtain ch p1 where p1: "on_update b1 (cs_pub c) = Some (ch, p1)" using on_update_view by blast
  let ?c = "c\<lparr>cs_msgs := cs_msgs c + 1, cs_seq := resync_to_snapshot (pm_sequence m) s1,
    cs_book := b1, cs_pub := p1\<rparr>"
  have "deliver now m c = Some ?c"
    using off b1(1) p1 by (simp add: deliver_def apply_ev_def b)
  then have "handle now m c = Some (time_gap now ?c)" by (simp add: handle_def)
  moreover have "orders_at b1 i = at_level (fix_config cfg) i (spec_apply (fix_config cfg) (pm_event m) [])"
    if "i < num_levels (fix_config cfg)" for i
    using orders_at_repr [OF b1(2), of i] that b1(2,3) by (simp add: book_repr_def)
  ultimately show ?thesis
    by (intro exI [of _ "time_gap now ?c"]) (simp add: resync_to_snapshot_def)
qed

lemma overflow_rebuilds_from_one_event_witness:
  "\<exists>c c'. handle (\<lambda>k. 0) \<lparr>pm_event = add_event 9 Buy 101 3, pm_recv_ns = 0, pm_sequence = 7\<rparr> c = Some c'
    \<and> index (cs_book c) 1 \<noteq> None \<and> expected (cs_seq c') = 8
    \<and> orders_at (cs_book c') 1 = [\<lparr>rs_ref = 9, rs_price = 101, rs_size = 3, rs_side = Buy\<rparr>]
    \<and> orders_at (cs_book c') 2 = []"
proof -
  let ?evs = "[add_event 1 Buy 102 10]" and ?q = "new_sequencer (default_seq_config\<lparr>reorder_capacity := 0\<rparr>)"
  let ?m = "\<lparr>pm_event = add_event 9 Buy 101 3, pm_recv_ns = 0, pm_sequence = 7\<rparr>"
  obtain c0 where "new_consumer (plain_config 0 0) = Some c0" using new_consumer_ok by blast
  have len: "length ?evs < 2 ^ 32" by simp
  obtain b q where b: "apply_all ?evs (new_book small_config) = Some b"
      "book_repr b q (spec_run small_config ?evs)"
    using run_repr [OF _ len, of small_config] by (metis fix_small good_small)
  have run: "spec_run small_config ?evs = [\<lparr>rs_ref = 1, rs_price = 102, rs_size = 10, rs_side = Buy\<rparr>]"
    by (simp add: spec_run_def spec_apply_def spec_add_def add_event_def default_event_def)
  have i1: "index b 1 \<noteq> None" using repr_index [OF b(2), of 1] by (simp add: run)
  let ?c = "c0\<lparr>cs_book := b, cs_seq := ?q\<rparr>"
  have ov: "fst (offer (pm_sequence ?m) (pm_event ?m) (cs_seq ?c)) = Overflow"
    by (simp add: offer_def new_sequencer_def default_seq_config_def Let_def)
  have spec: "spec_apply small_config (add_event 9 Buy 101 3) [] = [\<lparr>rs_ref = 9, rs_price = 101, rs_size = 3, rs_side = Buy\<rparr>]"
    by (simp add: spec_apply_def spec_add_def add_event_def default_event_def)
  from overflow_rebuilds_from_one_event [of small_config ?evs ?c ?m "\<lambda>k. 0", OF _ _ _ ov] b(1)
  obtain c' where c': "handle (\<lambda>k. 0) ?m ?c = Some c'" "expected (cs_seq c') = 8"
      "\<forall>i < 8. orders_at (cs_book c') i = at_level small_config i (spec_apply small_config (pm_event ?m) [])"
    by auto
  from c'(3) have "orders_at (cs_book c') 1 = [\<lparr>rs_ref = 9, rs_price = 101, rs_size = 3, rs_side = Buy\<rparr>]"
    "orders_at (cs_book c') 2 = []"
    by (simp_all add: spec at_level_def)
  with c'(1,2) i1 show ?thesis by (intro exI [of _ ?c] exI [of _ c']) simp
qed

end
