(* ===== verification/Spsc_Memory.thy ===== *)
theory Spsc_Memory
  imports Spsc_Channel
begin

text \<open>
  The channel under the C++ memory model, for the accesses the code makes. An atomic location
  has the history of its stores; a load reads any of them that is not older than one the thread
  has read before and not hidden by a later store that happens before the load. A thread has a vector clock
  of the events of both threads that happen before its next step; a release store publishes the
  clock of its thread, and an acquire load that reads it takes the clock over. Slots are not
  atomic: an access races with an earlier one of the other thread that is not in the clock of the
  accessing thread, which is undefined behaviour, recorded in \<open>raced\<close>. The memory orders are an
  argument; \<open>code_orders\<close> are those of \<^verbatim>\<open>spsc_ring_buffer.hpp\<close> and of the done flag of \<^verbatim>\<open>pipeline.cpp\<close>.
\<close>

section \<open>Clocks and histories\<close>

datatype order = Relaxed | Acquire | Release

record orders =
  load_head :: order
  store_tail :: order
  load_tail :: order
  store_head :: order
  store_done :: order
  load_done :: order

definition code_orders :: orders where
  "code_orders = \<lparr>load_head = Acquire, store_tail = Release, load_tail = Acquire, store_head = Release,
     store_done = Release, load_done = Acquire\<rparr>"

text \<open>The number of events of the producer and of the consumer.\<close>

type_synonym clock = "nat \<times> nat"

record stamp =
  st_val :: u64
  st_epoch :: nat
  st_clock :: clock

definition first_stamp :: stamp where
  "first_stamp = \<lparr>st_val = 0, st_epoch = 0, st_clock = (0, 0)\<rparr>"

definition published :: "order \<Rightarrow> clock \<Rightarrow> clock" where
  "published mo c = (if mo = Release then c else (0, 0))"

definition acquired :: "order \<Rightarrow> stamp \<Rightarrow> clock \<Rightarrow> clock" where
  "acquired mo st c = (if mo = Acquire then (max (fst c) (fst (st_clock st)), max (snd c) (snd (st_clock st))) else c)"

text \<open>The stores a load may read, by their place in the history. \<open>seen\<close> is the place of the store read
  last, \<open>known\<close> the events of the storing thread that happen before the load.\<close>

definition readable :: "stamp list \<Rightarrow> nat \<Rightarrow> nat \<Rightarrow> nat \<Rightarrow> bool" where
  "readable hist seen known i \<longleftrightarrow> i < length hist \<and> seen \<le> i
     \<and> list_all (\<lambda>j. st_epoch (hist ! j) \<le> known \<longrightarrow> j \<le> i) [0..<length hist]"

section \<open>The two threads\<close>

record 'a weak =
  wk :: "'a duo"
  tail_hist :: "stamp list"
  head_hist :: "stamp list"
  done_hist :: "stamp list"
  p_clock :: clock
  c_clock :: clock
  p_seen :: nat
  c_seen :: nat
  d_seen :: nat
  slot_wrote :: "nat list"
  slot_read :: "nat list"
  raced :: bool

definition start_weak :: "nat \<Rightarrow> backpressure \<Rightarrow> 'a \<Rightarrow> 'a list \<Rightarrow> 'a weak" where
  "start_weak cap pol x xs = \<lparr>wk = start_duo cap pol x xs, tail_hist = [first_stamp], head_hist = [first_stamp],
     done_hist = [first_stamp], p_clock = (0, 0), c_clock = (0, 0), p_seen = 0, c_seen = 0, d_seen = 0,
     slot_wrote = replicate cap 0, slot_read = replicate cap 0, raced = False\<rparr>"

definition p_tick :: "'a weak \<Rightarrow> 'a weak" where
  "p_tick w = w\<lparr>p_clock := (Suc (fst (p_clock w)), snd (p_clock w))\<rparr>"

definition c_tick :: "'a weak \<Rightarrow> 'a weak" where
  "c_tick w = w\<lparr>c_clock := (fst (c_clock w), Suc (snd (c_clock w)))\<rparr>"

text \<open>The producer's load of the head, when its cached copy says full.\<close>

definition observe_head :: "orders \<Rightarrow> nat \<Rightarrow> 'a weak \<Rightarrow> (u64 \<times> 'a weak) option" where
  "observe_head mo i w =
    (let r = d_ring (wk w) in
     if rb_tail r - cached_head r \<ge> capacity r then
       if readable (head_hist w) (p_seen w) (snd (p_clock w)) i then
         Some (st_val (head_hist w ! i),
           w\<lparr>p_clock := acquired (load_head mo) (head_hist w ! i) (p_clock w), p_seen := i\<rparr>)
       else None
     else Some (cached_head r, w))"

definition produce :: "orders \<Rightarrow> nat \<Rightarrow> 'a weak \<Rightarrow> 'a weak option" where
  "produce mo i w =
    (let s = wk w; r = d_ring s in
     case p_phase s of
       P_idle \<Rightarrow>
         (case todo s of
            [] \<Rightarrow>
              if d_done s then None
              else let w = p_tick w in
                Some (w\<lparr>wk := s\<lparr>d_done := True\<rparr>, done_hist := done_hist w
                  @ [\<lparr>st_val = 1, st_epoch = fst (p_clock w), st_clock = published (store_done mo) (p_clock w)\<rparr>]\<rparr>)
          | x # xs \<Rightarrow>
              (case observe_head mo i w of
                 None \<Rightarrow> None
               | Some (obs, w) \<Rightarrow>
                   let (room, r) = push_check obs r in
                   Some (if room then w\<lparr>wk := s\<lparr>d_ring := r, p_phase := P_checked\<rparr>\<rparr>
                     else if d_policy s = Block then w\<lparr>wk := s\<lparr>d_ring := r\<rparr>\<rparr>
                     else w\<lparr>wk := s\<lparr>d_ring := r, todo := xs, d_dropped := d_dropped s + 1,
                       trace := trace s @ [(x, False)]\<rparr>\<rparr>)))
     | P_checked \<Rightarrow>
         (case todo s of
            [] \<Rightarrow> None
          | x # xs \<Rightarrow>
              let w = p_tick w; j = slot r (rb_tail r) in
              Some (w\<lparr>wk := s\<lparr>d_ring := push_write x r, p_phase := P_written\<rparr>,
                slot_wrote := (slot_wrote w)[j := fst (p_clock w)],
                raced := raced w \<or> snd (p_clock w) < slot_read w ! j\<rparr>))
     | P_written \<Rightarrow>
         (case todo s of
            [] \<Rightarrow> None
          | x # xs \<Rightarrow>
              let w = p_tick w in
              Some (w\<lparr>wk := s\<lparr>d_ring := push_publish r, p_phase := P_idle, todo := xs, trace := trace s @ [(x, True)]\<rparr>,
                tail_hist := tail_hist w @ [\<lparr>st_val = rb_tail r + 1, st_epoch = fst (p_clock w),
                  st_clock = published (store_tail mo) (p_clock w)\<rparr>]\<rparr>)))"

definition observe_tail :: "orders \<Rightarrow> nat \<Rightarrow> 'a weak \<Rightarrow> (u64 \<times> 'a weak) option" where
  "observe_tail mo i w =
    (let r = d_ring (wk w) in
     if rb_head r = cached_tail r then
       if readable (tail_hist w) (c_seen w) (fst (c_clock w)) i then
         Some (st_val (tail_hist w ! i),
           w\<lparr>c_clock := acquired (load_tail mo) (tail_hist w ! i) (c_clock w), c_seen := i\<rparr>)
       else None
     else Some (cached_tail r, w))"

definition consume_turn :: "orders \<Rightarrow> nat \<Rightarrow> 'a weak \<Rightarrow> 'a weak option" where
  "consume_turn mo i w =
    (let s = wk w; r = d_ring s in
     case c_phase s of
       C_idle \<Rightarrow>
         (case observe_tail mo i w of
            None \<Rightarrow> None
          | Some (obs, w) \<Rightarrow>
              let (some, r) = pop_check obs r in
              Some (w\<lparr>wk := s\<lparr>d_ring := r,
                c_phase := if some then C_checked else if saw_done s then C_finished else C_idle\<rparr>\<rparr>))
     | C_checked \<Rightarrow>
         let w = c_tick w; j = slot r (rb_head r) in
         Some (w\<lparr>wk := s\<lparr>c_phase := C_read (pop_read r)\<rparr>,
           slot_read := (slot_read w)[j := snd (c_clock w)],
           raced := raced w \<or> fst (c_clock w) < slot_wrote w ! j\<rparr>)
     | C_read x \<Rightarrow>
         let w = c_tick w in
         Some (w\<lparr>wk := s\<lparr>d_ring := pop_release r, c_phase := C_idle, received := received s @ [x]\<rparr>,
           head_hist := head_hist w @ [\<lparr>st_val = rb_head r + 1, st_epoch = snd (c_clock w),
             st_clock = published (store_head mo) (c_clock w)\<rparr>]\<rparr>)
     | C_finished \<Rightarrow> None)"

text \<open>The consumer's load of the done flag.\<close>

definition look :: "orders \<Rightarrow> nat \<Rightarrow> 'a weak \<Rightarrow> 'a weak option" where
  "look mo i w =
    (let s = wk w in
     if c_phase s = C_idle \<and> readable (done_hist w) (d_seen w) (fst (c_clock w)) i then
       Some (w\<lparr>c_clock := acquired (load_done mo) (done_hist w ! i) (c_clock w), d_seen := i,
         wk := if st_val (done_hist w ! i) = 1 then s\<lparr>saw_done := True\<rparr> else s\<rparr>)
     else None)"

datatype weak_turn = Produce nat | Consume nat | Look nat

definition turn_of :: "orders \<Rightarrow> weak_turn \<Rightarrow> 'a weak \<Rightarrow> 'a weak option" where
  "turn_of mo t w = (case t of Produce i \<Rightarrow> produce mo i w | Consume i \<Rightarrow> consume_turn mo i w | Look i \<Rightarrow> look mo i w)"

fun weak_turns :: "orders \<Rightarrow> weak_turn list \<Rightarrow> 'a weak \<Rightarrow> 'a weak option" where
  "weak_turns mo [] w = Some w"
| "weak_turns mo (t # ts) w = (case turn_of mo t w of None \<Rightarrow> None | Some w \<Rightarrow> weak_turns mo ts w)"

section \<open>What a history publishes\<close>

definition pub_ok :: "(clock \<Rightarrow> nat) \<Rightarrow> stamp list \<Rightarrow> nat \<Rightarrow> nat \<Rightarrow> bool" where
  "pub_ok f hist n c \<longleftrightarrow> length hist = Suc n \<and> (\<forall>i \<le> n. st_val (hist ! i) = of_nat i)
     \<and> (\<forall>i j. i \<le> j \<and> j \<le> n \<longrightarrow> f (st_clock (hist ! i)) \<le> f (st_clock (hist ! j)))
     \<and> (\<forall>i \<le> n. f (st_clock (hist ! i)) \<le> c \<and> st_epoch (hist ! i) \<le> c)"

lemma pub_ok_first: "f (0, 0) = 0 \<Longrightarrow> pub_ok f [first_stamp] 0 0"
  by (simp add: pub_ok_def first_stamp_def)

lemma pub_ok_le: "pub_ok f hist n c \<Longrightarrow> c \<le> c' \<Longrightarrow> pub_ok f hist n c'"
  by (fastforce simp: pub_ok_def)

lemma pub_ok_snoc:
  assumes "pub_ok f hist n c" and "c \<le> f clk" and "e \<le> f clk" and "v = of_nat (Suc n)"
  shows "pub_ok f (hist @ [\<lparr>st_val = v, st_epoch = e, st_clock = clk\<rparr>]) (Suc n) (f clk)"
proof -
  define s where "s = \<lparr>st_val = v, st_epoch = e, st_clock = clk\<rparr>"
  have s: "st_val s = of_nat (Suc n)" "st_epoch s \<le> f clk" "st_clock s = clk" using assms(3,4) by (simp_all add: s_def)
  have h: "(hist @ [s]) ! i = (if i \<le> n then hist ! i else s)" if "i \<le> Suc n" for i
    using assms(1) that by (auto simp: pub_ok_def nth_append)
  have mono: "f (st_clock (hist ! i)) \<le> f (st_clock (hist ! j))" if "i \<le> j" "j \<le> n" for i j
    using assms(1) that by (simp add: pub_ok_def)
  have old: "f (st_clock (hist ! i)) \<le> f clk \<and> st_epoch (hist ! i) \<le> f clk" "st_val (hist ! i) = of_nat i" if "i \<le> n" for i
    using assms(1,2) that unfolding pub_ok_def by (meson le_trans)+
  have len: "length hist = Suc n" using assms(1) by (simp add: pub_ok_def)
  have "st_val ((hist @ [s]) ! i) = of_nat i" if "i \<le> Suc n" for i
    using that old [of i] s(1) by (cases "i = Suc n") (simp_all add: h del: of_nat_Suc)
  moreover have "f (st_clock ((hist @ [s]) ! i)) \<le> f (st_clock ((hist @ [s]) ! j))" if "i \<le> j" "j \<le> Suc n" for i j
    using that mono [of i j] old [of i] s(3) by (auto simp: h)
  moreover have "f (st_clock ((hist @ [s]) ! i)) \<le> f clk \<and> st_epoch ((hist @ [s]) ! i) \<le> f clk" if "i \<le> Suc n" for i
    using that old [of i] s(2,3) by (auto simp: h)
  ultimately show ?thesis unfolding s_def [symmetric] pub_ok_def using len by simp
qed

text \<open>What the tail's history tells the consumer: \<open>n\<close> items sent, \<open>g\<close> received; \<open>pf\<close> and \<open>cf\<close> are the
  producer's events in the clocks of the producer and of the consumer.\<close>

definition tail_side ::
    "nat \<Rightarrow> stamp list \<Rightarrow> nat \<Rightarrow> nat \<Rightarrow> nat \<Rightarrow> nat \<Rightarrow> nat \<Rightarrow> nat list \<Rightarrow> u64 \<Rightarrow> bool \<Rightarrow> bool" where
  "tail_side k hist n g pf cf seen wrote ct busy \<longleftrightarrow> pub_ok fst hist n pf \<and> ct = of_nat seen \<and> g \<le> seen \<and> seen \<le> n
     \<and> fst (st_clock (hist ! seen)) \<le> cf \<and> length wrote = 2 ^ k
     \<and> (\<forall>j. g \<le> j \<and> j < n \<longrightarrow> wrote ! (j mod 2 ^ k) \<le> fst (st_clock (hist ! Suc j)))
     \<and> (\<forall>j < 2 ^ k. wrote ! j \<le> pf) \<and> (busy \<longrightarrow> g < seen)"

lemma tail_load:
  assumes "tail_side k hist n g pf cf seen wrote ct busy" and "readable hist seen cf i"
  shows "i \<le> n \<and> g \<le> i \<and> tail_side k hist n g pf (max cf (fst (st_clock (hist ! i)))) i wrote (of_nat i) (g < i)"
  using assms by (auto simp: tail_side_def readable_def pub_ok_def)

lemma tail_write:
  assumes "tail_side k hist n g pf cf seen wrote ct busy" and "n < g + 2 ^ k" and "pf \<le> e"
  shows "tail_side k hist n g e cf seen (wrote[n mod 2 ^ k := e]) ct busy"
proof -
  have "j mod 2 ^ k \<noteq> n mod 2 ^ k" if "g \<le> j" "j < n" for j
    using mod_window_inj [of j k n] that assms(2) by auto
  moreover have "(wrote[n mod 2 ^ k := e]) ! x = (if x = n mod 2 ^ k then e else wrote ! x)" for x
    using assms(1) by (simp add: tail_side_def nth_list_update)
  moreover have "\<forall>j < 2 ^ k. wrote ! j \<le> e" using assms(1,3) unfolding tail_side_def by (meson le_trans)
  moreover have "pub_ok fst hist n e" using assms(1,3) pub_ok_le unfolding tail_side_def by blast
  ultimately show ?thesis using assms(1) by (simp add: tail_side_def)
qed

lemma tail_publish:
  assumes "tail_side k hist n g pf cf seen wrote ct busy" and "pf \<le> fst clk" and "e \<le> fst clk" and "v = of_nat (Suc n)"
  shows "tail_side k (hist @ [\<lparr>st_val = v, st_epoch = e, st_clock = clk\<rparr>]) (Suc n) g (fst clk) cf seen wrote ct busy"
proof -
  have len: "length hist = Suc n" and b: "\<forall>j < 2 ^ k. wrote ! j \<le> pf" using assms(1) by (auto simp: tail_side_def pub_ok_def)
  have "wrote ! (n mod 2 ^ k) \<le> fst clk" using b assms(2) by (meson le_trans mod_less_divisor zero_less_numeral zero_less_power)
  moreover have "\<forall>j < 2 ^ k. wrote ! j \<le> fst clk" using b assms(2) by (meson le_trans)
  moreover have "pub_ok fst (hist @ [\<lparr>st_val = v, st_epoch = e, st_clock = clk\<rparr>]) (Suc n) (fst clk)"
    using assms pub_ok_snoc [of fst hist n pf clk e v] by (simp add: tail_side_def)
  ultimately show ?thesis
    using assms(1) len by (auto simp: tail_side_def nth_append less_Suc_eq)
qed

lemma tail_release:
  "tail_side k hist n g pf cf seen wrote ct True \<Longrightarrow> tail_side k hist n (Suc g) pf cf seen wrote ct False"
  by (auto simp: tail_side_def)

text \<open>The consumer's read of its slot does not race.\<close>

lemma tail_read:
  assumes "tail_side k hist n g pf cf seen wrote ct True"
  shows "wrote ! (g mod 2 ^ k) \<le> cf"
proof -
  have "wrote ! (g mod 2 ^ k) \<le> fst (st_clock (hist ! Suc g))" "Suc g \<le> seen" "seen \<le> n" "fst (st_clock (hist ! seen)) \<le> cf"
    using assms by (auto simp: tail_side_def)
  moreover from this have "fst (st_clock (hist ! Suc g)) \<le> fst (st_clock (hist ! seen))"
    using assms by (auto simp: tail_side_def pub_ok_def)
  ultimately show ?thesis by linarith
qed

text \<open>What the head's history tells the producer; \<open>pf\<close> and \<open>cf\<close> are the consumer's events in the two clocks.\<close>

definition head_side ::
    "nat \<Rightarrow> stamp list \<Rightarrow> nat \<Rightarrow> nat \<Rightarrow> nat \<Rightarrow> nat \<Rightarrow> nat \<Rightarrow> nat list \<Rightarrow> u64 \<Rightarrow> bool \<Rightarrow> bool \<Rightarrow> bool" where
  "head_side k hist n g pf cf seen rd ch reading room \<longleftrightarrow> pub_ok snd hist g cf \<and> ch = of_nat seen \<and> seen \<le> g
     \<and> n \<le> seen + 2 ^ k \<and> snd (st_clock (hist ! seen)) \<le> pf \<and> length rd = 2 ^ k
     \<and> (\<forall>m. (if reading then Suc g else g) \<le> m \<and> m < g + 2 ^ k \<longrightarrow>
          rd ! (m mod 2 ^ k) \<le> (if m < 2 ^ k then 0 else snd (st_clock (hist ! Suc (m - 2 ^ k)))))
     \<and> (\<forall>j < 2 ^ k. rd ! j \<le> cf) \<and> (room \<longrightarrow> n < seen + 2 ^ k)"

lemma head_load:
  assumes "head_side k hist n g pf cf seen rd ch reading room" and "readable hist seen pf i"
  shows "i \<le> g \<and> n \<le> i + 2 ^ k
    \<and> head_side k hist n g (max pf (snd (st_clock (hist ! i)))) cf i rd (of_nat i) reading (n < i + 2 ^ k)"
  using assms by (auto simp: head_side_def readable_def pub_ok_def)

text \<open>The producer's write to its slot does not race.\<close>

lemma head_write:
  assumes "head_side k hist n g pf cf seen rd ch reading True" and "g \<le> n" and "reading \<longrightarrow> g < n"
  shows "rd ! (n mod 2 ^ k) \<le> pf"
proof -
  have "n < seen + 2 ^ k" "seen \<le> g" "snd (st_clock (hist ! seen)) \<le> pf" using assms(1) by (auto simp: head_side_def)
  moreover from this have "(if reading then Suc g else g) \<le> n \<and> n < g + 2 ^ k" using assms(2,3) by auto
  then have "rd ! (n mod 2 ^ k) \<le> (if n < 2 ^ k then 0 else snd (st_clock (hist ! Suc (n - 2 ^ k))))"
    using assms(1) unfolding head_side_def by blast
  moreover have "snd (st_clock (hist ! Suc (n - 2 ^ k))) \<le> snd (st_clock (hist ! seen))" if "\<not> n < 2 ^ k"
    using assms(1) that calculation(1) by (auto simp: head_side_def pub_ok_def)
  ultimately show ?thesis by (cases "n < 2 ^ k") auto
qed

lemma head_publish:
  "head_side k hist n g pf cf seen rd ch reading True \<Longrightarrow> head_side k hist (Suc n) g pf cf seen rd ch reading False"
  by (auto simp: head_side_def)

lemma head_read:
  assumes "head_side k hist n g pf cf seen rd ch False room" and "cf \<le> e"
  shows "head_side k hist n g pf e seen (rd[g mod 2 ^ k := e]) ch True room"
proof -
  have "m mod 2 ^ k \<noteq> g mod 2 ^ k" if "Suc g \<le> m" "m < g + 2 ^ k" for m
    using mod_window_inj [of g k m] that by auto
  moreover have "(rd[g mod 2 ^ k := e]) ! x = (if x = g mod 2 ^ k then e else rd ! x)" for x
    using assms(1) by (simp add: head_side_def nth_list_update)
  moreover have "\<forall>j < 2 ^ k. rd ! j \<le> e" using assms unfolding head_side_def by (meson le_trans)
  moreover have "pub_ok snd hist g e" using assms pub_ok_le unfolding head_side_def by blast
  ultimately show ?thesis using assms(1) by (simp add: head_side_def)
qed

lemma head_release:
  assumes "head_side k hist n g pf cf seen rd ch True room" and "cf \<le> snd clk" and "e \<le> snd clk" and "v = of_nat (Suc g)"
  shows "head_side k (hist @ [\<lparr>st_val = v, st_epoch = e, st_clock = clk\<rparr>]) n (Suc g) pf (snd clk) seen rd ch False room"
proof -
  have len: "length hist = Suc g" and b: "\<forall>j < 2 ^ k. rd ! j \<le> cf" using assms(1) by (auto simp: head_side_def pub_ok_def)
  have "rd ! (m mod 2 ^ k) \<le> snd clk" for m
    using b assms(2) by (meson le_trans mod_less_divisor zero_less_numeral zero_less_power)
  moreover have "\<forall>j < 2 ^ k. rd ! j \<le> snd clk" using b assms(2) by (meson le_trans)
  moreover have "pub_ok snd (hist @ [\<lparr>st_val = v, st_epoch = e, st_clock = clk\<rparr>]) (Suc g) (snd clk)"
    using assms pub_ok_snoc [of snd hist g cf clk e v] by (simp add: head_side_def)
  ultimately show ?thesis
    using assms(1) len by (auto simp: head_side_def nth_append)
qed

lemma tail_mono:
  "tail_side k hist n g pf cf seen wrote ct busy \<Longrightarrow> pf \<le> pf' \<Longrightarrow> cf \<le> cf' \<Longrightarrow>
    tail_side k hist n g pf' cf' seen wrote ct busy"
  unfolding tail_side_def by (meson le_trans pub_ok_le)

lemma head_mono:
  "head_side k hist n g pf cf seen rd ch reading room \<Longrightarrow> pf \<le> pf' \<Longrightarrow> cf \<le> cf' \<Longrightarrow>
    head_side k hist n g pf' cf' seen rd ch reading room"
  unfolding head_side_def by (meson le_trans pub_ok_le)

section \<open>The invariant\<close>

definition busy :: "'a cons_phase \<Rightarrow> bool" where
  "busy c \<longleftrightarrow> (case c of C_checked \<Rightarrow> True | C_read x \<Rightarrow> True | _ \<Rightarrow> False)"

definition reading :: "'a cons_phase \<Rightarrow> bool" where
  "reading c \<longleftrightarrow> (case c of C_read x \<Rightarrow> True | _ \<Rightarrow> False)"

lemma phase_simps [simp]:
  "\<not> busy C_idle" "busy C_checked" "busy (C_read x)" "\<not> busy C_finished"
  "\<not> reading C_idle" "\<not> reading C_checked" "reading (C_read x)" "\<not> reading C_finished"
  by (simp_all add: busy_def reading_def)

text \<open>Seeing the done flag makes every store of the tail known.\<close>

definition done_side :: "stamp list \<Rightarrow> stamp list \<Rightarrow> bool \<Rightarrow> bool \<Rightarrow> nat \<Rightarrow> bool" where
  "done_side hist tails dn saw cf \<longleftrightarrow>
     (if dn then \<exists>st. hist = [first_stamp, st] \<and> st_val st = 1 \<and> (\<forall>tl \<in> set tails. st_epoch tl \<le> fst (st_clock st))
      else hist = [first_stamp])
     \<and> (saw \<longrightarrow> (\<forall>tl \<in> set tails. st_epoch tl \<le> cf))"

definition weak_inv :: "nat \<Rightarrow> backpressure \<Rightarrow> 'a list \<Rightarrow> 'a weak \<Rightarrow> bool" where
  "weak_inv k pol xs w \<longleftrightarrow>
    (let s = wk w; r = d_ring s; n = length (sent s); g = length (received s) in
     duo_inv k pol xs s \<and> \<not> raced w
     \<and> tail_side k (tail_hist w) n g (fst (p_clock w)) (fst (c_clock w)) (c_seen w) (slot_wrote w) (cached_tail r)
         (busy (c_phase s))
     \<and> head_side k (head_hist w) n g (snd (p_clock w)) (snd (c_clock w)) (p_seen w) (slot_read w) (cached_head r)
         (reading (c_phase s)) (p_phase s \<noteq> P_idle)
     \<and> done_side (done_hist w) (tail_hist w) (d_done s) (saw_done s) (fst (c_clock w))
     \<and> d_seen w < length (done_hist w))"

lemma weak_invE:
  assumes "weak_inv k pol xs w"
  obtains s r n g where "wk w = s" "r = d_ring s" "n = length (sent s)" "g = length (received s)" "duo_inv k pol xs s"
    "ring_inv k r (sent s) g" "\<not> raced w"
    "tail_side k (tail_hist w) n g (fst (p_clock w)) (fst (c_clock w)) (c_seen w) (slot_wrote w) (cached_tail r)
      (busy (c_phase s))"
    "head_side k (head_hist w) n g (snd (p_clock w)) (snd (c_clock w)) (p_seen w) (slot_read w) (cached_head r)
      (reading (c_phase s)) (p_phase s \<noteq> P_idle)"
    "done_side (done_hist w) (tail_hist w) (d_done s) (saw_done s) (fst (c_clock w))" "d_seen w < length (done_hist w)"
  using assms by (auto simp: weak_inv_def Let_def duo_inv_def)

lemma weak_inv_start: "k < 64 \<Longrightarrow> weak_inv k pol xs (start_weak (2 ^ k) pol x xs)"
  using duo_inv_start [of k pol xs x]
  by (simp add: weak_inv_def start_weak_def tail_side_def head_side_def done_side_def pub_ok_first start_duo_def sent_def
      new_ring_def Let_def) (simp add: first_stamp_def)

text \<open>The tests of the two operations, with the value they observe.\<close>

lemma full_iff:
  assumes "ring_inv k r xs got" and "a \<le> got" and "length xs \<le> a + 2 ^ k"
  shows "rb_tail r - of_nat a \<ge> capacity r \<longleftrightarrow> length xs = a + 2 ^ k"
proof -
  have "k < 64" "rb_tail r = of_nat (length xs)" "unat (capacity r) = 2 ^ k" "a \<le> length xs"
    using assms unat_capacity [of k] by (auto simp: ring_inv_def capacity_def)
  then show ?thesis using unat_diff_counters [of a "length xs" k] assms(3) by (auto simp: word_le_nat_alt)
qed

lemma push_check_observed:
  assumes "ring_inv k r xs got" and "a \<le> got" and "length xs \<le> a + 2 ^ k"
    and "push_check (of_nat a) r = (room, r')" and "rb_tail r - cached_head r \<ge> capacity r \<or> cached_head r = of_nat a"
  shows "cached_head r' = of_nat a \<and> (room \<longrightarrow> length xs < a + 2 ^ k) \<and> cached_tail r' = cached_tail r"
  using assms(3-5) full_iff [OF assms(1-3)]
  by (auto simp: push_check_def Let_def capacity_def split: if_splits)

lemma empty_iff:
  assumes "ring_inv k r xs got" and "got \<le> a" and "a \<le> length xs"
  shows "rb_head r = of_nat a \<longleftrightarrow> a = got"
  using assms counters_equal [of got a k] by (auto simp: ring_inv_def)

lemma mono_clocks:
  assumes "weak_inv k pol xs w" and "wk w = s"
  shows "duo_inv k pol xs s" "\<not> raced w" "ring_inv k (d_ring s) (sent s) (length (received s))"
    "producer_ok k s" "consumer_ok s"
  using assms by (auto simp: weak_inv_def Let_def duo_inv_def)

lemma observe_head_ok:
  assumes "weak_inv k pol xs w" and "observe_head code_orders i w = Some (obs, w')"
  obtains h c where "w' = w\<lparr>p_clock := c, p_seen := h\<rparr>" "obs = of_nat h" "fst (p_clock w) \<le> fst c"
    "h \<le> length (received (wk w))" "length (sent (wk w)) \<le> h + 2 ^ k"
    "rb_tail (d_ring (wk w)) - cached_head (d_ring (wk w)) \<ge> capacity (d_ring (wk w)) \<or> cached_head (d_ring (wk w)) = of_nat h"
    "head_side k (head_hist w) (length (sent (wk w))) (length (received (wk w))) (snd c) (snd (c_clock w)) h (slot_read w)
      (of_nat h) (reading (c_phase (wk w))) (length (sent (wk w)) < h + 2 ^ k)"
proof -
  let ?r = "d_ring (wk w)"
  obtain n g where n: "n = length (sent (wk w))" "g = length (received (wk w))" by blast
  have hs: "head_side k (head_hist w) n g (snd (p_clock w)) (snd (c_clock w)) (p_seen w) (slot_read w) (cached_head ?r)
      (reading (c_phase (wk w))) (p_phase (wk w) \<noteq> P_idle)"
    using assms(1) n by (simp add: weak_inv_def Let_def)
  show ?thesis
  proof (cases "rb_tail ?r - cached_head ?r \<ge> capacity ?r")
    case True
    then have rd: "readable (head_hist w) (p_seen w) (snd (p_clock w)) i" and
      obs: "obs = st_val (head_hist w ! i)"
        "w' = w\<lparr>p_clock := acquired Acquire (head_hist w ! i) (p_clock w), p_seen := i\<rparr>"
      using assms(2) by (auto simp: observe_head_def code_orders_def Let_def split: if_splits)
    note hl = head_load [OF hs rd]
    have "st_val (head_hist w ! i) = of_nat i" using hs hl by (auto simp: head_side_def pub_ok_def)
    then show ?thesis using that [OF obs(2)] obs(1) hl True n by (simp add: acquired_def)
  next
    case False
    then have obs: "obs = cached_head ?r" "w' = w"
      using assms(2) by (auto simp: observe_head_def Let_def)
    have "head_side k (head_hist w) n g (snd (p_clock w)) (snd (c_clock w)) (p_seen w) (slot_read w) (cached_head ?r)
      (reading (c_phase (wk w))) (n < p_seen w + 2 ^ k)" "cached_head ?r = of_nat (p_seen w)" "p_seen w \<le> g" "n \<le> p_seen w + 2 ^ k"
      using hs by (auto simp: head_side_def)
    then show ?thesis using that [of "p_seen w" "p_clock w"] obs n by simp
  qed
qed

lemma head_room: "head_side k hist n g pf cf seen rd ch b room \<Longrightarrow> (room' \<longrightarrow> n < seen + 2 ^ k) \<Longrightarrow>
    head_side k hist n g pf cf seen rd ch b room'"
  by (simp add: head_side_def)

lemma produce_check:
  assumes inv: "weak_inv k pol xs w" and st: "p_phase (wk w) = P_idle" "todo (wk w) = y # ys"
    and t: "produce code_orders i w = Some w'"
  shows "weak_inv k pol xs w' \<and> duo_step (wk w) (wk w')"
proof -
  define s where "s = wk w"
  note m = mono_clocks [OF inv s_def [symmetric]]
  obtain obs w1 where ob: "observe_head code_orders i w = Some (obs, w1)"
    using t st by (auto simp: produce_def Let_def split: option.splits)
  obtain room r where chk: "push_check obs (d_ring s) = (room, r)" by fastforce
  obtain h c where h: "w1 = w\<lparr>p_clock := c, p_seen := h\<rparr>" "obs = of_nat h" "fst (p_clock w) \<le> fst c"
    "h \<le> length (received s)" "length (sent s) \<le> h + 2 ^ k"
    "rb_tail (d_ring s) - cached_head (d_ring s) \<ge> capacity (d_ring s) \<or> cached_head (d_ring s) = of_nat h"
    "head_side k (head_hist w) (length (sent s)) (length (received s)) (snd c) (snd (c_clock w)) h (slot_read w)
      (of_nat h) (reading (c_phase s)) (length (sent s) < h + 2 ^ k)"
    by (rule observe_head_ok [OF inv ob]) (simp add: s_def)
  note po = push_check_observed [OF m(3) h(4,5) chk [unfolded h(2)] h(6)]
  have buf: "length (sent s) \<le> h + length (rb_buf (d_ring s))" using h(5) duo_inv_buf [OF m(1)] by simp
  have w': "w' = (if room then w1\<lparr>wk := s\<lparr>d_ring := r, p_phase := P_checked\<rparr>\<rparr>
      else if d_policy s = Block then w1\<lparr>wk := s\<lparr>d_ring := r\<rparr>\<rparr>
      else w1\<lparr>wk := s\<lparr>d_ring := r, todo := ys, d_dropped := d_dropped s + 1, trace := trace s @ [(y, False)]\<rparr>\<rparr>)"
    using t st ob chk by (simp add: produce_def Let_def s_def [symmetric])
  have step: "duo_step s (wk w')"
  proof (cases room)
    case True
    then show ?thesis using w' h(1) duo_step.send_check [of s h r] st chk h(2,4) buf by (simp add: s_def)
  next
    case False
    show ?thesis
    proof (cases "d_policy s")
      case Block
      then show ?thesis using w' h(1) duo_step.send_spin [of s h r] st chk h(2,4) buf False by (simp add: s_def)
    next
      case Drop_item
      then show ?thesis using w' h(1) duo_step.send_drop [of s y ys h r] st chk h(2,4) buf False by (simp add: s_def)
    qed
  qed
  have ts: "tail_side k (tail_hist w) (length (sent s)) (length (received s)) (fst c) (fst (c_clock w)) (c_seen w) (slot_wrote w)
      (cached_tail r) (busy (c_phase s))"
    using inv tail_mono [OF _ h(3) order_refl] po by (simp add: weak_inv_def Let_def s_def)
  have ds: "done_side (done_hist w) (tail_hist w) (d_done s) (saw_done s) (fst (c_clock w)) \<and> d_seen w < length (done_hist w)"
    using inv by (simp add: weak_inv_def Let_def s_def)
  have same: "sent (wk w') = sent s" "received (wk w') = received s" "d_ring (wk w') = r" "c_phase (wk w') = c_phase s"
    "p_phase (wk w') \<noteq> P_idle \<longrightarrow> room" "d_done (wk w') = d_done s" "saw_done (wk w') = saw_done s"
    "tail_hist w' = tail_hist w" "head_hist w' = head_hist w" "done_hist w' = done_hist w" "p_clock w' = c" "c_clock w' = c_clock w"
    "p_seen w' = h" "c_seen w' = c_seen w" "d_seen w' = d_seen w" "slot_wrote w' = slot_wrote w" "slot_read w' = slot_read w" "raced w' = raced w"
    using w' h(1) st by (auto simp: s_def sent_def)
  have "head_side k (head_hist w) (length (sent s)) (length (received s)) (snd c) (snd (c_clock w)) h (slot_read w)
      (cached_head r) (reading (c_phase s)) (p_phase (wk w') \<noteq> P_idle)"
    using head_room [OF h(7)] po same(5) by auto
  then show ?thesis
    using step duo_inv_step [OF m(1) step] m(2) ts ds by (simp add: s_def weak_inv_def Let_def same [unfolded s_def])
qed

lemma produce_write:
  assumes inv: "weak_inv k pol xs w" and st: "p_phase (wk w) = P_checked"
    and t: "produce code_orders i w = Some w'"
  shows "weak_inv k pol xs w' \<and> duo_step (wk w) (wk w')"
proof -
  from inv obtain s r n g where w: "wk w = s" "r = d_ring s" "n = length (sent s)" "g = length (received s)"
      "duo_inv k pol xs s" "ring_inv k r (sent s) g" "\<not> raced w"
    and ts: "tail_side k (tail_hist w) n g (fst (p_clock w)) (fst (c_clock w)) (c_seen w) (slot_wrote w) (cached_tail r)
      (busy (c_phase s))"
    and hs: "head_side k (head_hist w) n g (snd (p_clock w)) (snd (c_clock w)) (p_seen w) (slot_read w) (cached_head r)
      (reading (c_phase s)) (p_phase s \<noteq> P_idle)"
    and ds: "done_side (done_hist w) (tail_hist w) (d_done s) (saw_done s) (fst (c_clock w))"
    and dl: "d_seen w < length (done_hist w)"
    by (rule weak_invE)
  obtain y ys where y: "todo s = y # ys" using t st w(1) by (auto simp: produce_def Let_def split: list.splits)
  let ?e = "Suc (fst (p_clock w))"
  have j: "slot r (rb_tail r) = n mod 2 ^ k"
    using w(3,6) slot_mod [of r k n] by (simp add: ring_inv_def)
  have step: "duo_step s (s\<lparr>d_ring := push_write y r, p_phase := P_written\<rparr>)"
    using duo_step.send_write [of s y ys] st w(1,2) y by simp
  have busy: "reading (c_phase s) \<longrightarrow> g < n" "g \<le> n"
    using w(3-6) by (auto simp: duo_inv_def consumer_ok_def reading_def has_item_def ring_inv_def split: cons_phase.splits)
  have room: "n < g + 2 ^ k" using w(3-5) st w(1) by (auto simp: duo_inv_def producer_ok_def dest: has_roomD)
  have race: "slot_read w ! (n mod 2 ^ k) \<le> snd (p_clock w)" using head_write [OF _ busy(2,1)] hs st w(1) by simp
  have w': "w' = w\<lparr>p_clock := (?e, snd (p_clock w)), wk := s\<lparr>d_ring := push_write y r, p_phase := P_written\<rparr>,
      slot_wrote := (slot_wrote w)[n mod 2 ^ k := ?e], raced := False\<rparr>"
    using t st w(1,2,7) y j race by (simp add: produce_def p_tick_def Let_def)
  show ?thesis
    using duo_inv_step [OF w(5) step] step dl w(1-4,7) ds hs st tail_write [OF ts room le_SucI [OF order_refl]]
    by (simp add: w' weak_inv_def Let_def push_write_def)
qed

lemma produce_publish:
  assumes inv: "weak_inv k pol xs w" and st: "p_phase (wk w) = P_written"
    and t: "produce code_orders i w = Some w'"
  shows "weak_inv k pol xs w' \<and> duo_step (wk w) (wk w')"
proof -
  from inv obtain s r n g where w: "wk w = s" "r = d_ring s" "n = length (sent s)" "g = length (received s)"
      "duo_inv k pol xs s" "ring_inv k r (sent s) g" "\<not> raced w"
    and ts: "tail_side k (tail_hist w) n g (fst (p_clock w)) (fst (c_clock w)) (c_seen w) (slot_wrote w) (cached_tail r)
      (busy (c_phase s))"
    and hs: "head_side k (head_hist w) n g (snd (p_clock w)) (snd (c_clock w)) (p_seen w) (slot_read w) (cached_head r)
      (reading (c_phase s)) (p_phase s \<noteq> P_idle)"
    and ds: "done_side (done_hist w) (tail_hist w) (d_done s) (saw_done s) (fst (c_clock w))"
    and dl: "d_seen w < length (done_hist w)"
    by (rule weak_invE)
  obtain y ys where y: "todo s = y # ys" using t st w(1) by (auto simp: produce_def Let_def split: list.splits)
  let ?c = "(Suc (fst (p_clock w)), snd (p_clock w))"
  let ?st = "\<lparr>st_val = rb_tail r + 1, st_epoch = fst ?c, st_clock = ?c\<rparr>"
  have v: "rb_tail r + 1 = of_nat (Suc n)" using w(3,6) by (simp add: ring_inv_def)
  have step: "duo_step s (s\<lparr>d_ring := push_publish r, p_phase := P_idle, todo := ys, trace := trace s @ [(y, True)]\<rparr>)"
    using duo_step.send_publish [of s y ys] st w(1,2) y by simp
  have w': "w' = w\<lparr>p_clock := ?c, wk := s\<lparr>d_ring := push_publish r, p_phase := P_idle, todo := ys,
      trace := trace s @ [(y, True)]\<rparr>, tail_hist := tail_hist w @ [?st]\<rparr>"
    using t st w(1,2) y by (simp add: produce_def p_tick_def Let_def published_def code_orders_def)
  have tp: "tail_side k (tail_hist w @ [?st]) (Suc n) g (fst ?c) (fst (c_clock w)) (c_seen w) (slot_wrote w) (cached_tail r)
      (busy (c_phase s))"
    by (rule tail_publish [OF ts _ _ v]) simp_all
  have hp: "head_side k (head_hist w) (Suc n) g (snd (p_clock w)) (snd (c_clock w)) (p_seen w) (slot_read w) (cached_head r)
      (reading (c_phase s)) False"
    using head_publish hs st w(1) by simp
  have nd: "\<not> d_done s" "\<not> saw_done s" using w(5) st w(1) by (auto simp: duo_inv_def)
  have "done_side (done_hist w) (tail_hist w @ [?st]) (d_done s) (saw_done s) (fst (c_clock w))"
    using ds nd by (simp add: done_side_def)
  then show ?thesis
    using duo_inv_step [OF w(5) step] step dl w(1-4,7) tp hp st
    by (simp add: w' weak_inv_def Let_def push_publish_def sent_def)
qed

lemma produce_finish:
  assumes inv: "weak_inv k pol xs w" and st: "p_phase (wk w) = P_idle" "todo (wk w) = []"
    and t: "produce code_orders i w = Some w'"
  shows "weak_inv k pol xs w' \<and> duo_step (wk w) (wk w')"
proof -
  from inv obtain s r n g where w: "wk w = s" "r = d_ring s" "n = length (sent s)" "g = length (received s)"
      "duo_inv k pol xs s" "ring_inv k r (sent s) g" "\<not> raced w"
    and ts: "tail_side k (tail_hist w) n g (fst (p_clock w)) (fst (c_clock w)) (c_seen w) (slot_wrote w) (cached_tail r)
      (busy (c_phase s))"
    and hs: "head_side k (head_hist w) n g (snd (p_clock w)) (snd (c_clock w)) (p_seen w) (slot_read w) (cached_head r)
      (reading (c_phase s)) (p_phase s \<noteq> P_idle)"
    and ds: "done_side (done_hist w) (tail_hist w) (d_done s) (saw_done s) (fst (c_clock w))"
    and dl: "d_seen w < length (done_hist w)"
    by (rule weak_invE)
  let ?c = "(Suc (fst (p_clock w)), snd (p_clock w))"
  let ?st = "\<lparr>st_val = 1, st_epoch = fst ?c, st_clock = ?c\<rparr>"
  have nd: "\<not> d_done s" using t st w(1) by (auto simp: produce_def Let_def split: if_splits)
  have step: "duo_step s (s\<lparr>d_done := True\<rparr>)" using duo_step.send_done [of s] st w(1) by simp
  have w': "w' = w\<lparr>p_clock := ?c, wk := s\<lparr>d_done := True\<rparr>, done_hist := done_hist w @ [?st]\<rparr>"
    using t st w(1,2) nd by (simp add: produce_def p_tick_def Let_def published_def code_orders_def)
  have "\<forall>tl \<in> set (tail_hist w). st_epoch tl \<le> fst (p_clock w)"
    using ts by (auto simp: tail_side_def pub_ok_def in_set_conv_nth less_Suc_eq_le)
  then have "done_side (done_hist w @ [?st]) (tail_hist w) True (saw_done s) (fst (c_clock w))"
    using ds nd by (simp add: done_side_def le_SucI)
  moreover have "tail_side k (tail_hist w) n g (fst ?c) (fst (c_clock w)) (c_seen w) (slot_wrote w) (cached_tail r)
      (busy (c_phase s))" by (rule tail_mono [OF ts]) simp_all
  ultimately show ?thesis
    using duo_inv_step [OF w(5) step] step dl w(1-4,7) hs by (simp add: w' weak_inv_def Let_def)
qed

lemma produce_ok:
  assumes "weak_inv k pol xs w" and "produce code_orders i w = Some w'"
  shows "weak_inv k pol xs w' \<and> duo_step (wk w) (wk w')"
  using produce_check [OF assms(1) _ _ assms(2)] produce_write [OF assms(1) _ assms(2)]
    produce_publish [OF assms(1) _ assms(2)] produce_finish [OF assms(1) _ _ assms(2)]
  by (cases "p_phase (wk w)"; cases "todo (wk w)") blast+

lemma done_side_mono: "done_side hist tails dn saw cf \<Longrightarrow> cf \<le> cf' \<Longrightarrow> done_side hist tails dn saw cf'"
  unfolding done_side_def by (meson le_trans)

lemma observe_tail_ok:
  assumes inv: "weak_inv k pol xs w" and idle: "c_phase (wk w) = C_idle"
    and obs: "observe_tail code_orders i w = Some (obs, w')"
    and chk: "pop_check obs (d_ring (wk w)) = (some, r')"
  obtains t h c where "w' = w\<lparr>c_clock := c, c_seen := h\<rparr>" "pop_check (of_nat t) (d_ring (wk w)) = (some, r')"
    "length (received (wk w)) \<le> t" "t \<le> length (sent (wk w))" "saw_done (wk w) \<longrightarrow> t = length (sent (wk w))"
    "fst (c_clock w) \<le> fst c" "snd (c_clock w) \<le> snd c" "cached_head r' = cached_head (d_ring (wk w))"
    "tail_side k (tail_hist w) (length (sent (wk w))) (length (received (wk w))) (fst (p_clock w)) (fst c) h (slot_wrote w)
      (cached_tail r') some"
proof -
  from inv obtain s r n g where w: "wk w = s" "r = d_ring s" "n = length (sent s)" "g = length (received s)"
      "duo_inv k pol xs s" "ring_inv k r (sent s) g" "\<not> raced w"
    and ts: "tail_side k (tail_hist w) n g (fst (p_clock w)) (fst (c_clock w)) (c_seen w) (slot_wrote w) (cached_tail r)
      (busy (c_phase s))"
    and hs: "head_side k (head_hist w) n g (snd (p_clock w)) (snd (c_clock w)) (p_seen w) (slot_read w) (cached_head r)
      (reading (c_phase s)) (p_phase s \<noteq> P_idle)"
    and ds: "done_side (done_hist w) (tail_hist w) (d_done s) (saw_done s) (fst (c_clock w))"
    and dl: "d_seen w < length (done_hist w)"
    by (rule weak_invE)
  show ?thesis
  proof (cases "rb_head r = cached_tail r")
    case True
    then have rd: "readable (tail_hist w) (c_seen w) (fst (c_clock w)) i" and
      ob: "obs = st_val (tail_hist w ! i)"
        "w' = w\<lparr>c_clock := acquired Acquire (tail_hist w ! i) (c_clock w), c_seen := i\<rparr>"
      using obs w(1,2) by (auto simp: observe_tail_def code_orders_def Let_def split: if_splits)
    note tl = tail_load [OF ts rd]
    have val: "obs = of_nat i" using ts tl ob(1) by (auto simp: tail_side_def pub_ok_def)
    have all: "i = n" if "saw_done s"
    proof -
      have "tail_hist w ! n \<in> set (tail_hist w)" "n < length (tail_hist w)"
        using ts by (auto simp: tail_side_def pub_ok_def)
      then have "n \<le> i" using rd ds that by (auto simp: readable_def done_side_def list_all_iff)
      then show ?thesis using tl by simp
    qed
    have some: "some \<longleftrightarrow> g < i" "cached_tail r' = of_nat i" "cached_head r' = cached_head r"
      using chk w(1,2) True val empty_iff [OF w(6), of i] tl w(3) by (auto simp: pop_check_def Let_def split: if_splits)
    show ?thesis
      by (rule that [OF ob(2), of i]) (use chk val w all tl some in \<open>simp_all add: acquired_def\<close>)
  next
    case False
    then have ob: "obs = cached_tail r" "w' = w" using obs w(1,2) by (auto simp: observe_tail_def Let_def)
    have some: "some" "r' = r" using chk w(1,2) False by (auto simp: pop_check_def Let_def)
    have seen: "cached_tail r = of_nat (c_seen w)" "g \<le> c_seen w" "c_seen w \<le> n" using ts by (auto simp: tail_side_def)
    then have "g < c_seen w" using False empty_iff [OF w(6) seen(2)] w(3) by auto
    then have "tail_side k (tail_hist w) n g (fst (p_clock w)) (fst (c_clock w)) (c_seen w) (slot_wrote w) (cached_tail r) True"
      using ts by (simp add: tail_side_def)
    then show ?thesis
      using that [of "c_seen w" "c_clock w" n] False ob some w(1-4) seen by (simp add: pop_check_def)
  qed
qed

lemma consume_check:
  assumes inv: "weak_inv k pol xs w" and idle: "c_phase (wk w) = C_idle"
    and t: "consume_turn code_orders i w = Some w'"
  shows "weak_inv k pol xs w' \<and> duo_step (wk w) (wk w')"
proof -
  from inv obtain s r n g where w: "wk w = s" "r = d_ring s" "n = length (sent s)" "g = length (received s)"
      "duo_inv k pol xs s" "ring_inv k r (sent s) g" "\<not> raced w"
    and ts: "tail_side k (tail_hist w) n g (fst (p_clock w)) (fst (c_clock w)) (c_seen w) (slot_wrote w) (cached_tail r)
      (busy (c_phase s))"
    and hs: "head_side k (head_hist w) n g (snd (p_clock w)) (snd (c_clock w)) (p_seen w) (slot_read w) (cached_head r)
      (reading (c_phase s)) (p_phase s \<noteq> P_idle)"
    and ds: "done_side (done_hist w) (tail_hist w) (d_done s) (saw_done s) (fst (c_clock w))"
    and dl: "d_seen w < length (done_hist w)"
    by (rule weak_invE)
  obtain obs w1 where ob: "observe_tail code_orders i w = Some (obs, w1)"
    using t idle by (auto simp: consume_turn_def Let_def split: option.splits)
  obtain some r' where chk: "pop_check obs (d_ring s) = (some, r')" by fastforce
  obtain j h c where h: "w1 = w\<lparr>c_clock := c, c_seen := h\<rparr>" "pop_check (of_nat j) (d_ring s) = (some, r')"
    "g \<le> j" "j \<le> n" "saw_done s \<longrightarrow> j = n"
    "fst (c_clock w) \<le> fst c" "snd (c_clock w) \<le> snd c" "cached_head r' = cached_head (d_ring s)"
    "tail_side k (tail_hist w) n g (fst (p_clock w)) (fst c) h (slot_wrote w) (cached_tail r') some"
    by (rule observe_tail_ok [OF inv idle ob, of some r']) (simp_all add: w chk)
  define ph where "ph = (if some then C_checked else if saw_done s then C_finished else C_idle :: 'a cons_phase)"
  have ph: "busy ph = some" "\<not> reading ph" by (auto simp: ph_def)
  have w': "w' = w\<lparr>c_clock := c, c_seen := h, wk := s\<lparr>d_ring := r', c_phase := ph\<rparr>\<rparr>"
    using t idle ob chk h(1) w(1) by (simp add: consume_turn_def Let_def ph_def)
  have step: "duo_step s (s\<lparr>d_ring := r', c_phase := ph\<rparr>)"
    using duo_step.recv_check [of s j r'] duo_step.recv_empty [of s j r'] h(2-5) idle w(1,3,4) by (auto simp: ph_def)
  have "head_side k (head_hist w) n g (snd (p_clock w)) (snd c) (p_seen w) (slot_read w) (cached_head r)
      False (p_phase s \<noteq> P_idle)" using head_mono [OF hs order_refl h(7)] idle w(1) by simp
  then show ?thesis
    using duo_inv_step [OF w(5) step] step dl w(1-4,7) h(8,9) done_side_mono [OF ds h(6)] ph
    by (simp add: w' weak_inv_def Let_def sent_def)
qed

lemma consume_read:
  assumes inv: "weak_inv k pol xs w" and st: "c_phase (wk w) = C_checked"
    and t: "consume_turn code_orders i w = Some w'"
  shows "weak_inv k pol xs w' \<and> duo_step (wk w) (wk w')"
proof -
  from inv obtain s r n g where w: "wk w = s" "r = d_ring s" "n = length (sent s)" "g = length (received s)"
      "duo_inv k pol xs s" "ring_inv k r (sent s) g" "\<not> raced w"
    and ts: "tail_side k (tail_hist w) n g (fst (p_clock w)) (fst (c_clock w)) (c_seen w) (slot_wrote w) (cached_tail r)
      (busy (c_phase s))"
    and hs: "head_side k (head_hist w) n g (snd (p_clock w)) (snd (c_clock w)) (p_seen w) (slot_read w) (cached_head r)
      (reading (c_phase s)) (p_phase s \<noteq> P_idle)"
    and ds: "done_side (done_hist w) (tail_hist w) (d_done s) (saw_done s) (fst (c_clock w))"
    and dl: "d_seen w < length (done_hist w)"
    by (rule weak_invE)
  let ?e = "Suc (snd (c_clock w))"
  have j: "slot r (rb_head r) = g mod 2 ^ k" using w(6) slot_mod [of r k g] by (simp add: ring_inv_def)
  have race: "slot_wrote w ! (g mod 2 ^ k) \<le> fst (c_clock w)" using tail_read ts st w(1) by simp
  have w': "w' = w\<lparr>c_clock := (fst (c_clock w), ?e), wk := s\<lparr>c_phase := C_read (pop_read r)\<rparr>,
      slot_read := (slot_read w)[g mod 2 ^ k := ?e], raced := False\<rparr>"
    using t st w(1,2,7) j race by (simp add: consume_turn_def c_tick_def Let_def)
  have step: "duo_step s (s\<lparr>c_phase := C_read (pop_read r)\<rparr>)" using duo_step.recv_read [of s] st w(1,2) by simp
  have "head_side k (head_hist w) n g (snd (p_clock w)) ?e (p_seen w) ((slot_read w)[g mod 2 ^ k := ?e]) (cached_head r) True
      (p_phase s \<noteq> P_idle)" using head_read [OF _ le_SucI [OF order_refl]] hs st w(1) by simp
  then show ?thesis
    using duo_inv_step [OF w(5) step] step dl w(1-4,7) ts ds st by (simp add: w' weak_inv_def Let_def)
qed

lemma consume_release:
  assumes inv: "weak_inv k pol xs w" and st: "c_phase (wk w) = C_read x"
    and t: "consume_turn code_orders i w = Some w'"
  shows "weak_inv k pol xs w' \<and> duo_step (wk w) (wk w')"
proof -
  from inv obtain s r n g where w: "wk w = s" "r = d_ring s" "n = length (sent s)" "g = length (received s)"
      "duo_inv k pol xs s" "ring_inv k r (sent s) g" "\<not> raced w"
    and ts: "tail_side k (tail_hist w) n g (fst (p_clock w)) (fst (c_clock w)) (c_seen w) (slot_wrote w) (cached_tail r)
      (busy (c_phase s))"
    and hs: "head_side k (head_hist w) n g (snd (p_clock w)) (snd (c_clock w)) (p_seen w) (slot_read w) (cached_head r)
      (reading (c_phase s)) (p_phase s \<noteq> P_idle)"
    and ds: "done_side (done_hist w) (tail_hist w) (d_done s) (saw_done s) (fst (c_clock w))"
    and dl: "d_seen w < length (done_hist w)"
    by (rule weak_invE)
  let ?c = "(fst (c_clock w), Suc (snd (c_clock w)))"
  let ?st = "\<lparr>st_val = rb_head r + 1, st_epoch = snd ?c, st_clock = ?c\<rparr>"
  have w': "w' = w\<lparr>c_clock := ?c, wk := s\<lparr>d_ring := pop_release r, c_phase := C_idle, received := received s @ [x]\<rparr>,
      head_hist := head_hist w @ [?st]\<rparr>"
    using t st w(1,2) by (simp add: consume_turn_def c_tick_def Let_def published_def code_orders_def)
  have step: "duo_step s (s\<lparr>d_ring := pop_release r, c_phase := C_idle, received := received s @ [x]\<rparr>)"
    using duo_step.recv_release [of s x] st w(1,2) by simp
  have v: "rb_head r + 1 = of_nat (Suc g)" using w(6) by (simp add: ring_inv_def)
  have "head_side k (head_hist w @ [?st]) n (Suc g) (snd (p_clock w)) (snd ?c) (p_seen w) (slot_read w) (cached_head r) False
      (p_phase s \<noteq> P_idle)" using head_release [OF _ _ _ v, of k _ n _ "snd (c_clock w)" _ _ _ _ ?c] hs st w(1) by simp
  moreover have "tail_side k (tail_hist w) n (Suc g) (fst (p_clock w)) (fst (c_clock w)) (c_seen w) (slot_wrote w) (cached_tail r)
      False" using tail_release ts st w(1) by simp
  ultimately show ?thesis
    using duo_inv_step [OF w(5) step] step dl w(1-4,7) ds by (simp add: w' weak_inv_def Let_def pop_release_def)
qed

lemma consume_turn_ok:
  assumes "weak_inv k pol xs w" and "consume_turn code_orders i w = Some w'"
  shows "weak_inv k pol xs w' \<and> duo_step (wk w) (wk w')"
proof (cases "c_phase (wk w)")
  case C_idle
  then show ?thesis by (rule consume_check [OF assms(1) _ assms(2)])
next
  case C_checked
  then show ?thesis by (rule consume_read [OF assms(1) _ assms(2)])
next
  case (C_read x)
  then show ?thesis by (rule consume_release [OF assms(1) _ assms(2)])
next
  case C_finished
  then show ?thesis using assms(2) by (simp add: consume_turn_def Let_def)
qed

lemma look_ok:
  assumes inv: "weak_inv k pol xs w" and t: "look code_orders i w = Some w'"
  shows "weak_inv k pol xs w' \<and> (wk w' = wk w \<or> duo_step (wk w) (wk w'))"
proof -
  from inv obtain s r n g where w: "wk w = s" "r = d_ring s" "n = length (sent s)" "g = length (received s)"
      "duo_inv k pol xs s" "ring_inv k r (sent s) g" "\<not> raced w"
    and ts: "tail_side k (tail_hist w) n g (fst (p_clock w)) (fst (c_clock w)) (c_seen w) (slot_wrote w) (cached_tail r)
      (busy (c_phase s))"
    and hs: "head_side k (head_hist w) n g (snd (p_clock w)) (snd (c_clock w)) (p_seen w) (slot_read w) (cached_head r)
      (reading (c_phase s)) (p_phase s \<noteq> P_idle)"
    and ds: "done_side (done_hist w) (tail_hist w) (d_done s) (saw_done s) (fst (c_clock w))"
    and dl: "d_seen w < length (done_hist w)"
    by (rule weak_invE)
  have rd: "readable (done_hist w) (d_seen w) (fst (c_clock w)) i" and idle: "c_phase s = C_idle"
    using t w(1) by (auto simp: look_def Let_def split: if_splits)
  let ?st = "done_hist w ! i"
  let ?c = "acquired Acquire ?st (c_clock w)"
  define s' where "s' = (if st_val ?st = 1 then s\<lparr>saw_done := True\<rparr> else s)"
  have w': "w' = w\<lparr>c_clock := ?c, d_seen := i, wk := s'\<rparr>"
    using t rd idle w(1) by (simp add: look_def Let_def code_orders_def s'_def)
  have c: "fst (c_clock w) \<le> fst ?c" "snd (c_clock w) \<le> snd ?c" by (simp_all add: acquired_def)
  have dn: "d_done s" "done_side (done_hist w) (tail_hist w) (d_done s) True (fst ?c)" if v: "st_val ?st = 1"
  proof -
    have i: "i < length (done_hist w)" using rd by (simp add: readable_def)
    show d: "d_done s" using ds v i by (auto simp: done_side_def first_stamp_def split: if_splits)
    then obtain st where st: "done_hist w = [first_stamp, st]" "st_val st = 1"
        "\<forall>tl \<in> set (tail_hist w). st_epoch tl \<le> fst (st_clock st)"
      using ds by (auto simp: done_side_def)
    then have "?st = st" using v i by (auto simp: first_stamp_def less_Suc_eq)
    then show "done_side (done_hist w) (tail_hist w) (d_done s) True (fst ?c)"
      using st d by (auto simp: done_side_def acquired_def)
  qed
  have same: "d_ring s' = r" "sent s' = sent s" "received s' = received s" "c_phase s' = c_phase s" "p_phase s' = p_phase s"
    "d_done s' = d_done s" "st_val ?st = 1 \<Longrightarrow> saw_done s'" "st_val ?st \<noteq> 1 \<Longrightarrow> saw_done s' = saw_done s"
    using w(2) by (simp_all add: s'_def)
  have "done_side (done_hist w) (tail_hist w) (d_done s) (saw_done s') (fst ?c)"
    using dn(2) same(7,8) done_side_mono [OF ds c(1)] by metis
  moreover have step: "s' = s \<or> duo_step s s'" using duo_step.see_done [OF idle] dn(1) by (simp add: s'_def)
  moreover have "duo_inv k pol xs s'" using step duo_inv_step [OF w(5)] w(5) by blast
  ultimately show ?thesis
    using rd w(1,7) tail_mono [OF ts order_refl c(1)] head_mono [OF hs order_refl c(2)]
    by (simp add: w' weak_inv_def Let_def same(1-6) w(3,4) readable_def)
qed

lemma turn_ok:
  assumes "weak_inv k pol xs w" and "turn_of code_orders t w = Some w'"
  shows "weak_inv k pol xs w' \<and> (wk w' = wk w \<or> duo_step (wk w) (wk w'))"
  using assms(2) produce_ok [OF assms(1)] consume_turn_ok [OF assms(1)] look_ok [OF assms(1)]
  by (cases t) (auto simp: turn_of_def)

lemma weak_turns_ok:
  assumes "weak_turns code_orders ts w = Some w'" and "weak_inv k pol xs w"
  shows "weak_inv k pol xs w' \<and> duo_reach (wk w) (wk w')"
  using assms
proof (induction ts arbitrary: w)
  case Nil
  then show ?case by (simp add: duo_reach.start)
next
  case (Cons t ts)
  then obtain w1 where w1: "turn_of code_orders t w = Some w1" "weak_turns code_orders ts w1 = Some w'"
    by (auto split: option.splits)
  note ok = turn_ok [OF Cons.prems(2) w1(1)]
  then show ?case using Cons.IH [OF w1(2)] by (metis duo_reach_step duo_reach_trans duo_reach.start)
qed

section \<open>Progress\<close>

text \<open>A load may always read the latest store; every thread that does so gets on.\<close>

definition still_to_do :: "'a duo \<Rightarrow> nat" where
  "still_to_do s = 10 * length (todo s) + (case p_phase s of P_idle \<Rightarrow> 2 | P_checked \<Rightarrow> 1 | P_written \<Rightarrow> 0)
     + 3 * (length (sent s) - length (received s))
     + (case c_phase s of C_idle \<Rightarrow> 2 | C_checked \<Rightarrow> 1 | C_read x \<Rightarrow> 0 | C_finished \<Rightarrow> 0)
     + (if d_done s then 0 else 1) + (if saw_done s then 0 else 1)"

lemma readable_latest: "length hist = Suc n \<Longrightarrow> seen \<le> n \<Longrightarrow> readable hist seen known n"
  by (auto simp: readable_def list_all_iff)

lemma histories:
  assumes "weak_inv k pol xs w"
  shows "length (tail_hist w) = Suc (length (sent (wk w)))" "c_seen w \<le> length (sent (wk w))"
    "st_val (tail_hist w ! length (sent (wk w))) = of_nat (length (sent (wk w)))"
    "length (head_hist w) = Suc (length (received (wk w)))" "p_seen w \<le> length (received (wk w))"
    "st_val (head_hist w ! length (received (wk w))) = of_nat (length (received (wk w)))"
    "rb_head (d_ring (wk w)) = of_nat (length (received (wk w)))" "length (received (wk w)) \<le> length (sent (wk w))"
  using assms by (auto simp: weak_inv_def Let_def tail_side_def head_side_def pub_ok_def duo_inv_def ring_inv_def)

lemma receive_latest:
  assumes inv: "weak_inv k pol xs w" and idle: "c_phase (wk w) = C_idle"
  obtains w' where "consume_turn code_orders (length (sent (wk w))) w = Some w'"
    "sent (wk w') = sent (wk w)" "received (wk w') = received (wk w)" "todo (wk w') = todo (wk w)" "p_phase (wk w') = p_phase (wk w)"
    "d_done (wk w') = d_done (wk w)" "saw_done (wk w') = saw_done (wk w)"
    "c_phase (wk w') = (if length (received (wk w)) < length (sent (wk w)) then C_checked
       else if saw_done (wk w) then C_finished else C_idle)"
proof -
  note h = histories [OF inv]
  let ?n = "length (sent (wk w))" and ?r = "d_ring (wk w)"
  have ring: "ring_inv k ?r (sent (wk w)) (length (received (wk w)))" using mono_clocks(3) [OF inv refl] .
  have rd: "readable (tail_hist w) (c_seen w) (fst (c_clock w)) ?n" using readable_latest h(1,2) by blast
  have eq: "rb_head ?r = of_nat ?n \<longleftrightarrow> ?n = length (received (wk w))" using empty_iff [OF ring h(8) order_refl] .
  have "c_seen w \<le> ?n \<and> length (received (wk w)) \<le> c_seen w \<and> cached_tail ?r = of_nat (c_seen w)"
    using inv by (auto simp: weak_inv_def Let_def tail_side_def)
  then have full: "length (received (wk w)) < ?n" if "rb_head ?r \<noteq> cached_tail ?r"
    using that empty_iff [OF ring, of "c_seen w"] by auto
  show ?thesis
  proof (cases "rb_head ?r = cached_tail ?r")
    case True
    define w1 where "w1 = w\<lparr>c_clock := acquired Acquire (tail_hist w ! ?n) (c_clock w), c_seen := ?n\<rparr>"
    have ob: "observe_tail code_orders ?n w = Some (of_nat ?n, w1)"
      using rd True h(3) by (simp add: observe_tail_def Let_def code_orders_def w1_def)
    have chk: "pop_check (of_nat ?n) ?r = (length (received (wk w)) < ?n, ?r\<lparr>cached_tail := of_nat ?n\<rparr>)"
      using True eq h(8) by (auto simp: pop_check_def Let_def)
    have "consume_turn code_orders ?n w = Some (w1\<lparr>wk := (wk w)\<lparr>d_ring := ?r\<lparr>cached_tail := of_nat ?n\<rparr>,
        c_phase := if length (received (wk w)) < ?n then C_checked else if saw_done (wk w) then C_finished else C_idle\<rparr>\<rparr>)"
      using idle ob chk by (simp add: consume_turn_def Let_def w1_def)
    then show ?thesis by (rule that) (simp_all add: sent_def)
  next
    case False
    have ob: "observe_tail code_orders ?n w = Some (cached_tail ?r, w)" using False by (simp add: observe_tail_def Let_def)
    have chk: "pop_check (cached_tail ?r) ?r = (True, ?r)" using False by (simp add: pop_check_def)
    have "consume_turn code_orders ?n w = Some (w\<lparr>wk := (wk w)\<lparr>d_ring := ?r, c_phase := C_checked\<rparr>\<rparr>)"
      using idle ob chk by (simp add: consume_turn_def Let_def)
    then show ?thesis by (rule that) (simp_all add: full [OF False])
  qed
qed

lemma send_latest:
  assumes inv: "weak_inv k pol xs w" and st: "p_phase (wk w) = P_idle" "todo (wk w) = y # ys"
    and none: "length (received (wk w)) = length (sent (wk w))"
  obtains w' where "produce code_orders (length (sent (wk w))) w = Some w'" "p_phase (wk w') = P_checked"
    "sent (wk w') = sent (wk w)" "received (wk w') = received (wk w)" "todo (wk w') = todo (wk w)" "c_phase (wk w') = c_phase (wk w)"
    "d_done (wk w') = d_done (wk w)" "saw_done (wk w') = saw_done (wk w)"
proof -
  note h = histories [OF inv]
  let ?n = "length (sent (wk w))" and ?r = "d_ring (wk w)"
  have ring: "ring_inv k ?r (sent (wk w)) (length (received (wk w)))" using mono_clocks(3) [OF inv refl] .
  have rd: "readable (head_hist w) (p_seen w) (snd (p_clock w)) ?n" using readable_latest h(4,5) none by metis
  show ?thesis
  proof (cases "rb_tail ?r - cached_head ?r \<ge> capacity ?r")
    case True
    define w1 where "w1 = w\<lparr>p_clock := acquired Acquire (head_hist w ! ?n) (p_clock w), p_seen := ?n\<rparr>"
    have ob: "observe_head code_orders ?n w = Some (of_nat ?n, w1)"
      using rd True h(6) none by (simp add: observe_head_def Let_def code_orders_def w1_def)
    have "\<not> rb_tail ?r - of_nat ?n \<ge> capacity ?r" using full_iff [OF ring, of ?n] none by simp
    then have chk: "push_check (of_nat ?n) ?r = (True, ?r\<lparr>cached_head := of_nat ?n\<rparr>)"
      using True by (simp add: push_check_def Let_def capacity_def)
    have "produce code_orders ?n w = Some (w1\<lparr>wk := (wk w)\<lparr>d_ring := ?r\<lparr>cached_head := of_nat ?n\<rparr>, p_phase := P_checked\<rparr>\<rparr>)"
      using st ob chk by (simp add: produce_def Let_def w1_def)
    then show ?thesis by (rule that) (simp_all add: sent_def)
  next
    case False
    have ob: "observe_head code_orders ?n w = Some (cached_head ?r, w)" using False by (simp add: observe_head_def Let_def)
    have chk: "push_check (cached_head ?r) ?r = (True, ?r)" using False by (simp add: push_check_def)
    have "produce code_orders ?n w = Some (w\<lparr>wk := (wk w)\<lparr>d_ring := ?r, p_phase := P_checked\<rparr>\<rparr>)"
      using st ob chk by (simp add: produce_def Let_def)
    then show ?thesis by (rule that) (simp_all add: sent_def)
  qed
qed

lemma weak_progress:
  assumes inv: "weak_inv k pol xs w" and on: "c_phase (wk w) \<noteq> C_finished"
  shows "\<exists>t w'. turn_of code_orders t w = Some w' \<and> (c_phase (wk w') = C_finished \<or> still_to_do (wk w') < still_to_do (wk w))"
proof (cases "c_phase (wk w)")
  case C_checked
  then show ?thesis
    by (intro exI [of _ "Consume 0"]) (simp add: turn_of_def consume_turn_def c_tick_def Let_def still_to_do_def)
next
  case (C_read x)
  have "length (received (wk w)) < length (sent (wk w))"
    using mono_clocks(5) [OF inv refl] C_read by (auto simp: consumer_ok_def dest: has_item_lt)
  then show ?thesis using C_read
    by (intro exI [of _ "Consume 0"]) (simp add: turn_of_def consume_turn_def c_tick_def Let_def still_to_do_def sent_def)
next
  case C_idle
  let ?n = "length (sent (wk w))" and ?g = "length (received (wk w))"
  note p = mono_clocks(4) [OF inv refl]
  show ?thesis
  proof (cases "?g < ?n \<or> saw_done (wk w)")
    case True
    obtain w' where w': "consume_turn code_orders ?n w = Some w'"
      "sent (wk w') = sent (wk w)" "received (wk w') = received (wk w)" "todo (wk w') = todo (wk w)" "p_phase (wk w') = p_phase (wk w)"
      "d_done (wk w') = d_done (wk w)" "saw_done (wk w') = saw_done (wk w)"
      "c_phase (wk w') = (if ?g < ?n then C_checked else if saw_done (wk w) then C_finished else C_idle)"
      by (rule receive_latest [OF inv C_idle])
    then show ?thesis using True C_idle
      by (intro exI [of _ "Consume ?n"] exI [of _ w']) (auto simp: turn_of_def still_to_do_def)
  next
    case False
    then have none: "?g = ?n" "\<not> saw_done (wk w)" using histories(8) [OF inv] by auto
    show ?thesis
    proof (cases "p_phase (wk w)")
      case P_checked
      then obtain y ys where "todo (wk w) = y # ys" using p by (auto simp: producer_ok_def neq_Nil_conv)
      then show ?thesis using P_checked
        by (intro exI [of _ "Produce 0"]) (simp add: turn_of_def produce_def p_tick_def Let_def still_to_do_def sent_def)
    next
      case P_written
      then obtain y ys where "todo (wk w) = y # ys" using p by (auto simp: producer_ok_def neq_Nil_conv)
      then show ?thesis using P_written none
        by (intro exI [of _ "Produce 0"]) (simp add: turn_of_def produce_def p_tick_def Let_def still_to_do_def sent_def)
    next
      case P_idle
      show ?thesis
      proof (cases "todo (wk w)")
        case (Cons y ys)
        obtain w' where w': "produce code_orders ?n w = Some w'" "p_phase (wk w') = P_checked"
          "sent (wk w') = sent (wk w)" "received (wk w') = received (wk w)" "todo (wk w') = todo (wk w)"
          "c_phase (wk w') = c_phase (wk w)" "d_done (wk w') = d_done (wk w)" "saw_done (wk w') = saw_done (wk w)"
          by (rule send_latest [OF inv P_idle Cons none(1)])
        then show ?thesis using P_idle
          by (intro exI [of _ "Produce ?n"] exI [of _ w']) (simp add: turn_of_def still_to_do_def)
      next
        case Nil
        show ?thesis
        proof (cases "d_done (wk w)")
          case False
          then show ?thesis using P_idle Nil
            by (intro exI [of _ "Produce 0"]) (simp add: turn_of_def produce_def p_tick_def Let_def still_to_do_def sent_def)
        next
          case True
          obtain st where st: "done_hist w = [first_stamp, st]" "st_val st = 1"
            using inv True by (auto simp: weak_inv_def Let_def done_side_def)
          have "d_seen w \<le> 1" using inv st(1) by (simp add: weak_inv_def Let_def)
          then have "readable (done_hist w) (d_seen w) (fst (c_clock w)) 1"
            using readable_latest [of "done_hist w" 1] st(1) by simp
          then show ?thesis using C_idle st none(2)
            by (intro exI [of _ "Look 1"]) (simp add: turn_of_def look_def Let_def still_to_do_def sent_def)
        qed
      qed
    qed
  qed
qed (use on in simp)

lemma weak_can_finish:
  assumes "weak_inv k pol xs w"
  shows "\<exists>ts w'. weak_turns code_orders ts w = Some w' \<and> c_phase (wk w') = C_finished"
  using assms
proof (induction "still_to_do (wk w)" arbitrary: w rule: less_induct)
  case less
  show ?case
  proof (cases "c_phase (wk w) = C_finished")
    case True
    then show ?thesis by (intro exI [of _ "[]"]) simp
  next
    case False
    from weak_progress [OF less.prems this] obtain t w1 where t: "turn_of code_orders t w = Some w1"
        "c_phase (wk w1) = C_finished \<or> still_to_do (wk w1) < still_to_do (wk w)" by blast
    show ?thesis
    proof (cases "c_phase (wk w1) = C_finished")
      case True
      then show ?thesis using t(1) by (intro exI [of _ "[t]"]) simp
    next
      case False
      have "weak_inv k pol xs w1" using turn_ok [OF less.prems t(1)] by blast
      from less.hyps [OF _ this] t(2) False obtain ts w2
        where "weak_turns code_orders ts w1 = Some w2" "c_phase (wk w2) = C_finished" by blast
      then show ?thesis using t(1) by (intro exI [of _ "t # ts"]) simp
    qed
  qed
qed

lemma finished_weak_run:
  "k < 64 \<Longrightarrow> \<exists>ts w. weak_turns code_orders ts (start_weak (2 ^ k) pol x xs) = Some w \<and> c_phase (wk w) = C_finished"
  by (rule weak_can_finish [OF weak_inv_start])

lemma weak_run_ok:
  assumes "weak_turns code_orders ts (start_weak (2 ^ k) pol x xs) = Some w" and "k < 64"
  shows "\<not> raced w" "duo_reach (start_duo (2 ^ k) pol x xs) (wk w)" "weak_inv k pol xs w"
  using weak_turns_ok [OF assms(1) weak_inv_start [OF assms(2)]] by (simp_all add: start_weak_def weak_inv_def Let_def)

section \<open>The properties\<close>

text \<open>
  C29. With the memory orders of the code, in every execution the C++ memory model allows no
  access to a slot races, the run is one of the interleavings of the channel's steps, the
  received items are a prefix of those sent, all of them at the end, and the threads can always
  run on to the end.
\<close>

theorem channel_memory_orders_suffice:
  assumes "weak_turns code_orders ts (start_weak (2 ^ k) pol x xs) = Some w" and "k < 64"
  shows "\<not> raced w \<and> duo_reach (start_duo (2 ^ k) pol x xs) (wk w)
    \<and> received (wk w) = take (length (received (wk w))) (sent (wk w))
    \<and> (c_phase (wk w) = C_finished \<longrightarrow> received (wk w) = sent (wk w) \<and> map fst (trace (wk w)) = xs)
    \<and> (\<exists>us w'. weak_turns code_orders us w = Some w' \<and> c_phase (wk w') = C_finished)"
  using weak_run_ok [OF assms] channel_complete [OF weak_run_ok(2) [OF assms] assms(2)]
    mono_clocks [OF weak_run_ok(3) [OF assms] refl] weak_can_finish [OF weak_run_ok(3) [OF assms]]
  by (auto simp: duo_inv_def sent_def)

definition two_items :: "weak_turn list" where
  "two_items = [Produce 0, Produce 0, Produce 0, Consume 1, Consume 0, Produce 0, Consume 0, Produce 0, Produce 0,
     Produce 0, Look 1, Consume 2, Consume 0, Consume 0, Consume 2]"

lemma run_two_items:
  "\<exists>w. weak_turns code_orders two_items (start_weak (2 ^ 1) Block 0 [7, 8 :: nat]) = Some w \<and> c_phase (wk w) = C_finished
    \<and> sent (wk w) = [7, 8]"
proof -
  have "case weak_turns code_orders two_items (start_weak (2 ^ 1) Block 0 [7, 8 :: nat]) of None \<Rightarrow> False
    | Some w \<Rightarrow> c_phase (wk w) = C_finished \<and> sent (wk w) = [7, 8]" by code_simp
  then show ?thesis by (auto split: option.splits)
qed

lemma channel_memory_orders_suffice_witness:
  "\<exists>w. weak_turns code_orders two_items (start_weak (2 ^ 1) Block 0 [7, 8 :: nat]) = Some w \<and> \<not> raced w
    \<and> received (wk w) = [7, 8]"
  using run_two_items channel_memory_orders_suffice [of two_items 1 Block "0 :: nat" "[7, 8]"] by auto

text \<open>Concrete runs under any other choice of orders.\<close>

lemmas weak_run = start_weak_def start_duo_def new_ring_def first_stamp_def produce_def observe_head_def consume_turn_def
  observe_tail_def look_def readable_def turn_of_def push_check_def push_write_def push_publish_def pop_check_def pop_read_def
  pop_release_def slot_def capacity_def p_tick_def c_tick_def upt_rec Let_def published_def acquired_def

lemma tail_orders_needed:
  assumes "store_tail mo \<noteq> Release \<or> load_tail mo \<noteq> Acquire"
  shows "\<exists>w. weak_turns mo [Produce 0, Produce 0, Produce 0, Consume 1, Consume 0] (start_weak 2 Block 0 [7, 8, 9 :: nat])
      = Some w \<and> raced w"
  using assms by (auto simp: weak_run)

lemma head_orders_needed:
  assumes "store_head mo \<noteq> Release \<or> load_head mo \<noteq> Acquire"
  shows "\<exists>w. weak_turns mo [Produce 0, Produce 0, Produce 0, Produce 0, Produce 0, Produce 0, Consume 1, Consume 0,
      Consume 0, Produce 1, Produce 0] (start_weak 2 Block 0 [7, 8, 9 :: nat]) = Some w \<and> raced w"
proof -
  have [simp]: "\<not> (2 :: u64) \<le> 1" by (simp add: word_le_nat_alt)
  show ?thesis using assms by (auto simp: weak_run)
qed

lemma done_orders_needed:
  assumes "store_done mo \<noteq> Release \<or> load_done mo \<noteq> Acquire"
  shows "\<exists>w. weak_turns mo [Produce 0, Produce 0, Produce 0, Produce 0, Look 1, Consume 0] (start_weak 2 Block 0 [7 :: nat])
      = Some w \<and> c_phase (wk w) = C_finished \<and> received (wk w) \<noteq> [7]"
  using assms by (auto simp: weak_run)

text \<open>
  C30. Every order of the code is needed: if any acquire or release of the two indices or of the
  done flag is weakened, a run exists on a ring of two slots that races on a slot or in which
  the consumer ends without all items.
\<close>

theorem channel_memory_orders_needed:
  assumes "mo \<noteq> code_orders"
  shows "\<exists>ts xs w. weak_turns mo ts (start_weak 2 Block 0 (xs :: nat list)) = Some w
    \<and> (raced w \<or> c_phase (wk w) = C_finished \<and> received (wk w) \<noteq> xs)"
proof -
  have "store_tail mo \<noteq> Release \<or> load_tail mo \<noteq> Acquire \<or> store_head mo \<noteq> Release \<or> load_head mo \<noteq> Acquire
      \<or> store_done mo \<noteq> Release \<or> load_done mo \<noteq> Acquire"
    using assms by (cases mo) (auto simp: code_orders_def)
  then show ?thesis using tail_orders_needed [of mo] head_orders_needed [of mo] done_orders_needed [of mo] by metis
qed

lemma channel_memory_orders_needed_witness:
  "\<exists>ts xs w. weak_turns (code_orders\<lparr>store_done := Relaxed\<rparr>) ts (start_weak 2 Block 0 (xs :: nat list)) = Some w
    \<and> (raced w \<or> c_phase (wk w) = C_finished \<and> received (wk w) \<noteq> xs)"
  by (rule channel_memory_orders_needed) (simp add: code_orders_def)

end
