(* ===== verification/Pipeline_Loss.thy ===== *)
theory Pipeline_Loss
  imports Pipeline_Props Spsc_Memory
begin

text \<open>
  What the book thread makes of a file when messages are lost, because a frame does not decode or because the
  channel drops, with the injection of gaps off: it applies exactly what precedes the first lost message, as long as no more
  than the reorder buffer holds arrive after it. \<open>lossy_run\<close> says what the book is made of in general, rebuilds after an
  overflow included, and \<open>lossy_inv\<close> is the invariant of the consumer that shows it.
\<close>

section \<open>The numbers that arrive\<close>

definition event_at :: "market_event option list \<Rightarrow> nat \<Rightarrow> market_event" where
  "event_at es i = the (es ! (i - 1))"

definition decodable :: "market_event option list \<Rightarrow> nat list" where
  "decodable es = filter (\<lambda>i. es ! (i - 1) \<noteq> None) [1..<Suc (length es)]"

lemma decodable_snoc: "decodable (es @ [e]) = decodable es @ (if e = None then [] else [Suc (length es)])"
proof -
  have "filter (\<lambda>i. (es @ [e]) ! (i - 1) \<noteq> None) [1..<Suc (length es)] = decodable es"
    unfolding decodable_def by (rule filter_cong) (auto simp: nth_append)
  moreover have "[1..<Suc (length (es @ [e]))] = [1..<Suc (length es)] @ [Suc (length es)]" by simp
  ultimately show ?thesis unfolding decodable_def [of "es @ [e]"] filter_append by simp
qed

lemma number_events_decodable: "number_events 1 es = numbered (event_at es) (decodable es)"
proof (induction es rule: rev_induct)
  case (snoc e es)
  have "numbered (event_at (es @ [e])) (decodable es) = numbered (event_at es) (decodable es)"
    unfolding numbered_def by (rule map_cong) (auto simp: event_at_def decodable_def nth_append)
  with snoc show ?case
    by (cases e) (simp_all add: number_events_append decodable_snoc numbered_append, simp add: numbered_def event_at_def)
qed (simp add: decodable_def numbered_def)

lemma decodable_count: "length (decodable es) + length (filter (\<lambda>e. e = None) es) = length es"
  by (induction es rule: rev_induct) (auto simp: decodable_snoc, simp add: decodable_def)

text \<open>The messages the ring accepts.\<close>

definition chosen :: "'a list \<Rightarrow> bool list \<Rightarrow> 'a list" where
  "chosen xs bs = map fst (filter snd (zip xs bs))"

lemma chosen_map: "map f (chosen xs bs) = chosen (map f xs) bs"
  by (simp add: chosen_def zip_map1 filter_map comp_def case_prod_beta')

lemma chosen_sorted: "sorted_wrt P xs \<Longrightarrow> sorted_wrt P (chosen xs bs)"
proof (induction xs arbitrary: bs)
  case (Cons x xs)
  then show ?case by (cases bs) (auto simp: chosen_def dest: set_zip_leftD)
qed (simp add: chosen_def)

lemma chosen_set: "set (chosen xs bs) \<subseteq> set xs"
  by (auto simp: chosen_def dest: set_zip_leftD)

lemma chosen_trace: "map fst (filter snd tr) = chosen (map fst tr) (map snd tr)"
  by (simp add: chosen_def zip_map_fst_snd)

lemma sorted_split:
  assumes "sorted_wrt (<) xs" and "\<forall>i \<in> set xs. 1 \<le> i" and "{1..<k} \<subseteq> set xs" and "k \<notin> set xs"
  shows "xs = [1..<k] @ filter (\<lambda>i. k < i) xs"
proof (rule strict_sorted_equal)
  show "sorted_wrt (<) xs" by (rule assms(1))
  show "sorted_wrt (<) ([1..<k] @ filter (\<lambda>i. k < i) xs)"
    using assms(1) by (auto simp: sorted_wrt_append sorted_wrt_filter)
  show "set xs = set ([1..<k] @ filter (\<lambda>i. k < i) xs)"
    using assms(2-4) by (auto simp: nat_neq_iff) (metis nat_neq_iff)
qed

section \<open>What the sequencer lets through\<close>

lemma fits_few:
  assumes "length js \<le> cap" and "distinct js" and "\<forall>j \<in> set js. k < j"
  shows "fits cap b {b..<k} js"
  using assms
proof (induction js rule: rev_induct)
  case (snoc j js)
  have "ahead b ({b..<k} \<union> set js) \<subseteq> set js" by (auto simp: ahead_def)
  then have "card (ahead b ({b..<k} \<union> set js)) \<le> card (set js)" by (intro card_mono) auto
  also have "\<dots> \<le> length js" by (rule card_length)
  finally have "card (ahead b ({b..<k} \<union> set js)) < cap" using snoc.prems(1) by simp
  with snoc show ?case by (simp add: fits_append)
qed simp

lemma run_stops_at_loss:
  assumes "sorted_wrt (<) xs" and rng: "\<forall>i \<in> set xs. 1 \<le> i \<and> i < 2 ^ 64 - 1"
    and "{1..<k} \<subseteq> set xs" and "k \<notin> set xs" and "1 \<le> k" and "length xs < k + 4096"
  shows "\<exists>ds s. seq_run (new_sequencer default_seq_config) (numbered feed xs) = (ds, map feed [1..<k], s)
    \<and> Overflow \<notin> set ds \<and> (stale s \<longleftrightarrow> (\<exists>i \<in> set xs. k < i))"
proof -
  let ?js = "filter (\<lambda>i. k < i) xs"
  have xs: "xs = [1..<k] @ ?js" by (rule sorted_split) (use assms in auto)
  have "distinct xs" using assms(1) strict_sorted_iff by blast
  moreover have "length ?js \<le> 4096" using arg_cong [OF xs, of length] assms(5,6) by simp
  ultimately have "fits 4096 1 {1..<k} ?js" by (intro fits_few) auto
  moreover have "fits 4096 1 {} [1..<k]" by (rule fits_in_order) simp
  ultimately have "fits 4096 1 {} ([1..<k] @ ?js)" by (simp only: fits_append set_upt) simp
  then have fits: "fits 4096 1 {} xs" by (simp only: xs [symmetric])
  obtain ds evs s where run: "seq_run (new_sequencer default_seq_config) (numbered feed xs) = (ds, evs, s)"
    by (cases "seq_run (new_sequencer default_seq_config) (numbered feed xs)") auto
  have no: "Overflow \<notin> set ds" by (rule run_fits [OF rng fits run])
  have car: "carries feed (numbered feed xs)" using rng by (intro carries_numbered) auto
  have st: "start_seq default_seq_config = 1" "unat (1 :: u64) = 1" by (simp_all add: default_seq_config_def)
  note r = run_from_start [OF car run no, unfolded st arrived_numbered(1) [OF rng]]
  let ?e = "unat (expected s)"
  have sq: "sq_cfg s = default_seq_config" using r by blast
  have sub: "{1..<?e} \<subseteq> set xs" "?e \<notin> set xs" and stl: "stale s \<longleftrightarrow> (\<exists>n \<in> set xs. ?e < n)"
    using run_progress [OF conjunct1 [OF r]] unfolding sq st by blast+
  have "1 \<le> ?e" using r by blast
  then have "?e = k" using sub assms(3-5) by (metis atLeastLessThan_iff linorder_neqE_nat subsetD)
  with r run no stl show ?thesis by auto
qed

section \<open>The whole run of an ascending feed\<close>

text \<open>
  The numbers whose events make up the book after the numbers \<open>js\<close> have arrived in ascending order, with how many
  are held back and how often the book was rebuilt: \<open>e\<close> is the number expected. After a gap nothing is applied until
  4097 messages have arrived; the last of them starts the book anew.
\<close>

fun lossy_run :: "nat \<Rightarrow> nat \<Rightarrow> nat \<Rightarrow> nat list \<Rightarrow> nat list \<Rightarrow> nat list \<times> nat \<times> nat" where
  "lossy_run e h r acc [] = (acc, h, r)"
| "lossy_run e h r acc (j # js) =
    (if j = e then lossy_run (Suc e) h r (acc @ [j]) js
     else if h < 4096 then lossy_run e (Suc h) r acc js
     else lossy_run (Suc j) 0 (Suc r) [j] js)"

definition lossy_inv ::
    "pipeline_config \<Rightarrow> (nat \<Rightarrow> market_event) \<Rightarrow> nat \<Rightarrow> nat list \<Rightarrow> nat \<Rightarrow> nat list \<Rightarrow> nat \<Rightarrow> consumer \<Rightarrow> bool" where
  "lossy_inv cfg feed e B r acc n c \<longleftrightarrow>
    (let s = cs_seq c in
     sq_cfg s = default_seq_config \<and> expected s = of_nat e \<and> map fst (reorder s) = rev (map of_nat B) \<and> (\<forall>i \<in> set B. e < i)
     \<and> (stale s \<longleftrightarrow> B \<noteq> []) \<and> snapshot_recoveries (sq_stats s) = of_nat r \<and> length B \<le> 4096)
    \<and> (\<exists>q. book_repr (cs_book c) q (spec_run (pc_book cfg) (map feed acc))) \<and> bk_cfg (cs_book c) = fix_config (pc_book cfg)
    \<and> hist_room (cs_hist c) n \<and> cs_msgs c = of_nat n"

lemma spec_run_snoc: "spec_run cfg (es @ [e]) = spec_apply (fix_config cfg) e (spec_run cfg es)"
proof -
  have "spec_all c (es @ [e]) A = spec_apply c e (spec_all c es A)" for c A by (induction es arbitrary: A) simp_all
  then show ?thesis by (simp add: spec_run_def)
qed

lemma length_spec_run: "length (spec_run cfg es) \<le> length es"
proof (induction es rule: rev_induct)
  case (snoc e es)
  then show ?case using length_spec_apply [of "fix_config cfg" e "spec_run cfg es"] by (simp add: spec_run_snoc)
qed (simp add: spec_run_def)

lemma publish_one:
  assumes "book_repr b q A" and "Suc (length A) < 2 ^ 32"
  obtains b' p' q' where "apply_publish [ev] (b, p) = Some (b', p')" "book_repr b' q' (spec_apply (bk_cfg b) ev A)"
    "bk_cfg b' = bk_cfg b"
proof -
  obtain b1 q1 where b1: "apply_event ev b = Some b1" "book_repr b1 q1 (spec_apply (bk_cfg b) ev A)" "bk_cfg b1 = bk_cfg b"
    using apply_refines [OF assms, of ev] by (auto simp: refines_to_def)
  obtain bid ask where "best_bid b1 = Some bid" "best_ask b1 = Some ask" using tops_defined [OF b1(2)] by blast
  from on_update_view [OF this, of p] obtain ch p1 where "on_update b1 p = Some (ch, p1)" by blast
  with b1 that show ?thesis by simp
qed

lemma lossy_apply:
  assumes inv: "lossy_inv cfg feed e [] r acc n c" and m: "pm_sequence m = of_nat e" "pm_event m = feed e"
    and size: "Suc (length acc) < 2 ^ 32" "Suc n < 2 ^ 64"
  shows "\<exists>c'. handle now m c = Some c' \<and> lossy_inv cfg feed (Suc e) [] r (acc @ [e]) (Suc n) c'"
proof -
  let ?s = "cs_seq c"
  have s: "sq_cfg ?s = default_seq_config" "expected ?s = of_nat e" "reorder ?s = []" "\<not> stale ?s"
      "snapshot_recoveries (sq_stats ?s) = of_nat r" "hist_room (cs_hist c) n" "cs_msgs c = of_nat n"
    using inv by (auto simp: lossy_inv_def Let_def)
  obtain q where b: "book_repr (cs_book c) q (spec_run (pc_book cfg) (map feed acc))" "bk_cfg (cs_book c) = fix_config (pc_book cfg)"
    using inv by (auto simp: lossy_inv_def)
  have "Suc (length (spec_run (pc_book cfg) (map feed acc))) < 2 ^ 32"
    using length_spec_run [of "pc_book cfg" "map feed acc"] size(1) by simp
  from publish_one [OF b(1) this, of "feed e" "cs_pub c"] obtain b' p' q' where
    b': "apply_publish [feed e] (book_part c) = Some (b', p')"
      "book_repr b' q' (spec_run (pc_book cfg) (map feed (acc @ [e])))" "bk_cfg b' = fix_config (pc_book cfg)"
    by (auto simp: b(2) spec_run_snoc book_part_def)
  define s1 where "s1 = ?s\<lparr>expected := expected ?s + 1, sq_stats := (sq_stats ?s)\<lparr>accepted := accepted (sq_stats ?s) + 1\<rparr>\<rparr>"
  have "offer (pm_sequence m) (pm_event m) ?s = (Apply, s1)" using m(1) s(2) by (simp add: offer_def s1_def)
  moreover have "reorder s1 = []" using s(3) by (simp add: s1_def)
  then have "drain s1 = ([], s1\<lparr>stale := False\<rparr>)" by (simp add: drain.simps [of s1] pop_ready_def)
  ultimately have "seq_step ?s (to_offer m) = (Apply, [feed e], s1\<lparr>stale := False\<rparr>)"
    using m(2) by (simp add: seq_step_def to_offer_def)
  from handle_step [OF this _ b'(1) s(6) size(2), of now] obtain c'
    where c': "handle now m c = Some c'" "book_part c' = (b', p')" "cs_seq c' = s1\<lparr>stale := False\<rparr>"
      "hist_room (cs_hist c') (Suc n)" "cs_msgs c' = cs_msgs c + 1" by auto
  moreover have "cs_book c' = b'" using c'(2) by (simp add: book_part_def)
  ultimately show ?thesis
    using b'(2,3) s by (intro exI [of _ c']) (auto simp: lossy_inv_def Let_def s1_def)
qed

lemma lossy_hold:
  assumes inv: "lossy_inv cfg feed e B r acc n c" and m: "pm_sequence m = of_nat j" and j: "e < j" "\<forall>i \<in> set B. i < j"
    and size: "j < 2 ^ 64" "Suc n < 2 ^ 64" and room: "length B < 4096"
  shows "\<exists>c'. handle now m c = Some c' \<and> lossy_inv cfg feed e (B @ [j]) r acc (Suc n) c'"
proof -
  let ?s = "cs_seq c"
  have s: "sq_cfg ?s = default_seq_config" "expected ?s = of_nat e" "map fst (reorder ?s) = rev (map of_nat B)"
      "hist_room (cs_hist c) n"
    using inv by (auto simp: lossy_inv_def Let_def)
  have lt: "(of_nat e :: u64) < of_nat j" using j(1) size(1) by (simp add: word_less_nat_alt unat_of_nat_64)
  have "(of_nat j :: u64) \<noteq> of_nat i" if "i \<in> set B" for i
    using j(2) that size(1) by (metis less_trans nat_neq_iff unat_of_nat_64)
  then have "of_nat j \<notin> set (map fst (reorder ?s))" unfolding s(3) by auto
  then have new: "map_of (reorder ?s) (of_nat j) = None" by (simp add: map_of_eq_None_iff)
  have len: "length (reorder ?s) = length B" using arg_cong [OF s(3), of length] by simp
  obtain s1 where off: "offer (pm_sequence m) (pm_event m) ?s = (Buffered, s1)" "sq_cfg s1 = sq_cfg ?s" "expected s1 = expected ?s"
      "reorder s1 = (of_nat j, pm_event m) # reorder ?s" "stale s1" "snapshot_recoveries (sq_stats s1) = snapshot_recoveries (sq_stats ?s)"
  proof -
    have "\<not> of_nat j < (of_nat e :: u64)" "(of_nat j :: u64) \<noteq> of_nat e" using lt by auto
    then show thesis using that room len new s(1,2) m
      by (cases "stale ?s") (simp_all add: offer_def Let_def emplace_def default_seq_config_def)
  qed
  then have "seq_step ?s (to_offer m) = (Buffered, [], s1)" by (simp add: seq_step_def to_offer_def)
  from handle_step [OF this _ _ s(4) size(2), of "book_part c" now] obtain c'
    where c': "handle now m c = Some c'" "book_part c' = book_part c" "cs_seq c' = s1" "hist_room (cs_hist c') (Suc n)"
      "cs_msgs c' = cs_msgs c + 1" by auto
  moreover have "cs_book c' = cs_book c" using c'(2) by (simp add: book_part_def)
  ultimately show ?thesis
    using inv off j(1) room by (intro exI [of _ c']) (auto simp: lossy_inv_def Let_def)
qed

lemma lossy_overflow:
  assumes inv: "lossy_inv cfg feed e B r acc n c" and m: "pm_sequence m = of_nat j" "pm_event m = feed j" and j: "e < j"
    and size: "j < 2 ^ 64" and full: "length B = 4096"
  shows "\<exists>c'. handle now m c = Some c' \<and> lossy_inv cfg feed (Suc j) [] (Suc r) [j] (Suc n) c'"
proof -
  let ?s = "cs_seq c"
  have s: "sq_cfg ?s = default_seq_config" "expected ?s = of_nat e" "map fst (reorder ?s) = rev (map of_nat B)"
      "snapshot_recoveries (sq_stats ?s) = of_nat r" "hist_room (cs_hist c) n" "cs_msgs c = of_nat n"
    using inv by (auto simp: lossy_inv_def Let_def)
  obtain q where b: "book_repr (cs_book c) q (spec_run (pc_book cfg) (map feed acc))" "bk_cfg (cs_book c) = fix_config (pc_book cfg)"
    using inv by (auto simp: lossy_inv_def)
  have lt: "(of_nat e :: u64) < of_nat j" using j(1) size(1) by (simp add: word_less_nat_alt unat_of_nat_64)
  have len: "length (reorder ?s) = 4096" using arg_cong [OF s(3), of length] full by simp
  obtain s1 where off: "offer (pm_sequence m) (pm_event m) ?s = (Overflow, s1)" "sq_cfg s1 = sq_cfg ?s"
      "snapshot_recoveries (sq_stats s1) = snapshot_recoveries (sq_stats ?s)"
  proof -
    have "\<not> of_nat j < (of_nat e :: u64)" "(of_nat j :: u64) \<noteq> of_nat e" using lt by auto
    then show thesis using that len s(1,2) m by (cases "stale ?s") (simp_all add: offer_def Let_def default_seq_config_def)
  qed
  have cfg': "bk_cfg (reset_book (cs_book c)) = fix_config (pc_book cfg)" using b(2) by (simp add: reset_book_def)
  obtain b' p' q' where b': "apply_publish [feed j] (reset_book (cs_book c), cs_pub c) = Some (b', p')"
      "book_repr b' q' (spec_run (pc_book cfg) (map feed [j]))" "bk_cfg b' = fix_config (pc_book cfg)"
    by (rule publish_one [OF book_repr_reset [OF b(1)], of "feed j" "cs_pub c"]) (auto simp: cfg' spec_run_def)
  let ?c = "c\<lparr>cs_msgs := cs_msgs c + 1, cs_seq := resync_to_snapshot (pm_sequence m) s1, cs_book := b', cs_pub := p'\<rparr>"
  have "deliver now m c = Some ?c"
    using off(1) b'(1) m(2) by (auto simp: deliver_def apply_ev_def bind_eq_Some_conv)
  then have "handle now m c = Some (time_gap now ?c)" by (simp add: handle_def)
  moreover have "lossy_inv cfg feed (Suc j) [] (Suc r) [j] (Suc n) (time_gap now ?c)"
    using b'(2,3) s off m(1) hist_room_Suc [OF s(5)]
    by (auto simp: lossy_inv_def Let_def resync_to_snapshot_def)
  ultimately show ?thesis by blast
qed

lemma lossy_start:
  assumes "good_config (fix_config (pc_book cfg))"
  shows "\<exists>c0. new_consumer cfg = Some c0 \<and> lossy_inv cfg feed 1 [] 0 [] 0 c0"
proof -
  obtain c0 where c0: "new_consumer cfg = Some c0" "book_part c0 = (new_book (pc_book cfg), new_publisher)"
      "cs_seq c0 = new_sequencer default_seq_config" "hist_room (cs_hist c0) 0" "cs_msgs c0 = 0"
    using new_consumer_ok [of cfg] by blast
  moreover have "book_repr (new_book (pc_book cfg)) (\<lambda>i. []) (spec_run (pc_book cfg) (map feed []))"
    using book_repr_new [OF assms] by (simp add: spec_run_def)
  moreover have "bk_cfg (new_book (pc_book cfg)) = fix_config (pc_book cfg)" by (simp add: new_book_def Let_def)
  ultimately show ?thesis
    by (intro exI [of _ c0]) (auto simp: lossy_inv_def Let_def book_part_def new_sequencer_def default_seq_config_def zero_seq_stats_def)
qed

lemma lossy_consume:
  assumes "lossy_inv cfg feed e B r acc n c" and "map to_offer ms = numbered feed js" and "sorted_wrt (<) (B @ js)"
    and "\<forall>j \<in> set js. e \<le> j \<and> j < 2 ^ 64" and "length acc + length js < 2 ^ 32" and "n + length js < 2 ^ 64"
  shows "\<exists>c' e' B' acc' r'. consume now ms c = Some c' \<and> lossy_run e (length B) r acc js = (acc', length B', r')
    \<and> lossy_inv cfg feed e' B' r' acc' (n + length js) c' \<and> length acc' \<le> length acc + length js"
  using assms
proof (induction js arbitrary: ms c e B r acc n)
  case Nil
  then show ?case by (intro exI [of _ c] exI [of _ e] exI [of _ B] exI [of _ acc] exI [of _ r]) (simp add: numbered_def)
next
  case (Cons j js)
  obtain m ns where mn: "ms = m # ns" "to_offer m = (of_nat j, feed j)" "map to_offer ns = numbered feed js"
    using Cons.prems(2) by (cases ms) (auto simp: numbered_def)
  then have ms: "ms = m # ns" "pm_sequence m = of_nat j" "pm_event m = feed j" "map to_offer ns = numbered feed js"
    by (simp_all add: to_offer_def)
  have B: "\<forall>i \<in> set B. e < i" "length B \<le> 4096" using Cons.prems(1) by (auto simp: lossy_inv_def Let_def)
  have srt: "\<forall>i \<in> set B. i < j" "\<forall>i \<in> set js. j < i" "sorted_wrt (<) B" "sorted_wrt (<) js" "\<forall>i \<in> set B. \<forall>k \<in> set js. i < k"
    using Cons.prems(3) by (auto simp: sorted_wrt_append)
  show ?case
  proof (cases "j = e")
    case True
    then have "B = []" using B(1) srt(1) by (cases B) auto
    moreover have "\<exists>c'. handle now m c = Some c' \<and> lossy_inv cfg feed (Suc e) [] r (acc @ [e]) (Suc n) c'"
      by (rule lossy_apply) (use Cons.prems ms True \<open>B = []\<close> in auto)
    then obtain c1 where c1: "handle now m c = Some c1" "lossy_inv cfg feed (Suc e) [] r (acc @ [e]) (Suc n) c1" by blast
    from Cons.IH [OF c1(2) ms(4)] srt Cons.prems(4-6) True c1(1) \<open>B = []\<close> show ?thesis
      by (fastforce simp: ms(1) Suc_le_eq)
  next
    case False
    then have lt: "e < j" using Cons.prems(4) by (simp add: le_neq_implies_less)
    show ?thesis
    proof (cases "length B < 4096")
      case True
      have "\<exists>c'. handle now m c = Some c' \<and> lossy_inv cfg feed e (B @ [j]) r acc (Suc n) c'"
        by (rule lossy_hold) (use Cons.prems ms srt True lt in auto)
      then obtain c1 where c1: "handle now m c = Some c1" "lossy_inv cfg feed e (B @ [j]) r acc (Suc n) c1" by blast
      have "\<exists>c' e' B' acc' r'. consume now ns c1 = Some c' \<and> lossy_run e (length (B @ [j])) r acc js = (acc', length B', r')
          \<and> lossy_inv cfg feed e' B' r' acc' (Suc n + length js) c' \<and> length acc' \<le> length acc + length js"
        by (rule Cons.IH [OF c1(2) ms(4)]) (use Cons.prems in auto)
      then show ?thesis using c1(1) False True by (fastforce simp: ms(1))
    next
      case full: False
      then have len: "length B = 4096" using B(2) by simp
      have "\<exists>c'. handle now m c = Some c' \<and> lossy_inv cfg feed (Suc j) [] (Suc r) [j] (Suc n) c'"
        by (rule lossy_overflow) (use Cons.prems ms lt len in auto)
      then obtain c1 where c1: "handle now m c = Some c1" "lossy_inv cfg feed (Suc j) [] (Suc r) [j] (Suc n) c1" by blast
      have "\<exists>c' e' B' acc' r'. consume now ns c1 = Some c' \<and> lossy_run (Suc j) (length ([] :: nat list)) (Suc r) [j] js = (acc', length B', r')
          \<and> lossy_inv cfg feed e' B' r' acc' (Suc n + length js) c' \<and> length acc' \<le> length [j] + length js"
        by (rule Cons.IH [OF c1(2) ms(4)]) (use Cons.prems srt in \<open>auto simp: Suc_le_eq\<close>)
      then show ?thesis using c1(1) False len by (fastforce simp: ms(1))
    qed
  qed
qed

text \<open>What is kept is always one stretch of consecutive numbers, each of which has arrived.\<close>

lemma lossy_run_stretch:
  assumes "lossy_run e h r [a..<e] js = (acc, h', r')" and "a \<le> e" and "{a..<e} \<union> set js \<subseteq> K"
  shows "\<exists>a' b. acc = [a'..<b] \<and> {a'..<b} \<subseteq> K \<and> r \<le> r' \<and> r' \<le> r + length js \<and> (r' = r \<longrightarrow> a' = a)"
  using assms
proof (induction js arbitrary: e h r a)
  case (Cons j js)
  consider "j = e" | "j \<noteq> e" "h < 4096" | "j \<noteq> e" "\<not> h < 4096" by blast
  then show ?case
  proof cases
    case 1
    with Cons.prems have "lossy_run (Suc e) h r [a..<Suc e] js = (acc, h', r')" by simp
    from Cons.IH [OF this] Cons.prems 1 obtain a' b where
      "acc = [a'..<b]" "{a'..<b} \<subseteq> K" "r \<le> r'" "r' \<le> r + length js" "r' = r \<longrightarrow> a' = a" by (auto simp: atLeastLessThanSuc)
    then show ?thesis by (intro exI [of _ a'] exI [of _ b]) auto
  next
    case 2
    with Cons.prems have "lossy_run e (Suc h) r [a..<e] js = (acc, h', r')" by simp
    from Cons.IH [OF this] Cons.prems obtain a' b where
      "acc = [a'..<b]" "{a'..<b} \<subseteq> K" "r \<le> r'" "r' \<le> r + length js" "r' = r \<longrightarrow> a' = a" by auto
    then show ?thesis by (intro exI [of _ a'] exI [of _ b]) auto
  next
    case 3
    with Cons.prems have "lossy_run (Suc j) 0 (Suc r) [j..<Suc j] js = (acc, h', r')" by simp
    from Cons.IH [OF this] Cons.prems obtain a' b where
      "acc = [a'..<b]" "{a'..<b} \<subseteq> K" "Suc r \<le> r'" "r' \<le> Suc r + length js" by auto
    then show ?thesis by (intro exI [of _ a'] exI [of _ b]) auto
  qed
qed auto

section \<open>The pipeline\<close>

lemma take_events:
  assumes "\<forall>i. 1 \<le> i \<and> i < k \<longrightarrow> i \<le> length es"
  shows "map (event_at es) [1..<k] = map the (take (k - 1) es)"
proof (rule nth_equalityI)
  have le: "k - 1 \<le> length es" using assms [rule_format, of "k - 1"] by (cases "k \<le> 1") auto
  then show "length (map (event_at es) [1..<k]) = length (map the (take (k - 1) es))" by simp
  show "map (event_at es) [1..<k] ! i = map the (take (k - 1) es) ! i" if "i < length (map (event_at es) [1..<k])" for i
    using that le by (simp add: event_at_def)
qed

text \<open>What reaches the consumer: an ascending choice of the numbers of the frames that decode, every frame counted once.\<close>

lemma lossy_arrivals:
  assumes "bytes \<noteq> []" and "length (file_events bytes) < 2 ^ 32" and "inject_gap_at cfg = 0"
    and "producer_run cfg now occ bytes = Some (ms, p)"
    and "weak_turns code_orders ts (start_weak ring_capacity (pc_backpressure cfg) default_msg ms) = Some w"
    and "c_phase (wk w) = C_finished"
  obtains js where "\<not> raced w" and "map (unat \<circ> pm_sequence) (received (wk w)) = js"
    and "offers (received (wk w)) = numbered (event_at (file_events bytes)) js" and "sorted_wrt (<) js"
    and "\<forall>i \<in> set js. 1 \<le> i \<and> i \<le> length (file_events bytes)"
    and "unat (parse_errors p) + unat (d_dropped (wk w)) + length (received (wk w)) = length (file_events bytes)"
proof -
  let ?es = "file_events bytes" and ?tr = "trace (wk w)"
  have run: "weak_turns code_orders ts (start_weak (2 ^ 16) (pc_backpressure cfg) default_msg ms) = Some w" "(16 :: nat) < 64"
    using assms(5) by (simp_all add: ring_capacity_def)
  note reach = weak_run_ok [OF run]
  note comp = channel_complete [OF reach(2) run(2) assms(6)]
  have off: "offers ms = numbered (event_at ?es) (decodable ?es)"
    using producer_run_spec [OF assms(4,1)]
    by (simp add: assms(3) hold_list_idle flush_held_def number_events_decodable [simplified])
  define js where "js = chosen (decodable ?es) (map snd ?tr)"
  have "offers (received (wk w)) = chosen (offers ms) (map snd ?tr)"
    using comp by (simp add: offers_def chosen_trace chosen_map)
  then have offs: "offers (received (wk w)) = numbered (event_at ?es) js"
    by (simp add: off numbered_def js_def chosen_map)
  have "sorted_wrt (<) (decodable ?es)" by (simp add: decodable_def sorted_wrt_filter sorted_wrt_upt del: upt_Suc)
  then have sorted: "sorted_wrt (<) js" unfolding js_def by (rule chosen_sorted)
  have mem: "1 \<le> i \<and> i \<le> length ?es" if "i \<in> set js" for i
  proof -
    have "i \<in> set (decodable ?es)" by (rule subsetD [OF chosen_set that [unfolded js_def]])
    then show ?thesis by (simp add: decodable_def del: upt_Suc)
  qed
  have "map (unat \<circ> fst) (offers (received (wk w))) = map (\<lambda>i. i) js"
    unfolding offs numbered_def map_map
  proof (rule map_cong [OF refl])
    fix i assume "i \<in> set js"
    from mem [OF this] assms(2) show "((unat \<circ> fst) \<circ> (\<lambda>i. (of_nat i :: u64, event_at ?es i))) i = i"
      by (simp add: unat_of_nat_64)
  qed
  then have nums: "map (unat \<circ> pm_sequence) (received (wk w)) = js" by (simp add: offers_def comp_def)
  have "length ?tr = length (decodable ?es)"
    using arg_cong [OF off, of length] comp by (simp add: length_offers numbered_def flip: length_map [of fst ?tr])
  then have all: "length (received (wk w)) + length (filter (\<lambda>e. \<not> snd e) ?tr) + length (filter (\<lambda>e. e = None) ?es) = length ?es"
    using sum_length_filter_compl [of snd ?tr] decodable_count [of ?es] comp by simp
  then have small: "length (filter (\<lambda>e. \<not> snd e) ?tr) < 2 ^ 64" "length (filter (\<lambda>e. e = None) ?es) < 2 ^ 64"
    using less_trans [OF assms(2), of "2 ^ 64"] by simp_all
  have "unat (parse_errors p) = length (filter (\<lambda>e. e = None) ?es)"
    using producer_run_spec [OF assms(4,1)] small(2) by (simp add: unat_of_nat_64)
  moreover have "unat (d_dropped (wk w)) = length (filter (\<lambda>e. \<not> snd e) ?tr)"
    using duo_inv_reach [OF reach(2) run(2)] small(1) by (simp add: duo_inv_def unat_of_nat_64)
  ultimately have "unat (parse_errors p) + unat (d_dropped (wk w)) + length (received (wk w)) = length ?es"
    using all by linarith
  with that reach(1) nums offs sorted mem show thesis by blast
qed

text \<open>
  C37. For any file and either policy, in every finished execution under the memory model
  without injected gaps, the book is the one of the frames before the first lost message
  (undecodable or dropped), if at most 4096 arrive after it; every frame is counted once, as
  parse error, drop or message.
\<close>

theorem pipeline_applies_prefix:
  assumes "good_config (fix_config (pc_book cfg))" and "bytes \<noteq> []" and "length (file_events bytes) < 2 ^ 32"
    and "inject_gap_at cfg = 0" and "producer_run cfg now occ bytes = Some (ms, p)"
    and "weak_turns code_orders ts (start_weak ring_capacity (pc_backpressure cfg) default_msg ms) = Some w"
    and "c_phase (wk w) = C_finished"
    and "seqs = (unat \<circ> pm_sequence) ` set (received (wk w))" and "1 \<le> k" and "k \<notin> seqs" and "{1..<k} \<subseteq> seqs"
    and "length (received (wk w)) < k + 4096"
  shows "\<not> raced w \<and> (\<exists>c0 c r. new_consumer cfg = Some c0 \<and> consume now' (received (wk w)) c0 = Some c
    \<and> apply_all (map the (take (k - 1) (file_events bytes))) (new_book (pc_book cfg)) = Some (cs_book c)
    \<and> (stale (cs_seq c) \<longleftrightarrow> (\<exists>i \<in> seqs. k < i))
    \<and> assemble rank p (d_dropped (wk w)) c = Some r
    \<and> unat (r_parse_errors r) + unat (r_drops r) + unat (r_messages r) = length (file_events bytes))"
proof -
  let ?es = "file_events bytes"
  obtain js where arr: "\<not> raced w" "map (unat \<circ> pm_sequence) (received (wk w)) = js"
      "offers (received (wk w)) = numbered (event_at ?es) js" "sorted_wrt (<) js"
      "\<forall>i \<in> set js. 1 \<le> i \<and> i \<le> length ?es"
      "unat (parse_errors p) + unat (d_dropped (wk w)) + length (received (wk w)) = length ?es"
    by (rule lossy_arrivals [OF assms(2-7)])
  have rng: "\<forall>i \<in> set js. 1 \<le> i \<and> i < 2 ^ 64 - 1"
  proof
    fix i assume "i \<in> set js"
    with arr(5) assms(3) show "1 \<le> i \<and> i < 2 ^ 64 - 1" by (auto dest!: bspec)
  qed
  have seqs: "seqs = set js" and len: "length (received (wk w)) = length js" by (auto simp: assms(8) simp flip: arr(2))
  obtain ds s where r: "seq_run (new_sequencer default_seq_config) (offers (received (wk w))) = (ds, map (event_at ?es) [1..<k], s)"
      "Overflow \<notin> set ds" "stale s \<longleftrightarrow> (\<exists>i \<in> seqs. k < i)"
    using run_stops_at_loss [OF arr(4) rng, of k "event_at ?es"] assms(9-12) seqs len arr(3) by auto
  have pre: "map (event_at ?es) [1..<k] = map the (take (k - 1) ?es)"
    by (rule take_events) (use assms(11) seqs arr(5) in auto)
  have evs: "length (map the (take (k - 1) ?es)) < 2 ^ 32" using assms(3) by simp
  have small: "length (received (wk w)) < 2 ^ 64" using arr(6) assms(3) less_trans [of _ "2 ^ 32" "2 ^ 64 :: nat"] by simp
  from file_book [OF assms(1) evs r(1) [unfolded pre] r(2) small, of now'] obtain c0 c
    where c: "new_consumer cfg = Some c0" "consume now' (received (wk w)) c0 = Some c"
      "apply_all (map the (take (k - 1) ?es)) (new_book (pc_book cfg)) = Some (cs_book c)" "cs_seq c = s"
      "cs_msgs c = of_nat (length (received (wk w)))" by blast
  obtain res where res: "assemble rank p (d_dropped (wk w)) c = Some res" "r_messages res = cs_msgs c"
      "r_parse_errors res = parse_errors p" "r_drops res = d_dropped (wk w)"
    using assemble_defined [OF assms(1) evs c(3), of rank p "d_dropped (wk w)"] by blast
  have "unat (r_messages res) = length (received (wk w))"
    using small by (simp add: res(2) c(5) unat_of_nat_64)
  with arr(1,6) c res r(3) show ?thesis by auto
qed

lemma pipeline_applies_prefix_witness:
  "\<exists>ms p ts w c0 c r. producer_run (plain_config 0 0) (\<lambda>k. 7) id bad_first_frame = Some (ms, p)
    \<and> weak_turns code_orders ts (start_weak ring_capacity Block default_msg ms) = Some w
    \<and> new_consumer (plain_config 0 0) = Some c0 \<and> consume (\<lambda>k. 9) (received (wk w)) c0 = Some c
    \<and> cs_book c = new_book small_config \<and> stale (cs_seq c) \<and> assemble (\<lambda>p n. n) p (d_dropped (wk w)) c = Some r
    \<and> unat (r_parse_errors r) + unat (r_drops r) + unat (r_messages r) = 3"
proof -
  have events: "file_events bad_first_frame = None # map Some two_events" using bad_first_events by simp
  have two: "length two_events = 2" by (simp add: two_events_def)
  obtain ms p where p: "producer_run (plain_config 0 0) (\<lambda>k. 7) id bad_first_frame = Some (ms, p)"
    and seq: "map pm_sequence ms = [2, 3]"
    using bad_first_run by auto
  obtain ts w where w: "weak_turns code_orders ts (start_weak ring_capacity (pc_backpressure (plain_config 0 0)) default_msg ms) = Some w"
      "c_phase (wk w) = C_finished"
    using finished_weak_run [of 16 "pc_backpressure (plain_config 0 0)" default_msg ms] by (auto simp: ring_capacity_def)
  have block: "pc_backpressure (plain_config 0 0) = Block" by simp
  have run: "weak_turns code_orders ts (start_weak (2 ^ 16) Block default_msg ms) = Some w" using w(1) by (simp add: ring_capacity_def)
  have "(16 :: nat) < 64" by simp
  from channel_complete [OF weak_run_ok(2) [OF run this] this w(2)] have all: "received (wk w) = ms" by blast
  have "(unat \<circ> pm_sequence) ` set ms = unat ` set (map pm_sequence ms)" by (simp add: image_image)
  then have nums: "{2, 3} = (unat \<circ> pm_sequence) ` set (received (wk w))" by (simp add: seq all)
  have "length (received (wk w)) = 2" using arg_cong [OF seq, of length] all by simp
  then have few: "length (received (wk w)) < 1 + 4096" by simp
  have "bad_first_frame \<noteq> []" by (simp add: bad_first_frame_def)
  from pipeline_applies_prefix [OF _ this _ _ p w nums _ _ _ few, of "\<lambda>k. 9" "\<lambda>p n. n"] events two
  obtain c0 c r where "new_consumer (plain_config 0 0) = Some c0" "consume (\<lambda>k. 9) (received (wk w)) c0 = Some c"
      "cs_book c = new_book small_config" "stale (cs_seq c)" "assemble (\<lambda>p n. n) p (d_dropped (wk w)) c = Some r"
      "unat (r_parse_errors r) + unat (r_drops r) + unat (r_messages r) = 3" by auto
  with p w(1) block show ?thesis by metis
qed

text \<open>
  C36. For any file and either policy without injected gaps: the final book holds exactly the
  orders one stretch of consecutive arrived messages leaves, from 1 until the first loss; once
  4096 are held back after a loss, the next message starts the book anew. It also fixes
  staleness, recoveries and counts.
\<close>

theorem pipeline_rebuilds_after_loss:
  assumes "good_config (fix_config (pc_book cfg))" and "bytes \<noteq> []" and "length (file_events bytes) < 2 ^ 32"
    and "inject_gap_at cfg = 0" and "producer_run cfg now occ bytes = Some (ms, p)"
    and "weak_turns code_orders ts (start_weak ring_capacity (pc_backpressure cfg) default_msg ms) = Some w"
    and "c_phase (wk w) = C_finished"
    and "lossy_run 1 0 0 [] (map (unat \<circ> pm_sequence) (received (wk w))) = (kept, waiting, rebuilds)"
  shows "\<exists>c0 c r a b. new_consumer cfg = Some c0 \<and> consume now' (received (wk w)) c0 = Some c
    \<and> kept = [a..<b] \<and> {a..<b} \<subseteq> (unat \<circ> pm_sequence) ` set (received (wk w)) \<and> (rebuilds = 0 \<longrightarrow> a = 1)
    \<and> (let live = spec_run (pc_book cfg) (map (event_at (file_events bytes)) kept) in
        (\<forall>i < num_levels (fix_config (pc_book cfg)).
           orders_at (cs_book c) i = at_level (fix_config (pc_book cfg)) i live)
        \<and> (\<forall>ref. index (cs_book c) ref \<noteq> None \<longleftrightarrow> ref \<in> refs live)
        \<and> assemble rank p (d_dropped (wk w)) c = Some r \<and> unat (r_live_orders r) = length live)
    \<and> unat (snapshot_recoveries (r_seq_stats r)) = rebuilds \<and> (stale (cs_seq c) \<longleftrightarrow> waiting \<noteq> 0)
    \<and> unat (r_parse_errors r) + unat (r_drops r) + unat (r_messages r) = length (file_events bytes)"
proof -
  let ?es = "file_events bytes" and ?cfg = "fix_config (pc_book cfg)"
  obtain js where arr: "map (unat \<circ> pm_sequence) (received (wk w)) = js"
      "offers (received (wk w)) = numbered (event_at ?es) js" "sorted_wrt (<) js"
      "\<forall>i \<in> set js. 1 \<le> i \<and> i \<le> length ?es"
      "unat (parse_errors p) + unat (d_dropped (wk w)) + length (received (wk w)) = length ?es"
    by (rule lossy_arrivals [OF assms(2-7)])
  have len: "length (received (wk w)) = length js" by (simp flip: arr(1))
  then have short: "length js < 2 ^ 32" using arr(5) assms(3) by linarith
  then have small: "length js < 2 ^ 64" by simp
  have rng: "\<forall>j \<in> set js. 1 \<le> j \<and> j < 2 ^ 64"
  proof
    fix j assume "j \<in> set js"
    with arr(4) assms(3) show "1 \<le> j \<and> j < 2 ^ 64" by (auto dest!: bspec)
  qed
  obtain c0 where c0: "new_consumer cfg = Some c0" "lossy_inv cfg (event_at ?es) 1 [] 0 [] 0 c0"
    using lossy_start [OF assms(1)] by blast
  have offs: "map to_offer (received (wk w)) = numbered (event_at ?es) js"
    using arr(2) by (simp add: offers_def to_offer_def [abs_def])
  have "\<exists>c e B acc r. consume now' (received (wk w)) c0 = Some c \<and> lossy_run 1 (length ([] :: nat list)) 0 [] js = (acc, length B, r)
      \<and> lossy_inv cfg (event_at ?es) e B r acc (0 + length js) c \<and> length acc \<le> length ([] :: nat list) + length js"
    by (rule lossy_consume [OF c0(2) offs]) (use arr(3) rng short small in auto)
  then obtain c e B where c: "consume now' (received (wk w)) c0 = Some c" "waiting = length B"
      "lossy_inv cfg (event_at ?es) e B rebuilds kept (length js) c"
    using assms(8) unfolding arr(1) by auto
  have "lossy_run 1 0 0 [1..<1] js = (kept, waiting, rebuilds)" using assms(8) unfolding arr(1) by simp
  from lossy_run_stretch [OF this, of "set js"] obtain a b where ab: "kept = [a..<b]" "{a..<b} \<subseteq> set js" "rebuilds = 0 \<longrightarrow> a = 1"
      "rebuilds \<le> length js" by auto
  obtain q where q: "book_repr (cs_book c) q (spec_run (pc_book cfg) (map (event_at ?es) kept))" "bk_cfg (cs_book c) = ?cfg"
    using c(3) by (auto simp: lossy_inv_def)
  obtain r where r: "assemble rank p (d_dropped (wk w)) c = Some r" "r_live_orders r = live_orders (cs_book c)"
      "r_messages r = cs_msgs c" "r_parse_errors r = parse_errors p" "r_drops r = d_dropped (wk w)"
      "r_seq_stats r = sq_stats (cs_seq c)"
    using assemble_repr [OF q(1), of rank p "d_dropped (wk w)"] by blast
  have cnt: "cs_msgs c = of_nat (length js)" "snapshot_recoveries (sq_stats (cs_seq c)) = of_nat rebuilds"
      "stale (cs_seq c) \<longleftrightarrow> B \<noteq> []"
    using c(3) by (auto simp: lossy_inv_def Let_def)
  note book = orders_at_repr [OF q(1)] repr_index [OF q(1)] unat_live_orders [OF q(1)]
  have lv: "length (levels (cs_book c)) = num_levels ?cfg" using q by (simp add: book_repr_def)
  have "unat (snapshot_recoveries (sq_stats (cs_seq c))) = rebuilds" using cnt(2) ab(4) small by (simp add: unat_of_nat_64)
  moreover have "unat (cs_msgs c) = length js" using cnt(1) small by (simp add: unat_of_nat_64)
  moreover have "set js = (unat \<circ> pm_sequence) ` set (received (wk w))" by (simp flip: arr(1))
  moreover have "stale (cs_seq c) \<longleftrightarrow> waiting \<noteq> 0" using cnt(3) c(2) by simp
  ultimately show ?thesis
    using c0(1) c(1) ab(1-3) r book lv arr(5) len unfolding Let_def q(2)
    by (intro exI [of _ c0] exI [of _ c] exI [of _ r] exI [of _ a] exI [of _ b]) simp
qed

lemma pipeline_rebuilds_after_loss_witness:
  "\<exists>ms p ts w c0 c r. producer_run (plain_config 0 0) (\<lambda>k. 7) id bad_first_frame = Some (ms, p)
    \<and> weak_turns code_orders ts (start_weak ring_capacity Block default_msg ms) = Some w
    \<and> new_consumer (plain_config 0 0) = Some c0 \<and> consume (\<lambda>k. 9) (received (wk w)) c0 = Some c
    \<and> (\<forall>i < 8. orders_at (cs_book c) i = []) \<and> stale (cs_seq c)
    \<and> assemble (\<lambda>p n. n) p (d_dropped (wk w)) c = Some r \<and> unat (r_live_orders r) = 0
    \<and> unat (r_parse_errors r) + unat (r_drops r) + unat (r_messages r) = 3"
proof -
  obtain ms p where p: "producer_run (plain_config 0 0) (\<lambda>k. 7) id bad_first_frame = Some (ms, p)"
    and seq: "map pm_sequence ms = [2, 3]"
    using bad_first_run by auto
  obtain ts w where w: "weak_turns code_orders ts (start_weak ring_capacity (pc_backpressure (plain_config 0 0)) default_msg ms) = Some w"
      "c_phase (wk w) = C_finished"
    using finished_weak_run [of 16 "pc_backpressure (plain_config 0 0)" default_msg ms] by (auto simp: ring_capacity_def)
  have block: "pc_backpressure (plain_config 0 0) = Block" by simp
  have run: "weak_turns code_orders ts (start_weak (2 ^ 16) Block default_msg ms) = Some w" using w(1) by (simp add: ring_capacity_def)
  have "(16 :: nat) < 64" by simp
  from channel_complete [OF weak_run_ok(2) [OF run this] this w(2)] have all: "received (wk w) = ms" by blast
  have "map (unat \<circ> pm_sequence) (received (wk w)) = map unat (map pm_sequence ms)" by (simp add: all)
  also have "\<dots> = [2, 3]" by (simp add: seq)
  finally have "lossy_run 1 0 0 [] (map (unat \<circ> pm_sequence) (received (wk w))) = ([], 2, 0)" by simp
  moreover have "bad_first_frame \<noteq> []" by (simp add: bad_first_frame_def)
  moreover have "length (file_events bad_first_frame) = 3" using bad_first_events by (simp add: two_events_def)
  ultimately obtain c0 c r where "new_consumer (plain_config 0 0) = Some c0" "consume (\<lambda>k. 9) (received (wk w)) c0 = Some c"
      "\<forall>i < 8. orders_at (cs_book c) i = []" "stale (cs_seq c)" "assemble (\<lambda>p n. n) p (d_dropped (wk w)) c = Some r"
      "unat (r_live_orders r) = 0" "unat (r_parse_errors r) + unat (r_drops r) + unat (r_messages r) = 3"
    using pipeline_rebuilds_after_loss [OF _ _ _ _ p w, of "[]" 2 0 "\<lambda>k. 9" "\<lambda>p n. n"]
    by (auto simp: spec_run_def Let_def at_level_def)
  with p w(1) block show ?thesis by metis
qed

end
