(* ===== verification/Itch_Gen.thy ===== *)
theory Itch_Gen
  imports Byte_Read Market_Event
begin

text \<open>
  \<^verbatim>\<open>tools/itch_gen.cpp\<close>: the synthetic ITCH generator. The message builders write into the 64-byte
  buffer of \<open>ItchWriter\<close> through the stores of Byte_Read, and \<open>emit\<close> appends the frame to the output.
  \<open>uni k lo hi\<close> is the result of the \<open>k\<close>-th call of \<open>uni(lo, hi)\<close>: the Mersenne twister and
  \<open>uniform_int_distribution\<close> are the standard library's, whose documented contract (a value between
  the bounds) is the hypothesis \<open>draws_ok\<close> where a property needs it.
\<close>

record live_order =
  lo_ref :: u64
  lo_side :: u8
  lo_px :: int
  lo_sz :: u32

record gen =
  w_out :: byte_buf
  w_buf :: byte_buf
  w_count :: u64
  g_ts :: u64
  g_next_ref :: u64
  g_match :: u64
  g_live :: "live_order list"
  g_draws :: nat

type_synonym draws = "nat \<Rightarrow> u64 \<Rightarrow> u64 \<Rightarrow> u64"

definition k_locate :: u16 where "k_locate = 1"
definition k_mid :: int where "k_mid = 1000000"
definition k_band :: int where "k_band = 50"
definition k_max_live :: u64 where "k_max_live = 20000"

definition new_gen :: gen where
  "new_gen = \<lparr>w_out = [], w_buf = replicate 64 0, w_count = 0, g_ts = 34200000000000, g_next_ref = 1,
     g_match = 1, g_live = [], g_draws = 0\<rparr>"

text \<open>The symbol field: eight spaces overwritten by at most eight characters of the symbol.\<close>

definition symbol_field :: "u8 list \<Rightarrow> u8 list" where
  "symbol_field s = take 8 s @ replicate (8 - length s) (ascii CHR '' '')"

text \<open>Constructing the distribution with \<open>hi < lo\<close> is undefined behaviour.\<close>

definition draw :: "draws \<Rightarrow> u64 \<Rightarrow> u64 \<Rightarrow> gen \<Rightarrow> (u64 \<times> gen) option" where
  "draw uni l h g = (if l \<le> h then Some (uni (g_draws g) l h, g\<lparr>g_draws := Suc (g_draws g)\<rparr>) else None)"

section \<open>Message builders\<close>

text \<open>\<open>ItchWriter::emit\<close>: the two length bytes, then the first \<open>len\<close> bytes of the buffer.\<close>

definition emit :: "nat \<Rightarrow> gen \<Rightarrow> gen option" where
  "emit len g = do {
     h \<leftarrow> store_be16 [0, 0] 0 (of_nat len);
     (if len \<le> length (w_buf g)
      then Some (g\<lparr>w_out := w_out g @ h @ take len (w_buf g), w_count := w_count g + 1\<rparr>)
      else None) }"

text \<open>\<open>std::memcpy(b + p, sy, 8)\<close>.\<close>

definition copy8 :: "byte_buf \<Rightarrow> nat \<Rightarrow> u8 list \<Rightarrow> byte_buf option" where
  "copy8 m p s = (if p + 8 \<le> length m \<and> length s = 8 then Some (take p m @ s @ drop (p + 8) m) else None)"

definition hdr :: "draws \<Rightarrow> u8 \<Rightarrow> gen \<Rightarrow> gen option" where
  "hdr uni type g = do {
     b \<leftarrow> vec_set (w_buf g) 0 type;
     b \<leftarrow> store_be16 b 1 k_locate;
     b \<leftarrow> store_be16 b 3 0;
     (dt, g) \<leftarrow> draw uni 1 1000 g;
     let ts = g_ts g + dt;
     b \<leftarrow> store_be48 b 5 ts;
     Some (g\<lparr>w_buf := b, g_ts := ts\<rparr>) }"

definition emit_system :: "draws \<Rightarrow> u8 \<Rightarrow> gen \<Rightarrow> gen option" where
  "emit_system uni code g = do {
     g \<leftarrow> hdr uni (ascii CHR ''S'') g;
     b \<leftarrow> vec_set (w_buf g) 11 code;
     emit 12 (g\<lparr>w_buf := b\<rparr>) }"

definition emit_add :: "draws \<Rightarrow> u8 list \<Rightarrow> live_order \<Rightarrow> gen \<Rightarrow> gen option" where
  "emit_add uni sy ord g = do {
     g \<leftarrow> hdr uni (ascii CHR ''A'') g;
     b \<leftarrow> store_be64 (w_buf g) 11 (lo_ref ord);
     b \<leftarrow> vec_set b 19 (lo_side ord);
     b \<leftarrow> store_be32 b 20 (lo_sz ord);
     b \<leftarrow> copy8 b 24 sy;
     b \<leftarrow> store_be32 b 32 (of_int (lo_px ord));
     emit 36 (g\<lparr>w_buf := b\<rparr>) }"

definition emit_exec :: "draws \<Rightarrow> u64 \<Rightarrow> u32 \<Rightarrow> gen \<Rightarrow> gen option" where
  "emit_exec uni ref shares g = do {
     g \<leftarrow> hdr uni (ascii CHR ''E'') g;
     b \<leftarrow> store_be64 (w_buf g) 11 ref;
     b \<leftarrow> store_be32 b 19 shares;
     b \<leftarrow> store_be64 b 23 (g_match g);
     emit 31 (g\<lparr>w_buf := b, g_match := g_match g + 1\<rparr>) }"

definition emit_cancel :: "draws \<Rightarrow> u64 \<Rightarrow> u32 \<Rightarrow> gen \<Rightarrow> gen option" where
  "emit_cancel uni ref shares g = do {
     g \<leftarrow> hdr uni (ascii CHR ''X'') g;
     b \<leftarrow> store_be64 (w_buf g) 11 ref;
     b \<leftarrow> store_be32 b 19 shares;
     emit 23 (g\<lparr>w_buf := b\<rparr>) }"

definition emit_delete :: "draws \<Rightarrow> u64 \<Rightarrow> gen \<Rightarrow> gen option" where
  "emit_delete uni ref g = do {
     g \<leftarrow> hdr uni (ascii CHR ''D'') g;
     b \<leftarrow> store_be64 (w_buf g) 11 ref;
     emit 19 (g\<lparr>w_buf := b\<rparr>) }"

definition emit_replace :: "draws \<Rightarrow> u64 \<Rightarrow> u64 \<Rightarrow> u32 \<Rightarrow> int \<Rightarrow> gen \<Rightarrow> gen option" where
  "emit_replace uni orig neu sz px g = do {
     g \<leftarrow> hdr uni (ascii CHR ''U'') g;
     b \<leftarrow> store_be64 (w_buf g) 11 orig;
     b \<leftarrow> store_be64 b 19 neu;
     b \<leftarrow> store_be32 b 27 sz;
     b \<leftarrow> store_be32 b 31 (of_int px);
     emit 35 (g\<lparr>w_buf := b\<rparr>) }"

definition emit_trade :: "draws \<Rightarrow> u8 list \<Rightarrow> gen \<Rightarrow> gen option" where
  "emit_trade uni sy g = do {
     g \<leftarrow> hdr uni (ascii CHR ''P'') g;
     b \<leftarrow> store_be64 (w_buf g) 11 0;
     (u, g) \<leftarrow> draw uni 0 1 g;
     b \<leftarrow> vec_set b 19 (if u \<noteq> 0 then ascii CHR ''B'' else ascii CHR ''S'');
     (v, g) \<leftarrow> draw uni 1 5 g;
     b \<leftarrow> store_be32 b 20 (ucast (v * 100));
     b \<leftarrow> copy8 b 24 sy;
     b \<leftarrow> store_be32 b 32 (of_int k_mid);
     b \<leftarrow> store_be64 b 36 (g_match g);
     emit 44 (g\<lparr>w_buf := b, g_match := g_match g + 1\<rparr>) }"

section \<open>The live orders\<close>

definition random_price :: "draws \<Rightarrow> u8 \<Rightarrow> gen \<Rightarrow> (int \<times> gen) option" where
  "random_price uni sd g = do {
     (d, g) \<leftarrow> draw uni 0 (of_int k_band) g;
     Some (if sd = ascii CHR ''B'' then k_mid - 1 - uint d else k_mid + 1 + uint d, g) }"

definition do_add :: "draws \<Rightarrow> u8 list \<Rightarrow> gen \<Rightarrow> gen option" where
  "do_add uni sy g = do {
     let r = g_next_ref g;
     (u, g) \<leftarrow> draw uni 0 1 (g\<lparr>g_next_ref := g_next_ref g + 1\<rparr>);
     let sd = (if u \<noteq> 0 then ascii CHR ''B'' else ascii CHR ''S'');
     (px, g) \<leftarrow> random_price uni sd g;
     (v, g) \<leftarrow> draw uni 1 10 g;
     let ord = \<lparr>lo_ref = r, lo_side = sd, lo_px = px, lo_sz = ucast (v * 100)\<rparr>;
     g \<leftarrow> emit_add uni sy ord g;
     Some (g\<lparr>g_live := g_live g @ [ord]\<rparr>) }"

definition remove_at :: "nat \<Rightarrow> live_order list \<Rightarrow> live_order list option" where
  "remove_at i xs = do {
     xs \<leftarrow> (if xs = [] then None else vec_set xs i (last xs));
     Some (butlast xs) }"

text \<open>\<open>if (shares >= live[i].sz) remove_at(i); else live[i].sz -= shares;\<close>\<close>

definition reduce_at :: "nat \<Rightarrow> u32 \<Rightarrow> live_order list \<Rightarrow> live_order list option" where
  "reduce_at i shares xs = do {
     ord \<leftarrow> vec_get xs i;
     if shares \<ge> lo_sz ord then remove_at i xs
     else vec_set xs i (ord\<lparr>lo_sz := lo_sz ord - shares\<rparr>) }"

section \<open>The main loop\<close>

text \<open>The branches of the loop on a live order, picked at random; \<open>gen_step\<close> is the body of the loop.\<close>

definition pick :: "draws \<Rightarrow> gen \<Rightarrow> (u64 \<times> gen) option" where
  "pick uni g = draw uni 0 (of_nat (length (g_live g)) - 1) g"

definition step_execute :: "draws \<Rightarrow> gen \<Rightarrow> gen option" where
  "step_execute uni g = do {
     (i, g) \<leftarrow> pick uni g;
     ord \<leftarrow> vec_get (g_live g) (unat i);
     (s, g) \<leftarrow> draw uni 1 (ucast (lo_sz ord)) g;
     g \<leftarrow> emit_exec uni (lo_ref ord) (ucast s) g;
     lv \<leftarrow> reduce_at (unat i) (ucast s) (g_live g);
     Some (g\<lparr>g_live := lv\<rparr>) }"

definition step_cancel :: "draws \<Rightarrow> gen \<Rightarrow> gen option" where
  "step_cancel uni g = do {
     (i, g) \<leftarrow> pick uni g;
     ord \<leftarrow> vec_get (g_live g) (unat i);
     (s, g) \<leftarrow> draw uni 1 (ucast (lo_sz ord)) g;
     g \<leftarrow> emit_cancel uni (lo_ref ord) (ucast s) g;
     lv \<leftarrow> reduce_at (unat i) (ucast s) (g_live g);
     Some (g\<lparr>g_live := lv\<rparr>) }"

definition step_delete :: "draws \<Rightarrow> gen \<Rightarrow> gen option" where
  "step_delete uni g = do {
     (i, g) \<leftarrow> pick uni g;
     ord \<leftarrow> vec_get (g_live g) (unat i);
     g \<leftarrow> emit_delete uni (lo_ref ord) g;
     lv \<leftarrow> remove_at (unat i) (g_live g);
     Some (g\<lparr>g_live := lv\<rparr>) }"

definition step_replace :: "draws \<Rightarrow> gen \<Rightarrow> gen option" where
  "step_replace uni g = do {
     (i, g) \<leftarrow> pick uni g;
     ord \<leftarrow> vec_get (g_live g) (unat i);
     let neu = g_next_ref g;
     (px, g) \<leftarrow> random_price uni (lo_side ord) (g\<lparr>g_next_ref := g_next_ref g + 1\<rparr>);
     (v, g) \<leftarrow> draw uni 1 10 g;
     let sz = (ucast (v * 100) :: u32);
     g \<leftarrow> emit_replace uni (lo_ref ord) neu sz px g;
     lv \<leftarrow> vec_set (g_live g) (unat i) (ord\<lparr>lo_ref := neu, lo_px := px, lo_sz := sz\<rparr>);
     Some (g\<lparr>g_live := lv\<rparr>) }"

definition gen_step :: "draws \<Rightarrow> u8 list \<Rightarrow> gen \<Rightarrow> gen option" where
  "gen_step uni sy g = do {
     let too_many = unat k_max_live \<le> length (g_live g);
     let too_few = length (g_live g) < 8;
     (roll, g) \<leftarrow> draw uni 0 99 g;
     let roll = (if too_few then 0 else if too_many then 60 else roll);
     if roll < 50 then do_add uni sy g
     else if roll < 68 then step_execute uni g
     else if roll < 80 then step_cancel uni g
     else if roll < 92 then step_delete uni g
     else if roll < 99 then step_replace uni g
     else emit_trade uni sy g }"

partial_function (option) gen_loop :: "draws \<Rightarrow> u8 list \<Rightarrow> u64 \<Rightarrow> gen \<Rightarrow> gen option" where
  "gen_loop uni sy messages g =
    (if w_count g < messages then Option.bind (gen_step uni sy g) (gen_loop uni sy messages)
     else Some g)"

definition gen_main :: "draws \<Rightarrow> u8 list \<Rightarrow> u64 \<Rightarrow> gen option" where
  "gen_main uni name messages = do {
     let sy = symbol_field name;
     g \<leftarrow> emit_system uni (ascii CHR ''O'') new_gen;
     g \<leftarrow> gen_loop uni sy messages g;
     emit_system uni (ascii CHR ''C'') g }"

end
