(* ===== verification/Itch_Gen_Codec.thy ===== *)
theory Itch_Gen_Codec
  imports Itch_Gen Pipeline_Feed
begin

text \<open>
  The frames of the generator decode to the events they were built from. A store of a field is an
  overwrite \<open>put\<close> of its bytes, so the fields of a built message are read off the stack of
  overwrites, and the parser of the pipeline returns them.
\<close>

section \<open>A store is an overwrite of its bytes\<close>

definition put :: "byte_buf \<Rightarrow> nat \<Rightarrow> u8 list \<Rightarrow> byte_buf" where
  "put m p bs = take p m @ bs @ drop (p + length bs) m"

lemma length_put: "p + length bs \<le> length m \<Longrightarrow> length (put m p bs) = length m"
  by (simp add: put_def)

lemma put_Cons: "p < length m \<Longrightarrow> put m p (b # bs) = put (m[p := b]) (Suc p) bs"
  by (simp add: put_def upd_conv_take_nth_drop take_Suc_conv_app_nth drop_Suc add.commute)

lemma put_Nil [simp]: "put m p [] = m"
  by (simp add: put_def)

lemma vec_set_put: "p < length m \<Longrightarrow> vec_set m p b = Some (put m p [b])"
  by (simp add: put_Cons access_simps)

lemma bytes_at_put_same:
  "n = length bs \<Longrightarrow> p + n \<le> length m \<Longrightarrow> bytes_at (put m p bs) p n = bs"
  by (simp add: bytes_at_def put_def)

lemma nth_put_other:
  "p + length bs \<le> length m \<Longrightarrow> i < p \<or> p + length bs \<le> i \<Longrightarrow> i < length m \<Longrightarrow> put m p bs ! i = m ! i"
  by (auto simp: put_def nth_append min_def)

lemma bytes_at_put_other:
  assumes "p + length bs \<le> length m" and "q + n \<le> length m" and "q + n \<le> p \<or> p + length bs \<le> q"
  shows "bytes_at (put m p bs) q n = bytes_at m q n"
  using assms
  by (intro nth_equalityI) (auto simp: bytes_at_def length_put nth_put_other)

lemma plus_Sucs:
  "p + 3 = Suc (Suc (Suc p))" "p + 4 = Suc (Suc (Suc (Suc p)))" "p + 5 = Suc (Suc (Suc (Suc (Suc p))))"
  "p + 6 = Suc (Suc (Suc (Suc (Suc (Suc p)))))" "p + 7 = Suc (Suc (Suc (Suc (Suc (Suc (Suc p))))))"
  by simp_all

text \<open>The big-endian bytes of a value.\<close>

definition be16_bytes :: "u16 \<Rightarrow> u8 list" where
  "be16_bytes v = [ucast (drop_bit 8 v), ucast v]"

definition be32_bytes :: "u32 \<Rightarrow> u8 list" where
  "be32_bytes v = [ucast (drop_bit 24 v), ucast (drop_bit 16 v), ucast (drop_bit 8 v), ucast v]"

definition be48_bytes :: "u64 \<Rightarrow> u8 list" where
  "be48_bytes v = [ucast (drop_bit 40 v), ucast (drop_bit 32 v), ucast (drop_bit 24 v),
     ucast (drop_bit 16 v), ucast (drop_bit 8 v), ucast v]"

definition be64_bytes :: "u64 \<Rightarrow> u8 list" where
  "be64_bytes v = [ucast (drop_bit 56 v), ucast (drop_bit 48 v), ucast (drop_bit 40 v),
     ucast (drop_bit 32 v), ucast (drop_bit 24 v), ucast (drop_bit 16 v), ucast (drop_bit 8 v), ucast v]"

lemmas be_bytes_defs = be16_bytes_def be32_bytes_def be48_bytes_def be64_bytes_def

lemma length_be_bytes [simp]:
  "length (be16_bytes a) = 2" "length (be32_bytes b) = 4"
  "length (be48_bytes c) = 6" "length (be64_bytes c) = 8"
  by (simp_all add: be_bytes_defs)

lemma store_puts:
  "p + 2 \<le> length m \<Longrightarrow> store_be16 m p a = Some (put m p (be16_bytes a))"
  "p + 4 \<le> length m \<Longrightarrow> store_be32 m p b = Some (put m p (be32_bytes b))"
  "p + 6 \<le> length m \<Longrightarrow> store_be48 m p c = Some (put m p (be48_bytes c))"
  "p + 8 \<le> length m \<Longrightarrow> store_be64 m p c = Some (put m p (be64_bytes c))"
  by (simp_all add: store_defs be_bytes_defs access_simps put_Cons plus_Sucs)

text \<open>Reading a buffer under a stack of overwrites.\<close>

context be_codec begin

lemma load_put_other:
  assumes "q + length bs \<le> length m" and "p + width \<le> length m" and "p + width \<le> q \<or> q + length bs \<le> p"
  shows "load (put m q bs) p = load m p"
proof (rule load_local)
  show "p + width \<le> length (put m q bs)" using assms by (simp add: length_put)
  fix i assume "i < width"
  then show "put m q bs ! (p + i) = m ! (p + i)"
    using assms by (intro nth_put_other) linarith+
qed (rule assms(2))

lemma load_put_same:
  assumes "p + width \<le> length m" and "fits v" and "store m p v = Some (put m p bs)"
  shows "load (put m p bs) p = Some v"
  using load_store [OF assms] .

end

lemma load_u8_put:
  "q + length bs \<le> length m \<Longrightarrow> p < length m \<Longrightarrow> p < q \<or> q + length bs \<le> p \<Longrightarrow>
    load_u8 (put m q bs) p = load_u8 m p"
  "p < length m \<Longrightarrow> load_u8 (put m p [b]) p = Some b"
  by (simp_all add: load_u8_def vec_get_def length_put nth_put_other put_Cons)

lemma load_puts_same:
  "p + 2 \<le> length m \<Longrightarrow> load_be16 (put m p (be16_bytes a)) p = Some a"
  "p + 4 \<le> length m \<Longrightarrow> load_be32 (put m p (be32_bytes b)) p = Some b"
  "p + 6 \<le> length m \<Longrightarrow> c < 2 ^ 48 \<Longrightarrow> load_be48 (put m p (be48_bytes c)) p = Some c"
  "p + 8 \<le> length m \<Longrightarrow> load_be64 (put m p (be64_bytes c)) p = Some c"
  by (rule be16.load_put_same be32.load_put_same be48.load_put_same be64.load_put_same;
      simp add: store_puts)+

lemma copy_symbol_put:
  "q + length bs \<le> length m \<Longrightarrow> p + 8 \<le> length m \<Longrightarrow> p + 8 \<le> q \<or> q + length bs \<le> p \<Longrightarrow>
    copy_symbol (put m q bs) p e = copy_symbol m p e"
  "p + 8 \<le> length m \<Longrightarrow> length s = 8 \<Longrightarrow> copy_symbol (put m p s) p e = Some (e\<lparr>symbol := s\<rparr>)"
  by (simp_all add: copy_symbol_def length_put bytes_at_put_other bytes_at_put_same)

lemma copy8_put: "p + 8 \<le> length m \<Longrightarrow> length s = 8 \<Longrightarrow> copy8 m p s = Some (put m p s)"
  by (simp add: copy8_def put_def)

lemmas put_simps = length_put vec_set_put store_puts load_puts_same load_u8_put copy_symbol_put copy8_put
  be16.load_put_other be32.load_put_other be48.load_put_other be64.load_put_other

section \<open>Frames\<close>

definition frame :: "u8 list \<Rightarrow> byte_buf" where
  "frame pl = be16_bytes (of_nat (length pl)) @ pl"

lemma be_value_be16: "be_value (be16_bytes v) = unat v"
proof -
  have "load_be16 (put [0, 0] 0 (be16_bytes v)) 0 = Some v" by (rule load_puts_same) simp
  moreover have "put [0, 0] 0 (be16_bytes v) = be16_bytes v" by (simp add: put_def be16_bytes_def)
  ultimately show ?thesis
    using load_be16_value [of 0 "be16_bytes v"] by (simp add: bytes_at_def)
qed

lemma split_frames_frame:
  assumes "length pl < 2 ^ 16"
  shows "split_frames (frame pl @ rest) = pl # split_frames rest"
proof -
  have "unat (of_nat (length pl) :: u16) = length pl"
    using assms by (simp add: unat_of_nat)
  then show ?thesis
    by (subst split_frames.simps) (simp add: frame_def Let_def be_value_be16)
qed

lemma split_frames_concat:
  "\<forall>pl \<in> set pls. length pl < 2 ^ 16 \<Longrightarrow> split_frames (concat (map frame pls)) = pls"
proof (induction pls)
  case Nil
  then show ?case by (simp add: split_frames.simps)
next
  case (Cons pl pls)
  then show ?case using split_frames_frame [of pl "concat (map frame pls)"] by simp
qed

section \<open>The builders\<close>

definition draws_ok :: "draws \<Rightarrow> bool" where
  "draws_ok uni \<longleftrightarrow> (\<forall>k l h. l \<le> h \<longrightarrow> l \<le> uni k l h \<and> uni k l h \<le> h)"

lemma draw_run: "l \<le> h \<Longrightarrow> draw uni l h g = Some (uni (g_draws g) l h, g\<lparr>g_draws := Suc (g_draws g)\<rparr>)"
  by (simp add: draw_def)

definition next_ts :: "draws \<Rightarrow> gen \<Rightarrow> u64" where
  "next_ts uni g = g_ts g + uni (g_draws g) 1 1000"

definition hdr_buf :: "byte_buf \<Rightarrow> u8 \<Rightarrow> u64 \<Rightarrow> byte_buf" where
  "hdr_buf m ty ts = put (put (put (put m 0 [ty]) 1 (be16_bytes k_locate)) 3 (be16_bytes 0)) 5 (be48_bytes ts)"

lemma length_hdr_buf: "length m = 64 \<Longrightarrow> length (hdr_buf m ty ts) = 64"
  by (simp add: hdr_buf_def put_simps)

lemma hdr_run:
  "length (w_buf g) = 64 \<Longrightarrow> hdr uni ty g = Some (g\<lparr>w_buf := hdr_buf (w_buf g) ty (next_ts uni g),
     g_ts := next_ts uni g, g_draws := Suc (g_draws g)\<rparr>)"
  by (simp add: hdr_def put_simps draw_run hdr_buf_def next_ts_def Let_def)

lemma emit_run:
  "length (w_buf g) = 64 \<Longrightarrow> len \<le> 64 \<Longrightarrow>
    emit len g = Some (g\<lparr>w_out := w_out g @ frame (take len (w_buf g)), w_count := w_count g + 1\<rparr>)"
  by (simp add: emit_def put_simps frame_def min_def) (simp add: put_def be16_bytes_def)

text \<open>A payload with the header of its type decodes to the body's event.\<close>

abbreviation header_event :: "u64 \<Rightarrow> market_event" where
  "header_event ts \<equiv> default_event\<lparr>stock_locate := k_locate, timestamp_ns := ts\<rparr>"

lemma decode_buffer:
  assumes "length b = 64" and "load_u8 b 0 = Some ty" and "message_length ty \<noteq> 0" "message_length ty \<le> 64"
    and "load_be16 b 1 = Some k_locate" and "load_be48 b 5 = Some ts"
    and "decode_body ty b 0 (header_event ts) = Some e"
  shows "decode_payload (take (message_length ty) b) = Some e"
proof -
  let ?n = "message_length ty"
  have "decode_header b 0 default_event = Some (header_event ts)"
    using assms(5,6) by (simp add: decode_header_def)
  with assms(2-4,7) have "parse b 0 ?n default_event = Some (Ok, e)"
    by (simp add: parse_def)
  moreover have "parse b 0 ?n default_event = parse (take ?n b) 0 ?n default_event"
    using parse_local [of 0 ?n b default_event] assms(1,4) by (simp add: bytes_at_def)
  ultimately show ?thesis using assms(1,4) by (simp add: decode_payload_def min_def)
qed

lemma hdr_buf_loads:
  assumes "length m = 64" and "ts < 2 ^ 48"
  shows "load_u8 (hdr_buf m ty ts) 0 = Some ty" "load_be16 (hdr_buf m ty ts) 1 = Some k_locate"
    "load_be48 (hdr_buf m ty ts) 5 = Some ts"
  using assms by (simp_all add: hdr_buf_def put_simps)

text \<open>One message has been appended to the output; the rest of the state, but for clock and draws, is kept.\<close>

definition message_sent :: "u64 \<Rightarrow> market_event \<Rightarrow> gen \<Rightarrow> gen \<Rightarrow> bool" where
  "message_sent ts e g g' \<longleftrightarrow> (\<exists>pl. w_out g' = w_out g @ frame pl \<and> length pl < 2 ^ 16 \<and> decode_payload pl = Some e)
     \<and> length (w_buf g') = 64 \<and> w_count g' = w_count g + 1 \<and> g_ts g' = ts
     \<and> g_next_ref g' = g_next_ref g \<and> g_live g' = g_live g"

lemma emit_sent:
  assumes "length (w_buf h) = 64" and "load_u8 (w_buf h) 0 = Some ty" and "message_length ty = n" "n \<noteq> 0" "n \<le> 64"
    and "load_be16 (w_buf h) 1 = Some k_locate" "load_be48 (w_buf h) 5 = Some ts"
    and "decode_body ty (w_buf h) 0 (header_event ts) = Some e"
    and "w_out h = w_out g" "w_count h = w_count g" "g_ts h = ts" "g_next_ref h = g_next_ref g" "g_live h = g_live g"
  shows "\<exists>g'. emit n h = Some g' \<and> message_sent ts e g g'"
proof -
  have "decode_payload (take n (w_buf h)) = Some e"
    using decode_buffer [OF assms(1,2) _ _ assms(6-8)] assms(3-5) by simp
  then show ?thesis
    using assms by (simp add: emit_run message_sent_def) (intro exI [of _ "take n (w_buf h)"], simp)
qed

definition add_msg :: "u8 list \<Rightarrow> live_order \<Rightarrow> u64 \<Rightarrow> market_event" where
  "add_msg sy ord ts = (header_event ts)\<lparr>ev_type := Add, order_ref := lo_ref ord,
     ev_side := decode_side (lo_side ord), ev_size := lo_sz ord, symbol := sy,
     price_ticks := uint (of_int (lo_px ord) :: u32)\<rparr>"

definition exec_msg :: "u64 \<Rightarrow> u32 \<Rightarrow> u64 \<Rightarrow> u64 \<Rightarrow> market_event" where
  "exec_msg ref shares match ts = (header_event ts)\<lparr>ev_type := Execute, order_ref := ref,
     ev_size := shares, match_number := match\<rparr>"

definition cancel_msg :: "u64 \<Rightarrow> u32 \<Rightarrow> u64 \<Rightarrow> market_event" where
  "cancel_msg ref shares ts = (header_event ts)\<lparr>ev_type := Cancel, order_ref := ref, ev_size := shares\<rparr>"

definition delete_msg :: "u64 \<Rightarrow> u64 \<Rightarrow> market_event" where
  "delete_msg ref ts = (header_event ts)\<lparr>ev_type := Delete, order_ref := ref\<rparr>"

definition replace_msg :: "u64 \<Rightarrow> u64 \<Rightarrow> u32 \<Rightarrow> int \<Rightarrow> u64 \<Rightarrow> market_event" where
  "replace_msg orig neu sz px ts = (header_event ts)\<lparr>ev_type := Replace, order_ref := orig,
     new_order_ref := neu, ev_size := sz, price_ticks := uint (of_int px :: u32)\<rparr>"

definition trade_msg :: "u8 list \<Rightarrow> u8 \<Rightarrow> u32 \<Rightarrow> u64 \<Rightarrow> u64 \<Rightarrow> market_event" where
  "trade_msg sy sd shares match ts = (header_event ts)\<lparr>ev_type := Trade, ev_side := decode_side sd,
     ev_size := shares, symbol := sy, price_ticks := uint (of_int k_mid :: u32), match_number := match\<rparr>"

definition system_msg :: "u64 \<Rightarrow> market_event" where
  "system_msg ts = (header_event ts)\<lparr>ev_type := SystemEvent\<rparr>"

lemmas build_simps = put_simps hdr_run draw_run Let_def length_hdr_buf hdr_buf_loads [unfolded One_nat_def] message_length_decoded
  message_length_codes

lemma emit_system_sent:
  assumes "length (w_buf g) = 64" and "next_ts uni g < 2 ^ 48"
  shows "\<exists>g'. emit_system uni code g = Some g' \<and> message_sent (next_ts uni g) (system_msg (next_ts uni g)) g g'"
  using assms
  by (simp add: emit_system_def build_simps, intro emit_sent [where ty = "ascii CHR ''S''"])
    (simp_all add: build_simps decode_body_def system_msg_def)

lemma emit_add_sent:
  assumes "length (w_buf g) = 64" and "next_ts uni g < 2 ^ 48" and "length sy = 8"
  shows "\<exists>g'. emit_add uni sy ord g = Some g' \<and> message_sent (next_ts uni g) (add_msg sy ord (next_ts uni g)) g g'"
  using assms
  by (simp add: emit_add_def build_simps, intro emit_sent [where ty = "ascii CHR ''A''"])
    (simp_all add: build_simps decode_body_def add_msg_def)

lemma emit_exec_sent:
  assumes "length (w_buf g) = 64" and "next_ts uni g < 2 ^ 48"
  shows "\<exists>g'. emit_exec uni ref shares g = Some g' \<and> message_sent (next_ts uni g) (exec_msg ref shares (g_match g) (next_ts uni g)) g g'"
  using assms
  by (simp add: emit_exec_def build_simps, intro emit_sent [where ty = "ascii CHR ''E''"])
    (simp_all add: build_simps decode_body_def exec_msg_def)

lemma emit_cancel_sent:
  assumes "length (w_buf g) = 64" and "next_ts uni g < 2 ^ 48"
  shows "\<exists>g'. emit_cancel uni ref shares g = Some g' \<and> message_sent (next_ts uni g) (cancel_msg ref shares (next_ts uni g)) g g'"
  using assms
  by (simp add: emit_cancel_def build_simps, intro emit_sent [where ty = "ascii CHR ''X''"])
    (simp_all add: build_simps decode_body_def cancel_msg_def)

lemma emit_delete_sent:
  assumes "length (w_buf g) = 64" and "next_ts uni g < 2 ^ 48"
  shows "\<exists>g'. emit_delete uni ref g = Some g' \<and> message_sent (next_ts uni g) (delete_msg ref (next_ts uni g)) g g'"
  using assms
  by (simp add: emit_delete_def build_simps, intro emit_sent [where ty = "ascii CHR ''D''"])
    (simp_all add: build_simps decode_body_def delete_msg_def)

lemma emit_replace_sent:
  assumes "length (w_buf g) = 64" and "next_ts uni g < 2 ^ 48"
  shows "\<exists>g'. emit_replace uni orig neu sz px g = Some g' \<and> message_sent (next_ts uni g) (replace_msg orig neu sz px (next_ts uni g)) g g'"
  using assms
  by (simp add: emit_replace_def build_simps, intro emit_sent [where ty = "ascii CHR ''U''"])
    (simp_all add: build_simps decode_body_def replace_msg_def)

definition drawn_side :: "draws \<Rightarrow> nat \<Rightarrow> u8" where
  "drawn_side uni k = (if uni k 0 1 \<noteq> 0 then ascii CHR ''B'' else ascii CHR ''S'')"

lemma emit_trade_sent:
  assumes "length (w_buf g) = 64" and "next_ts uni g < 2 ^ 48" and "length sy = 8"
  shows "\<exists>g'. emit_trade uni sy g = Some g' \<and> message_sent (next_ts uni g)
    (trade_msg sy (drawn_side uni (Suc (g_draws g))) (ucast (uni (Suc (Suc (g_draws g))) 1 5 * 100))
      (g_match g) (next_ts uni g)) g g'"
  using assms
  by (simp add: emit_trade_def build_simps flip: drawn_side_def, intro emit_sent [where ty = "ascii CHR ''P''"])
    (simp_all add: build_simps decode_body_def trade_msg_def k_mid_def default_event_def)

section \<open>Round trips\<close>

text \<open>The output so far is a sequence of frames; a builder adds one that is read back as \<open>e\<close>.\<close>

definition well_framed :: "gen \<Rightarrow> bool" where
  "well_framed g \<longleftrightarrow> length (w_buf g) = 64
     \<and> (\<exists>pls. w_out g = concat (map frame pls) \<and> (\<forall>pl \<in> set pls. length pl < 2 ^ 16))"

definition reads_back :: "gen \<Rightarrow> gen option \<Rightarrow> market_event \<Rightarrow> bool" where
  "reads_back g r e \<longleftrightarrow> (case r of None \<Rightarrow> False
     | Some g' \<Rightarrow> well_framed g' \<and> file_events (w_out g') = file_events (w_out g) @ [Some e])"

lemma sent_reads_back:
  assumes "well_framed g" and "\<exists>g'. r = Some g' \<and> message_sent ts e g g'"
  shows "reads_back g r e"
proof -
  obtain pls where f: "w_out g = concat (map frame pls)" "\<forall>pl \<in> set pls. length pl < 2 ^ 16"
    using assms(1) unfolding well_framed_def by blast
  obtain g' where p: "r = Some g'" "message_sent ts e g g'" using assms(2) by blast
  obtain pl where pl: "w_out g' = w_out g @ frame pl" "length pl < 2 ^ 16" "decode_payload pl = Some e"
    using p(2) unfolding message_sent_def by blast
  have out: "w_out g' = concat (map frame (pls @ [pl]))" "\<forall>pl \<in> set (pls @ [pl]). length pl < 2 ^ 16"
    using f pl by simp_all
  then have "file_events (w_out g') = file_events (w_out g) @ [Some e]"
    using f pl(3) split_frames_concat [OF out(2)] by (simp add: file_events_def split_frames_concat)
  moreover have "well_framed g'"
    using out p(2) unfolding well_framed_def message_sent_def by blast
  ultimately show ?thesis by (simp add: reads_back_def p(1))
qed

text \<open>
  C25. Every message builder of the generator appends one frame to the output, and reading the
  output back through the framing and the parser returns the events written before followed by
  the event whose fields the builder was given.
\<close>

theorem built_messages_decode:
  assumes "well_framed g" and "next_ts uni g < 2 ^ 48" and "length sy = 8"
  shows "reads_back g (emit_add uni sy ord g) (add_msg sy ord (next_ts uni g))
    \<and> reads_back g (emit_exec uni ref n g) (exec_msg ref n (g_match g) (next_ts uni g))
    \<and> reads_back g (emit_cancel uni ref n g) (cancel_msg ref n (next_ts uni g))
    \<and> reads_back g (emit_delete uni ref g) (delete_msg ref (next_ts uni g))
    \<and> reads_back g (emit_replace uni ref neu n px g) (replace_msg ref neu n px (next_ts uni g))
    \<and> reads_back g (emit_system uni code g) (system_msg (next_ts uni g))
    \<and> reads_back g (emit_trade uni sy g) (trade_msg sy (drawn_side uni (Suc (g_draws g)))
        (ucast (uni (Suc (Suc (g_draws g))) 1 5 * 100)) (g_match g) (next_ts uni g))"
proof -
  have buf: "length (w_buf g) = 64" using assms(1) by (simp add: well_framed_def)
  note read = sent_reads_back [OF assms(1)]
  show ?thesis
    using emit_add_sent [OF buf assms(2,3)] emit_exec_sent [OF buf assms(2)] emit_cancel_sent [OF buf assms(2)]
      emit_delete_sent [OF buf assms(2)] emit_replace_sent [OF buf assms(2)] emit_system_sent [OF buf assms(2)]
      emit_trade_sent [OF buf assms(2,3)]
    by (intro conjI read)
qed

lemma built_messages_decode_witness:
  "reads_back new_gen (emit_delete (\<lambda>k l h. l) 7 new_gen) (delete_msg 7 34200000000001)"
proof -
  have "next_ts (\<lambda>k l h. l) new_gen = 34200000000001" by (simp add: next_ts_def new_gen_def)
  moreover have "well_framed new_gen"
    unfolding well_framed_def by (intro conjI exI [of _ "[]"]) (simp_all add: new_gen_def)
  moreover have "length (replicate 8 0 :: u8 list) = 8" by simp
  ultimately show ?thesis
    using built_messages_decode [of new_gen "\<lambda>k l h. l" "replicate 8 0"] by simp
qed

end
