(* ===== verification/Itch_Gen_Book.thy ===== *)
theory Itch_Gen_Book
  imports Itch_Gen_Codec Order_Book_Props
begin

text \<open>
  The vector \<open>live\<close> of the generator mirrors the book: as a set, it is the list of live orders of the
  order-book specification after the messages written so far. Every message therefore names a live
  order or a fresh one, and every price stays on its side of the mid price.
\<close>

section \<open>Removing by swapping with the last element\<close>

lemma swap_remove:
  assumes "distinct xs" and "i < length xs"
  shows "distinct (butlast (xs[i := last xs]))" and "set (butlast (xs[i := last xs])) = set xs - {xs ! i}"
proof -
  obtain ys z where xs: "xs = ys @ [z]" using assms(2) by (cases xs rule: rev_cases) auto
  have "distinct (butlast (xs[i := last xs])) \<and> set (butlast (xs[i := last xs])) = set xs - {xs ! i}"
  proof (cases "i < length ys")
    case True
    then have "butlast (xs[i := last xs]) = ys[i := z]" by (simp add: xs list_update_append)
    moreover have "z \<notin> set ys" "distinct ys" using assms(1) by (simp_all add: xs)
    ultimately show ?thesis
      using True by (auto simp: xs nth_append set_list_update_distinct distinct_list_update)
  next
    case False
    then have "i = length ys" using assms(2) by (simp add: xs)
    then show ?thesis using assms(1) by (auto simp: xs)
  qed
  then show "distinct (butlast (xs[i := last xs]))" "set (butlast (xs[i := last xs])) = set xs - {xs ! i}"
    by simp_all
qed

section \<open>The live orders as a set\<close>

definition resting_of :: "live_order \<Rightarrow> resting" where
  "resting_of x = \<lparr>rs_ref = lo_ref x, rs_price = lo_px x, rs_size = lo_sz x, rs_side = decode_side (lo_side x)\<rparr>"

lemma resting_of_simps [simp]:
  "rs_ref (resting_of x) = lo_ref x" "rs_price (resting_of x) = lo_px x" "rs_size (resting_of x) = lo_sz x"
  "rs_side (resting_of x) = decode_side (lo_side x)"
  by (simp_all add: resting_of_def)

text \<open>The prices the generator draws: 51 ticks below the mid price for a buy, 51 above for a sell.\<close>

definition live_ok :: "live_order \<Rightarrow> bool" where
  "live_ok x \<longleftrightarrow> 0 < lo_sz x \<and>
    (lo_side x = ascii CHR ''B'' \<and> k_mid - 51 \<le> lo_px x \<and> lo_px x < k_mid
     \<or> lo_side x = ascii CHR ''S'' \<and> k_mid < lo_px x \<and> lo_px x \<le> k_mid + 51)"

definition mirrors :: "u64 \<Rightarrow> live_order list \<Rightarrow> resting list \<Rightarrow> bool" where
  "mirrors nr xs A \<longleftrightarrow> distinct (map lo_ref xs) \<and> (\<forall>x \<in> set xs. lo_ref x < nr \<and> live_ok x)
     \<and> distinct (map rs_ref A) \<and> resting_of ` set xs = set A"

lemma mirrors_refs: "mirrors nr xs A \<Longrightarrow> refs A = lo_ref ` set xs"
proof -
  assume "mirrors nr xs A"
  then have "set A = resting_of ` set xs" by (simp add: mirrors_def)
  then show ?thesis by (simp add: refs_def image_image)
qed

lemma mirrors_fresh: "mirrors nr xs A \<Longrightarrow> nr \<notin> refs A"
  by (auto simp: mirrors_refs mirrors_def)

lemma mirrors_nth:
  "mirrors nr xs A \<Longrightarrow> i < length xs \<Longrightarrow> resting_of (xs ! i) \<in> set A"
  by (auto simp: mirrors_def)

lemma set_spec_delete: "set (spec_delete r A) = {x \<in> set A. rs_ref x \<noteq> r}"
  by (auto simp: spec_delete_def)

lemma set_spec_reduce:
  assumes "distinct (map rs_ref A)" and "x \<in> set A"
  shows "set (spec_reduce (rs_ref x) n A) =
    (if rs_size x \<le> n then set A - {x} else insert (x\<lparr>rs_size := rs_size x - n\<rparr>) (set A - {x}))"
proof -
  obtain B C where A: "A = B @ x # C" using split_list [OF assms(2)] by blast
  have "x \<notin> set B" "x \<notin> set C" using assms(1) by (auto simp: A)
  with spec_reduce_split [OF assms(1) [unfolded A], of n] show ?thesis by (auto simp: A)
qed

lemma ref_unique:
  "distinct (map f xs) \<Longrightarrow> x \<in> set xs \<Longrightarrow> y \<in> set xs \<Longrightarrow> f x = f y \<Longrightarrow> x = y"
  by (auto dest: distinct_map [THEN iffD1] inj_onD)

lemma set_spec_delete_ref:
  assumes "distinct (map rs_ref A)" and "x \<in> set A"
  shows "set (spec_delete (rs_ref x) A) = set A - {x}"
  unfolding set_spec_delete using ref_unique [OF assms(1)] assms(2) by blast

text \<open>An add appends a fresh order.\<close>

definition in_band :: "book_config \<Rightarrow> bool" where
  "in_band cfg \<longleftrightarrow> min_price cfg \<le> k_mid - 51 \<and> k_mid + 51 \<le> max_price cfg"

lemma live_ok_px:
  "live_ok x \<Longrightarrow> in_band cfg \<Longrightarrow> min_price cfg \<le> lo_px x \<and> lo_px x \<le> max_price cfg"
  by (auto simp: live_ok_def in_band_def k_mid_def)

lemma live_ok_wire: "live_ok x \<Longrightarrow> uint (of_int (lo_px x) :: u32) = lo_px x"
  by (auto simp: live_ok_def k_mid_def take_bit_int_eq_self_iff uint_word_of_int_eq)

lemma mirrors_add:
  assumes m: "mirrors nr xs A" and x: "lo_ref x = nr" "live_ok x" and nr: "nr < nr + 1" and cfg: "in_band cfg"
  shows "mirrors (nr + 1) (xs @ [x]) (spec_apply cfg (add_msg sy x ts) A)
    \<and> \<not> misses_band cfg (add_msg sy x ts) A \<and> \<not> misses_ref (add_msg sy x ts) A"
proof -
  note px = live_ok_px [OF x(2) cfg] live_ok_wire [OF x(2)]
  have "spec_apply cfg (add_msg sy x ts) A = A @ [resting_of x]"
    using px mirrors_fresh [OF m] x(1)
    by (simp add: spec_apply_def spec_add_def add_msg_def resting_of_def)
  moreover have "lo_ref y < nr + 1" if "lo_ref y < nr" for y using that nr by simp
  ultimately show ?thesis
    using m x nr px mirrors_fresh [OF m] mirrors_refs [OF m]
    by (auto simp: mirrors_def misses_band_def misses_ref_def needs_ref_def add_msg_def refs_def image_iff)
qed

text \<open>A removal, by a delete or by the last of the shares.\<close>

lemma mirrors_remove:
  assumes m: "mirrors nr xs A" and i: "i < length xs" and A': "distinct (map rs_ref A')"
    "set A' = set A - {resting_of (xs ! i)}"
  shows "\<exists>xs'. remove_at i xs = Some xs' \<and> mirrors nr xs' A'"
proof -
  let ?ys = "butlast (xs[i := last xs])"
  have d: "distinct xs" "distinct (map lo_ref xs)" using m by (auto simp: mirrors_def distinct_map)
  have "map lo_ref ?ys = butlast ((map lo_ref xs)[i := last (map lo_ref xs)])"
    using i by (cases "xs = []") (simp_all add: map_butlast map_update last_map)
  then have "distinct (map lo_ref ?ys)" using swap_remove(1) [OF d(2), of i] i by simp
  moreover have "inj_on resting_of (set xs)"
    using d(2) by (auto simp: distinct_map inj_on_def) (metis resting_of_simps(1))
  ultimately have "mirrors nr ?ys A'"
    using m i swap_remove(2) [OF d(1) i] A'
    by (auto simp: mirrors_def inj_on_image_set_diff [where C = "set xs"])
  moreover have "remove_at i xs = Some ?ys"
    using i by (cases xs) (auto simp: remove_at_def access_simps)
  ultimately show ?thesis by blast
qed

lemma mirrors_update:
  assumes m: "mirrors nr xs A" and i: "i < length xs" and y: "lo_ref y < nr'" "live_ok y" "nr \<le> nr'"
    "lo_ref y = lo_ref (xs ! i) \<or> lo_ref y \<notin> lo_ref ` set xs"
    and A': "distinct (map rs_ref A')" "set A' = insert (resting_of y) (set A - {resting_of (xs ! i)})"
  shows "mirrors nr' (xs[i := y]) A'"
proof -
  have d: "distinct xs" "distinct (map lo_ref xs)" using m by (auto simp: mirrors_def distinct_map)
  have "lo_ref y \<notin> set (map lo_ref xs) - {map lo_ref xs ! i}"
    using y(4) i by auto
  then have "distinct (map lo_ref (xs[i := y]))"
    using distinct_list_update [OF d(2), of "lo_ref y" i] by (simp add: map_update)
  moreover have s: "set (xs[i := y]) = insert y (set xs - {xs ! i})"
    by (rule set_list_update_distinct [OF d(1) i])
  moreover have "inj_on resting_of (set xs)"
    using d(2) by (auto simp: distinct_map inj_on_def) (metis resting_of_simps(1))
  then have "resting_of ` (set xs - {xs ! i}) = set A - {resting_of (xs ! i)}"
    using m i by (simp add: mirrors_def inj_on_image_set_diff [where C = "set xs"])
  ultimately show ?thesis
    using m y A' unfolding mirrors_def by (auto intro: less_le_trans)
qed

section \<open>Each message of the generator, against the specification\<close>

text \<open>A message the book accepts without counting an unknown reference or a price outside the band.\<close>

definition accepted_msg :: "book_config \<Rightarrow> market_event \<Rightarrow> resting list \<Rightarrow> bool" where
  "accepted_msg cfg e A \<longleftrightarrow> \<not> misses_band cfg e A \<and> \<not> misses_ref e A"

lemmas msg_simps = accepted_msg_def misses_band_def misses_ref_def needs_ref_def spec_apply_def

lemma mirrors_live_ref:
  assumes "mirrors nr xs A" and "i < length xs"
  shows "lo_ref (xs ! i) \<in> refs A"
  using assms by (auto simp: mirrors_refs)

lemma mirrors_reduce:
  assumes m: "mirrors nr xs A" and i: "i < length xs" and n: "0 < n"
    and e: "ev_type e \<in> {Execute, Cancel}" "order_ref e = lo_ref (xs ! i)" "ev_size e = n"
  shows "\<exists>xs'. reduce_at i n xs = Some xs' \<and> mirrors nr xs' (spec_apply cfg e A) \<and> accepted_msg cfg e A"
proof -
  let ?x = "xs ! i" and ?A = "spec_reduce (lo_ref (xs ! i)) n A"
  have A: "distinct (map rs_ref A)" "resting_of ?x \<in> set A" "live_ok ?x" "lo_ref ?x < nr"
    using m i mirrors_nth [OF m i] by (auto simp: mirrors_def)
  have set: "set ?A = (if lo_sz ?x \<le> n then set A - {resting_of ?x}
      else insert ((resting_of ?x)\<lparr>rs_size := lo_sz ?x - n\<rparr>) (set A - {resting_of ?x}))"
    using set_spec_reduce [OF A(1,2), of n] by simp
  have d: "distinct (map rs_ref ?A)" by (rule distinct_reduce [OF A(1)])
  have ap: "spec_apply cfg e A = ?A" "accepted_msg cfg e A"
    using e mirrors_live_ref [OF m i] by (auto simp: msg_simps)
  show ?thesis
  proof (cases "lo_sz ?x \<le> n")
    case True
    from mirrors_remove [OF m i d] set True obtain xs' where "remove_at i xs = Some xs'" "mirrors nr xs' ?A"
      by auto
    with True i ap show ?thesis by (simp add: reduce_at_def access_simps)
  next
    case False
    let ?y = "?x\<lparr>lo_sz := lo_sz ?x - n\<rparr>"
    have r: "resting_of ?y = (resting_of ?x)\<lparr>rs_size := lo_sz ?x - n\<rparr>" by (simp add: resting_of_def)
    have "0 < lo_sz ?x - n"
      using False by (metis eq_iff_diff_eq_0 not_le order_refl word_neq_0_conv)
    then have "live_ok ?y" using A(3) by (simp add: live_ok_def)
    moreover have "lo_ref ?y < nr" "lo_ref ?y = lo_ref ?x \<or> lo_ref ?y \<notin> lo_ref ` set xs"
      using A(4) by simp_all
    ultimately have "mirrors nr (xs[i := ?y]) ?A"
      using set False by (intro mirrors_update [OF m i _ _ order_refl _ d]) (simp_all add: r)
    with False i ap show ?thesis by (simp add: reduce_at_def access_simps)
  qed
qed

lemma mirrors_delete:
  assumes m: "mirrors nr xs A" and i: "i < length xs"
    and e: "ev_type e = Delete" "order_ref e = lo_ref (xs ! i)"
  shows "\<exists>xs'. remove_at i xs = Some xs' \<and> mirrors nr xs' (spec_apply cfg e A) \<and> accepted_msg cfg e A"
proof -
  let ?A = "spec_delete (lo_ref (xs ! i)) A"
  have A: "distinct (map rs_ref A)" "resting_of (xs ! i) \<in> set A"
    using m mirrors_nth [OF m i] by (simp_all add: mirrors_def)
  have "set ?A = set A - {resting_of (xs ! i)}"
    using set_spec_delete_ref [OF A] by simp
  moreover have "distinct (map rs_ref ?A)" using A(1) by (simp add: spec_delete_def distinct_map_filter)
  ultimately have "\<exists>xs'. remove_at i xs = Some xs' \<and> mirrors nr xs' ?A"
    by (intro mirrors_remove [OF m i])
  with e mirrors_live_ref [OF m i] show ?thesis by (auto simp: msg_simps)
qed

lemma mirrors_replace:
  assumes m: "mirrors nr xs A" and i: "i < length xs" and nr: "nr < nr + 1" and cfg: "in_band cfg"
    and y: "y = (xs ! i)\<lparr>lo_ref := nr, lo_px := px, lo_sz := sz\<rparr>" "live_ok y"
  shows "mirrors (nr + 1) (xs[i := y]) (spec_apply cfg (replace_msg (lo_ref (xs ! i)) nr sz px ts) A)
    \<and> accepted_msg cfg (replace_msg (lo_ref (xs ! i)) nr sz px ts) A"
proof -
  let ?x = "xs ! i" and ?A = "spec_delete (lo_ref (xs ! i)) A @ [resting_of y]"
  have A: "distinct (map rs_ref A)" "resting_of ?x \<in> set A" using m mirrors_nth [OF m i] by (simp_all add: mirrors_def)
  have px: "min_price cfg \<le> px" "px \<le> max_price cfg" "uint (of_int px :: u32) = px"
    using live_ok_px [OF y(2) cfg] live_ok_wire [OF y(2)] by (simp_all add: y(1))
  have fresh: "nr \<notin> refs (spec_delete (lo_ref ?x) A)"
    using mirrors_fresh [OF m] by (simp add: refs_delete)
  obtain B C where BC: "A = B @ resting_of ?x # C" using split_list [OF A(2)] by blast
  have "find_ref (lo_ref ?x) A = Some (resting_of ?x)"
    using find_ref_split [OF A(1) [unfolded BC]] by (simp add: BC)
  then have ap: "spec_apply cfg (replace_msg (lo_ref ?x) nr sz px ts) A = ?A"
    using px fresh
    by (simp add: spec_apply_def spec_replace_def replace_msg_def spec_add_def resting_of_def y(1))
  have "set (spec_delete (lo_ref ?x) A) = set A - {resting_of ?x}"
    using set_spec_delete_ref [OF A] by simp
  then have "set ?A = insert (resting_of y) (set A - {resting_of ?x})" by simp
  moreover have "distinct (map rs_ref ?A)"
    using A(1) fresh by (auto simp: spec_delete_def distinct_map_filter y(1) refs_def)
  moreover have "nr \<notin> lo_ref ` set xs" using mirrors_fresh [OF m] mirrors_refs [OF m] by simp
  ultimately have "mirrors (nr + 1) (xs[i := y]) ?A"
    using nr y by (intro mirrors_update [OF m i]) auto
  moreover have "accepted_msg cfg (replace_msg (lo_ref ?x) nr sz px ts) A"
    using px mirrors_live_ref [OF m i] by (auto simp: msg_simps replace_msg_def)
  ultimately show ?thesis by (simp add: ap)
qed

section \<open>Clean feeds\<close>

text \<open>The two sides of the book are apart: every live buy order is below every live sell order.\<close>

definition book_apart :: "book_config \<Rightarrow> resting list \<Rightarrow> bool" where
  "book_apart cfg A \<longleftrightarrow> (\<forall>x \<in> set A. rs_side x \<noteq> NoSide)
     \<and> (\<forall>x \<in> set A. \<forall>y \<in> set A. rs_side x = Buy \<longrightarrow> rs_side y = Sell \<longrightarrow>
          to_index cfg (rs_price x) < to_index cfg (rs_price y))"

fun clean_feed :: "book_config \<Rightarrow> market_event list \<Rightarrow> resting list \<Rightarrow> bool" where
  "clean_feed cfg [] A \<longleftrightarrow> book_apart cfg A"
| "clean_feed cfg (e # es) A \<longleftrightarrow>
    book_apart cfg A \<and> accepted_msg cfg e A \<and> clean_feed cfg es (spec_apply cfg e A)"

lemma spec_all_append: "spec_all cfg (es @ fs) A = spec_all cfg fs (spec_all cfg es A)"
  by (induction es arbitrary: A) auto

lemma clean_feed_end: "clean_feed cfg es A \<Longrightarrow> book_apart cfg (spec_all cfg es A)"
  by (induction es arbitrary: A) auto

lemma clean_feed_snoc:
  "clean_feed cfg (es @ [e]) A \<longleftrightarrow> clean_feed cfg es A \<and> accepted_msg cfg e (spec_all cfg es A)
     \<and> book_apart cfg (spec_apply cfg e (spec_all cfg es A))"
  by (induction es arbitrary: A) auto

lemma book_apart_pure: "book_apart cfg A \<Longrightarrow> side_pure cfg A"
proof -
  assume a: "book_apart cfg A"
  have "rs_side x = rs_side y"
    if xy: "x \<in> set A" "y \<in> set A" and i: "to_index cfg (rs_price x) = to_index cfg (rs_price y)" for x y
  proof -
    have "rs_side x \<noteq> NoSide" "rs_side y \<noteq> NoSide"
      "\<not> (rs_side x = Buy \<and> rs_side y = Sell)" "\<not> (rs_side y = Buy \<and> rs_side x = Sell)"
      using a xy i unfolding book_apart_def by (metis less_irrefl)+
    then show ?thesis by (cases "rs_side x"; cases "rs_side y") simp_all
  qed
  then show ?thesis unfolding side_pure_def by blast
qed

lemma clean_feed_pure: "clean_feed cfg es A \<Longrightarrow> always_pure cfg es A"
  by (induction es arbitrary: A) (auto simp: book_apart_pure)

lemma mirrors_sides:
  assumes "mirrors nr xs A" and "in_band cfg" and "x \<in> set A"
  shows "rs_side x = Buy \<and> rs_price x < k_mid \<or> rs_side x = Sell \<and> k_mid < rs_price x"
    and "min_price cfg \<le> rs_price x" and "rs_price x \<le> max_price cfg"
proof -
  have "x \<in> resting_of ` set xs" "\<forall>z \<in> set xs. live_ok z"
    using assms(1,3) unfolding mirrors_def by auto
  then obtain z where z: "x = resting_of z" "live_ok z" by blast
  show "min_price cfg \<le> rs_price x" "rs_price x \<le> max_price cfg"
    using live_ok_px [OF z(2) assms(2)] by (simp_all add: z(1))
  show "rs_side x = Buy \<and> rs_price x < k_mid \<or> rs_side x = Sell \<and> k_mid < rs_price x"
    using z(2) by (auto simp: z(1) live_ok_def decode_side_def)
qed

lemma mirrors_apart:
  assumes "mirrors nr xs A" and "in_band cfg" and "tick_size cfg = 1"
  shows "book_apart cfg A"
  unfolding book_apart_def
proof (intro conjI ballI impI)
  fix x assume x: "x \<in> set A"
  note X = mirrors_sides [OF assms(1,2) x]
  show "rs_side x \<noteq> NoSide" using X(1) by auto
  fix y assume y: "y \<in> set A" and s: "rs_side x = Buy" "rs_side y = Sell"
  note Y = mirrors_sides [OF assms(1,2) y]
  show "to_index cfg (rs_price x) < to_index cfg (rs_price y)"
    using X Y s assms(3) by (simp add: to_index_def)
qed

end
