(* ===== verification/Itch_Gen_Props.thy ===== *)
theory Itch_Gen_Props
  imports Itch_Gen_Book
begin

text \<open>
  The generator as a whole: for every sequence of draws within their bounds it returns, the file it
  writes decodes frame by frame, and the events of the file are a clean feed for the book.
\<close>

section \<open>What has been written\<close>

definition wrote :: "gen \<Rightarrow> market_event list \<Rightarrow> bool" where
  "wrote g evs \<longleftrightarrow> length (w_buf g) = 64
     \<and> (\<exists>pls. w_out g = concat (map frame pls) \<and> (\<forall>pl \<in> set pls. length pl < 2 ^ 16)
          \<and> map decode_payload pls = map Some evs)
     \<and> w_count g = of_nat (length evs) \<and> unat (g_ts g) \<le> 34200000000000 + 1000 * length evs"

lemma wrote_cong:
  "w_buf h = w_buf g \<Longrightarrow> w_out h = w_out g \<Longrightarrow> w_count h = w_count g \<Longrightarrow> g_ts h = g_ts g \<Longrightarrow>
    wrote h evs = wrote g evs"
  by (simp add: wrote_def)

lemma draws_okD: "draws_ok uni \<Longrightarrow> l \<le> h \<Longrightarrow> l \<le> uni k l h \<and> uni k l h \<le> h"
  by (simp add: draws_ok_def)

lemma wrote_ts:
  assumes "draws_ok uni" and "wrote g evs" and "length evs < 2 ^ 32"
  shows "next_ts uni g < 2 ^ 48" and "unat (next_ts uni g) \<le> 34200000000000 + 1000 * Suc (length evs)"
proof -
  have "uni (g_draws g) 1 1000 \<le> 1000" using draws_okD [OF assms(1), of 1 1000] by simp
  then have "unat (uni (g_draws g) 1 1000) \<le> 1000" by (simp add: word_le_nat_alt)
  with assms(2) have le: "unat (g_ts g) + unat (uni (g_draws g) 1 1000) \<le> 34200000000000 + 1000 * Suc (length evs)"
    by (simp add: wrote_def)
  then have "unat (g_ts g) + unat (uni (g_draws g) 1 1000) < 2 ^ 64" using assms(3) by simp
  then have eq: "unat (next_ts uni g) = unat (g_ts g) + unat (uni (g_draws g) 1 1000)"
    unfolding next_ts_def by (simp add: unat_plus_no_wrap)
  with le show "unat (next_ts uni g) \<le> 34200000000000 + 1000 * Suc (length evs)" by simp
  then have "unat (next_ts uni g) < 2 ^ 48" using assms(3) by simp
  then show "next_ts uni g < 2 ^ 48" by (simp add: word_less_nat_alt)
qed

lemma wrote_sent:
  assumes "draws_ok uni" and "wrote h evs" and "length evs < 2 ^ 32"
    and "message_sent (next_ts uni h) e h g"
  shows "wrote g (evs @ [e])"
proof -
  obtain pls where pls: "w_out h = concat (map frame pls)" "\<forall>pl \<in> set pls. length pl < 2 ^ 16"
      "map decode_payload pls = map Some evs"
    using assms(2) by (auto simp: wrote_def)
  obtain pl where "w_out g = w_out h @ frame pl" "length pl < 2 ^ 16" "decode_payload pl = Some e"
    using assms(4) by (auto simp: message_sent_def)
  with pls have "w_out g = concat (map frame (pls @ [pl])) \<and> (\<forall>pl \<in> set (pls @ [pl]). length pl < 2 ^ 16)
      \<and> map decode_payload (pls @ [pl]) = map Some (evs @ [e])" by simp
  moreover have "w_count g = of_nat (length (evs @ [e]))" "length (w_buf g) = 64" "g_ts g = next_ts uni h"
    using assms(2,4) by (simp_all add: message_sent_def wrote_def add.commute)
  ultimately show ?thesis
    using wrote_ts(2) [OF assms(1-3)] unfolding wrote_def by (intro conjI exI) (blast | simp)+
qed

lemma wrote_file: "wrote g evs \<Longrightarrow> file_events (w_out g) = map Some evs"
  by (auto simp: wrote_def file_events_def split_frames_concat)

section \<open>Draws\<close>

lemma mirrors_length:
  assumes "mirrors nr xs A"
  shows "length xs \<le> unat nr"
proof -
  have "distinct (map (unat \<circ> lo_ref) xs)"
    using assms by (simp add: mirrors_def distinct_map comp_inj_on_iff [symmetric] inj_on_def)
  then have "length xs = card (set (map (unat \<circ> lo_ref) xs))"
    using distinct_card [of "map (unat \<circ> lo_ref) xs"] by simp
  also have "\<dots> \<le> card {..< unat nr}"
    using assms by (intro card_mono) (auto simp: mirrors_def word_less_nat_alt)
  finally show ?thesis by simp
qed

lemma pick_run:
  assumes "draws_ok uni" and "g_live g \<noteq> []" and "length (g_live g) < 2 ^ 64"
  shows "\<exists>i. pick uni g = Some (i, g\<lparr>g_draws := Suc (g_draws g)\<rparr>) \<and> unat i < length (g_live g)"
proof -
  let ?n = "of_nat (length (g_live g)) :: u64" and ?i = "uni (g_draws g) 0 (of_nat (length (g_live g)) - 1)"
  have n: "unat ?n = length (g_live g)" using assms(3) by (simp add: unat_of_nat)
  have pos: "0 < length (g_live g)" using assms(2) by simp
  then have "?n \<noteq> 0" using n by (metis less_irrefl unat_0)
  then have "unat (?n - 1) = length (g_live g) - 1" using unat_minus_one [of ?n] n by simp
  moreover have "?i \<le> ?n - 1" using draws_okD [OF assms(1), of 0 "?n - 1"] by simp
  ultimately have "unat ?i \<le> length (g_live g) - 1" by (simp add: word_le_nat_alt)
  then have "unat ?i < length (g_live g)" using pos by linarith
  then show ?thesis by (simp add: pick_def draw_run)
qed

lemma shares_run:
  assumes "draws_ok uni" and "0 < sz"
  shows "\<exists>s. draw uni 1 (ucast (sz :: u32)) g = Some (s, g\<lparr>g_draws := Suc (g_draws g)\<rparr>) \<and> 0 < (ucast s :: u32)"
proof -
  let ?s = "uni (g_draws g) 1 (ucast sz)"
  have "1 \<le> (ucast sz :: u64)"
    using assms(2) by (simp add: word_le_nat_alt word_less_nat_alt)
  with draws_okD [OF assms(1) this, of "g_draws g"]
  have s: "1 \<le> unat ?s" "unat ?s \<le> unat sz" by (simp_all add: word_le_nat_alt)
  moreover have "unat sz < 2 ^ 32" using unsigned_less [of sz] by simp
  ultimately have "unat (ucast ?s :: u32) = unat ?s" by (simp add: unsigned_ucast_eq take_bit_nat_eq_self)
  then have "0 < (ucast ?s :: u32)" using s(1) by (simp add: word_less_nat_alt)
  then show ?thesis using \<open>1 \<le> (ucast sz :: u64)\<close> by (simp add: draw_run)
qed

lemma lot_run:
  assumes "draws_ok uni"
  shows "\<exists>v. draw uni 1 10 g = Some (v, g\<lparr>g_draws := Suc (g_draws g)\<rparr>) \<and> 0 < (ucast (v * 100) :: u32)"
proof -
  let ?v = "uni (g_draws g) 1 10"
  have "1 \<le> unat ?v" "unat ?v \<le> 10"
    using draws_okD [OF assms, of 1 10 "g_draws g"] by (simp_all add: word_le_nat_alt)
  moreover from this have "unat (?v * 100) = unat ?v * 100"
    by (simp add: unat_word_ariths)
  ultimately have "unat (ucast (?v * 100) :: u32) = unat ?v * 100" "0 < unat ?v * 100"
    by (simp_all add: unsigned_ucast_eq take_bit_nat_eq_self)
  then have "0 < (ucast (?v * 100) :: u32)" by (simp only: word_less_nat_alt unat_0)
  then show ?thesis by (simp add: draw_run)
qed

lemma price_run:
  assumes "draws_ok uni" and "sd = ascii CHR ''B'' \<or> sd = ascii CHR ''S''"
  shows "\<exists>px. random_price uni sd g = Some (px, g\<lparr>g_draws := Suc (g_draws g)\<rparr>)
    \<and> (sd = ascii CHR ''B'' \<and> k_mid - 51 \<le> px \<and> px < k_mid
       \<or> sd = ascii CHR ''S'' \<and> k_mid < px \<and> px \<le> k_mid + 51)"
proof -
  let ?d = "uni (g_draws g) 0 50"
  have "?d \<le> 50" using draws_okD [OF assms(1), of 0 50] by simp
  then have "unat ?d \<le> 50" by (simp add: word_le_nat_alt)
  then obtain n where "uint ?d = int n" "n \<le> 50" by (metis uint_nat)
  then show ?thesis using assms(2) by (auto simp: random_price_def k_band_def draw_run)
qed

section \<open>The invariant of the loop\<close>

definition gen_inv :: "book_config \<Rightarrow> gen \<Rightarrow> market_event list \<Rightarrow> bool" where
  "gen_inv cfg g evs \<longleftrightarrow> wrote g evs \<and> mirrors (g_next_ref g) (g_live g) (spec_all cfg evs [])
     \<and> unat (g_next_ref g) \<le> Suc (length evs) \<and> clean_feed cfg evs []"

text \<open>One more message, whatever it did to the live orders.\<close>

lemma gen_inv_snoc:
  assumes ok: "draws_ok uni" "in_band cfg" "tick_size cfg = 1" and g: "gen_inv cfg g evs" "length evs < 2 ^ 32"
    and h: "w_buf h = w_buf g" "w_out h = w_out g" "w_count h = w_count g" "g_ts h = g_ts g"
    and s: "message_sent (next_ts uni h) e h g1"
    and m: "mirrors (g_next_ref h) xs (spec_apply cfg e (spec_all cfg evs []))"
      "accepted_msg cfg e (spec_all cfg evs [])" "unat (g_next_ref h) \<le> Suc (Suc (length evs))"
  shows "gen_inv cfg (g1\<lparr>g_live := xs\<rparr>) (evs @ [e])"
proof -
  have "wrote h evs" using g(1) wrote_cong [of h g evs] h by (simp add: gen_inv_def)
  from wrote_sent [OF ok(1) this g(2) s] have "wrote (g1\<lparr>g_live := xs\<rparr>) (evs @ [e])"
    by (simp add: wrote_def)
  moreover have "g_next_ref g1 = g_next_ref h" using s by (simp add: message_sent_def)
  moreover have "clean_feed cfg (evs @ [e]) []"
    using g(1) m(2) mirrors_apart [OF m(1) ok(2,3)] by (simp add: clean_feed_snoc gen_inv_def)
  ultimately show ?thesis using m by (simp add: gen_inv_def spec_all_append)
qed

lemma gen_inv_ts:
  assumes "draws_ok uni" and "gen_inv cfg g evs" and "length evs < 2 ^ 32"
    and "w_buf h = w_buf g" "w_out h = w_out g" "w_count h = w_count g" "g_ts h = g_ts g"
  shows "length (w_buf h) = 64" and "next_ts uni h < 2 ^ 48"
proof -
  have w: "wrote h evs" using assms wrote_cong [of h g evs] by (simp add: gen_inv_def)
  then show "length (w_buf h) = 64" by (simp add: wrote_def)
  show "next_ts uni h < 2 ^ 48" by (rule wrote_ts(1) [OF assms(1) w assms(3)])
qed

lemma next_ref_grows:
  assumes "gen_inv cfg g evs" and "length evs < 2 ^ 32"
  shows "g_next_ref g < g_next_ref g + 1" and "unat (g_next_ref g + 1) \<le> Suc (Suc (length evs))"
proof -
  have "Suc (unat (g_next_ref g)) < 2 ^ 64" using assms by (simp add: gen_inv_def)
  then have "unat (g_next_ref g + 1) = Suc (unat (g_next_ref g))" by (simp add: unat_Suc_no_wrap)
  then show "g_next_ref g < g_next_ref g + 1" "unat (g_next_ref g + 1) \<le> Suc (Suc (length evs))"
    using assms(1) by (simp_all add: word_less_nat_alt gen_inv_def)
qed

lemma do_add_inv:
  assumes ok: "draws_ok uni" "in_band cfg" "tick_size cfg = 1" and g: "gen_inv cfg g evs" "length evs < 2 ^ 32"
    and sy: "length sy = 8"
  shows "\<exists>g' e. do_add uni sy g = Some g' \<and> gen_inv cfg g' (evs @ [e])"
proof -
  let ?g0 = "g\<lparr>g_next_ref := g_next_ref g + 1\<rparr>"
  obtain sd where sd: "sd = (if uni (g_draws g) 0 1 \<noteq> 0 then ascii CHR ''B'' else ascii CHR ''S'')"
      "sd = ascii CHR ''B'' \<or> sd = ascii CHR ''S''" by auto
  let ?g1 = "?g0\<lparr>g_draws := Suc (g_draws g)\<rparr>"
  obtain px where px: "random_price uni sd ?g1 = Some (px, ?g1\<lparr>g_draws := Suc (Suc (g_draws g))\<rparr>)"
      "sd = ascii CHR ''B'' \<and> k_mid - 51 \<le> px \<and> px < k_mid \<or> sd = ascii CHR ''S'' \<and> k_mid < px \<and> px \<le> k_mid + 51"
    using price_run [OF ok(1) sd(2), of ?g1] by auto
  let ?g2 = "?g0\<lparr>g_draws := Suc (Suc (g_draws g))\<rparr>"
  obtain v where v: "draw uni 1 10 ?g2 = Some (v, ?g2\<lparr>g_draws := Suc (Suc (Suc (g_draws g)))\<rparr>)"
      "0 < (ucast (v * 100) :: u32)"
    using lot_run [OF ok(1), of ?g2] by auto
  let ?h = "?g0\<lparr>g_draws := Suc (Suc (Suc (g_draws g)))\<rparr>"
  let ?x = "\<lparr>lo_ref = g_next_ref g, lo_side = sd, lo_px = px, lo_sz = ucast (v * 100)\<rparr>"
  have x: "live_ok ?x" using px(2) v(2) by (simp add: live_ok_def)
  obtain g3 where g3: "emit_add uni sy ?x ?h = Some g3"
      "message_sent (next_ts uni ?h) (add_msg sy ?x (next_ts uni ?h)) ?h g3"
    using emit_add_sent [OF gen_inv_ts [OF ok(1) g, of ?h] sy] by auto
  have run: "do_add uni sy g = Some (g3\<lparr>g_live := g_live g3 @ [?x]\<rparr>)"
    using px(1) v(1) g3(1) by (simp add: do_add_def Let_def draw_run flip: sd(1))
  have live: "g_live g3 = g_live g" using g3(2) by (simp add: message_sent_def)
  have m: "mirrors (g_next_ref g) (g_live g) (spec_all cfg evs [])" using g(1) by (simp add: gen_inv_def)
  have "gen_inv cfg (g3\<lparr>g_live := g_live g @ [?x]\<rparr>) (evs @ [add_msg sy ?x (next_ts uni ?h)])"
    using mirrors_add [OF m _ x next_ref_grows(1) [OF g] ok(2)] next_ref_grows(2) [OF g]
    by (intro gen_inv_snoc [OF ok g _ _ _ _ g3(2)]) (simp_all add: accepted_msg_def)
  then show ?thesis unfolding run live by blast
qed

text \<open>The order picked for a reduction, a deletion or a replacement is live.\<close>

lemma picked:
  assumes ok: "draws_ok uni" and g: "gen_inv cfg g evs" "length evs < 2 ^ 32" and ne: "g_live g \<noteq> []"
  obtains i where "pick uni g = Some (i, g\<lparr>g_draws := Suc (g_draws g)\<rparr>)" and "unat i < length (g_live g)"
    and "vec_get (g_live g) (unat i) = Some (g_live g ! unat i)" and "live_ok (g_live g ! unat i)"
proof -
  have m: "mirrors (g_next_ref g) (g_live g) (spec_all cfg evs [])" using g(1) by (simp add: gen_inv_def)
  have "length (g_live g) \<le> Suc (length evs)"
    using mirrors_length [OF m] g(1) by (simp add: gen_inv_def)
  then have "length (g_live g) < 2 ^ 64" using g(2) by simp
  from pick_run [OF ok ne this] obtain i
    where i: "pick uni g = Some (i, g\<lparr>g_draws := Suc (g_draws g)\<rparr>)" "unat i < length (g_live g)" by blast
  moreover have "live_ok (g_live g ! unat i)" using m i(2) by (simp add: mirrors_def)
  ultimately show ?thesis using that by (simp add: access_simps)
qed

lemma step_execute_inv:
  assumes ok: "draws_ok uni" "in_band cfg" "tick_size cfg = 1" and g: "gen_inv cfg g evs" "length evs < 2 ^ 32"
    and ne: "g_live g \<noteq> []"
  shows "\<exists>g' e. step_execute uni g = Some g' \<and> gen_inv cfg g' (evs @ [e])"
proof -
  obtain i where i: "pick uni g = Some (i, g\<lparr>g_draws := Suc (g_draws g)\<rparr>)" "unat i < length (g_live g)"
      "vec_get (g_live g) (unat i) = Some (g_live g ! unat i)" "live_ok (g_live g ! unat i)"
    using picked [OF ok(1) g ne] .
  let ?x = "g_live g ! unat i"
  have "0 < lo_sz ?x" using i(4) by (simp add: live_ok_def)
  from shares_run [OF ok(1) this, of "g\<lparr>g_draws := Suc (g_draws g)\<rparr>"] obtain s
    where s: "draw uni 1 (ucast (lo_sz ?x)) (g\<lparr>g_draws := Suc (g_draws g)\<rparr>)
        = Some (s, g\<lparr>g_draws := Suc (Suc (g_draws g))\<rparr>)" "0 < (ucast s :: u32)" by auto
  let ?h = "g\<lparr>g_draws := Suc (Suc (g_draws g))\<rparr>"
  let ?e = "exec_msg (lo_ref ?x) (ucast s) (g_match ?h) (next_ts uni ?h)"
  obtain g1 where g1: "emit_exec uni (lo_ref ?x) (ucast s) ?h = Some g1" "message_sent (next_ts uni ?h) ?e ?h g1"
    using emit_exec_sent [OF gen_inv_ts [OF ok(1) g, of ?h]] by auto
  have live: "g_live g1 = g_live g" using g1(2) by (simp add: message_sent_def)
  have m: "mirrors (g_next_ref g) (g_live g) (spec_all cfg evs [])" using g(1) by (simp add: gen_inv_def)
  obtain xs where xs: "reduce_at (unat i) (ucast s) (g_live g) = Some xs"
      "mirrors (g_next_ref g) xs (spec_apply cfg ?e (spec_all cfg evs []))"
      "accepted_msg cfg ?e (spec_all cfg evs [])"
    using mirrors_reduce [OF m i(2) s(2), of ?e cfg] by (auto simp: exec_msg_def)
  have "gen_inv cfg (g1\<lparr>g_live := xs\<rparr>) (evs @ [?e])"
    using xs g(1) by (intro gen_inv_snoc [OF ok g _ _ _ _ g1(2)]) (simp_all add: gen_inv_def)
  moreover have "step_execute uni g = Some (g1\<lparr>g_live := xs\<rparr>)"
    using i(1,3) s(1) g1(1) xs(1) live by (simp add: step_execute_def)
  ultimately show ?thesis by blast
qed

lemma step_cancel_inv:
  assumes ok: "draws_ok uni" "in_band cfg" "tick_size cfg = 1" and g: "gen_inv cfg g evs" "length evs < 2 ^ 32"
    and ne: "g_live g \<noteq> []"
  shows "\<exists>g' e. step_cancel uni g = Some g' \<and> gen_inv cfg g' (evs @ [e])"
proof -
  obtain i where i: "pick uni g = Some (i, g\<lparr>g_draws := Suc (g_draws g)\<rparr>)" "unat i < length (g_live g)"
      "vec_get (g_live g) (unat i) = Some (g_live g ! unat i)" "live_ok (g_live g ! unat i)"
    using picked [OF ok(1) g ne] .
  let ?x = "g_live g ! unat i"
  have "0 < lo_sz ?x" using i(4) by (simp add: live_ok_def)
  from shares_run [OF ok(1) this, of "g\<lparr>g_draws := Suc (g_draws g)\<rparr>"] obtain s
    where s: "draw uni 1 (ucast (lo_sz ?x)) (g\<lparr>g_draws := Suc (g_draws g)\<rparr>)
        = Some (s, g\<lparr>g_draws := Suc (Suc (g_draws g))\<rparr>)" "0 < (ucast s :: u32)" by auto
  let ?h = "g\<lparr>g_draws := Suc (Suc (g_draws g))\<rparr>"
  let ?e = "cancel_msg (lo_ref ?x) (ucast s) (next_ts uni ?h)"
  obtain g1 where g1: "emit_cancel uni (lo_ref ?x) (ucast s) ?h = Some g1" "message_sent (next_ts uni ?h) ?e ?h g1"
    using emit_cancel_sent [OF gen_inv_ts [OF ok(1) g, of ?h]] by auto
  have live: "g_live g1 = g_live g" using g1(2) by (simp add: message_sent_def)
  have m: "mirrors (g_next_ref g) (g_live g) (spec_all cfg evs [])" using g(1) by (simp add: gen_inv_def)
  obtain xs where xs: "reduce_at (unat i) (ucast s) (g_live g) = Some xs"
      "mirrors (g_next_ref g) xs (spec_apply cfg ?e (spec_all cfg evs []))"
      "accepted_msg cfg ?e (spec_all cfg evs [])"
    using mirrors_reduce [OF m i(2) s(2), of ?e cfg] by (auto simp: cancel_msg_def)
  have "gen_inv cfg (g1\<lparr>g_live := xs\<rparr>) (evs @ [?e])"
    using xs g(1) by (intro gen_inv_snoc [OF ok g _ _ _ _ g1(2)]) (simp_all add: gen_inv_def)
  moreover have "step_cancel uni g = Some (g1\<lparr>g_live := xs\<rparr>)"
    using i(1,3) s(1) g1(1) xs(1) live by (simp add: step_cancel_def)
  ultimately show ?thesis by blast
qed

lemma step_delete_inv:
  assumes ok: "draws_ok uni" "in_band cfg" "tick_size cfg = 1" and g: "gen_inv cfg g evs" "length evs < 2 ^ 32"
    and ne: "g_live g \<noteq> []"
  shows "\<exists>g' e. step_delete uni g = Some g' \<and> gen_inv cfg g' (evs @ [e])"
proof -
  obtain i where i: "pick uni g = Some (i, g\<lparr>g_draws := Suc (g_draws g)\<rparr>)" "unat i < length (g_live g)"
      "vec_get (g_live g) (unat i) = Some (g_live g ! unat i)"
    using picked [OF ok(1) g ne] by blast
  let ?x = "g_live g ! unat i" and ?h = "g\<lparr>g_draws := Suc (g_draws g)\<rparr>"
  let ?e = "delete_msg (lo_ref ?x) (next_ts uni ?h)"
  obtain g1 where g1: "emit_delete uni (lo_ref ?x) ?h = Some g1" "message_sent (next_ts uni ?h) ?e ?h g1"
    using emit_delete_sent [OF gen_inv_ts [OF ok(1) g, of ?h]] by auto
  have live: "g_live g1 = g_live g" using g1(2) by (simp add: message_sent_def)
  have m: "mirrors (g_next_ref g) (g_live g) (spec_all cfg evs [])" using g(1) by (simp add: gen_inv_def)
  obtain xs where xs: "remove_at (unat i) (g_live g) = Some xs"
      "mirrors (g_next_ref g) xs (spec_apply cfg ?e (spec_all cfg evs []))"
      "accepted_msg cfg ?e (spec_all cfg evs [])"
    using mirrors_delete [OF m i(2), of ?e cfg] by (auto simp: delete_msg_def)
  have "gen_inv cfg (g1\<lparr>g_live := xs\<rparr>) (evs @ [?e])"
    using xs g(1) by (intro gen_inv_snoc [OF ok g _ _ _ _ g1(2)]) (simp_all add: gen_inv_def)
  moreover have "step_delete uni g = Some (g1\<lparr>g_live := xs\<rparr>)"
    using i(1,3) g1(1) xs(1) live by (simp add: step_delete_def)
  ultimately show ?thesis by blast
qed

lemma step_replace_inv:
  assumes ok: "draws_ok uni" "in_band cfg" "tick_size cfg = 1" and g: "gen_inv cfg g evs" "length evs < 2 ^ 32"
    and ne: "g_live g \<noteq> []"
  shows "\<exists>g' e. step_replace uni g = Some g' \<and> gen_inv cfg g' (evs @ [e])"
proof -
  obtain i where i: "pick uni g = Some (i, g\<lparr>g_draws := Suc (g_draws g)\<rparr>)" "unat i < length (g_live g)"
      "vec_get (g_live g) (unat i) = Some (g_live g ! unat i)" "live_ok (g_live g ! unat i)"
    using picked [OF ok(1) g ne] .
  let ?x = "g_live g ! unat i" and ?g0 = "g\<lparr>g_next_ref := g_next_ref g + 1\<rparr>"
  have sd: "lo_side ?x = ascii CHR ''B'' \<or> lo_side ?x = ascii CHR ''S''" using i(4) by (auto simp: live_ok_def)
  let ?g1 = "g\<lparr>g_draws := Suc (g_draws g), g_next_ref := g_next_ref g + 1\<rparr>" and ?g2 = "?g0\<lparr>g_draws := Suc (Suc (g_draws g))\<rparr>"
  obtain px where px: "random_price uni (lo_side ?x) ?g1 = Some (px, ?g2)"
      "lo_side ?x = ascii CHR ''B'' \<and> k_mid - 51 \<le> px \<and> px < k_mid
       \<or> lo_side ?x = ascii CHR ''S'' \<and> k_mid < px \<and> px \<le> k_mid + 51"
    using price_run [OF ok(1) sd, of ?g1] by auto
  let ?h = "?g0\<lparr>g_draws := Suc (Suc (Suc (g_draws g)))\<rparr>"
  obtain v where v: "draw uni 1 10 ?g2 = Some (v, ?h)" "0 < (ucast (v * 100) :: u32)"
    using lot_run [OF ok(1), of ?g2] by auto
  let ?y = "?x\<lparr>lo_ref := g_next_ref g, lo_px := px, lo_sz := ucast (v * 100)\<rparr>"
  have y: "live_ok ?y" using px(2) v(2) by (simp add: live_ok_def)
  let ?e = "replace_msg (lo_ref ?x) (g_next_ref g) (ucast (v * 100)) px (next_ts uni ?h)"
  obtain g3 where g3: "emit_replace uni (lo_ref ?x) (g_next_ref g) (ucast (v * 100)) px ?h = Some g3"
      "message_sent (next_ts uni ?h) ?e ?h g3"
    using emit_replace_sent [OF gen_inv_ts [OF ok(1) g, of ?h], of "lo_ref ?x" "g_next_ref g" "ucast (v * 100)" px]
    by auto
  have live: "g_live g3 = g_live g" using g3(2) by (simp add: message_sent_def)
  have m: "mirrors (g_next_ref g) (g_live g) (spec_all cfg evs [])" using g(1) by (simp add: gen_inv_def)
  have "gen_inv cfg (g3\<lparr>g_live := (g_live g)[unat i := ?y]\<rparr>) (evs @ [?e])"
    using mirrors_replace [OF m i(2) next_ref_grows(1) [OF g] ok(2) refl y] next_ref_grows(2) [OF g]
    by (intro gen_inv_snoc [OF ok g _ _ _ _ g3(2)]) simp_all
  moreover have "step_replace uni g = Some (g3\<lparr>g_live := (g_live g)[unat i := ?y]\<rparr>)"
    using i(1-3) px(1) v(1) g3(1) live by (simp add: step_replace_def Let_def access_simps)
  ultimately show ?thesis by blast
qed

text \<open>Messages that do not touch the book.\<close>

lemma silent_inv:
  assumes ok: "draws_ok uni" "in_band cfg" "tick_size cfg = 1" and g: "gen_inv cfg g evs" "length evs < 2 ^ 32"
    and e: "ev_type e \<in> {Trade, SystemEvent}" and s: "message_sent (next_ts uni g) e g g1"
  shows "gen_inv cfg g1 (evs @ [e])"
proof -
  have "spec_apply cfg e A = A" "accepted_msg cfg e A" for A
    using e by (auto simp: msg_simps)
  moreover have "g_live g1 = g_live g" using s by (simp add: message_sent_def)
  ultimately have "gen_inv cfg (g1\<lparr>g_live := g_live g1\<rparr>) (evs @ [e])"
    using g(1) by (intro gen_inv_snoc [OF ok g _ _ _ _ s]) (simp_all add: gen_inv_def)
  then show ?thesis by simp
qed

lemma emit_trade_inv:
  assumes ok: "draws_ok uni" "in_band cfg" "tick_size cfg = 1" and g: "gen_inv cfg g evs" "length evs < 2 ^ 32"
    and sy: "length sy = 8"
  shows "\<exists>g' e. emit_trade uni sy g = Some g' \<and> gen_inv cfg g' (evs @ [e])"
proof -
  let ?e = "trade_msg sy (drawn_side uni (Suc (g_draws g))) (ucast (uni (Suc (Suc (g_draws g))) 1 5 * 100))
    (g_match g) (next_ts uni g)"
  obtain g1 where g1: "emit_trade uni sy g = Some g1" "message_sent (next_ts uni g) ?e g g1"
    using emit_trade_sent [OF gen_inv_ts [OF ok(1) g refl refl refl refl] sy] by blast
  have "gen_inv cfg g1 (evs @ [?e])"
    by (rule silent_inv [OF ok g _ g1(2)]) (simp add: trade_msg_def)
  with g1(1) show ?thesis by blast
qed

lemma emit_system_inv:
  assumes ok: "draws_ok uni" "in_band cfg" "tick_size cfg = 1" and g: "gen_inv cfg g evs" "length evs < 2 ^ 32"
  shows "\<exists>g' e. emit_system uni code g = Some g' \<and> gen_inv cfg g' (evs @ [e])"
proof -
  obtain g1 where g1: "emit_system uni code g = Some g1"
      "message_sent (next_ts uni g) (system_msg (next_ts uni g)) g g1"
    using emit_system_sent [OF gen_inv_ts [OF ok(1) g refl refl refl refl]] by blast
  have "gen_inv cfg g1 (evs @ [system_msg (next_ts uni g)])"
    by (rule silent_inv [OF ok g _ g1(2)]) (simp add: system_msg_def)
  with g1(1) show ?thesis by blast
qed

section \<open>The loop and the whole file\<close>

lemma gen_step_inv:
  assumes ok: "draws_ok uni" "in_band cfg" "tick_size cfg = 1" and g: "gen_inv cfg g evs" "length evs < 2 ^ 32"
    and sy: "length sy = 8"
  shows "\<exists>g' e. gen_step uni sy g = Some g' \<and> gen_inv cfg g' (evs @ [e])"
proof -
  let ?g = "g\<lparr>g_draws := Suc (g_draws g)\<rparr>"
  have i: "gen_inv cfg ?g evs" using g(1) by (simp add: gen_inv_def wrote_def)
  define roll where "roll = (if length (g_live g) < 8 then 0
    else if unat k_max_live \<le> length (g_live g) then 60 else uni (g_draws g) 0 99)"
  have ne: "g_live ?g \<noteq> []" if "\<not> roll < 50"
    using that by (auto simp: roll_def)
  have "gen_step uni sy g =
    (if roll < 50 then do_add uni sy ?g else if roll < 68 then step_execute uni ?g
     else if roll < 80 then step_cancel uni ?g else if roll < 92 then step_delete uni ?g
     else if roll < 99 then step_replace uni ?g else emit_trade uni sy ?g)"
    unfolding gen_step_def Let_def roll_def by (simp add: draw_run)
  then show ?thesis
    using do_add_inv [OF ok i g(2) sy] step_execute_inv [OF ok i g(2) ne] step_cancel_inv [OF ok i g(2) ne]
      step_delete_inv [OF ok i g(2) ne] step_replace_inv [OF ok i g(2) ne] emit_trade_inv [OF ok i g(2) sy]
    by (cases "roll < 50"; cases "roll < 68"; cases "roll < 80"; cases "roll < 92"; cases "roll < 99") simp_all
qed

lemma gen_loop_inv:
  assumes ok: "draws_ok uni" "in_band cfg" "tick_size cfg = 1" and sy: "length sy = 8"
    and g: "gen_inv cfg g evs" "length evs < 2 ^ 32" and n: "unat messages < 2 ^ 32"
  shows "\<exists>g' evs'. gen_loop uni sy messages g = Some g' \<and> gen_inv cfg g' evs'
    \<and> length evs' = max (length evs) (unat messages)"
  using g
proof (induction "unat messages - length evs" arbitrary: g evs)
  case (0 evs g)
  have "unat (w_count g) = length evs"
    using 0 by (simp add: gen_inv_def wrote_def unat_of_nat)
  then have "\<not> w_count g < messages" using 0 by (simp add: word_less_nat_alt)
  then have "gen_loop uni sy messages g = Some g" by (subst gen_loop.simps) simp
  with 0 show ?case by fastforce
next
  case (Suc k evs g)
  have "unat (w_count g) = length evs"
    using Suc.prems by (simp add: gen_inv_def wrote_def unat_of_nat)
  then have lt: "w_count g < messages" using Suc.hyps(2) by (simp add: word_less_nat_alt)
  obtain g1 e where g1: "gen_step uni sy g = Some g1" "gen_inv cfg g1 (evs @ [e])"
    using gen_step_inv [OF ok Suc.prems sy] by blast
  have "length (evs @ [e]) \<le> unat messages" using Suc.hyps(2) by simp
  then have "k = unat messages - length (evs @ [e])" "length (evs @ [e]) < 2 ^ 32"
    using Suc.hyps(2) n by simp_all
  from Suc.hyps(1) [OF this(1) g1(2) this(2)] obtain g' evs'
    where r: "gen_loop uni sy messages g1 = Some g'" "gen_inv cfg g' evs'"
      "length evs' = max (length (evs @ [e])) (unat messages)" by blast
  have "gen_loop uni sy messages g = Some g'"
    using lt g1(1) r(1) by (subst gen_loop.simps) simp
  moreover have "length evs' = max (length evs) (unat messages)"
    using r(3) Suc.hyps(2) by simp
  ultimately show ?case using r(2) by blast
qed

lemma new_gen_inv: "gen_inv cfg new_gen []"
proof -
  have "wrote new_gen []"
    by (simp add: wrote_def new_gen_def)
  then show ?thesis
    by (simp add: gen_inv_def mirrors_def new_gen_def book_apart_def)
qed

lemma length_symbol_field [simp]: "length (symbol_field s) = 8"
  by (simp add: symbol_field_def)

lemma gen_main_run:
  assumes ok: "draws_ok uni" "in_band cfg" "tick_size cfg = 1" and n: "unat messages < 2 ^ 32 - 1"
  shows "\<exists>g evs. gen_main uni name messages = Some g \<and> gen_inv cfg g evs
    \<and> length evs = Suc (max 1 (unat messages))"
proof -
  let ?sy = "symbol_field name"
  obtain g1 e1 where g1: "emit_system uni (ascii CHR ''O'') new_gen = Some g1" "gen_inv cfg g1 [e1]"
    using emit_system_inv [OF ok new_gen_inv, of "ascii CHR ''O''"] by auto
  obtain g2 evs where g2: "gen_loop uni ?sy messages g1 = Some g2" "gen_inv cfg g2 evs"
      "length evs = max (length [e1]) (unat messages)"
    using gen_loop_inv [OF ok length_symbol_field [of name] g1(2), of messages] n by auto
  then have "length evs < 2 ^ 32" using n by simp
  from emit_system_inv [OF ok g2(2) this, of "ascii CHR ''C''"] obtain g3 e3
    where g3: "emit_system uni (ascii CHR ''C'') g2 = Some g3" "gen_inv cfg g3 (evs @ [e3])" by blast
  have "gen_main uni name messages = Some g3"
    using g1(1) g2(1) g3(1) by (simp add: gen_main_def Let_def)
  with g3(2) g2(3) show ?thesis by fastforce
qed

section \<open>A clean feed leaves the error counters at zero\<close>

definition no_errors :: "book_stats \<Rightarrow> bool" where
  "no_errors s \<longleftrightarrow> unknown_ref s = 0 \<and> rejected_out_of_band s = 0 \<and> crossed_observed s = 0"

lemma apply_all_snoc: "apply_all (es @ [e]) b = Option.bind (apply_all es b) (apply_event e)"
  by (induction es arbitrary: b) (auto simp: bind_eq_Some_conv split: Option.bind_split)

lemma apart_not_crossed:
  assumes "good_config (fix_config cfg)" and "length evs < 2 ^ 32" and "clean_feed (fix_config cfg) evs []"
    and "apply_all evs (new_book cfg) = Some b"
  shows "\<not> is_crossed b"
proof -
  have "book_apart (fix_config cfg) (spec_run cfg evs)"
    using clean_feed_end [OF assms(3)] by (simp add: spec_run_def)
  then show ?thesis
    using crossed_spec [OF assms(1,2) clean_feed_pure [OF assms(3)]] assms(4)
    unfolding book_apart_def by (metis not_less_iff_gr_or_eq option.inject)
qed

lemma note_crossed_idx:
  "best_bid_idx (note_crossed b) = best_bid_idx b" "best_ask_idx (note_crossed b) = best_ask_idx b"
  by (simp_all add: note_crossed_def)

lemma is_crossed_note: "is_crossed (note_crossed b) = is_crossed b"
  by (simp only: is_crossed_def note_crossed_idx)

lemma note_crossed_same: "\<not> is_crossed (note_crossed b) \<Longrightarrow> note_crossed b = b"
  unfolding is_crossed_note by (simp only: note_crossed_def if_False)

lemma clean_no_errors:
  assumes "good_config (fix_config cfg)" and "length evs < 2 ^ 32" and "clean_feed (fix_config cfg) evs []"
    and "apply_all evs (new_book cfg) = Some b"
  shows "no_errors (bk_stats b)"
  using assms(2-4)
proof (induction evs arbitrary: b rule: rev_induct)
  case Nil
  then show ?case by (auto simp: new_book_def Let_def zero_book_stats_def no_errors_def)
next
  case (snoc e evs)
  let ?c = "fix_config cfg"
  have clean: "clean_feed ?c evs []" "accepted_msg ?c e (spec_run cfg evs)"
    using snoc.prems(2) by (simp_all add: clean_feed_snoc spec_run_def)
  have len: "length evs < 2 ^ 32" using snoc.prems(1) by simp
  obtain b0 q where b0: "apply_all evs (new_book cfg) = Some b0" "book_repr b0 q (spec_run cfg evs)"
      "bk_cfg b0 = ?c"
    using run_repr [OF assms(1) len] by metis
  then obtain b1 where b1: "dispatch e b0 = Some b1"
      "b = note_crossed (b1\<lparr>bk_stats := (bk_stats b1)\<lparr>applied := applied (bk_stats b1) + 1\<rparr>\<rparr>)"
    using snoc.prems(3) by (auto simp: apply_all_snoc apply_event_def bind_eq_Some_conv)
  have "\<not> is_crossed b" by (rule apart_not_crossed [OF assms(1) snoc.prems])
  from note_crossed_same [OF this [unfolded b1(2)]]
  have "bk_stats b = (bk_stats b1)\<lparr>applied := applied (bk_stats b1) + 1\<rparr>"
    by (simp add: b1(2))
  moreover have "no_errors (bk_stats b1)"
    using snoc.IH [OF len clean(1) b0(1)] dispatch_stats [OF b0(2) b1(1)] clean(2)
    by (simp add: no_errors_def b0(3) accepted_msg_def bump_def)
  ultimately show ?case by (simp add: no_errors_def)
qed

section \<open>The generated file\<close>

lemma mirrors_card: "mirrors nr xs A \<Longrightarrow> length xs = length A"
proof -
  assume m: "mirrors nr xs A"
  have "length xs = card (lo_ref ` set xs)"
    using m distinct_card [of "map lo_ref xs"] by (simp add: mirrors_def)
  also have "\<dots> = card (refs A)" by (simp add: mirrors_refs [OF m])
  also have "\<dots> = length A"
    using m distinct_card [of "map rs_ref A"] by (simp add: mirrors_def refs_def)
  finally show ?thesis .
qed

text \<open>
  C26. For all draws within bounds the generator returns, its file decodes frame by frame to
  max(1, messages) + 1 events, each naming a live or fresh order at a price in the band with the
  sides apart, and its live vector is, as a set, the live orders these events leave.
\<close>

theorem generated_file_is_clean:
  assumes "draws_ok uni" and "unat messages < 2 ^ 32 - 1"
    and "min_price cfg \<le> 999949" and "1000051 \<le> max_price cfg" and "tick_size cfg = 1"
  shows "\<exists>g evs. gen_main uni name messages = Some g \<and> file_events (w_out g) = map Some evs
    \<and> length evs = Suc (max 1 (unat messages)) \<and> clean_feed cfg evs []
    \<and> resting_of ` set (g_live g) = set (spec_all cfg evs [])
    \<and> length (g_live g) = length (spec_all cfg evs [])"
proof -
  have "in_band cfg" using assms(3,4) by (simp add: in_band_def k_mid_def)
  from gen_main_run [OF assms(1) this assms(5,2), of name] obtain g evs
    where g: "gen_main uni name messages = Some g" "gen_inv cfg g evs" "length evs = Suc (max 1 (unat messages))"
    by blast
  then have m: "mirrors (g_next_ref g) (g_live g) (spec_all cfg evs [])" by (simp add: gen_inv_def)
  have "file_events (w_out g) = map Some evs" "clean_feed cfg evs []"
    using g(2) by (simp_all add: gen_inv_def wrote_file)
  with g(1,3) m mirrors_card [OF m] show ?thesis by (auto simp: mirrors_def)
qed

lemma generated_file_is_clean_witness:
  "\<exists>g evs. gen_main (\<lambda>k l h. l) [65, 65, 80, 76] 5 = Some g \<and> file_events (w_out g) = map Some evs
    \<and> length evs = 6 \<and> clean_feed default_book_config evs []"
proof -
  have "draws_ok (\<lambda>k l h. l)" by (simp add: draws_ok_def)
  from generated_file_is_clean [OF this, of 5 default_book_config] show ?thesis
    by (fastforce simp: default_book_config_def)
qed

end
