(* ===== verification/Std_Strings.thy ===== *)
theory Std_Strings
  imports FH_Prelude "HOL-Library.Sublist"
begin

text \<open>
  What the applications use of the standard library's strings: \<open>find\<close> and \<open>substr\<close>, \<open>tolower\<close> and
  \<open>toupper\<close> in the C locale, \<open>to_string\<close>, and the integer conversions \<open>stoi\<close>, \<open>stoll\<close> and \<open>stoull\<close>,
  which skip white space, take an optional sign and the longest run of digits, ignore the rest, and
  throw (\<^term>\<open>None\<close>) when there is no digit or the value is out of range.
\<close>

section \<open>Searching\<close>

text \<open>\<open>s.find(needle)\<close>; \<^term>\<open>None\<close> is \<open>npos\<close>.\<close>

fun find_sub :: "string \<Rightarrow> string \<Rightarrow> nat option" where
  "find_sub needle [] = (if needle = [] then Some 0 else None)"
| "find_sub needle (c # cs) = (if prefix needle (c # cs) then Some 0 else map_option Suc (find_sub needle cs))"

definition contains :: "string \<Rightarrow> string \<Rightarrow> bool" where
  "contains s needle \<longleftrightarrow> find_sub needle s \<noteq> None"

lemma find_sub_iff:
  "find_sub needle s = Some i \<longleftrightarrow> i \<le> length s \<and> prefix needle (drop i s) \<and> (\<forall>j < i. \<not> prefix needle (drop j s))"
proof (induction s arbitrary: i)
  case Nil
  then show ?case by auto
next
  case (Cons c cs)
  show ?case
  proof (cases i)
    case 0
    then show ?thesis by auto
  next
    case (Suc k)
    have "(\<forall>j < Suc k. \<not> prefix needle (drop j (c # cs)))
        \<longleftrightarrow> \<not> prefix needle (c # cs) \<and> (\<forall>j < k. \<not> prefix needle (drop j cs))"
      by (auto simp: less_Suc_eq_0_disj)
    then show ?thesis using Cons.IH [of k] Suc by auto
  qed
qed

lemma contains_iff: "contains s needle \<longleftrightarrow> sublist needle s"
proof (induction s)
  case Nil
  then show ?case by (auto simp: contains_def)
next
  case (Cons c cs)
  then show ?case by (auto simp: contains_def sublist_Cons_right)
qed

lemma find_sub_skip:
  assumes "\<forall>j < length a. \<not> prefix needle (drop j (a @ b))"
  shows "find_sub needle (a @ b) = map_option ((+) (length a)) (find_sub needle b)"
  using assms
proof (induction a)
  case Nil
  then show ?case by (simp add: option.map_ident_strong)
next
  case (Cons c a)
  have "\<forall>j < length a. \<not> prefix needle (drop j (a @ b))" using Cons.prems by (metis Suc_less_eq append_Cons drop_Suc_Cons length_Cons)
  moreover have "\<not> prefix needle (c # a @ b)" using Cons.prems by fastforce
  ultimately show ?case using Cons.IH by (auto simp: option.map_comp o_def)
qed

lemma find_char:
  assumes "c \<notin> set a"
  shows "find_sub [c] (a @ c # b) = Some (length a)" and "find_sub [c] a = None"
  using assms by (induction a) auto

section \<open>Letter case\<close>

definition lower_char :: "char \<Rightarrow> char" where
  "lower_char c = (if 65 \<le> (of_char c :: nat) \<and> (of_char c :: nat) \<le> 90 then char_of (of_char c + 32 :: nat) else c)"

definition upper_char :: "char \<Rightarrow> char" where
  "upper_char c = (if 97 \<le> (of_char c :: nat) \<and> (of_char c :: nat) \<le> 122 then char_of (of_char c - 32 :: nat) else c)"

definition lower :: "string \<Rightarrow> string" where
  "lower s = map lower_char s"

definition upper :: "string \<Rightarrow> string" where
  "upper s = map upper_char s"

lemma upper_char_idem [simp]: "upper_char (upper_char c) = upper_char c"
  by (auto simp: upper_char_def)

lemma upper_idem [simp]: "upper (upper s) = upper s"
  by (simp add: upper_def)

lemma lower_char_idem [simp]: "lower_char (lower_char c) = lower_char c"
  by (auto simp: lower_char_def)

lemma lower_idem [simp]: "lower (lower s) = lower s"
  by (simp add: lower_def)

section \<open>Numbers\<close>

definition is_digit :: "char \<Rightarrow> bool" where
  "is_digit c \<longleftrightarrow> 48 \<le> (of_char c :: nat) \<and> (of_char c :: nat) \<le> 57"

definition is_space :: "char \<Rightarrow> bool" where
  "is_space c \<longleftrightarrow> (of_char c :: nat) = 32 \<or> 9 \<le> (of_char c :: nat) \<and> (of_char c :: nat) \<le> 13"

definition digits_value :: "string \<Rightarrow> nat" where
  "digits_value s = foldl (\<lambda>v c. 10 * v + (of_char c - 48)) 0 s"

definition split_sign :: "string \<Rightarrow> bool \<times> string" where
  "split_sign s =
    (case s of [] \<Rightarrow> (False, s)
     | c # cs \<Rightarrow> if c = CHR ''-'' then (True, cs) else if c = CHR ''+'' then (False, cs) else (False, s))"

text \<open>The sign and the magnitude a conversion reads.\<close>

definition read_number :: "string \<Rightarrow> (bool \<times> nat) option" where
  "read_number s =
    (let (neg, r) = split_sign (dropWhile is_space s); ds = takeWhile is_digit r
     in if ds = [] then None else Some (neg, digits_value ds))"

definition sto_range :: "int \<Rightarrow> int \<Rightarrow> string \<Rightarrow> int option" where
  "sto_range lo hi s =
    (case read_number s of None \<Rightarrow> None
     | Some (neg, n) \<Rightarrow> let v = (if neg then - int n else int n) in if lo \<le> v \<and> v \<le> hi then Some v else None)"

definition stoi :: "string \<Rightarrow> int option" where
  "stoi = sto_range (- (2 ^ 31)) (2 ^ 31 - 1)"

definition stoll :: "string \<Rightarrow> int option" where
  "stoll = sto_range (- (2 ^ 63)) (2 ^ 63 - 1)"

text \<open>\<open>strtoull\<close> takes a minus sign too and negates modulo \<open>2 ^ 64\<close>.\<close>

definition stoull :: "string \<Rightarrow> u64 option" where
  "stoull s =
    (case read_number s of None \<Rightarrow> None
     | Some (neg, n) \<Rightarrow> if n < 2 ^ 64 then Some (if neg then - of_nat n else of_nat n) else None)"

definition digit_char :: "nat \<Rightarrow> char" where
  "digit_char n = char_of (48 + n)"

fun show_nat :: "nat \<Rightarrow> string" where
  "show_nat n = (if n < 10 then [digit_char n] else show_nat (n div 10) @ [digit_char (n mod 10)])"

declare show_nat.simps [simp del]

text \<open>\<open>std::to_string\<close>.\<close>

definition show_int :: "int \<Rightarrow> string" where
  "show_int i = (if i < 0 then CHR ''-'' # show_nat (nat (- i)) else show_nat (nat i))"

lemma digit_char_value: "n < 10 \<Longrightarrow> of_char (digit_char n) = (48 + n :: nat)"
  by (simp add: digit_char_def)

lemma digit_char_digit [simp]: "n < 10 \<Longrightarrow> is_digit (digit_char n)"
  by (simp add: is_digit_def digit_char_value)

lemma show_nat_digits: "c \<in> set (show_nat n) \<Longrightarrow> is_digit c"
  by (induction n rule: show_nat.induct) (subst (asm) show_nat.simps, auto split: if_splits)

lemma show_nat_nonempty [simp]: "show_nat n \<noteq> []"
  by (subst show_nat.simps) simp

lemma digits_value_show [simp]: "digits_value (show_nat n) = n"
proof (induction n rule: show_nat.induct)
  case (1 n)
  then show ?case by (subst show_nat.simps) (simp add: digits_value_def digit_char_value)
qed

lemma digit_not_sign: "is_digit c \<Longrightarrow> c \<noteq> CHR ''-'' \<and> c \<noteq> CHR ''+'' \<and> \<not> is_space c"
  by (auto simp: is_digit_def is_space_def)

lemma takeWhile_digits: "takeWhile is_digit (show_nat n) = show_nat n"
  by (simp add: takeWhile_eq_all_conv show_nat_digits)

lemma read_number_nat: "read_number (show_nat n) = Some (False, n)"
proof -
  obtain c cs where c: "show_nat n = c # cs" by (cases "show_nat n") auto
  then have "is_digit c" using show_nat_digits [of c n] by simp
  then have "split_sign (dropWhile is_space (show_nat n)) = (False, show_nat n)"
    using digit_not_sign [of c] by (simp add: split_sign_def c)
  then show ?thesis by (simp add: read_number_def takeWhile_digits)
qed

lemma read_number_neg: "read_number (CHR ''-'' # show_nat n) = Some (True, n)"
proof -
  have "\<not> is_space (CHR ''-'')" by (simp add: is_space_def)
  then show ?thesis by (simp add: read_number_def split_sign_def takeWhile_digits)
qed

lemma sto_range_show: "lo \<le> i \<Longrightarrow> i \<le> hi \<Longrightarrow> sto_range lo hi (show_int i) = Some i"
  by (auto simp: sto_range_def show_int_def read_number_nat read_number_neg)

lemma stoull_show: "stoull (show_nat (unat w)) = Some w"
  using unsigned_less [of w] by (simp add: stoull_def read_number_nat)

section \<open>Command lines\<close>

text \<open>
  How \<open>main\<close> may end early: by \<open>exit\<close> or \<open>return\<close>, or because a conversion throws, which no \<open>main\<close> of the
  program catches. \<open>next_arg\<close> is the lambda \<open>next\<close> of the three argument loops, \<open>converted\<close> an option whose value
  is converted.
\<close>

datatype stop = Exit int | Throws

definition next_arg :: "string list \<Rightarrow> string \<times> string list" where
  "next_arg ks = (case ks of [] \<Rightarrow> ([], []) | v # r \<Rightarrow> (v, r))"

definition converted :: "'a option \<Rightarrow> ('a \<Rightarrow> 'b) \<Rightarrow> stop + 'b" where
  "converted v f = (case v of None \<Rightarrow> Inl Throws | Some x \<Rightarrow> Inr (f x))"

lemma next_arg_Cons [simp]: "next_arg (v # r) = (v, r)"
  by (simp add: next_arg_def)

lemma converted_simps [simp]: "converted (Some x) f = Inr (f x)" "converted None f = Inl Throws"
  by (simp_all add: converted_def)

end
