(* ===== verification/Replay_Apps.thy ===== *)
theory Replay_Apps
  imports Std_Strings Pipeline Itch_Gen
begin

text \<open>
  The two command-line programs around the pipeline: \<^verbatim>\<open>main\<close> of \<^verbatim>\<open>tools/itch_gen.cpp\<close>, which writes a
  file, and \<^verbatim>\<open>main\<close> of \<^verbatim>\<open>apps/feed_handler.cpp\<close>, which replays one. The files are a map from names to
  bytes. \<open>rng seed\<close> gives the draws of the seeded generator, \<open>creates\<close> says which files can be opened for
  writing, \<open>pace_of\<close> is the pacing that follows from a speed multiplier, of type \<open>'d\<close>. What
  \<open>feed_handler\<close> prints of the result is in Console.
\<close>

type_synonym files = "string \<Rightarrow> byte_buf option"

section \<open>The generator\<close>

record gen_args =
  ga_out :: string
  ga_messages :: u64
  ga_seed :: u64
  ga_symbol :: string

definition default_gen_args :: gen_args where
  "default_gen_args = \<lparr>ga_out = ''data/sample.itch'', ga_messages = 500000, ga_seed = 42, ga_symbol = ''SYNTH''\<rparr>"

definition take_gen_option :: "string \<Rightarrow> string list \<Rightarrow> gen_args \<Rightarrow> stop + gen_args \<times> string list" where
  "take_gen_option k ks a =
    (let (v, r) = next_arg ks in
     if k = ''--out'' then Inr (a\<lparr>ga_out := v\<rparr>, r)
     else if k = ''--orders'' \<or> k = ''--messages'' \<or> k = ''-n'' then converted (stoull v) (\<lambda>n. (a\<lparr>ga_messages := n\<rparr>, r))
     else if k = ''--seed'' then converted (stoull v) (\<lambda>n. (a\<lparr>ga_seed := n\<rparr>, r))
     else if k = ''--symbol'' then Inr (a\<lparr>ga_symbol := v\<rparr>, r)
     else if k = ''--help'' then Inl (Exit 0)
     else Inr (a, ks))"

lemma take_gen_shorter: "take_gen_option k ks a = Inr (a', r) \<Longrightarrow> length r \<le> length ks"
  by (cases ks) (auto simp: take_gen_option_def next_arg_def converted_def split: if_splits option.splits)

function parse_gen_args :: "string list \<Rightarrow> gen_args \<Rightarrow> stop + gen_args" where
  "parse_gen_args [] a = Inr a"
| "parse_gen_args (k # ks) a =
    (case take_gen_option k ks a of Inl e \<Rightarrow> Inl e | Inr (a, ks) \<Rightarrow> parse_gen_args ks a)"
  by pat_completeness auto
termination
  by (relation "measure (\<lambda>(ks, _). length ks)") (auto dest: take_gen_shorter)

text \<open>\<^term>\<open>None\<close> is undefined behaviour of the generator.\<close>

definition itch_gen_main ::
    "(u64 \<Rightarrow> draws) \<Rightarrow> (string \<Rightarrow> bool) \<Rightarrow> string list \<Rightarrow> files \<Rightarrow> (stop \<times> files) option" where
  "itch_gen_main rng creates args fs =
    (case parse_gen_args args default_gen_args of
       Inl e \<Rightarrow> Some (e, fs)
     | Inr a \<Rightarrow>
         if \<not> creates (ga_out a) then Some (Exit 1, fs)
         else do {
           g \<leftarrow> gen_main (rng (ga_seed a)) (map ascii (ga_symbol a)) (ga_messages a);
           Some (Exit 0, fs(ga_out a \<mapsto> w_out g)) })"

section \<open>The replay\<close>

record 'd replay_args =
  ra_file :: string
  ra_backpressure :: backpressure
  ra_speed :: 'd

definition take_replay_option ::
    "(string \<Rightarrow> 'd option) \<Rightarrow> string \<Rightarrow> string list \<Rightarrow> 'd replay_args \<Rightarrow> stop + 'd replay_args \<times> string list" where
  "take_replay_option stod k ks a =
    (let (v, r) = next_arg ks in
     if k = ''--file'' then Inr (a\<lparr>ra_file := v\<rparr>, r)
     else if k = ''--speed'' then converted (stod v) (\<lambda>d. (a\<lparr>ra_speed := d\<rparr>, r))
     else if k = ''--drop'' then Inr (a\<lparr>ra_backpressure := Drop_item\<rparr>, ks)
     else if k = ''--help'' then Inl (Exit 0)
     else Inr (a, ks))"

lemma take_replay_shorter: "take_replay_option stod k ks a = Inr (a', r) \<Longrightarrow> length r \<le> length ks"
  by (cases ks) (auto simp: take_replay_option_def next_arg_def converted_def split: if_splits option.splits)

function parse_replay_args :: "(string \<Rightarrow> 'd option) \<Rightarrow> string list \<Rightarrow> 'd replay_args \<Rightarrow> stop + 'd replay_args" where
  "parse_replay_args stod [] a = Inr a"
| "parse_replay_args stod (k # ks) a =
    (case take_replay_option stod k ks a of Inl e \<Rightarrow> Inl e | Inr (a, ks) \<Rightarrow> parse_replay_args stod ks a)"
  by pat_completeness auto
termination
  by (relation "measure (\<lambda>(_, ks, _). length ks)") (auto dest: take_replay_shorter)

definition replay_config :: "('d \<Rightarrow> pacing) \<Rightarrow> 'd replay_args \<Rightarrow> pipeline_config" where
  "replay_config pace_of a = \<lparr>pc_book = default_book_config, pc_backpressure = ra_backpressure a,
     pc_pacing = pace_of (ra_speed a), inject_gap_at = 0, gap_reorder_distance = 0\<rparr>"

text \<open>Up to the call of \<open>run_pipeline\<close>, with its configuration and the bytes of the mapped file.\<close>

datatype replay_run = Ended stop | Replays pipeline_config byte_buf

definition feed_handler_main ::
    "(string \<Rightarrow> 'd option) \<Rightarrow> ('d \<Rightarrow> pacing) \<Rightarrow> 'd \<Rightarrow> bool \<Rightarrow> string list \<Rightarrow> files \<Rightarrow> replay_run" where
  "feed_handler_main stod pace_of zero mapped args fs =
    (case parse_replay_args stod args \<lparr>ra_file = ''data/sample.itch'', ra_backpressure = Block, ra_speed = zero\<rparr> of
       Inl e \<Rightarrow> Ended e
     | Inr a \<Rightarrow>
         (case fs_data (open_file_source (fs (ra_file a)) mapped) of
            None \<Rightarrow> Ended (Exit 1)
          | Some bytes \<Rightarrow> Replays (replay_config pace_of a) bytes))"

end
