(* ===== verification/Live_Feed.thy ===== *)
theory Live_Feed
  imports Pipeline Order_Book_L2
begin

text \<open>
  \<^verbatim>\<open>apps/live_feed.cpp\<close>: the adapter of Binance's depth feed. The WebSocket callback decodes each
  \<open>depthUpdate\<close> into one \<open>L2SetLevel\<close> message per level change, all carrying the event's window
  \<open>U..u\<close> of update ids (\<open>on_depth\<close>); the consumer runs the snapshot and resynchronisation state machine
  on these windows and sets the levels of the book (\<open>on_msg\<close>). What the JSON library delivers is an
  argument: a level is its list of strings. \<open>rnd s scale\<close> is \<open>llround(stod(s) * scale)\<close>, \<^term>\<open>None\<close> when
  \<open>stod\<close> throws. \<open>fetch k\<close> is the result of the \<open>k\<close>-th call of \<open>fetch_snapshot\<close> and \<open>now k\<close> that of the \<open>k\<close>-th
  reading of the clock.
\<close>

type_synonym rounding = "string \<Rightarrow> int \<Rightarrow> int option"

record scales =
  price_scale :: int
  size_scale :: int

text \<open>The two global counters of the decoder: \<open>ws_ops\<close> and \<open>g_saturated\<close>.\<close>

record decoder =
  ws_ops :: u64
  saturated :: u64

section \<open>Decoding\<close>

definition px_to_ticks :: "rounding \<Rightarrow> string \<Rightarrow> int \<Rightarrow> int" where
  "px_to_ticks rnd s scale = (case rnd s scale of None \<Rightarrow> -1 | Some q \<Rightarrow> q)"

definition scaled_qty :: "rounding \<Rightarrow> string \<Rightarrow> int \<Rightarrow> decoder \<Rightarrow> u64 \<times> decoder" where
  "scaled_qty rnd s scale d =
    (case rnd s scale of
       None \<Rightarrow> (0, d)
     | Some q \<Rightarrow>
         if q \<le> 0 then (0, d)
         else if q > 4294967295 then (4294967295, d\<lparr>saturated := saturated d + 1\<rparr>)
         else (of_int q, d))"

record depth_update =
  du_first :: u64
  du_last :: u64
  du_bids :: "string list list option"
  du_asks :: "string list list option"

definition push_op ::
    "rounding \<Rightarrow> scales \<Rightarrow> depth_update \<Rightarrow> u64 \<Rightarrow> side \<Rightarrow> string list \<Rightarrow> decoder \<Rightarrow> pipeline_msg list \<times> decoder" where
  "push_op rnd sc du recv s lvl d =
    (if length lvl < 2 then ([], d)
     else let px = px_to_ticks rnd (lvl ! 0) (price_scale sc) in
       if px < 0 then ([], d)
       else let (q, d) = scaled_qty rnd (lvl ! 1) (size_scale sc) d;
                e = default_event\<lparr>ev_type := L2SetLevel, ev_side := s, price_ticks := px, ev_size := ucast q,
                      order_ref := du_first du, match_number := du_last du\<rparr>
            in ([\<lparr>pm_event = e, pm_recv_ns = recv, pm_sequence = du_last du\<rparr>], d\<lparr>ws_ops := ws_ops d + 1\<rparr>))"

fun push_ops ::
    "rounding \<Rightarrow> scales \<Rightarrow> depth_update \<Rightarrow> u64 \<Rightarrow> side \<Rightarrow> string list list \<Rightarrow> decoder \<Rightarrow> pipeline_msg list \<times> decoder" where
  "push_ops rnd sc du recv s [] d = ([], d)"
| "push_ops rnd sc du recv s (lvl # lvls) d =
    (let (ms, d) = push_op rnd sc du recv s lvl d; (ms', d) = push_ops rnd sc du recv s lvls d in (ms @ ms', d))"

definition levels_of :: "string list list option \<Rightarrow> string list list" where
  "levels_of ls = (case ls of None \<Rightarrow> [] | Some xs \<Rightarrow> xs)"

definition header_msg :: "u64 \<Rightarrow> u64 \<Rightarrow> u64 \<Rightarrow> pipeline_msg" where
  "header_msg recv U u = \<lparr>pm_event = default_event\<lparr>ev_type := L2EventHeader, order_ref := U, match_number := u\<rparr>,
     pm_recv_ns = recv, pm_sequence = u\<rparr>"

definition on_depth ::
    "rounding \<Rightarrow> scales \<Rightarrow> depth_update \<Rightarrow> u64 \<Rightarrow> decoder \<Rightarrow> pipeline_msg list \<times> decoder" where
  "on_depth rnd sc du recv d =
    (let (bs, d) = push_ops rnd sc du recv Buy (levels_of (du_bids du)) d;
         (as, d) = push_ops rnd sc du recv Sell (levels_of (du_asks du)) d;
         any = (levels_of (du_bids du) \<noteq> [] \<or> levels_of (du_asks du) \<noteq> [])
     in (bs @ as @ (if any then [] else [header_msg recv (du_first du) (du_last du)]), d))"

text \<open>\<open>push_trade\<close>: the deque of the latest trades, oldest first.\<close>

function trim_trades :: "'a list \<Rightarrow> 'a list" where
  "trim_trades ts = (if length ts > 40 then trim_trades (tl ts) else ts)"
  by pat_completeness auto
termination
  by (relation "measure length") auto

declare trim_trades.simps [simp del]

definition push_trade :: "'a \<Rightarrow> 'a list \<Rightarrow> 'a list" where
  "push_trade t ts = trim_trades (ts @ [t])"

section \<open>The depth snapshot\<close>

record l2_snapshot =
  sn_ok :: bool
  sn_status :: int
  sn_last :: u64
  sn_bid :: int
  sn_ask :: int
  sn_levels :: "level_op list"

definition no_snapshot :: l2_snapshot where
  "no_snapshot = \<lparr>sn_ok = False, sn_status = 0, sn_last = 0, sn_bid = -1, sn_ask = -1, sn_levels = []\<rparr>"

text \<open>The body of the response: \<open>lastUpdateId\<close>, \<open>bids\<close> and \<open>asks\<close>, each possibly absent.\<close>

record depth_doc =
  doc_last :: "u64 option"
  doc_bids :: "string list list option"
  doc_asks :: "string list list option"

fun load_levels ::
    "rounding \<Rightarrow> scales \<Rightarrow> side \<Rightarrow> bool \<Rightarrow> string list list \<Rightarrow> l2_snapshot \<Rightarrow> decoder \<Rightarrow> l2_snapshot \<times> decoder" where
  "load_levels rnd sc sd is_bid [] s d = (s, d)"
| "load_levels rnd sc sd is_bid (lvl # lvls) s d =
    (if length lvl < 2 then load_levels rnd sc sd is_bid lvls s d
     else let px = px_to_ticks rnd (lvl ! 0) (price_scale sc) in
       if px < 0 then load_levels rnd sc sd is_bid lvls s d
       else let (q, d) = scaled_qty rnd (lvl ! 1) (size_scale sc) d in
         if q = 0 then load_levels rnd sc sd is_bid lvls s d
         else
           let s = (if is_bid \<and> (sn_bid s < 0 \<or> px > sn_bid s) then s\<lparr>sn_bid := px\<rparr> else s);
               s = (if \<not> is_bid \<and> (sn_ask s < 0 \<or> px < sn_ask s) then s\<lparr>sn_ask := px\<rparr> else s)
           in load_levels rnd sc sd is_bid lvls (s\<lparr>sn_levels := sn_levels s @ [(sd, px, q)]\<rparr>) d)"

text \<open>\<open>status\<close> is \<open>-1\<close> without a response; \<open>doc\<close> is \<^term>\<open>None\<close> when the body is not JSON.\<close>

definition fetch_snapshot ::
    "rounding \<Rightarrow> scales \<Rightarrow> int \<Rightarrow> depth_doc option \<Rightarrow> decoder \<Rightarrow> l2_snapshot \<times> decoder" where
  "fetch_snapshot rnd sc status doc d =
    (let s = no_snapshot\<lparr>sn_status := status\<rparr> in
     if status \<noteq> 200 then (s, d)
     else case doc of
       None \<Rightarrow> (s, d)
     | Some j \<Rightarrow>
         (case doc_last j of
            None \<Rightarrow> (s, d)
          | Some l \<Rightarrow>
              let (s, d) = load_levels rnd sc Buy True (levels_of (doc_bids j)) (s\<lparr>sn_last := l\<rparr>) d;
                  (s, d) = load_levels rnd sc Sell False (levels_of (doc_asks j)) s d
              in (s\<lparr>sn_ok := True\<rparr>, d)))"

text \<open>The loop that waits for a usable snapshot, with its back-off; \<^term>\<open>None\<close> if there never is one.\<close>

definition next_backoff :: "l2_snapshot \<Rightarrow> int \<Rightarrow> int" where
  "next_backoff s b = (if sn_status s = 418 then min (b * 2) 30000 else 800)"

partial_function (option) acquire :: "(nat \<Rightarrow> l2_snapshot) \<Rightarrow> nat \<Rightarrow> int \<Rightarrow> (l2_snapshot \<times> nat) option" where
  "acquire fetch k backoff =
    (let s = fetch k in
     if sn_ok s \<and> sn_bid s \<ge> 0 \<and> sn_ask s \<ge> 0 then Some (s, Suc k)
     else acquire fetch (Suc k) (next_backoff s backoff))"

section \<open>The consumer\<close>

datatype live_mode = Seeking | Streaming

record live_state =
  lv_book :: order_book
  lv_hist :: histogram
  lv_last :: u64
  lv_mode :: live_mode
  prev_u :: u64
  have_event :: bool
  cur_U :: u64
  cur_apply :: bool
  gaps :: u64
  resyncs :: u64
  lv_fetches :: nat
  lv_clock :: nat

text \<open>The band around the middle of the snapshot; \<open>half mid\<close> is the rounded percentage. \<^term>\<open>None\<close>
  is the refusal of a band of more than sixty million levels.\<close>

definition band_config :: "(int \<Rightarrow> int) \<Rightarrow> l2_snapshot \<Rightarrow> book_config option" where
  "band_config half s =
    (let mid = (sn_bid s + sn_ask s) div 2;
         bc = default_book_config\<lparr>tick_size := 1, min_price := max 1 (mid - half mid),
                max_price := mid + half mid\<rparr>;
         nlevels = (of_int (max_price bc - min_price bc) :: u64) + 1
     in if nlevels > 60000000 then None else Some bc)"

definition start_session :: "book_config \<Rightarrow> l2_snapshot \<Rightarrow> nat \<Rightarrow> live_state option" where
  "start_session bc s k = do {
     h \<leftarrow> new_histogram 60000000000 3;
     b \<leftarrow> set_levels (sn_levels s) (new_book bc);
     Some \<lparr>lv_book = observe_event_boundary b, lv_hist = h, lv_last = sn_last s, lv_mode = Seeking, prev_u = 0,
       have_event = False, cur_U = 0, cur_apply = False, gaps = 0, resyncs = 0, lv_fetches = k, lv_clock = 0\<rparr> }"

definition re_snapshot :: "(nat \<Rightarrow> l2_snapshot) \<Rightarrow> live_state \<Rightarrow> live_state option" where
  "re_snapshot fetch st =
    (let s = fetch (lv_fetches st);
         st = st\<lparr>resyncs := resyncs st + 1, lv_fetches := Suc (lv_fetches st)\<rparr>
     in if \<not> sn_ok s then Some (st\<lparr>have_event := False\<rparr>)
        else do {
          b \<leftarrow> set_levels (sn_levels s) (reset_book (lv_book st));
          Some (st\<lparr>lv_book := observe_event_boundary b, lv_last := sn_last s, prev_u := 0, lv_mode := Seeking,
                   have_event := False\<rparr>) })"

text \<open>The first message of an event; the flag is False where the source says \<open>continue\<close>.\<close>

definition enter_event ::
    "(nat \<Rightarrow> l2_snapshot) \<Rightarrow> u64 \<Rightarrow> u64 \<Rightarrow> live_state \<Rightarrow> (bool \<times> live_state) option" where
  "enter_event fetch U u st =
    (let st = (if have_event st \<and> cur_apply st then st\<lparr>lv_book := observe_event_boundary (lv_book st)\<rparr> else st);
         st = st\<lparr>have_event := True, cur_U := U, cur_apply := False\<rparr>
     in case lv_mode st of
          Seeking \<Rightarrow>
            if u < lv_last st + 1 then Some (True, st)
            else if U \<le> lv_last st + 1
              then Some (True, st\<lparr>lv_mode := Streaming, prev_u := u, cur_apply := True\<rparr>)
            else map_option (Pair False) (re_snapshot fetch st)
        | Streaming \<Rightarrow>
            if u \<le> prev_u st then Some (True, st)
            else if U = prev_u st + 1 then Some (True, st\<lparr>prev_u := u, cur_apply := True\<rparr>)
            else map_option (Pair False) (re_snapshot fetch (st\<lparr>gaps := gaps st + 1\<rparr>)))"

definition on_msg ::
    "(nat \<Rightarrow> l2_snapshot) \<Rightarrow> (nat \<Rightarrow> u64) \<Rightarrow> pipeline_msg \<Rightarrow> live_state \<Rightarrow> live_state option" where
  "on_msg fetch now m st =
    (let e = pm_event m in do {
       (go, st) \<leftarrow> (if \<not> have_event st \<or> order_ref e \<noteq> cur_U st
                    then enter_event fetch (order_ref e) (match_number e) st else Some (True, st));
       (if go \<and> cur_apply st \<and> ev_type e = L2SetLevel then do {
          b \<leftarrow> set_level (ev_side e) (price_ticks e) (ucast (ev_size e)) (lv_book st);
          h \<leftarrow> record_value (now (lv_clock st) - pm_recv_ns m) (lv_hist st);
          Some (st\<lparr>lv_book := b, lv_hist := h, lv_clock := Suc (lv_clock st)\<rparr>) }
        else Some st) })"

fun on_msgs ::
    "(nat \<Rightarrow> l2_snapshot) \<Rightarrow> (nat \<Rightarrow> u64) \<Rightarrow> pipeline_msg list \<Rightarrow> live_state \<Rightarrow> live_state option" where
  "on_msgs fetch now [] st = Some st"
| "on_msgs fetch now (m # ms) st = do { st \<leftarrow> on_msg fetch now m st; on_msgs fetch now ms st }"

end
