(* ===== verification/Live_Config.thy ===== *)
theory Live_Config
  imports Std_Strings Live_Feed
begin

text \<open>
  The configuration of \<^verbatim>\<open>apps/live_feed.cpp\<close>: the command line (\<open>parse_args\<close>), the environment
  (\<open>apply_env_overrides\<close>), the choice of the markets and the address of the stream. \<open>stod\<close> is the
  library's conversion to \<open>double\<close>, whose type is \<open>'d\<close>; \<open>getenv\<close> is the environment.
\<close>

datatype market_mode = Auto | Global | Us | Both

record endpoint =
  ep_id :: string
  ep_label :: string
  ep_rest_host :: string
  ep_ws_host :: string

record 'd live_config =
  lc_symbol :: string
  lc_scales :: scales
  lc_band_pct :: 'd
  lc_drop :: bool
  lc_duration_s :: int
  lc_depth_ms :: int
  lc_serve_port :: int
  lc_bind_host :: string
  lc_market :: market_mode
  lc_ws_url :: string
  lc_rest_host :: string
  lc_rest_host_set :: bool
  lc_ws_url_set :: bool

text \<open>\<open>ten\<close> is the literal \<open>10.0\<close>.\<close>

definition default_config :: "'d \<Rightarrow> 'd live_config" where
  "default_config ten = \<lparr>lc_symbol = ''BTCUSDT'', lc_scales = \<lparr>price_scale = 100, size_scale = 1000000\<rparr>,
     lc_band_pct = ten, lc_drop = False, lc_duration_s = 0, lc_depth_ms = 100, lc_serve_port = 0,
     lc_bind_host = ''127.0.0.1'', lc_market = Auto, lc_ws_url = [], lc_rest_host = ''https://api.binance.com'',
     lc_rest_host_set = False, lc_ws_url_set = False\<rparr>"

section \<open>Markets and addresses\<close>

definition symbol_catalog :: "string list" where
  "symbol_catalog = [''BTCUSDT'', ''ETHUSDT'', ''SOLUSDT'', ''BNBUSDT'', ''XRPUSDT'']"

definition catalog_has :: "string \<Rightarrow> bool" where
  "catalog_has s \<longleftrightarrow> s \<in> set symbol_catalog"

definition endpoints_global :: endpoint where
  "endpoints_global = \<lparr>ep_id = ''global'', ep_label = ''Global (binance.com)'',
     ep_rest_host = ''https://data-api.binance.vision'', ep_ws_host = ''wss://data-stream.binance.vision''\<rparr>"

definition endpoints_us :: endpoint where
  "endpoints_us = \<lparr>ep_id = ''us'', ep_label = ''US (binance.us)'',
     ep_rest_host = ''https://api.binance.us'', ep_ws_host = ''wss://stream.binance.us:9443''\<rparr>"

definition ws_url_for :: "'d live_config \<Rightarrow> endpoint \<Rightarrow> string" where
  "ws_url_for c ep =
    (if lc_ws_url_set c \<and> lc_ws_url c \<noteq> [] then lc_ws_url c
     else let s = lower (lc_symbol c);
              depth = s @ ''@depth@'' @ show_int (lc_depth_ms c) @ ''ms'';
              trade = s @ ''@trade''
          in ep_ws_host ep @ ''/stream?streams='' @ depth @ ''/'' @ trade)"

definition cfg_for_market :: "'d live_config \<Rightarrow> endpoint \<Rightarrow> 'd live_config" where
  "cfg_for_market base ep =
    (let c = (if \<not> lc_rest_host_set base then base\<lparr>lc_rest_host := ep_rest_host ep\<rparr> else base)
     in c\<lparr>lc_ws_url := [], lc_ws_url_set := False\<rparr>)"

definition resolve_market_mode :: "'d live_config \<Rightarrow> market_mode" where
  "resolve_market_mode c =
    (if lc_market c \<noteq> Auto then lc_market c else if lc_serve_port c > 0 then Both else Global)"

definition feeds_for_mode :: "market_mode \<Rightarrow> endpoint list" where
  "feeds_for_mode m =
    (if m = Us then [endpoints_us] else if m = Both then [endpoints_global, endpoints_us] else [endpoints_global])"

text \<open>The address of the snapshot.\<close>

definition snapshot_url :: "'d live_config \<Rightarrow> string" where
  "snapshot_url c = lc_rest_host c @ ''/api/v3/depth?symbol='' @ lc_symbol c @ ''&limit=5000''"

text \<open>A parameter of the query string of a request.\<close>

definition query_param :: "string \<Rightarrow> string \<Rightarrow> string" where
  "query_param uri key =
    (case find_sub ''?'' uri of
       None \<Rightarrow> []
     | Some q \<Rightarrow>
         let qs = drop (q + 1) uri; needle = key @ ''='' in
         (case find_sub needle qs of
            None \<Rightarrow> []
          | Some pos \<Rightarrow>
              let r = drop (pos + length needle) qs
              in (case find_sub ''&'' r of None \<Rightarrow> r | Some n \<Rightarrow> take n r)))"

section \<open>The command line\<close>

definition market_named :: "string \<Rightarrow> market_mode option" where
  "market_named m =
    (if m = ''global'' then Some Global else if m = ''us'' then Some Us else if m = ''both'' then Some Both else None)"

text \<open>One pass of the loop: the configuration and the arguments left.\<close>

definition take_option ::
    "(string \<Rightarrow> 'd option) \<Rightarrow> string \<Rightarrow> string list \<Rightarrow> 'd live_config \<Rightarrow> stop + 'd live_config \<times> string list" where
  "take_option stod k ks c =
    (let (v, r) = next_arg ks; sc = lc_scales c in
     if k = ''--symbol'' then Inr (c\<lparr>lc_symbol := upper v\<rparr>, r)
     else if k = ''--price-scale'' then converted (stoll v) (\<lambda>n. (c\<lparr>lc_scales := sc\<lparr>price_scale := n\<rparr>\<rparr>, r))
     else if k = ''--size-scale'' then converted (stoll v) (\<lambda>n. (c\<lparr>lc_scales := sc\<lparr>size_scale := n\<rparr>\<rparr>, r))
     else if k = ''--band-pct'' then converted (stod v) (\<lambda>d. (c\<lparr>lc_band_pct := d\<rparr>, r))
     else if k = ''--drop'' then Inr (c\<lparr>lc_drop := True\<rparr>, ks)
     else if k = ''--duration'' then converted (stoi v) (\<lambda>n. (c\<lparr>lc_duration_s := n\<rparr>, r))
     else if k = ''--depth-ms'' then converted (stoi v) (\<lambda>n. (c\<lparr>lc_depth_ms := n\<rparr>, r))
     else if k = ''--serve'' then converted (stoi v) (\<lambda>n. (c\<lparr>lc_serve_port := n\<rparr>, r))
     else if k = ''--bind'' then Inr (c\<lparr>lc_bind_host := v\<rparr>, r)
     else if k = ''--market'' then
       (case market_named (lower v) of None \<Rightarrow> Inl (Exit 1) | Some m \<Rightarrow> Inr (c\<lparr>lc_market := m\<rparr>, r))
     else if k = ''--ws-url'' then Inr (c\<lparr>lc_ws_url := v, lc_ws_url_set := True\<rparr>, r)
     else if k = ''--rest-host'' then Inr (c\<lparr>lc_rest_host := v, lc_rest_host_set := True\<rparr>, r)
     else if k = ''--help'' then Inl (Exit 0)
     else Inr (c, ks))"

lemma take_option_shorter: "take_option stod k ks c = Inr (c', r) \<Longrightarrow> length r \<le> length ks"
  by (cases ks) (auto simp: take_option_def next_arg_def converted_def Let_def split: if_splits option.splits)

function parse_args :: "(string \<Rightarrow> 'd option) \<Rightarrow> string list \<Rightarrow> 'd live_config \<Rightarrow> stop + 'd live_config" where
  "parse_args stod [] c = Inr c"
| "parse_args stod (k # ks) c =
    (case take_option stod k ks c of Inl e \<Rightarrow> Inl e | Inr (c, ks) \<Rightarrow> parse_args stod ks c)"
  by pat_completeness auto
termination
  by (relation "measure (\<lambda>(_, ks, _). length ks)") (auto dest: take_option_shorter)

definition env_value :: "(string \<Rightarrow> string option) \<Rightarrow> string \<Rightarrow> string option" where
  "env_value getenv k = (case getenv k of None \<Rightarrow> None | Some v \<Rightarrow> if v = [] then None else Some v)"

definition apply_env_overrides :: "(string \<Rightarrow> string option) \<Rightarrow> 'd live_config \<Rightarrow> stop + 'd live_config" where
  "apply_env_overrides getenv c =
    (case (if lc_serve_port c = 0 then
             (case env_value getenv ''PORT'' of
                None \<Rightarrow> Inr c
              | Some p \<Rightarrow> converted (stoi p) (\<lambda>n. c\<lparr>lc_serve_port := n, lc_bind_host := ''0.0.0.0''\<rparr>))
           else Inr c) of
       Inl e \<Rightarrow> Inl e
     | Inr c \<Rightarrow>
         let c = (case env_value getenv ''SYMBOL'' of None \<Rightarrow> c | Some s \<Rightarrow> c\<lparr>lc_symbol := upper s\<rparr>);
             c = (case getenv ''MARKET'' of None \<Rightarrow> c
                  | Some m \<Rightarrow> (case market_named (lower m) of None \<Rightarrow> c | Some md \<Rightarrow> c\<lparr>lc_market := md\<rparr>));
             c = (case env_value getenv ''FH_BIND'' of None \<Rightarrow> c | Some b \<Rightarrow> c\<lparr>lc_bind_host := b\<rparr>)
         in Inr c)"

text \<open>The start of \<open>main\<close>: the feeds, each with its configuration.\<close>

definition feed_configs :: "'d live_config \<Rightarrow> (endpoint \<times> 'd live_config) list" where
  "feed_configs base =
    map (\<lambda>ep. (ep, (cfg_for_market base ep)\<lparr>lc_symbol := upper (lc_symbol base)\<rparr>))
      (feeds_for_mode (resolve_market_mode base))"

definition startup ::
    "(string \<Rightarrow> 'd option) \<Rightarrow> (string \<Rightarrow> string option) \<Rightarrow> 'd \<Rightarrow> string list \<Rightarrow> stop + (endpoint \<times> 'd live_config) list" where
  "startup stod getenv ten args =
    (case parse_args stod args (default_config ten) of
       Inl e \<Rightarrow> Inl e
     | Inr c \<Rightarrow> (case apply_env_overrides getenv c of Inl e \<Rightarrow> Inl e | Inr base \<Rightarrow> Inr (feed_configs base)))"

end
