(* ===== verification/Live_Config_Props.thy ===== *)
theory Live_Config_Props
  imports Live_Config
begin

text \<open>
  What the configuration of the live feed gives: command lines read back, the stream addresses
  follow from the market and the symbol alone, and a query parameter is found where it stands.
\<close>

section \<open>Command lines\<close>

definition market_name :: "market_mode \<Rightarrow> string" where
  "market_name m = (case m of Auto \<Rightarrow> [] | Global \<Rightarrow> ''global'' | Us \<Rightarrow> ''us'' | Both \<Rightarrow> ''both'')"

text \<open>A command line that asks for a configuration; \<open>shown\<close> writes a \<open>double\<close>.\<close>

definition config_args :: "('d \<Rightarrow> string) \<Rightarrow> 'd live_config \<Rightarrow> string list" where
  "config_args shown c =
    [''--symbol'', lc_symbol c, ''--price-scale'', show_int (price_scale (lc_scales c)),
     ''--size-scale'', show_int (size_scale (lc_scales c)), ''--band-pct'', shown (lc_band_pct c)]
    @ (if lc_drop c then [''--drop''] else [])
    @ [''--duration'', show_int (lc_duration_s c), ''--depth-ms'', show_int (lc_depth_ms c),
       ''--serve'', show_int (lc_serve_port c), ''--bind'', lc_bind_host c]
    @ (if lc_market c = Auto then [] else [''--market'', market_name (lc_market c)])
    @ (if lc_ws_url_set c then [''--ws-url'', lc_ws_url c] else [])
    @ (if lc_rest_host_set c then [''--rest-host'', lc_rest_host c] else [])"

definition in_i32 :: "int \<Rightarrow> bool" where
  "in_i32 n \<longleftrightarrow> - (2 ^ 31) \<le> n \<and> n \<le> 2 ^ 31 - 1"

definition config_ok :: "'d live_config \<Rightarrow> bool" where
  "config_ok c \<longleftrightarrow> upper (lc_symbol c) = lc_symbol c
    \<and> in_i64 (price_scale (lc_scales c)) \<and> in_i64 (size_scale (lc_scales c))
    \<and> in_i32 (lc_duration_s c) \<and> in_i32 (lc_depth_ms c) \<and> in_i32 (lc_serve_port c)
    \<and> (\<not> lc_ws_url_set c \<longrightarrow> lc_ws_url c = [])
    \<and> (\<not> lc_rest_host_set c \<longrightarrow> lc_rest_host c = ''https://api.binance.com'')"

lemma stoll_show: "in_i64 n \<Longrightarrow> stoll (show_int n) = Some n"
  by (simp add: stoll_def in_i64_def sto_range_show)

lemma stoi_show: "in_i32 n \<Longrightarrow> stoi (show_int n) = Some n"
  by (simp add: stoi_def in_i32_def sto_range_show)

lemma parse_value_options:
  "parse_args stod (''--symbol'' # v # r) c = parse_args stod r (c\<lparr>lc_symbol := upper v\<rparr>)"
  "parse_args stod (''--drop'' # r) c = parse_args stod r (c\<lparr>lc_drop := True\<rparr>)"
  "parse_args stod (''--bind'' # v # r) c = parse_args stod r (c\<lparr>lc_bind_host := v\<rparr>)"
  "parse_args stod (''--ws-url'' # v # r) c = parse_args stod r (c\<lparr>lc_ws_url := v, lc_ws_url_set := True\<rparr>)"
  "parse_args stod (''--rest-host'' # v # r) c = parse_args stod r (c\<lparr>lc_rest_host := v, lc_rest_host_set := True\<rparr>)"
  by (simp_all add: take_option_def next_arg_def)

lemma parse_number_options:
  "in_i64 n \<Longrightarrow> parse_args stod (''--price-scale'' # show_int n # r) c
    = parse_args stod r (c\<lparr>lc_scales := (lc_scales c)\<lparr>price_scale := n\<rparr>\<rparr>)"
  "in_i64 n \<Longrightarrow> parse_args stod (''--size-scale'' # show_int n # r) c
    = parse_args stod r (c\<lparr>lc_scales := (lc_scales c)\<lparr>size_scale := n\<rparr>\<rparr>)"
  "in_i32 n \<Longrightarrow> parse_args stod (''--duration'' # show_int n # r) c = parse_args stod r (c\<lparr>lc_duration_s := n\<rparr>)"
  "in_i32 n \<Longrightarrow> parse_args stod (''--depth-ms'' # show_int n # r) c = parse_args stod r (c\<lparr>lc_depth_ms := n\<rparr>)"
  "in_i32 n \<Longrightarrow> parse_args stod (''--serve'' # show_int n # r) c = parse_args stod r (c\<lparr>lc_serve_port := n\<rparr>)"
  "stod v = Some d \<Longrightarrow> parse_args stod (''--band-pct'' # v # r) c = parse_args stod r (c\<lparr>lc_band_pct := d\<rparr>)"
  by (simp_all add: take_option_def next_arg_def converted_def stoll_show stoi_show)

lemma parse_market_option:
  "m \<noteq> Auto \<Longrightarrow> parse_args stod (''--market'' # market_name m # r) c = parse_args stod r (c\<lparr>lc_market := m\<rparr>)"
  by (cases m) (simp_all add: take_option_def next_arg_def market_name_def lower_def lower_char_def market_named_def)

text \<open>
  C38. Reading the command line that names every option of a configuration gives the
  configuration back, for an upper-case symbol, numbers in the range of their type and a market
  that is one of the three.
\<close>

theorem command_line_roundtrip:
  assumes "config_ok c" and "stod (shown (lc_band_pct c)) = Some (lc_band_pct c)"
  shows "parse_args stod (config_args shown c) (default_config ten) = Inr c"
  using assms
  by (cases c; cases "lc_scales c")
    (simp add: config_args_def config_ok_def parse_value_options parse_number_options parse_market_option default_config_def
      del: parse_args.simps(2))

lemma command_line_roundtrip_witness:
  "parse_args (\<lambda>s. Some (length s)) (config_args (\<lambda>n. replicate n (CHR ''1''))
     ((default_config 10)\<lparr>lc_symbol := ''ETHUSDT'', lc_depth_ms := 1000, lc_drop := True, lc_market := Us\<rparr>)) (default_config 10)
   = Inr ((default_config 10)\<lparr>lc_symbol := ''ETHUSDT'', lc_depth_ms := 1000, lc_drop := True, lc_market := Us\<rparr>)"
  by (rule command_line_roundtrip)
    (simp_all add: config_ok_def default_config_def in_i64_def in_i32_def upper_def upper_char_def)

section \<open>Addresses\<close>

lemma stream_url: "ws_url_for (cfg_for_market c ep) ep = ep_ws_host ep @ ''/stream?streams=''
    @ lower (lc_symbol c) @ ''@depth@'' @ show_int (lc_depth_ms c) @ ''ms/'' @ lower (lc_symbol c) @ ''@trade''"
  by (simp add: ws_url_for_def cfg_for_market_def Let_def)

lemma snapshot_url_market: "snapshot_url (cfg_for_market c ep)
    = (if lc_rest_host_set c then lc_rest_host c else ep_rest_host ep) @ ''/api/v3/depth?symbol='' @ lc_symbol c @ ''&limit=5000''"
  by (simp add: snapshot_url_def cfg_for_market_def)

definition strip_ws :: "'d live_config \<Rightarrow> 'd live_config" where
  "strip_ws c = c\<lparr>lc_ws_url := [], lc_ws_url_set := False\<rparr>"

lemma take_option_strip:
  assumes "strip_ws c1 = strip_ws c2"
  shows "map_sum id (map_prod strip_ws id) (take_option stod k ks c1)
    = map_sum id (map_prod strip_ws id) (take_option stod k ks c2)"
  using assms
  by (cases c1; cases c2) (auto simp: strip_ws_def take_option_def converted_def Let_def split: prod.split option.split)

lemma parse_args_strip:
  assumes "strip_ws c1 = strip_ws c2"
  shows "map_sum id strip_ws (parse_args stod ks c1) = map_sum id strip_ws (parse_args stod ks c2)"
  using assms
proof (induction stod ks c1 arbitrary: c2 rule: parse_args.induct)
  case (1 stod c1)
  then show ?case by simp
next
  case (2 stod k ks c1)
  have t: "map_sum id (map_prod strip_ws id) (take_option stod k ks c1)
    = map_sum id (map_prod strip_ws id) (take_option stod k ks c2)" by (rule take_option_strip [OF 2(2)])
  show ?case
  proof (cases "take_option stod k ks c1")
    case (Inl e)
    with t show ?thesis by (cases "take_option stod k ks c2") auto
  next
    case (Inr y)
    then obtain c r where y: "take_option stod k ks c1 = Inr (c, r)" by (cases y) auto
    with t obtain c' where y': "take_option stod k ks c2 = Inr (c', r)" "strip_ws c = strip_ws c'"
      by (cases "take_option stod k ks c2") auto
    show ?thesis using 2(1) [OF y refl y'(2)] y y'(1) by simp
  qed
qed

lemma apply_env_strip:
  assumes "strip_ws c1 = strip_ws c2"
  shows "map_sum id strip_ws (apply_env_overrides getenv c1) = map_sum id strip_ws (apply_env_overrides getenv c2)"
  using assms
  by (cases c1; cases c2)
    (auto simp: strip_ws_def apply_env_overrides_def converted_def Let_def split: option.split)

lemma feed_configs_strip:
  assumes "strip_ws c1 = strip_ws c2"
  shows "feed_configs c1 = feed_configs c2"
  using assms
  by (cases c1; cases c2) (auto simp: strip_ws_def feed_configs_def resolve_market_mode_def cfg_for_market_def)

text \<open>
  A leading \<open>--ws-url\<close> changes nothing: the feeds and their stream addresses are those of the rest of the
  command line.
\<close>

lemma ws_url_option_has_no_effect:
  "startup stod getenv ten (''--ws-url'' # url # args) = startup stod getenv ten args"
proof -
  let ?d = "default_config ten"
  have "map_sum id strip_ws (parse_args stod (''--ws-url'' # url # args) ?d) = map_sum id strip_ws (parse_args stod args ?d)"
    unfolding parse_value_options by (rule parse_args_strip) (simp add: strip_ws_def)
  then consider e where "parse_args stod (''--ws-url'' # url # args) ?d = Inl e" "parse_args stod args ?d = Inl e"
    | c1 c2 where "parse_args stod (''--ws-url'' # url # args) ?d = Inr c1" "parse_args stod args ?d = Inr c2"
        "strip_ws c1 = strip_ws c2"
    by (cases "parse_args stod (''--ws-url'' # url # args) ?d"; cases "parse_args stod args ?d") auto
  then show ?thesis
  proof cases
    case 1
    then show ?thesis unfolding startup_def by simp
  next
    case 2
    from apply_env_strip [OF 2(3), of getenv] feed_configs_strip 2(1,2) show ?thesis
      unfolding startup_def
      by (cases "apply_env_overrides getenv c1"; cases "apply_env_overrides getenv c2") auto
  qed
qed

section \<open>Query parameters\<close>

fun query_text :: "(string \<times> string) list \<Rightarrow> string" where
  "query_text [] = []"
| "query_text [(k, v)] = k @ ''='' @ v"
| "query_text ((k, v) # ps) = k @ ''='' @ v @ ''&'' @ query_text ps"

definition plain_text :: "string \<Rightarrow> bool" where
  "plain_text s \<longleftrightarrow> CHR ''&'' \<notin> set s \<and> CHR ''='' \<notin> set s"

text \<open>The first parameter whose name ends in \<open>key\<close>.\<close>

definition param_value :: "string \<Rightarrow> (string \<times> string) list \<Rightarrow> string" where
  "param_value key ps = (case List.find (\<lambda>(k, v). suffix key k) ps of None \<Rightarrow> [] | Some (k, v) \<Rightarrow> v)"

lemma prefix_at_equals:
  assumes "CHR ''='' \<notin> set key" and "CHR ''='' \<notin> set a"
  shows "prefix (key @ ''='') (a @ CHR ''='' # r) \<longleftrightarrow> key = a"
proof
  assume "prefix (key @ ''='') (a @ CHR ''='' # r)"
  then obtain z where "a @ CHR ''='' # r = key @ CHR ''='' # z" by (auto simp: prefix_def)
  moreover have "takeWhile (\<lambda>c. c \<noteq> CHR ''='') (b @ CHR ''='' # y) = b" if "CHR ''='' \<notin> set b" for b y
    using that by (induction b) auto
  ultimately show "key = a" using assms by metis
qed (simp add: prefix_def)

lemma no_prefix_at_ampersand:
  assumes "plain_text key" and "CHR ''='' \<notin> set a" and "CHR ''&'' \<notin> set a"
  shows "\<not> prefix (key @ ''='') (a @ CHR ''&'' # r)"
proof
  assume "prefix (key @ ''='') (a @ CHR ''&'' # r)"
  then obtain z where z: "a @ CHR ''&'' # r = key @ CHR ''='' # z" by (auto simp: prefix_def)
  let ?d = "dropWhile (\<lambda>c. c \<noteq> CHR ''='' \<and> c \<noteq> CHR ''&'')"
  have "?d (b @ ys) = ?d ys" if "CHR ''='' \<notin> set b" "CHR ''&'' \<notin> set b" for b ys
    using that by (induction b) auto
  then have "?d (a @ CHR ''&'' # r) = CHR ''&'' # r" "?d (key @ CHR ''='' # z) = CHR ''='' # z"
    using assms by (simp_all add: plain_text_def)
  then show False using z by simp
qed

lemma no_prefix_without_equals: "CHR ''='' \<notin> set a \<Longrightarrow> \<not> prefix (key @ ''='') a"
  by (auto simp: prefix_def)

lemma no_match_in_param:
  assumes "plain_text key" and "plain_text k" and "plain_text v" and "r = [] \<or> (\<exists>r'. r = CHR ''&'' # r')"
    and "j \<le> length k + 1 + length v" and "prefix (key @ ''='') (drop j (k @ ''='' @ v @ r))"
  shows "j \<le> length k \<and> key = drop j k"
proof (cases "j \<le> length k")
  case True
  then show ?thesis using assms prefix_at_equals [of key "drop j k" "v @ r"]
    by (auto simp: plain_text_def dest: in_set_dropD)
next
  case False
  then have d: "drop j (k @ ''='' @ v @ r) = drop (j - length k - 1) v @ r"
    using assms(5) by (cases "j - length k") auto
  have v: "CHR ''='' \<notin> set (drop (j - length k - 1) v)" "CHR ''&'' \<notin> set (drop (j - length k - 1) v)"
    using assms(3) by (auto simp: plain_text_def dest: in_set_dropD)
  show ?thesis
    using assms(4,6) no_prefix_without_equals [OF v(1), of key] no_prefix_at_ampersand [OF assms(1) v] d by auto
qed

lemma find_param_here:
  assumes "plain_text key" and "plain_text k" and "plain_text v" and "r = [] \<or> (\<exists>r'. r = CHR ''&'' # r')"
    and "suffix key k"
  shows "find_sub (key @ ''='') (k @ ''='' @ v @ r) = Some (length k - length key)"
proof -
  obtain k' where k': "k = k' @ key" using assms(5) by (auto simp: suffix_def)
  have "j = length k'" if "j \<le> length k'" "prefix (key @ ''='') (drop j (k @ ''='' @ v @ r))" for j
    using no_match_in_param [OF assms(1-4) _ that(2)] that(1) k' by auto
  then have "\<forall>j < length k'. \<not> prefix (key @ ''='') (drop j (k' @ key @ ''='' @ v @ r))"
    using k' by (metis append_assoc less_imp_le nat_neq_iff)
  moreover have "prefix (key @ ''='') (drop (length k') (k' @ key @ ''='' @ v @ r))" by (simp add: prefix_def)
  ultimately show ?thesis by (simp add: find_sub_iff k')
qed

lemma find_param_later:
  assumes "plain_text key" and "plain_text k" and "plain_text v" and "\<not> suffix key k"
  shows "find_sub (key @ ''='') (k @ ''='' @ v) = None"
    and "find_sub (key @ ''='') (k @ ''='' @ v @ ''&'' @ r)
      = map_option ((+) (length (k @ ''='' @ v @ ''&''))) (find_sub (key @ ''='') r)"
proof -
  have no: "\<not> prefix (key @ ''='') (drop j (k @ ''='' @ v @ z))"
    if "j \<le> length k + 1 + length v" "z = [] \<or> (\<exists>r'. z = CHR ''&'' # r')" for j z
    using no_match_in_param [OF assms(1-3) that(2,1)] assms(4) suffix_drop [of j k] by blast
  show "find_sub (key @ ''='') (k @ ''='' @ v) = None"
    using find_sub_iff [of "key @ ''=''" "k @ ''='' @ v"] no [of _ "[]"]
    by (cases "find_sub (key @ ''='') (k @ ''='' @ v)") auto
  have "\<forall>j < length (k @ ''='' @ v @ ''&''). \<not> prefix (key @ ''='') (drop j ((k @ ''='' @ v @ ''&'') @ r))"
    using no [of _ "CHR ''&'' # r"] by auto
  from find_sub_skip [OF this] show "find_sub (key @ ''='') (k @ ''='' @ v @ ''&'' @ r)
      = map_option ((+) (length (k @ ''='' @ v @ ''&''))) (find_sub (key @ ''='') r)" by simp
qed

text \<open>What \<open>query_param\<close> does with the text after the question mark.\<close>

definition read_param :: "string \<Rightarrow> string \<Rightarrow> string" where
  "read_param qs key =
    (case find_sub (key @ ''='') qs of None \<Rightarrow> []
     | Some pos \<Rightarrow> let r = drop (pos + length (key @ ''='')) qs
                   in (case find_sub ''&'' r of None \<Rightarrow> r | Some n \<Rightarrow> take n r))"

lemma query_param_read: "CHR ''?'' \<notin> set path \<Longrightarrow> query_param (path @ ''?'' @ qs) key = read_param qs key"
  by (simp add: query_param_def read_param_def find_char Let_def)

lemma read_param_here:
  assumes "plain_text key" and "plain_text k" and "plain_text v" and "r = [] \<or> (\<exists>r'. r = CHR ''&'' # r')"
    and "suffix key k"
  shows "read_param (k @ ''='' @ v @ r) key = v"
proof -
  have "length key \<le> length k" using assms(5) by (rule suffix_length_le)
  then have "drop (length k - length key + length (key @ ''='')) (k @ ''='' @ v @ r) = v @ r" by simp
  then show ?thesis using find_param_here [OF assms] assms(3,4) find_char [of "CHR ''&''" v]
    by (auto simp: read_param_def plain_text_def)
qed

lemma read_param_later:
  assumes "plain_text key" and "plain_text k" and "plain_text v" and "\<not> suffix key k"
  shows "read_param (k @ ''='' @ v) key = []" and "read_param (k @ ''='' @ v @ ''&'' @ r) key = read_param r key"
proof -
  show "read_param (k @ ''='' @ v) key = []" using find_param_later(1) [OF assms] by (simp add: read_param_def)
  have "drop (3 + (length v + (n + length key))) (CHR ''='' # v @ CHR ''&'' # r) = drop (Suc (n + length key)) r" for n
    by (simp add: numeral_eq_Suc)
  then show "read_param (k @ ''='' @ v @ ''&'' @ r) key = read_param r key"
    using find_param_later(2) [OF assms, of r]
    by (cases "find_sub (key @ ''='') r") (simp_all add: read_param_def Let_def)
qed

lemma read_query_text:
  assumes "plain_text key" and "\<forall>(k, v) \<in> set ps. plain_text k \<and> plain_text v"
  shows "read_param (query_text ps) key = param_value key ps"
  using assms(2)
proof (induction ps rule: query_text.induct)
  case 1
  then show ?case by (simp add: read_param_def param_value_def)
next
  case (2 k v)
  then show ?case using read_param_here [OF assms(1), of k v "[]"] read_param_later(1) [OF assms(1), of k v]
    by (auto simp: param_value_def)
next
  case (3 k v p ps)
  then show ?case using read_param_here [OF assms(1), of k v "''&'' @ query_text (p # ps)"]
      read_param_later(2) [OF assms(1), of k v "query_text (p # ps)"]
    by (cases "suffix key k") (auto simp: param_value_def)
qed

text \<open>
  A query parameter is the value of the first pair whose key ends in the name asked for.
\<close>

lemma query_param_first_suffix:
  assumes "CHR ''?'' \<notin> set path" and "plain_text key" and "\<forall>(k, v) \<in> set ps. plain_text k \<and> plain_text v"
  shows "query_param (path @ ''?'' @ query_text ps) key
    = (case List.find (\<lambda>(k, v). suffix key k) ps of None \<Rightarrow> [] | Some (k, v) \<Rightarrow> v)"
  using query_param_read [OF assms(1)] read_query_text [OF assms(2,3)] by (simp add: param_value_def)

lemma query_param_first_suffix_witness:
  "query_param ''/symbol?reset=BTCUSDT&set=ETHUSDT'' ''set'' = ''BTCUSDT''"
  using query_param_first_suffix [of "''/symbol''" "''set''" "[(''reset'', ''BTCUSDT''), (''set'', ''ETHUSDT'')]"]
  by (simp add: plain_text_def suffix_def)

end
