(* ===== verification/Live_Switch.thy ===== *)
theory Live_Switch
  imports Live_Config Spsc_Channel
begin

text \<open>
  The threads of one feed of \<^verbatim>\<open>apps/live_feed.cpp\<close> and what they share: the supervisor
  (\<open>supervise_feed\<close>), the WebSocket callback, the consumer (\<open>ensure_consumer\<close>), \<open>main\<close> when it stops the
  feeds, and the HTTP handler that asks for another symbol. Every thread is a function that takes its
  next step, \<^term>\<open>None\<close> while it waits; a run is a list of the threads that step. Sending and
  receiving a message are single steps here, and the channel is the list of what it holds (Live_Ring puts the ring in its place), each
  message with the symbol of the stream it came from. That tag and the fields \<open>owner\<close>, \<open>heard\<close> and
  \<open>book_symbol\<close> only record the history.

  What the model does not fix is in the environment: \<open>stops cb\<close> says whether \<open>ix::WebSocket::stop\<close> may return
  while the callback is in state \<open>cb\<close>, \<open>pause_over\<close> whether the consumer's pause of 600 ms may be over while the
  supervisor is at the given point, \<open>snap sym k\<close> is the result of the consumer's \<open>k\<close>-th request, for symbol \<open>sym\<close>.
\<close>

datatype sup_pc = S_loop | S_connect | S_watch | S_stop | S_decide | S_rename | S_clear | S_bump | S_trades | S_drain | S_rest | S_done

datatype callback = Cb_idle | Cb_sending "pipeline_msg list"

datatype con_pc =
    C_top | C_pause | C_fetch | C_have l2_snapshot | C_live live_state | C_recv live_state | C_over

datatype main_pc = M_run | M_close | M_stop | M_join | M_done

record env =
  env_cap :: nat
  env_policy :: backpressure
  env_rnd :: rounding
  env_scales :: scales
  env_half :: "int \<Rightarrow> int"
  snap :: "string \<Rightarrow> nat \<Rightarrow> l2_snapshot"
  env_now :: "nat \<Rightarrow> u64"
  stops :: "callback \<Rightarrow> bool"
  pause_over :: "sup_pc \<Rightarrow> bool"

record 't feed =
  f_stop :: bool
  f_symbol :: string
  f_pending :: string
  f_restart :: bool
  f_session :: int
  f_ring :: "(string \<times> pipeline_msg) list"
  f_dropped :: u64
  f_dec :: decoder
  f_trades :: "(string \<times> 't) list"
  ws_on :: bool
  ws_symbol :: string
  ws_session :: int
  spc :: sup_pc
  cb :: callback
  con :: con_pc
  con_sid :: int
  con_fetches :: nat
  main_at :: main_pc
  owner :: "int \<Rightarrow> string"
  heard :: "(int \<times> string \<times> bool) list"
  book_symbol :: string

definition start_feed :: "string \<Rightarrow> 't feed" where
  "start_feed sy = \<lparr>f_stop = False, f_symbol = sy, f_pending = sy, f_restart = False, f_session = 0, f_ring = [],
     f_dropped = 0, f_dec = \<lparr>ws_ops = 0, saturated = 0\<rparr>, f_trades = [], ws_on = False, ws_symbol = [], ws_session = 0,
     spc = S_loop, cb = Cb_idle, con = C_top, con_sid = 0, con_fetches = 0, main_at = M_run,
     owner = (\<lambda>_. sy), heard = [], book_symbol = []\<rparr>"

section \<open>The supervisor\<close>

definition sup_step :: "env \<Rightarrow> 't feed \<Rightarrow> 't feed option" where
  "sup_step v s =
    (case spc s of
       S_loop \<Rightarrow> Some (s\<lparr>spc := if f_stop s then S_done else S_connect\<rparr>)
     | S_connect \<Rightarrow>
         if stops v (cb s) then
           Some (s\<lparr>ws_on := True, ws_symbol := f_symbol s, ws_session := f_session s, spc := S_watch\<rparr>)
         else None
     | S_watch \<Rightarrow> if f_stop s \<or> f_restart s then Some (s\<lparr>spc := S_stop\<rparr>) else None
     | S_stop \<Rightarrow> if stops v (cb s) then Some (s\<lparr>ws_on := False, spc := S_decide\<rparr>) else None
     | S_decide \<Rightarrow> Some (s\<lparr>spc := if f_stop s \<or> \<not> f_restart s then S_done else S_rename\<rparr>)
     | S_rename \<Rightarrow> Some (s\<lparr>f_symbol := f_pending s, spc := S_clear\<rparr>)
     | S_clear \<Rightarrow> Some (s\<lparr>f_restart := False, spc := S_bump\<rparr>)
     | S_bump \<Rightarrow> Some (s\<lparr>f_dec := (f_dec s)\<lparr>ws_ops := 0\<rparr>, f_session := f_session s + 1,
         owner := (owner s)(f_session s + 1 := f_symbol s), spc := S_trades\<rparr>)
     | S_trades \<Rightarrow> Some (s\<lparr>f_trades := [], spc := S_drain\<rparr>)
     | S_drain \<Rightarrow>
         (case f_ring s of [] \<Rightarrow> Some (s\<lparr>spc := S_rest\<rparr>) | m # ms \<Rightarrow> Some (s\<lparr>f_ring := ms\<rparr>))
     | S_rest \<Rightarrow> Some (s\<lparr>spc := S_loop\<rparr>)
     | S_done \<Rightarrow> None)"

section \<open>The callback\<close>

definition current :: "'t feed \<Rightarrow> bool" where
  "current s \<longleftrightarrow> ws_on s \<and> cb s = Cb_idle \<and> f_session s = ws_session s"

definition depth_step :: "env \<Rightarrow> depth_update \<Rightarrow> u64 \<Rightarrow> 't feed \<Rightarrow> 't feed option" where
  "depth_step v du recv s =
    (if current s then
       let (ms, d) = on_depth (env_rnd v) (env_scales v) du recv (f_dec s)
       in Some (s\<lparr>f_dec := d, cb := Cb_sending ms\<rparr>)
     else None)"

definition trade_step :: "'t \<Rightarrow> 't feed \<Rightarrow> 't feed option" where
  "trade_step t s = (if current s then Some (s\<lparr>f_trades := push_trade (ws_symbol s, t) (f_trades s)\<rparr>) else None)"

definition send_step :: "env \<Rightarrow> 't feed \<Rightarrow> 't feed option" where
  "send_step v s =
    (case cb s of
       Cb_idle \<Rightarrow> None
     | Cb_sending [] \<Rightarrow> Some (s\<lparr>cb := Cb_idle\<rparr>)
     | Cb_sending (m # ms) \<Rightarrow>
         if length (f_ring s) < env_cap v then Some (s\<lparr>f_ring := f_ring s @ [(ws_symbol s, m)], cb := Cb_sending ms\<rparr>)
         else if env_policy v = Block then None
         else Some (s\<lparr>f_dropped := f_dropped s + 1, cb := Cb_sending ms\<rparr>))"

section \<open>The consumer\<close>

definition live :: "'t feed \<Rightarrow> bool" where
  "live s \<longleftrightarrow> \<not> f_stop s \<and> f_session s = con_sid s"

definition snapshot_usable :: "l2_snapshot \<Rightarrow> bool" where
  "snapshot_usable s0 \<longleftrightarrow> sn_ok s0 \<and> sn_bid s0 \<ge> 0 \<and> sn_ask s0 \<ge> 0"

text \<open>
  One message. The receive loop does not test whether the session is still the current one; the history notes it.
\<close>

definition take_msg :: "env \<Rightarrow> live_state \<Rightarrow> string \<times> pipeline_msg \<Rightarrow> (string \<times> pipeline_msg) list \<Rightarrow> 't feed \<Rightarrow> 't feed option" where
  "take_msg v st ym ms s = do {
     st' \<leftarrow> on_msg (snap v (f_symbol s)) (env_now v) (snd ym) st;
     Some (s\<lparr>f_ring := ms, con := C_recv st', con_fetches := lv_fetches st',
       heard := heard s @ [(con_sid s, fst ym, live s)],
       book_symbol := (if lv_fetches st' \<noteq> lv_fetches st \<and> sn_ok (snap v (f_symbol s) (lv_fetches st))
                       then f_symbol s else book_symbol s)\<rparr>) }"

definition con_step :: "env \<Rightarrow> 't feed \<Rightarrow> 't feed option" where
  "con_step v s =
    (case con s of
       C_top \<Rightarrow> Some (if f_stop s then s\<lparr>con := C_over\<rparr> else s\<lparr>con_sid := f_session s, con := C_pause\<rparr>)
     | C_pause \<Rightarrow>
         if \<not> live s then Some (s\<lparr>con := C_top\<rparr>)
         else if pause_over v (spc s) then Some (s\<lparr>con := C_fetch\<rparr>) else None
     | C_fetch \<Rightarrow>
         if \<not> live s then Some (s\<lparr>con := C_top\<rparr>)
         else let s0 = snap v (f_symbol s) (con_fetches s); s = s\<lparr>con_fetches := Suc (con_fetches s)\<rparr>
              in Some (if snapshot_usable s0 then s\<lparr>con := C_have s0, book_symbol := f_symbol s\<rparr> else s)
     | C_have s0 \<Rightarrow>
         if \<not> live s then Some (s\<lparr>con := C_top\<rparr>)
         else (case band_config (env_half v) s0 of
                 None \<Rightarrow> Some (s\<lparr>con := C_top\<rparr>)
               | Some bc \<Rightarrow> do { st \<leftarrow> start_session bc s0 (con_fetches s); Some (s\<lparr>con := C_live st\<rparr>) })
     | C_live st \<Rightarrow> Some (s\<lparr>con := if live s then C_recv st else C_top\<rparr>)
     | C_recv st \<Rightarrow>
         (case f_ring s of [] \<Rightarrow> Some (s\<lparr>con := C_live st\<rparr>) | ym # ms \<Rightarrow> take_msg v st ym ms s)
     | C_over \<Rightarrow> None)"

section \<open>The end of main, and the request for another symbol\<close>

definition main_step :: "env \<Rightarrow> 't feed \<Rightarrow> 't feed option" where
  "main_step v s =
    (case main_at s of
       M_run \<Rightarrow> Some (s\<lparr>f_stop := True, main_at := M_close\<rparr>)
     | M_close \<Rightarrow> Some (s\<lparr>f_restart := False, f_session := f_session s + 1, main_at := M_stop\<rparr>)
     | M_stop \<Rightarrow> if stops v (cb s) then Some (s\<lparr>ws_on := False, main_at := M_join\<rparr>) else None
     | M_join \<Rightarrow> if spc s = S_done \<and> con s = C_over then Some (s\<lparr>main_at := M_done\<rparr>) else None
     | M_done \<Rightarrow> None)"

definition switch_step :: "string \<Rightarrow> 't feed \<Rightarrow> 't feed option" where
  "switch_step want s = (if f_restart s then None else Some (s\<lparr>f_pending := want, f_restart := True\<rparr>))"

datatype 't turn = Sup | Con | Main | Send | Depth depth_update u64 | Trade 't | Switch string

definition feed_step :: "env \<Rightarrow> 't turn \<Rightarrow> 't feed \<Rightarrow> 't feed option" where
  "feed_step v t s =
    (case t of
       Sup \<Rightarrow> sup_step v s | Con \<Rightarrow> con_step v s | Main \<Rightarrow> main_step v s | Send \<Rightarrow> send_step v s
     | Depth du recv \<Rightarrow> depth_step v du recv s | Trade x \<Rightarrow> trade_step x s | Switch want \<Rightarrow> switch_step want s)"

fun feed_turns :: "env \<Rightarrow> 't turn list \<Rightarrow> 't feed \<Rightarrow> 't feed option" where
  "feed_turns v [] s = Some s"
| "feed_turns v (t # ts) s = (case feed_step v t s of None \<Rightarrow> None | Some s \<Rightarrow> feed_turns v ts s)"

text \<open>The documented behaviour of \<open>stop\<close>: it returns when the background thread has ended.\<close>

definition stop_joins :: "env \<Rightarrow> bool" where
  "stop_joins v \<longleftrightarrow> (\<forall>c. stops v c \<longleftrightarrow> c = Cb_idle)"

text \<open>The pause of the consumer outlasts the clearing of the trades and of the channel.\<close>

definition pause_suffices :: "env \<Rightarrow> bool" where
  "pause_suffices v \<longleftrightarrow> \<not> pause_over v S_trades \<and> \<not> pause_over v S_drain"

end
