(* ===== verification/Live_Feed_Props.thy ===== *)
theory Live_Feed_Props
  imports Live_Feed Pipeline_Book Order_Book_L2_Props "HOL-Library.Sublist"
begin

text \<open>
  The consumer of the depth feed: it never reaches undefined behaviour, on a consecutive feed its
  book is the snapshot with the later events applied, a gap rebuilds it from a new snapshot, and the
  event that revealed the gap may lose its first level.
\<close>

section \<open>The book between events\<close>

lemma l2_repr_observe [simp]: "l2_repr (observe_event_boundary b) m = l2_repr b m"
  by (simp add: observe_event_boundary_def Let_def l2_repr_def best_ok_def)

lemma observe_cfg [simp]: "bk_cfg (observe_event_boundary b) = bk_cfg b"
  by (simp add: observe_event_boundary_def Let_def)

lemma l2_repr_reset:
  assumes "l2_repr b m"
  shows "l2_repr (reset_book b) Map.empty" and "bk_cfg (reset_book b) = bk_cfg b"
proof -
  have none: "\<not> owned s (replicate n empty_level) j" for s n j
    by (auto simp: owned_def empty_level_def)
  show "bk_cfg (reset_book b) = bk_cfg b" by (simp add: reset_book_def)
  show "l2_repr (reset_book b) Map.empty"
    using assms none by (simp add: l2_repr_def reset_book_def best_ok_def highest_def lowest_def empty_level_def)
qed

text \<open>A well-formed state: the book implements some level map, the histogram has room.\<close>

definition live_wf :: "book_config \<Rightarrow> nat \<Rightarrow> live_state \<Rightarrow> bool" where
  "live_wf cfg n st \<longleftrightarrow> (\<exists>m. l2_repr (lv_book st) m) \<and> bk_cfg (lv_book st) = cfg \<and> hist_room (lv_hist st) n"

lemma preload:
  assumes "l2_repr b m" and "bk_cfg b = cfg"
  obtains b' where "set_levels us b = Some b'" and "l2_repr b' (fold (spec_set cfg) us m)" and "bk_cfg b' = cfg"
  using set_levels_refines [OF assms(1), of us] assms(2) by auto

section \<open>The recovery\<close>

lemma re_snapshot_ok:
  assumes "l2_repr (lv_book st) m" and "bk_cfg (lv_book st) = cfg" and "sn_ok (fetch (lv_fetches st))"
  shows "\<exists>b. re_snapshot fetch st = Some (st\<lparr>resyncs := resyncs st + 1, lv_fetches := Suc (lv_fetches st),
      lv_book := b, lv_last := sn_last (fetch (lv_fetches st)), prev_u := 0, lv_mode := Seeking, have_event := False\<rparr>)
    \<and> l2_repr b (fold (spec_set cfg) (sn_levels (fetch (lv_fetches st))) Map.empty) \<and> bk_cfg b = cfg"
proof -
  have "bk_cfg (reset_book (lv_book st)) = cfg" using l2_repr_reset(2) [OF assms(1)] assms(2) by simp
  from preload [OF l2_repr_reset(1) [OF assms(1)] this] obtain b
    where "set_levels (sn_levels (fetch (lv_fetches st))) (reset_book (lv_book st)) = Some b"
      "l2_repr b (fold (spec_set cfg) (sn_levels (fetch (lv_fetches st))) Map.empty)" "bk_cfg b = cfg" .
  with assms(3) show ?thesis
    by (intro exI [of _ "observe_event_boundary b"]) (simp add: re_snapshot_def Let_def)
qed

lemma re_snapshot_failed:
  "\<not> sn_ok (fetch (lv_fetches st)) \<Longrightarrow> re_snapshot fetch st = Some (st\<lparr>resyncs := resyncs st + 1,
     lv_fetches := Suc (lv_fetches st), have_event := False\<rparr>)"
  by (simp add: re_snapshot_def Let_def)

lemma re_snapshot_wf:
  assumes "live_wf cfg n st"
  shows "\<exists>st'. re_snapshot fetch st = Some st' \<and> live_wf cfg n st'"
proof -
  obtain m where m: "l2_repr (lv_book st) m" "bk_cfg (lv_book st) = cfg" using assms by (auto simp: live_wf_def)
  show ?thesis
  proof (cases "sn_ok (fetch (lv_fetches st))")
    case True
    from re_snapshot_ok [where fetch = fetch, OF m True] assms show ?thesis by (auto simp: live_wf_def)
  next
    case False
    from re_snapshot_failed [where fetch = fetch, OF False] assms show ?thesis by (auto simp: live_wf_def)
  qed
qed

section \<open>Any sequence of messages\<close>

lemma live_wf_cong:
  "lv_hist st' = lv_hist st \<Longrightarrow> lv_book st' = lv_book st \<or> lv_book st' = observe_event_boundary (lv_book st) \<Longrightarrow>
    live_wf cfg n st \<Longrightarrow> live_wf cfg n st'"
  by (auto simp: live_wf_def)

lemma enter_event_wf:
  assumes "live_wf cfg n st"
  shows "\<exists>go st'. enter_event fetch U u st = Some (go, st') \<and> live_wf cfg n st'"
proof -
  define st1 where "st1 = (if have_event st \<and> cur_apply st
    then st\<lparr>lv_book := observe_event_boundary (lv_book st)\<rparr> else st)\<lparr>have_event := True, cur_U := U, cur_apply := False\<rparr>"
  have wf1: "live_wf cfg n st1" using assms by (auto simp: st1_def live_wf_def)
  then have wf2: "live_wf cfg n (st1\<lparr>gaps := gaps st1 + 1\<rparr>)"
    "live_wf cfg n (st1\<lparr>lv_mode := Streaming, prev_u := u, cur_apply := True\<rparr>)"
    "live_wf cfg n (st1\<lparr>prev_u := u, cur_apply := True\<rparr>)" by (simp_all add: live_wf_def)
  show ?thesis
    using wf1 wf2 re_snapshot_wf [OF wf1, of fetch] re_snapshot_wf [OF wf2(1), of fetch]
    unfolding enter_event_def Let_def st1_def [symmetric]
    by (cases "lv_mode st1") auto
qed

lemma on_msg_wf:
  assumes "live_wf cfg n st" and "Suc n < 2 ^ 64"
  shows "\<exists>st'. on_msg fetch now msg st = Some st' \<and> live_wf cfg (Suc n) st'"
proof -
  let ?e = "pm_event msg"
  obtain go st1 where st1: "(if \<not> have_event st \<or> order_ref ?e \<noteq> cur_U st
      then enter_event fetch (order_ref ?e) (match_number ?e) st else Some (True, st)) = Some (go, st1)"
      "live_wf cfg n st1"
    using enter_event_wf [OF assms(1), of fetch "order_ref ?e" "match_number ?e"] assms(1)
    by (cases "\<not> have_event st \<or> order_ref ?e \<noteq> cur_U st") auto
  show ?thesis
  proof (cases "go \<and> cur_apply st1 \<and> ev_type ?e = L2SetLevel")
    case False
    then have "on_msg fetch now msg st = Some st1" using st1(1) by (auto simp: on_msg_def Let_def)
    then show ?thesis using st1(2) hist_room_Suc by (auto simp: live_wf_def)
  next
    case True
    obtain m where m: "l2_repr (lv_book st1) m" "bk_cfg (lv_book st1) = cfg" using st1(2) by (auto simp: live_wf_def)
    obtain b where b: "set_level (ev_side ?e) (price_ticks ?e) (ucast (ev_size ?e)) (lv_book st1) = Some b"
        "\<exists>m. l2_repr b m" "bk_cfg b = cfg"
      using set_level_refines [OF m(1), of "ev_side ?e" "price_ticks ?e" "ucast (ev_size ?e)"] m(2) by auto
    obtain h where h: "record_value (now (lv_clock st1) - pm_recv_ns msg) (lv_hist st1) = Some h" "hist_room h (Suc n)"
      using hist_room_record [of "lv_hist st1" n] st1(2) assms(2) by (auto simp: live_wf_def)
    have "on_msg fetch now msg st = Some (st1\<lparr>lv_book := b, lv_hist := h, lv_clock := Suc (lv_clock st1)\<rparr>)"
      using st1(1) True b(1) h(1) by (simp add: on_msg_def Let_def)
    then show ?thesis using b h by (auto simp: live_wf_def)
  qed
qed

lemma on_msgs_wf:
  "live_wf cfg n st \<Longrightarrow> n + length ms < 2 ^ 64 \<Longrightarrow>
    \<exists>st'. on_msgs fetch now ms st = Some st' \<and> live_wf cfg (n + length ms) st'"
proof (induction ms arbitrary: n st)
  case (Cons msg ms)
  obtain st1 where st1: "on_msg fetch now msg st = Some st1" "live_wf cfg (Suc n) st1"
    using on_msg_wf [OF Cons.prems(1), of fetch now msg] Cons.prems(2) by auto
  from Cons.IH [OF st1(2)] Cons.prems(2) st1(1) show ?case by simp
qed simp

section \<open>The first snapshot\<close>

lemma band_config_good:
  assumes "band_config half s = Some bc" and "in_i64 (max_price bc)"
  shows "good_config (fix_config bc)"
proof -
  let ?d = "max_price bc - min_price bc"
  have bc: "tick_size bc = 1" "1 \<le> min_price bc" "\<not> 60000000 < (of_int ?d :: u64) + 1"
    using assms(1) by (auto simp: band_config_def Let_def split: if_splits)
  show ?thesis
  proof (cases "max_price bc < min_price bc")
    case True
    then show ?thesis using bc(1) by (simp add: fix_config_def good_config_def)
  next
    case False
    then have d: "0 \<le> ?d" "?d + 1 < 2 ^ 64" using bc(2) assms(2) by (auto simp: in_i64_def)
    have r: "uint (of_int x :: u64) = x" if "0 \<le> x" "x < 2 ^ 64" for x
      using that by (simp add: uint_word_of_int_eq take_bit_int_eq_self)
    have "uint (of_int (?d + 1) :: u64) = ?d + 1" by (rule r) (use d in linarith)+
    moreover have "(of_int ?d :: u64) + 1 = of_int (?d + 1)" by simp
    ultimately have "?d + 1 \<le> 60000000" using bc(3) by (simp add: word_less_def not_less)
    then show ?thesis using bc(1) False by (simp add: fix_config_def good_config_def)
  qed
qed

lemma start_session_ok:
  assumes "good_config (fix_config bc)"
  shows "\<exists>h b. start_session bc s k = Some \<lparr>lv_book = b, lv_hist = h, lv_last = sn_last s, lv_mode = Seeking,
      prev_u = 0, have_event = False, cur_U = 0, cur_apply = False, gaps = 0, resyncs = 0, lv_fetches = k, lv_clock = 0\<rparr>
    \<and> l2_repr b (fold (spec_set (fix_config bc)) (sn_levels s) Map.empty) \<and> bk_cfg b = fix_config bc
    \<and> hist_room h 0"
proof -
  obtain h m n where h: "new_histogram 60000000000 3 = Some h" "hist_repr m n h []"
    using new_histogram_repr [of 3 60000000000] by auto
  then have "hist_room h 0" by (auto simp: hist_room_def)
  moreover obtain b where b: "set_levels (sn_levels s) (new_book bc) = Some b"
      "l2_repr b (fold (spec_set (fix_config bc)) (sn_levels s) Map.empty)" "bk_cfg b = fix_config bc"
    using l2_run [OF assms] by blast
  ultimately show ?thesis using h(1)
    by (intro exI [of _ h] exI [of _ "observe_event_boundary b"]) (simp add: start_session_def)
qed

text \<open>
  C20. From any snapshot whose band is accepted, for any sequence of messages and any results of
  later fetches, the live consumer performs no undefined access and its book is always a
  well-formed aggregated book over the same band.
\<close>

theorem live_never_undefined:
  assumes "band_config half s = Some bc" and "in_i64 (max_price bc)" and "length ms < 2 ^ 64"
  shows "\<exists>st0 st m. start_session bc s k = Some st0 \<and> on_msgs fetch now ms st0 = Some st
    \<and> l2_repr (lv_book st) m \<and> bk_cfg (lv_book st) = fix_config bc"
proof -
  have good: "good_config (fix_config bc)" by (rule band_config_good [OF assms(1,2)])
  obtain st0 where st0: "start_session bc s k = Some st0" "live_wf (fix_config bc) 0 st0"
  proof -
    obtain h b where "start_session bc s k = Some \<lparr>lv_book = b, lv_hist = h, lv_last = sn_last s, lv_mode = Seeking,
        prev_u = 0, have_event = False, cur_U = 0, cur_apply = False, gaps = 0, resyncs = 0, lv_fetches = k, lv_clock = 0\<rparr>"
      and "l2_repr b (fold (spec_set (fix_config bc)) (sn_levels s) Map.empty)" "bk_cfg b = fix_config bc" "hist_room h 0"
      using start_session_ok [OF good, of s k] by blast
    then show ?thesis by (intro that) (auto simp: live_wf_def)
  qed
  from on_msgs_wf [OF st0(2), of ms fetch now] assms(3) st0(1) show ?thesis by (auto simp: live_wf_def)
qed

section \<open>The messages of one event\<close>

definition level_msg :: "u64 \<Rightarrow> u64 \<Rightarrow> u64 \<Rightarrow> level_op \<Rightarrow> pipeline_msg" where
  "level_msg recv U u x = (case x of (s, px, z) \<Rightarrow>
     \<lparr>pm_event = default_event\<lparr>ev_type := L2SetLevel, ev_side := s, price_ticks := px, ev_size := ucast z,
        order_ref := U, match_number := u\<rparr>, pm_recv_ns = recv, pm_sequence = u\<rparr>)"

definition event_msgs :: "u64 \<Rightarrow> u64 \<Rightarrow> u64 \<Rightarrow> level_op list \<Rightarrow> pipeline_msg list" where
  "event_msgs recv U u ops = (if ops = [] then [header_msg recv U u] else map (level_msg recv U u) ops)"

lemma msg_fields [simp]:
  "order_ref (pm_event (level_msg recv U u x)) = U" "match_number (pm_event (level_msg recv U u x)) = u"
  "ev_type (pm_event (level_msg recv U u x)) = L2SetLevel"
  "order_ref (pm_event (header_msg recv U u)) = U" "match_number (pm_event (header_msg recv U u)) = u"
  "ev_type (pm_event (header_msg recv U u)) = L2EventHeader"
  by (simp_all add: level_msg_def header_msg_def split: prod.split)

text \<open>The sizes the ring carries: 32 bits.\<close>

definition carried :: "level_op list \<Rightarrow> bool" where
  "carried ops \<longleftrightarrow> (\<forall>x \<in> set ops. snd (snd x) \<le> 4294967295)"

lemma carried_size:
  assumes "z \<le> (4294967295 :: u64)"
  shows "ucast (ucast z :: u32) = z"
proof -
  have "unat z < 2 ^ 32" using assms by (simp add: word_le_nat_alt)
  then have "unat (ucast z :: u32) = unat z" by (simp add: unsigned_ucast_eq take_bit_nat_eq_self)
  then have "unat (ucast (ucast z :: u32) :: u64) = unat z" by (simp only: unat_ucast_u32)
  then show ?thesis by (simp only: unat_inject)
qed

text \<open>Within an event whose decision has been taken, the levels are applied or skipped as a whole.\<close>

lemma run_skipped:
  assumes "have_event st" and "cur_U st = U" and "\<not> cur_apply st"
  shows "on_msgs fetch now (map (level_msg recv U u) ops) st = Some st"
  using assms by (induction ops) (simp_all add: on_msg_def)

lemma run_applied:
  assumes "have_event st" and "cur_U st = U" and "cur_apply st" and "carried ops"
    and "l2_repr (lv_book st) m" and "bk_cfg (lv_book st) = cfg" and "hist_room (lv_hist st) n" and "n + length ops < 2 ^ 64"
  shows "\<exists>b h k. on_msgs fetch now (map (level_msg recv U u) ops) st = Some (st\<lparr>lv_book := b, lv_hist := h, lv_clock := k\<rparr>)
    \<and> l2_repr b (fold (spec_set cfg) ops m) \<and> bk_cfg b = cfg \<and> hist_room h (n + length ops)"
  using assms
proof (induction ops arbitrary: st m n)
  case Nil
  then show ?case by (intro exI [of _ "lv_book st"] exI [of _ "lv_hist st"] exI [of _ "lv_clock st"]) simp
next
  case (Cons x ops)
  obtain s px z where x: "x = (s, px, z)" by (cases x) auto
  have z: "ucast (ucast z :: u32) = z" using Cons.prems(4) by (intro carried_size) (simp add: carried_def x)
  obtain b where b: "set_level s px z (lv_book st) = Some b" "l2_repr b (spec_set cfg x m)" "bk_cfg b = cfg"
    using set_level_refines [OF Cons.prems(5), of s px z] Cons.prems(6) by (auto simp: x)
  obtain h where h: "record_value (now (lv_clock st) - recv) (lv_hist st) = Some h" "hist_room h (Suc n)"
    using hist_room_record [OF Cons.prems(7)] Cons.prems(8) by force
  let ?st = "st\<lparr>lv_book := b, lv_hist := h, lv_clock := Suc (lv_clock st)\<rparr>"
  have "on_msg fetch now (level_msg recv U u x) st = Some ?st"
    using Cons.prems(1-3) b(1) h(1) z by (simp add: on_msg_def) (simp add: level_msg_def x z)
  moreover have "\<exists>b' h' k. on_msgs fetch now (map (level_msg recv U u) ops) ?st
        = Some (?st\<lparr>lv_book := b', lv_hist := h', lv_clock := k\<rparr>)
    \<and> l2_repr b' (fold (spec_set cfg) ops (spec_set cfg x m)) \<and> bk_cfg b' = cfg \<and> hist_room h' (Suc n + length ops)"
    using Cons.prems b h by (intro Cons.IH) (simp_all add: carried_def)
  ultimately show ?case by auto
qed

lemma hist_room_mono: "hist_room h n \<Longrightarrow> n \<le> k \<Longrightarrow> hist_room h k"
  by (fastforce simp: hist_room_def)

lemma event_run:
  assumes "have_event st" and "cur_U st = U" and "carried ops"
    and "l2_repr (lv_book st) m" and "bk_cfg (lv_book st) = cfg" and "hist_room (lv_hist st) n" and "n + length ops < 2 ^ 64"
  shows "\<exists>b h k. on_msgs fetch now (event_msgs recv U u ops) st = Some (st\<lparr>lv_book := b, lv_hist := h, lv_clock := k\<rparr>)
    \<and> l2_repr b (if cur_apply st then fold (spec_set cfg) ops m else m) \<and> bk_cfg b = cfg
    \<and> hist_room h (n + length ops)"
proof (cases "ops \<noteq> [] \<and> cur_apply st")
  case True
  with run_applied [OF assms(1,2) _ assms(3-7), of fetch now recv u] show ?thesis by (simp add: event_msgs_def)
next
  case False
  have "on_msgs fetch now [header_msg recv U u] st = Some st" using assms(1,2) by (simp add: on_msg_def)
  then have "on_msgs fetch now (event_msgs recv U u ops) st = Some st"
    using False run_skipped [OF assms(1,2), of fetch now recv u ops] by (auto simp: event_msgs_def)
  moreover have "(if cur_apply st then fold (spec_set cfg) ops m else m) = m" using False by auto
  ultimately show ?thesis using assms hist_room_mono [OF assms(6), of "n + length ops"]
    by (intro exI [of _ "lv_book st"] exI [of _ "lv_hist st"] exI [of _ "lv_clock st"]) simp
qed

lemma event_enters:
  assumes "\<not> have_event st \<or> U \<noteq> cur_U st" and "enter_event fetch U u st = Some (True, st1)"
    and "have_event st1" and "cur_U st1 = U"
  shows "on_msgs fetch now (event_msgs recv U u ops) st = on_msgs fetch now (event_msgs recv U u ops) st1"
  using assms by (cases ops) (simp_all add: event_msgs_def on_msg_def)

section \<open>From the depth updates to the messages\<close>

definition quantity :: "rounding \<Rightarrow> string \<Rightarrow> int \<Rightarrow> u64" where
  "quantity rnd x scale = fst (scaled_qty rnd x scale \<lparr>ws_ops = 0, saturated = 0\<rparr>)"

lemma fst_scaled_qty: "fst (scaled_qty rnd x scale d) = quantity rnd x scale"
  by (simp add: quantity_def scaled_qty_def split: option.split)

lemma quantity_carried: "quantity rnd x scale \<le> 4294967295"
proof -
  have "(of_int q :: u64) \<le> 4294967295" if "0 < q" "q \<le> 4294967295" for q
  proof -
    have "uint (of_int q :: u64) = q" using that by (simp add: uint_word_of_int_eq take_bit_int_eq_self)
    then show ?thesis using that by (simp add: word_le_def)
  qed
  then show ?thesis by (auto simp: quantity_def scaled_qty_def split: option.split)
qed

definition level_fields :: "rounding \<Rightarrow> scales \<Rightarrow> side \<Rightarrow> string list \<Rightarrow> level_op" where
  "level_fields rnd sc s lvl =
    (s, px_to_ticks rnd (lvl ! 0) (price_scale sc), quantity rnd (lvl ! 1) (size_scale sc))"

definition level_readable :: "rounding \<Rightarrow> scales \<Rightarrow> string list \<Rightarrow> bool" where
  "level_readable rnd sc lvl \<longleftrightarrow> 2 \<le> length lvl \<and> 0 \<le> px_to_ticks rnd (lvl ! 0) (price_scale sc)"

definition update_ops :: "rounding \<Rightarrow> scales \<Rightarrow> depth_update \<Rightarrow> level_op list" where
  "update_ops rnd sc du = map (level_fields rnd sc Buy) (levels_of (du_bids du))
     @ map (level_fields rnd sc Sell) (levels_of (du_asks du))"

definition update_readable :: "rounding \<Rightarrow> scales \<Rightarrow> depth_update \<Rightarrow> bool" where
  "update_readable rnd sc du \<longleftrightarrow>
    (\<forall>lvl \<in> set (levels_of (du_bids du)) \<union> set (levels_of (du_asks du)). level_readable rnd sc lvl)"

lemma update_ops_carried: "carried (update_ops rnd sc du)"
  by (auto simp: carried_def update_ops_def level_fields_def quantity_carried)

lemma push_op_msg:
  "level_readable rnd sc lvl \<Longrightarrow> fst (push_op rnd sc du recv s lvl d)
    = [level_msg recv (du_first du) (du_last du) (level_fields rnd sc s lvl)]"
  using fst_scaled_qty [of rnd "lvl ! 1" "size_scale sc" d]
  by (auto simp: push_op_def level_readable_def Let_def level_msg_def level_fields_def split: prod.split)

lemma push_ops_msgs:
  "\<forall>lvl \<in> set lvls. level_readable rnd sc lvl \<Longrightarrow> fst (push_ops rnd sc du recv s lvls d)
    = map (level_msg recv (du_first du) (du_last du) \<circ> level_fields rnd sc s) lvls"
proof (induction lvls arbitrary: d)
  case (Cons lvl lvls)
  obtain ms d1 where p: "push_op rnd sc du recv s lvl d = (ms, d1)" by (cases "push_op rnd sc du recv s lvl d")
  obtain ms' d2 where q: "push_ops rnd sc du recv s lvls d1 = (ms', d2)" by (cases "push_ops rnd sc du recv s lvls d1")
  have "ms = [level_msg recv (du_first du) (du_last du) (level_fields rnd sc s lvl)]"
    using push_op_msg [of rnd sc lvl du recv s d] Cons.prems p by simp
  moreover have "ms' = map (level_msg recv (du_first du) (du_last du) \<circ> level_fields rnd sc s) lvls"
    using Cons.IH [of d1] Cons.prems q by simp
  ultimately show ?case using p q by simp
qed simp

lemma on_depth_msgs:
  assumes "update_readable rnd sc du"
  shows "fst (on_depth rnd sc du recv d) = event_msgs recv (du_first du) (du_last du) (update_ops rnd sc du)"
proof -
  obtain bs d1 where b: "push_ops rnd sc du recv Buy (levels_of (du_bids du)) d = (bs, d1)"
    by (cases "push_ops rnd sc du recv Buy (levels_of (du_bids du)) d")
  obtain as d2 where a: "push_ops rnd sc du recv Sell (levels_of (du_asks du)) d1 = (as, d2)"
    by (cases "push_ops rnd sc du recv Sell (levels_of (du_asks du)) d1")
  show ?thesis
    using push_ops_msgs [of "levels_of (du_bids du)" rnd sc du recv Buy d]
      push_ops_msgs [of "levels_of (du_asks du)" rnd sc du recv Sell d1] assms a b
    by (auto simp: on_depth_def event_msgs_def update_ops_def update_readable_def)
qed

text \<open>An update none of whose levels can be read leaves no message, not even the header.\<close>

lemma unreadable_update_vanishes:
  assumes "levels_of (du_bids du) @ levels_of (du_asks du) \<noteq> []"
    and "\<forall>lvl \<in> set (levels_of (du_bids du)) \<union> set (levels_of (du_asks du)). \<not> level_readable rnd sc lvl"
  shows "on_depth rnd sc du recv d = ([], d)"
proof -
  have "push_ops rnd sc du recv s lvls d = ([], d)" if "\<forall>lvl \<in> set lvls. \<not> level_readable rnd sc lvl" for s lvls
    using that by (induction lvls) (auto simp: push_op_def level_readable_def Let_def)
  with assms show ?thesis by (auto simp: on_depth_def Let_def)
qed

section \<open>A consecutive feed\<close>

fun consecutive :: "u64 \<Rightarrow> depth_update list \<Rightarrow> bool" where
  "consecutive p [] \<longleftrightarrow> True"
| "consecutive p (du # dus) \<longleftrightarrow> du_first du = p + 1 \<and> p < du_first du \<and> du_first du \<le> du_last du
     \<and> consecutive (du_last du) dus"

fun feed_msgs ::
    "rounding \<Rightarrow> scales \<Rightarrow> (depth_update \<times> u64) list \<Rightarrow> decoder \<Rightarrow> pipeline_msg list" where
  "feed_msgs rnd sc [] d = []"
| "feed_msgs rnd sc ((du, recv) # dus) d =
    (let (ms, d) = on_depth rnd sc du recv d in ms @ feed_msgs rnd sc dus d)"

text \<open>The state between two events of such a feed; \<open>p\<close> is the last update id seen.\<close>

definition in_step :: "book_config \<Rightarrow> u64 \<Rightarrow> u64 \<Rightarrow> nat \<Rightarrow> level_map \<Rightarrow> live_state \<Rightarrow> bool" where
  "in_step cfg L p n m st \<longleftrightarrow> l2_repr (lv_book st) m \<and> bk_cfg (lv_book st) = cfg \<and> hist_room (lv_hist st) n
     \<and> lv_last st = L \<and> gaps st = 0 \<and> resyncs st = 0 \<and> (have_event st \<longrightarrow> cur_U st \<le> p)
     \<and> (case lv_mode st of Seeking \<Rightarrow> p \<le> L | Streaming \<Rightarrow> prev_u st = p \<and> L < p)"

lemma unat_next: "w < w + 1 \<Longrightarrow> unat (w + 1) = Suc (unat (w :: u64))"
proof -
  assume "w < w + 1"
  then have "1 + w \<noteq> 0" by (metis add.commute leD word_zero_le)
  then show ?thesis using unatSuc [of w] by (simp add: add.commute)
qed

lemma enter_in_step:
  assumes st: "in_step cfg L p n m st" and L: "L < L + 1" and U: "U = p + 1" "p < U" "U \<le> u"
  shows "\<exists>st1. enter_event fetch U u st = Some (True, st1) \<and> have_event st1 \<and> cur_U st1 = U
    \<and> (cur_apply st1 \<longleftrightarrow> L < u) \<and> l2_repr (lv_book st1) m \<and> bk_cfg (lv_book st1) = cfg \<and> lv_hist st1 = lv_hist st
    \<and> lv_last st1 = L \<and> gaps st1 = 0 \<and> resyncs st1 = 0
    \<and> (case lv_mode st1 of Seeking \<Rightarrow> u \<le> L | Streaming \<Rightarrow> prev_u st1 = u \<and> L < u)"
proof -
  define st0 where "st0 = (if have_event st \<and> cur_apply st
    then st\<lparr>lv_book := observe_event_boundary (lv_book st)\<rparr> else st)\<lparr>have_event := True, cur_U := U, cur_apply := False\<rparr>"
  have st0: "l2_repr (lv_book st0) m" "bk_cfg (lv_book st0) = cfg" "lv_hist st0 = lv_hist st" "lv_last st0 = L"
      "gaps st0 = 0" "resyncs st0 = 0" "have_event st0" "cur_U st0 = U" "\<not> cur_apply st0"
      "lv_mode st0 = lv_mode st" "prev_u st0 = prev_u st"
    using st by (auto simp: st0_def in_step_def)
  have enter: "enter_event fetch U u st = (case lv_mode st0 of
      Seeking \<Rightarrow> if u < lv_last st0 + 1 then Some (True, st0)
        else if U \<le> lv_last st0 + 1 then Some (True, st0\<lparr>lv_mode := Streaming, prev_u := u, cur_apply := True\<rparr>)
        else map_option (Pair False) (re_snapshot fetch st0)
    | Streaming \<Rightarrow> if u \<le> prev_u st0 then Some (True, st0)
        else if U = prev_u st0 + 1 then Some (True, st0\<lparr>prev_u := u, cur_apply := True\<rparr>)
        else map_option (Pair False) (re_snapshot fetch (st0\<lparr>gaps := gaps st0 + 1\<rparr>)))"
    unfolding enter_event_def Let_def st0_def by simp
  have suc: "unat (L + 1) = Suc (unat L)" using L by (intro unat_next)
  have less: "u < L + 1 \<longleftrightarrow> u \<le> L" by (simp add: word_less_nat_alt word_le_nat_alt suc less_Suc_eq_le)
  show ?thesis
  proof (cases "lv_mode st")
    case Seeking
    then have p: "p \<le> L" using st by (simp add: in_step_def)
    then have "U \<le> L + 1"
      using unat_next [OF U(2) [unfolded U(1)]] by (simp add: word_le_nat_alt suc U(1))
    then show ?thesis
      using Seeking st0 less by (cases "u \<le> L") (auto simp: enter not_le)
  next
    case Streaming
    then have p: "prev_u st0 = p" "L < p" using st st0 by (simp_all add: in_step_def)
    moreover have "\<not> u \<le> p" "L < u" using U p(2) by auto
    ultimately have "enter_event fetch U u st = Some (True, st0\<lparr>prev_u := u, cur_apply := True\<rparr>)"
      using Streaming st0 U(1) unfolding enter by simp
    then show ?thesis using Streaming st0 \<open>L < u\<close>
      by (intro exI [of _ "st0\<lparr>prev_u := u, cur_apply := True\<rparr>"]) simp
  qed
qed

lemma feed_step:
  assumes st: "in_step cfg L p n m st" and L: "L < L + 1"
    and du: "du_first du = p + 1" "p < du_first du" "du_first du \<le> du_last du" "update_readable rnd sc du"
    and room: "n + length (update_ops rnd sc du) < 2 ^ 64"
  shows "\<exists>st'. on_msgs fetch now (fst (on_depth rnd sc du recv d)) st = Some st'
    \<and> in_step cfg L (du_last du) (n + length (update_ops rnd sc du))
        (if L < du_last du then fold (spec_set cfg) (update_ops rnd sc du) m else m) st'"
proof -
  let ?U = "du_first du" and ?u = "du_last du" and ?ops = "update_ops rnd sc du"
  obtain st1 where st1: "enter_event fetch ?U ?u st = Some (True, st1)" "have_event st1" "cur_U st1 = ?U"
      "cur_apply st1 \<longleftrightarrow> L < ?u" "l2_repr (lv_book st1) m" "bk_cfg (lv_book st1) = cfg" "lv_hist st1 = lv_hist st"
      "lv_last st1 = L" "gaps st1 = 0" "resyncs st1 = 0"
      "case lv_mode st1 of Seeking \<Rightarrow> ?u \<le> L | Streaming \<Rightarrow> prev_u st1 = ?u \<and> L < ?u"
    using enter_in_step [OF st L du(1-3), of fetch] by blast
  have "\<not> have_event st \<or> ?U \<noteq> cur_U st" using st du(2) by (auto simp: in_step_def)
  note enter = event_enters [OF this st1(1-3)]
  have "hist_room (lv_hist st1) n" using st st1(7) by (simp add: in_step_def)
  from event_run [OF st1(2,3) update_ops_carried st1(5,6) this room, of fetch now recv ?u] obtain b h k
    where r: "on_msgs fetch now (event_msgs recv ?U ?u ?ops) st1 = Some (st1\<lparr>lv_book := b, lv_hist := h, lv_clock := k\<rparr>)"
      "l2_repr b (if cur_apply st1 then fold (spec_set cfg) ?ops m else m)" "bk_cfg b = cfg"
      "hist_room h (n + length ?ops)" by blast
  have "in_step cfg L ?u (n + length ?ops) (if L < ?u then fold (spec_set cfg) ?ops m else m)
      (st1\<lparr>lv_book := b, lv_hist := h, lv_clock := k\<rparr>)"
    using r(2-4) st1 du(3) by (cases "lv_mode st1") (simp_all add: in_step_def)
  then show ?thesis using enter r(1) by (simp add: on_depth_msgs [OF du(4)])
qed

lemma on_msgs_append: "on_msgs fetch now (xs @ ys) st = Option.bind (on_msgs fetch now xs st) (on_msgs fetch now ys)"
  by (induction xs arbitrary: st) (auto simp: bind_eq_Some_conv split: Option.bind_split)

lemma in_step_mode: "in_step cfg L p n m st \<Longrightarrow> lv_mode st = Streaming \<longleftrightarrow> L < p"
  by (cases "lv_mode st") (auto simp: in_step_def)

text \<open>The updates a snapshot at \<open>L\<close> does not yet contain.\<close>

definition later_ops :: "rounding \<Rightarrow> scales \<Rightarrow> u64 \<Rightarrow> (depth_update \<times> u64) list \<Rightarrow> level_op list" where
  "later_ops rnd sc L dus = concat (map (update_ops rnd sc) (filter (\<lambda>du. L < du_last du) (map fst dus)))"

definition all_ops :: "rounding \<Rightarrow> scales \<Rightarrow> (depth_update \<times> u64) list \<Rightarrow> level_op list" where
  "all_ops rnd sc dus = concat (map (update_ops rnd sc) (map fst dus))"

fun end_id :: "u64 \<Rightarrow> depth_update list \<Rightarrow> u64" where
  "end_id p [] = p"
| "end_id p (du # dus) = end_id (du_last du) dus"

lemma consecutive_snoc:
  "consecutive p (dus @ [du]) \<longleftrightarrow> consecutive p dus \<and> consecutive (end_id p dus) [du]"
  by (induction dus arbitrary: p) auto

lemma feed_run:
  assumes "in_step cfg L p n m st" and "L < L + 1" and "consecutive p (map fst dus)"
    and "\<forall>du \<in> set (map fst dus). update_readable rnd sc du" and "n + length (all_ops rnd sc dus) < 2 ^ 64"
  shows "\<exists>st'. on_msgs fetch now (feed_msgs rnd sc dus d) st = Some st'
    \<and> in_step cfg L (end_id p (map fst dus)) (n + length (all_ops rnd sc dus))
        (fold (spec_set cfg) (later_ops rnd sc L dus) m) st'
    \<and> (lv_mode st' = Streaming \<longleftrightarrow> lv_mode st = Streaming \<or> (\<exists>du \<in> set (map fst dus). L < du_last du))"
  using assms
proof (induction dus arbitrary: p n m st d)
  case Nil
  then show ?case by (auto simp: later_ops_def all_ops_def)
next
  case (Cons x dus)
  obtain du recv where x: "x = (du, recv)" by (cases x)
  have du: "du_first du = p + 1" "p < du_first du" "du_first du \<le> du_last du" "update_readable rnd sc du"
      "consecutive (du_last du) (map fst dus)" "n + length (update_ops rnd sc du) < 2 ^ 64"
    using Cons.prems(3-5) by (auto simp: x all_ops_def)
  obtain ms d1 where dp: "on_depth rnd sc du recv d = (ms, d1)" by (cases "on_depth rnd sc du recv d")
  let ?m = "if L < du_last du then fold (spec_set cfg) (update_ops rnd sc du) m else m"
  obtain st1 where st1: "on_msgs fetch now ms st = Some st1"
      "in_step cfg L (du_last du) (n + length (update_ops rnd sc du)) ?m st1"
    using feed_step [OF Cons.prems(1,2) du(1-4,6), of fetch now recv d] dp by auto
  have "n + length (update_ops rnd sc du) + length (all_ops rnd sc dus) < 2 ^ 64"
    using Cons.prems(5) by (simp add: x all_ops_def)
  from Cons.IH [OF st1(2) Cons.prems(2) du(5) _ this, of d1] Cons.prems(4) obtain st'
    where r: "on_msgs fetch now (feed_msgs rnd sc dus d1) st1 = Some st'"
      "in_step cfg L (end_id (du_last du) (map fst dus))
        (n + length (update_ops rnd sc du) + length (all_ops rnd sc dus)) (fold (spec_set cfg) (later_ops rnd sc L dus) ?m) st'"
      "lv_mode st' = Streaming \<longleftrightarrow> lv_mode st1 = Streaming \<or> (\<exists>du \<in> set (map fst dus). L < du_last du)"
    by auto
  have "fold (spec_set cfg) (later_ops rnd sc L dus) ?m = fold (spec_set cfg) (later_ops rnd sc L (x # dus)) m"
    by (simp add: later_ops_def x)
  moreover have "on_msgs fetch now (feed_msgs rnd sc (x # dus) d) st = Some st'"
    using st1(1) r(1) dp by (simp add: x on_msgs_append)
  moreover have "n + length (update_ops rnd sc du) + length (all_ops rnd sc dus) = n + length (all_ops rnd sc (x # dus))"
      "end_id (du_last du) (map fst dus) = end_id p (map fst (x # dus))"
    by (simp_all add: all_ops_def x)
  ultimately have "on_msgs fetch now (feed_msgs rnd sc (x # dus) d) st = Some st'"
      "in_step cfg L (end_id p (map fst (x # dus))) (n + length (all_ops rnd sc (x # dus)))
        (fold (spec_set cfg) (later_ops rnd sc L (x # dus)) m) st'"
    using r(2) by (simp_all only:)
  moreover have "lv_mode st' = Streaming \<longleftrightarrow> lv_mode st = Streaming \<or> (\<exists>du \<in> set (map fst (x # dus)). L < du_last du)"
    using r(3) in_step_mode [OF st1(2)] in_step_mode [OF Cons.prems(1)] du(2,3) by (auto simp: x)
  ultimately show ?case by blast
qed

lemma session_in_step:
  assumes "band_config half s = Some bc" and "in_i64 (max_price bc)" and "p \<le> sn_last s"
  shows "\<exists>st0. start_session bc s k = Some st0 \<and> lv_mode st0 = Seeking
    \<and> in_step (fix_config bc) (sn_last s) p 0 (fold (spec_set (fix_config bc)) (sn_levels s) Map.empty) st0"
proof -
  have good: "good_config (fix_config bc)" by (rule band_config_good [OF assms(1,2)])
  obtain h b where "start_session bc s k = Some \<lparr>lv_book = b, lv_hist = h, lv_last = sn_last s, lv_mode = Seeking,
      prev_u = 0, have_event = False, cur_U = 0, cur_apply = False, gaps = 0, resyncs = 0, lv_fetches = k, lv_clock = 0\<rparr>"
    and "l2_repr b (fold (spec_set (fix_config bc)) (sn_levels s) Map.empty)" "bk_cfg b = fix_config bc" "hist_room h 0"
    using start_session_ok [OF good, of s k] by blast
  then show ?thesis using assms(3) by (auto simp: in_step_def)
qed

text \<open>
  A session over a consecutive feed: the book is the snapshot with the later updates applied, in order.
\<close>

lemma session_follows_feed:
  assumes "band_config half s = Some bc" and "in_i64 (max_price bc)" and "sn_last s < sn_last s + 1"
    and "consecutive p (map fst dus)" and "p \<le> sn_last s"
    and "\<forall>du \<in> set (map fst dus). update_readable rnd sc du" and "length (all_ops rnd sc dus) < 2 ^ 64"
  shows "\<exists>st0 st. start_session bc s k = Some st0 \<and> on_msgs fetch now (feed_msgs rnd sc dus d) st0 = Some st
    \<and> l2_repr (lv_book st) (fold (spec_set (fix_config bc)) (sn_levels s @ later_ops rnd sc (sn_last s) dus) Map.empty)
    \<and> bk_cfg (lv_book st) = fix_config bc \<and> gaps st = 0 \<and> resyncs st = 0
    \<and> (lv_mode st = Streaming \<longleftrightarrow> (\<exists>du \<in> set (map fst dus). sn_last s < du_last du))"
proof -
  let ?m = "fold (spec_set (fix_config bc)) (sn_levels s) Map.empty"
  obtain st0 where st0: "start_session bc s k = Some st0" "lv_mode st0 = Seeking"
      "in_step (fix_config bc) (sn_last s) p 0 ?m st0"
    using session_in_step [OF assms(1,2,5)] by blast
  from feed_run [OF st0(3) assms(3,4,6), of fetch now d] assms(7) st0(2) obtain st
    where "on_msgs fetch now (feed_msgs rnd sc dus d) st0 = Some st"
      "in_step (fix_config bc) (sn_last s) (end_id p (map fst dus)) (length (all_ops rnd sc dus))
        (fold (spec_set (fix_config bc)) (later_ops rnd sc (sn_last s) dus) ?m) st"
      "lv_mode st = Streaming \<longleftrightarrow> (\<exists>du \<in> set (map fst dus). sn_last s < du_last du)" by auto
  with st0(1) show ?thesis by (auto simp: in_step_def)
qed

text \<open>A snapshot at update id 5, and an update 5..6 that raises the bid; a number is its string's length.\<close>

definition unary :: rounding where
  "unary s scale = Some (int (length s) * scale)"

definition unit_scales :: scales where
  "unit_scales = \<lparr>price_scale = 1, size_scale = 1\<rparr>"

definition small_snapshot :: l2_snapshot where
  "small_snapshot = \<lparr>sn_ok = True, sn_status = 200, sn_last = 5, sn_bid = 3, sn_ask = 5,
     sn_levels = [(Buy, 3, 1), (Sell, 5, 1)]\<rparr>"

definition small_band :: book_config where
  "small_band = default_book_config\<lparr>min_price := 2, max_price := 6\<rparr>"

lemma small_band_config: "band_config (\<lambda>mid. 2) small_snapshot = Some small_band"
  by (simp add: band_config_def small_snapshot_def Let_def small_band_def default_book_config_def)

lemma small_band_fix [simp]: "fix_config small_band = small_band"
  by (simp add: fix_config_def small_band_def default_book_config_def)

lemma small_band_index: "to_index small_band px = (if px < 2 \<or> 6 < px then - 1 else px - 2)"
  by (simp add: to_index_def small_band_def default_book_config_def)

definition small_update :: depth_update where
  "small_update = \<lparr>du_first = 5, du_last = 6, du_bids = Some [[''aaa'', ''aa'']], du_asks = None\<rparr>"

lemma live_never_undefined_witness:
  "\<exists>st0 st m. start_session small_band small_snapshot 1 = Some st0
    \<and> on_msgs (\<lambda>k. no_snapshot) (\<lambda>k. 0) [header_msg 0 9 9, level_msg 0 9 9 (Sell, 4, 2)] st0 = Some st
    \<and> l2_repr (lv_book st) m"
  using live_never_undefined [OF small_band_config, of "[header_msg 0 9 9, level_msg 0 9 9 (Sell, 4, 2)]" 1 "\<lambda>k. no_snapshot" "\<lambda>k. 0"]
  by (auto simp: in_i64_def small_band_def)

section \<open>An event of which only a part gets through\<close>

lemma level_step:
  assumes st: "in_step cfg L p n m st" and L: "L < L + 1" "L < u"
    and U: "U = p + 1" "p < U" "U \<le> u" and ops: "ops \<noteq> []" "carried ops" "n + length ops < 2 ^ 64"
  shows "\<exists>st'. on_msgs fetch now (map (level_msg recv U u) ops) st = Some st'
    \<and> in_step cfg L u (n + length ops) (fold (spec_set cfg) ops m) st' \<and> lv_mode st' = Streaming"
proof -
  obtain st1 where st1: "enter_event fetch U u st = Some (True, st1)" "have_event st1" "cur_U st1 = U"
      "cur_apply st1" "l2_repr (lv_book st1) m" "bk_cfg (lv_book st1) = cfg" "lv_hist st1 = lv_hist st"
      "lv_last st1 = L" "gaps st1 = 0" "resyncs st1 = 0"
      "case lv_mode st1 of Seeking \<Rightarrow> u \<le> L | Streaming \<Rightarrow> prev_u st1 = u \<and> L < u"
    using enter_in_step [OF st L(1) U, of fetch] L(2) by blast
  have "\<not> have_event st \<or> U \<noteq> cur_U st" using st U(2) by (auto simp: in_step_def)
  note enter = event_enters [OF this st1(1-3)]
  have "hist_room (lv_hist st1) n" using st st1(7) by (simp add: in_step_def)
  from event_run [OF st1(2,3) ops(2) st1(5,6) this ops(3), of fetch now recv u] st1(4) obtain b h k
    where r: "on_msgs fetch now (event_msgs recv U u ops) st1 = Some (st1\<lparr>lv_book := b, lv_hist := h, lv_clock := k\<rparr>)"
      "l2_repr b (fold (spec_set cfg) ops m)" "bk_cfg b = cfg" "hist_room h (n + length ops)" by auto
  have "lv_mode st1 = Streaming" using st1(11) L(2) by (cases "lv_mode st1") auto
  then have "in_step cfg L u (n + length ops) (fold (spec_set cfg) ops m) (st1\<lparr>lv_book := b, lv_hist := h, lv_clock := k\<rparr>)"
    using r(2-4) st1 U(3) by (simp add: in_step_def)
  moreover have "on_msgs fetch now (map (level_msg recv U u) ops) st = Some (st1\<lparr>lv_book := b, lv_hist := h, lv_clock := k\<rparr>)"
    using enter [of now recv ops] r(1) ops(1) by (simp add: event_msgs_def)
  ultimately show ?thesis using \<open>lv_mode st1 = Streaming\<close> by (intro exI [of _ "st1\<lparr>lv_book := b, lv_hist := h, lv_clock := k\<rparr>"]) simp
qed

text \<open>
  C19. When only some of the level messages of an event get through the channel, at least one,
  the consumer applies those, streams on from the last id of the event and counts neither a gap
  nor a resync: the levels lost are missing from the book.
\<close>

theorem partial_event_goes_unnoticed:
  assumes "band_config half s = Some bc" and "in_i64 (max_price bc)" and "sn_last s < sn_last s + 1" and "p \<le> sn_last s"
    and "consecutive p (map fst dus @ [du])" and "\<forall>du' \<in> set (map fst dus). update_readable rnd sc du'"
    and "subseq ops (update_ops rnd sc du)" and "ops \<noteq> []" and "sn_last s < du_last du"
    and "length (all_ops rnd sc dus) + length ops < 2 ^ 64"
  shows "\<exists>st0 st. start_session bc s k = Some st0
    \<and> on_msgs fetch now (feed_msgs rnd sc dus d @ map (level_msg recv (du_first du) (du_last du)) ops) st0 = Some st
    \<and> lv_mode st = Streaming \<and> prev_u st = du_last du \<and> gaps st = 0 \<and> resyncs st = 0
    \<and> l2_repr (lv_book st) (fold (spec_set (fix_config bc))
        (sn_levels s @ later_ops rnd sc (sn_last s) dus @ ops) Map.empty)"
proof -
  let ?m = "fold (spec_set (fix_config bc)) (sn_levels s) Map.empty" and ?q = "end_id p (map fst dus)"
  have c: "consecutive p (map fst dus)" "consecutive ?q [du]" using assms(5) [unfolded consecutive_snoc] by blast+
  obtain st0 where st0: "start_session bc s k = Some st0" "in_step (fix_config bc) (sn_last s) p 0 ?m st0"
    using session_in_step [OF assms(1,2,4)] by blast
  from feed_run [OF st0(2) assms(3) c(1) assms(6), of fetch now d] assms(10) obtain st1
    where st1: "on_msgs fetch now (feed_msgs rnd sc dus d) st0 = Some st1"
      "in_step (fix_config bc) (sn_last s) ?q (length (all_ops rnd sc dus))
        (fold (spec_set (fix_config bc)) (later_ops rnd sc (sn_last s) dus) ?m) st1" by auto
  have "set ops \<subseteq> set (update_ops rnd sc du)" using assms(7) by (auto elim: list_emb_set)
  then have "carried ops" using update_ops_carried [of rnd sc du] by (auto simp: carried_def)
  moreover have "du_first du = ?q + 1" "?q < du_first du" "du_first du \<le> du_last du"
    using c(2) [unfolded consecutive.simps] by blast+
  ultimately obtain st where
    "on_msgs fetch now (map (level_msg recv (du_first du) (du_last du)) ops) st1 = Some st"
    "in_step (fix_config bc) (sn_last s) (du_last du) (length (all_ops rnd sc dus) + length ops)
        (fold (spec_set (fix_config bc)) ops (fold (spec_set (fix_config bc)) (later_ops rnd sc (sn_last s) dus) ?m)) st"
    "lv_mode st = Streaming"
    using level_step [OF st1(2) assms(3,9), of "du_first du" ops fetch now recv] assms(8,10) by blast
  with st0(1) st1(1) show ?thesis by (auto simp: in_step_def on_msgs_append)
qed

lemma partial_event_goes_unnoticed_witness:
  "\<exists>du st0 st. update_ops unary unit_scales du = [(Buy, 3, 2), (Sell, 4, 9)]
    \<and> start_session small_band small_snapshot 1 = Some st0
    \<and> on_msgs (\<lambda>k. no_snapshot) (\<lambda>k. 0) (map (level_msg 0 (du_first du) (du_last du)) [(Buy, 3, 2)]) st0 = Some st
    \<and> lv_mode st = Streaming \<and> prev_u st = du_last du \<and> gaps st = 0
    \<and> l2_repr (lv_book st) [1 \<mapsto> (Buy, 2), 3 \<mapsto> (Sell, 1)]"
proof -
  define du where "du = small_update\<lparr>du_asks := Some [[''aaaa'', ''aaaaaaaaa'']]\<rparr>"
  have ops: "update_ops unary unit_scales du = [(Buy, 3, 2), (Sell, 4, 9)]"
    by (simp add: update_ops_def du_def small_update_def levels_of_def level_fields_def px_to_ticks_def unary_def
        unit_scales_def quantity_def scaled_qty_def)
  then have sub: "subseq [(Buy, 3, 2)] (update_ops unary unit_scales du)" by simp
  have m: "fold (spec_set small_band) ([(Buy, 3, 1), (Sell, 5, 1)] @ [] @ [(Buy, 3, 2)]) Map.empty
      = [1 \<mapsto> (Buy, 2), 3 \<mapsto> (Sell, 1)]"
    by (auto simp: spec_set_def small_band_index)
  have s: "in_i64 (max_price small_band)" "sn_last small_snapshot < sn_last small_snapshot + 1" "(4::u64) \<le> sn_last small_snapshot"
      "sn_levels small_snapshot = [(Buy, 3, 1), (Sell, 5, 1)]" "sn_last small_snapshot < du_last du"
    by (simp_all add: in_i64_def small_band_def small_snapshot_def du_def small_update_def)
  have c: "consecutive 4 (map fst [] @ [du])" by (simp add: du_def small_update_def)
  from partial_event_goes_unnoticed [OF small_band_config s(1-3) c _ sub _ s(5), of 1 "\<lambda>k. no_snapshot" "\<lambda>k. 0"
      "\<lparr>ws_ops = 0, saturated = 0\<rparr>" 0] m s(4) ops
  show ?thesis by (intro exI [of _ du]) (auto simp: all_ops_def later_ops_def)
qed

section \<open>A gap\<close>

lemma enter_gap:
  assumes st: "lv_mode st = Streaming" and U: "prev_u st < u" "U \<noteq> prev_u st + 1"
  defines "st1 \<equiv> (if have_event st \<and> cur_apply st then st\<lparr>lv_book := observe_event_boundary (lv_book st)\<rparr> else st)
    \<lparr>have_event := True, cur_U := U, cur_apply := False, gaps := gaps st + 1\<rparr>"
  shows "enter_event fetch U u st = map_option (Pair False) (re_snapshot fetch st1)"
  using assms by (auto simp: enter_event_def Let_def not_le)

text \<open>
  C17. While streaming, the first message of an event that leaves a gap in the update ids is not
  applied: one gap and one resync are counted, and the book becomes exactly the new snapshot
  (Seeking), or, when the fetch fails, stays as it was.
\<close>

theorem gap_rebuilds_book:
  assumes "live_wf cfg n st" and "lv_mode st = Streaming"
    and "\<not> have_event st \<or> order_ref (pm_event msg) \<noteq> cur_U st"
    and "prev_u st < match_number (pm_event msg)" and "order_ref (pm_event msg) \<noteq> prev_u st + 1"
  shows "\<exists>st'. on_msg fetch now msg st = Some st' \<and> gaps st' = gaps st + 1 \<and> resyncs st' = resyncs st + 1
    \<and> lv_fetches st' = Suc (lv_fetches st) \<and> \<not> have_event st' \<and> lv_hist st' = lv_hist st
    \<and> (if sn_ok (fetch (lv_fetches st))
       then lv_mode st' = Seeking \<and> lv_last st' = sn_last (fetch (lv_fetches st))
         \<and> l2_repr (lv_book st') (fold (spec_set cfg) (sn_levels (fetch (lv_fetches st))) Map.empty)
       else lv_mode st' = Streaming \<and> prev_u st' = prev_u st
         \<and> (\<forall>m. l2_repr (lv_book st') m \<longleftrightarrow> l2_repr (lv_book st) m))"
proof -
  let ?U = "order_ref (pm_event msg)" and ?s = "fetch (lv_fetches st)"
  define st1 where "st1 = (if have_event st \<and> cur_apply st then st\<lparr>lv_book := observe_event_boundary (lv_book st)\<rparr> else st)
    \<lparr>have_event := True, cur_U := ?U, cur_apply := False, gaps := gaps st + 1\<rparr>"
  obtain m where m: "l2_repr (lv_book st1) m" "bk_cfg (lv_book st1) = cfg"
    using assms(1) by (cases "have_event st \<and> cur_apply st") (auto simp: st1_def live_wf_def)
  have st1: "lv_fetches st1 = lv_fetches st" "lv_hist st1 = lv_hist st" "gaps st1 = gaps st + 1"
      "resyncs st1 = resyncs st" "prev_u st1 = prev_u st" "lv_mode st1 = Streaming"
      "l2_repr (lv_book st1) m' \<longleftrightarrow> l2_repr (lv_book st) m'" for m'
    using assms(2) by (simp_all add: st1_def)
  have "enter_event fetch ?U (match_number (pm_event msg)) st = map_option (Pair False) (re_snapshot fetch st1)"
    using enter_gap [OF assms(2,4,5), of fetch] by (simp add: st1_def)
  then have run: "on_msg fetch now msg st = re_snapshot fetch st1"
    using assms(3) by (cases "re_snapshot fetch st1") (auto simp: on_msg_def Let_def)
  show ?thesis
  proof (cases "sn_ok ?s")
    case True
    then have "sn_ok (fetch (lv_fetches st1))" by (simp add: st1)
    from re_snapshot_ok [where fetch = fetch, OF m this] True st1 show ?thesis by (auto simp: run)
  next
    case False
    then have "\<not> sn_ok (fetch (lv_fetches st1))" by (simp add: st1)
    from re_snapshot_failed [where fetch = fetch, OF this] False st1 show ?thesis by (auto simp: run)
  qed
qed

text \<open>A streaming state to apply the gap lemmas to: the small snapshot, with update id 6 seen.\<close>

definition later_snapshot :: l2_snapshot where
  "later_snapshot = small_snapshot\<lparr>sn_last := 9, sn_levels := [(Buy, 3, 2)]\<rparr>"

lemma streaming_state:
  "\<exists>st. live_wf small_band 0 st \<and> lv_mode st = Streaming \<and> prev_u st = 6 \<and> \<not> have_event st \<and> lv_fetches st = 1"
proof -
  have "good_config (fix_config small_band)"
    by (rule band_config_good [OF small_band_config]) (simp add: in_i64_def small_band_def)
  from start_session_ok [OF this, of small_snapshot 1] obtain h b
    where b: "l2_repr b (fold (spec_set small_band) (sn_levels small_snapshot) Map.empty)"
      "bk_cfg b = small_band" "hist_room h 0" by auto
  let ?st = "\<lparr>lv_book = b, lv_hist = h, lv_last = 5, lv_mode = Streaming, prev_u = 6, have_event = False, cur_U = 0,
      cur_apply = False, gaps = 0, resyncs = 0, lv_fetches = 1, lv_clock = 0\<rparr>"
  have "live_wf small_band 0 ?st" using b by (auto simp: live_wf_def)
  then show ?thesis by (intro exI [of _ ?st]) simp
qed

lemma gap_rebuilds_book_witness:
  "\<exists>st st'. prev_u st = 6 \<and> on_msg (\<lambda>k. later_snapshot) (\<lambda>k. 0) (level_msg 0 9 10 (Buy, 4, 7)) st = Some st'
    \<and> lv_mode st' = Seeking \<and> gaps st' = gaps st + 1 \<and> l2_repr (lv_book st') [1 \<mapsto> (Buy, 2)]"
proof -
  obtain st where st: "live_wf small_band 0 st" "lv_mode st = Streaming" "prev_u st = 6" "\<not> have_event st"
    using streaming_state by blast
  have "fold (spec_set small_band) (sn_levels later_snapshot) Map.empty = [1 \<mapsto> (Buy, 2)]"
    by (simp add: later_snapshot_def spec_set_def small_band_index)
  moreover have "sn_ok later_snapshot" by (simp add: later_snapshot_def small_snapshot_def)
  ultimately show ?thesis
    using gap_rebuilds_book [OF st(1,2), of "level_msg 0 9 10 (Buy, 4, 7)" "\<lambda>k. later_snapshot" "\<lambda>k. 0"] st(3,4)
    by auto
qed

text \<open>
  C18. When the event that revealed a gap straddles the new snapshot, its messages after the
  first are applied on top of the snapshot and the stream counts as continuous, but the level
  change of its first message is lost.
\<close>

theorem gap_event_loses_first_level:
  assumes "live_wf cfg n st" and "lv_mode st = Streaming"
    and "\<not> have_event st \<or> U \<noteq> cur_U st" and "prev_u st < u" and "U \<noteq> prev_u st + 1"
    and "s = fetch (lv_fetches st)" and "sn_ok s" and "U \<le> sn_last s + 1" and "sn_last s < u" and "sn_last s < sn_last s + 1"
    and "os \<noteq> []" and "carried os" and "n + length os < 2 ^ 64"
  shows "\<exists>st'. on_msgs fetch now (event_msgs recv U u (x # os)) st = Some st'
    \<and> lv_mode st' = Streaming \<and> prev_u st' = u
    \<and> l2_repr (lv_book st') (fold (spec_set cfg) (sn_levels s @ os) Map.empty)"
proof -
  define st1 where "st1 = (if have_event st \<and> cur_apply st then st\<lparr>lv_book := observe_event_boundary (lv_book st)\<rparr> else st)
    \<lparr>have_event := True, cur_U := U, cur_apply := False, gaps := gaps st + 1\<rparr>"
  obtain m where m: "l2_repr (lv_book st1) m" "bk_cfg (lv_book st1) = cfg"
    using assms(1) by (cases "have_event st \<and> cur_apply st") (auto simp: st1_def live_wf_def)
  have f: "lv_fetches st1 = lv_fetches st" "lv_hist st1 = lv_hist st" by (simp_all add: st1_def)
  have "enter_event fetch U u st = map_option (Pair False) (re_snapshot fetch st1)"
    using enter_gap [OF assms(2,4,5), of fetch] by (simp add: st1_def)
  then have first: "on_msg fetch now (level_msg recv U u x) st = re_snapshot fetch st1"
    using assms(3) by (cases "re_snapshot fetch st1") (auto simp: on_msg_def Let_def)
  have "sn_ok (fetch (lv_fetches st1))" using assms(6,7) f by simp
  from re_snapshot_ok [where fetch = fetch, OF m this] f assms(6) obtain b
    where b: "re_snapshot fetch st1 = Some (st1\<lparr>resyncs := resyncs st1 + 1, lv_fetches := Suc (lv_fetches st1),
        lv_book := b, lv_last := sn_last s, prev_u := 0, lv_mode := Seeking, have_event := False\<rparr>)"
      "l2_repr b (fold (spec_set cfg) (sn_levels s) Map.empty)" "bk_cfg b = cfg" by auto
  define st2 where "st2 = st1\<lparr>resyncs := resyncs st1 + 1, lv_fetches := Suc (lv_fetches st1),
        lv_book := b, lv_last := sn_last s, prev_u := 0, lv_mode := Seeking, have_event := False\<rparr>"
  define st3 where "st3 = st2\<lparr>have_event := True, cur_U := U, cur_apply := True, lv_mode := Streaming, prev_u := u\<rparr>"
  have "\<not> u < sn_last s + 1"
    using assms(9) unat_next [OF assms(10)] by (simp add: word_less_nat_alt)
  then have "enter_event fetch U u st2 = Some (True, st3)"
    using assms(8) by (simp add: enter_event_def Let_def st2_def st3_def)
  moreover have "\<not> have_event st2 \<or> U \<noteq> cur_U st2" "have_event st3" "cur_U st3 = U" "cur_apply st3"
    by (simp_all add: st2_def st3_def)
  ultimately have rest: "on_msgs fetch now (event_msgs recv U u os) st2 = on_msgs fetch now (event_msgs recv U u os) st3"
    by (intro event_enters)
  have "hist_room (lv_hist st3) n" using assms(1) f by (simp add: st3_def st2_def live_wf_def)
  note room = this
  have "l2_repr (lv_book st3) (fold (spec_set cfg) (sn_levels s) Map.empty)" "bk_cfg (lv_book st3) = cfg"
    using b by (simp_all add: st3_def st2_def)
  from event_run [OF \<open>have_event st3\<close> \<open>cur_U st3 = U\<close> assms(12) this room assms(13), of fetch now recv u]
  obtain b' h k where r: "on_msgs fetch now (event_msgs recv U u os) st3
        = Some (st3\<lparr>lv_book := b', lv_hist := h, lv_clock := k\<rparr>)"
      "l2_repr b' (fold (spec_set cfg) os (fold (spec_set cfg) (sn_levels s) Map.empty))"
    using \<open>cur_apply st3\<close> by auto
  have "on_msgs fetch now (event_msgs recv U u (x # os)) st = on_msgs fetch now (event_msgs recv U u os) st2"
    using first b(1) assms(11) by (simp add: event_msgs_def st2_def)
  with r rest show ?thesis by (simp add: st3_def)
qed

lemma gap_event_loses_first_level_witness:
  "\<exists>st st'. prev_u st = 6
    \<and> on_msgs (\<lambda>k. later_snapshot) (\<lambda>k. 0) (event_msgs 0 9 10 [(Buy, 4, 7), (Sell, 5, 3)]) st = Some st'
    \<and> lv_mode st' = Streaming \<and> prev_u st' = 10 \<and> l2_repr (lv_book st') [1 \<mapsto> (Buy, 2), 3 \<mapsto> (Sell, 3)]"
proof -
  obtain st where st: "live_wf small_band 0 st" "lv_mode st = Streaming" "prev_u st = 6" "\<not> have_event st"
    using streaming_state by blast
  have m: "fold (spec_set small_band) (sn_levels later_snapshot @ [(Sell, 5, 3)]) Map.empty = [1 \<mapsto> (Buy, 2), 3 \<mapsto> (Sell, 3)]"
    by (auto simp: later_snapshot_def spec_set_def small_band_index)
  have s: "sn_ok later_snapshot" "sn_last later_snapshot = 9" by (simp_all add: later_snapshot_def small_snapshot_def)
  have "carried [(Sell, 5, 3)]" by (simp add: carried_def)
  with gap_event_loses_first_level [OF st(1,2), of 9 10 later_snapshot "\<lambda>k. later_snapshot" "[(Sell, 5, 3)]" "\<lambda>k. 0" 0 "(Buy, 4, 7)"]
    st(3,4) s m show ?thesis by auto
qed

section \<open>Snapshots and trades\<close>

text \<open>The levels of a decoded snapshot can be carried by the book, and \<open>best_bid\<close> bounds the bids.\<close>

definition level_ok :: "level_op \<Rightarrow> bool" where
  "level_ok x \<longleftrightarrow> (case x of (s, px, z) \<Rightarrow> 0 \<le> px \<and> z \<noteq> 0 \<and> z \<le> 4294967295)"

definition snapshot_ok :: "l2_snapshot \<Rightarrow> bool" where
  "snapshot_ok s \<longleftrightarrow> (\<forall>x \<in> set (sn_levels s). level_ok x)
     \<and> (\<forall>(sd, px, z) \<in> set (sn_levels s). (sd = Buy \<longrightarrow> px \<le> sn_bid s) \<and> (sd = Sell \<longrightarrow> 0 \<le> sn_ask s \<and> sn_ask s \<le> px))"

lemma load_levels_ok:
  assumes "snapshot_ok s" and "sd = Buy \<and> is_bid \<or> sd = Sell \<and> \<not> is_bid"
  shows "snapshot_ok (fst (load_levels rnd sc sd is_bid lvls s d))"
  using assms(1)
proof (induction lvls arbitrary: s d)
  case (Cons lvl lvls)
  let ?px = "px_to_ticks rnd (lvl ! 0) (price_scale sc)"
  obtain q d1 where q: "scaled_qty rnd (lvl ! 1) (size_scale sc) d = (q, d1)"
    by (cases "scaled_qty rnd (lvl ! 1) (size_scale sc) d")
  have carried: "q \<le> 4294967295" using fst_scaled_qty [of rnd "lvl ! 1" "size_scale sc" d] quantity_carried q by simp
  show ?case
  proof (cases "length lvl < 2 \<or> ?px < 0 \<or> q = 0")
    case True
    then show ?thesis using Cons.IH [OF Cons.prems] q by (auto simp: Let_def)
  next
    case False
    define s1 where "s1 = (if is_bid \<and> (sn_bid s < 0 \<or> ?px > sn_bid s) then s\<lparr>sn_bid := ?px\<rparr> else s)"
    define s2 where "s2 = (if \<not> is_bid \<and> (sn_ask s1 < 0 \<or> ?px < sn_ask s1) then s1\<lparr>sn_ask := ?px\<rparr> else s1)"
    have "snapshot_ok (s2\<lparr>sn_levels := sn_levels s2 @ [(sd, ?px, q)]\<rparr>)"
      using Cons.prems assms(2) False carried
      unfolding s2_def s1_def snapshot_ok_def by (auto simp: level_ok_def)
    moreover have "load_levels rnd sc sd is_bid (lvl # lvls) s d
        = load_levels rnd sc sd is_bid lvls (s2\<lparr>sn_levels := sn_levels s2 @ [(sd, ?px, q)]\<rparr>) d1"
      using False q by (cases is_bid) (simp_all add: Let_def s2_def s1_def)
    ultimately show ?thesis using Cons.IH by simp
  qed
qed simp

lemma fetched_snapshot_ok: "snapshot_ok (fst (fetch_snapshot rnd sc status doc d))"
proof -
  have "snapshot_ok (no_snapshot\<lparr>sn_status := status\<rparr>)" "\<And>l. snapshot_ok (no_snapshot\<lparr>sn_status := status, sn_last := l\<rparr>)"
    by (simp_all add: snapshot_ok_def no_snapshot_def)
  moreover have "snapshot_ok (s\<lparr>sn_ok := True\<rparr>)" if "snapshot_ok s" for s using that by (simp add: snapshot_ok_def)
  ultimately show ?thesis
    using load_levels_ok [of _ Buy True rnd sc] load_levels_ok [of _ Sell False rnd sc]
    by (auto simp: fetch_snapshot_def Let_def split: option.split prod.split) (metis fst_conv)
qed

text \<open>The loop for the first snapshot ends with the first usable one; its pauses stay bounded.\<close>

definition usable :: "l2_snapshot \<Rightarrow> bool" where
  "usable s \<longleftrightarrow> sn_ok s \<and> sn_bid s \<ge> 0 \<and> sn_ask s \<ge> 0"

lemma acquire_first_usable:
  assumes "k \<le> j" and "usable (fetch j)" and "\<And>i. k \<le> i \<Longrightarrow> i < j \<Longrightarrow> \<not> usable (fetch i)"
  shows "acquire fetch k b = Some (fetch j, Suc j)"
  using assms
proof (induction "j - k" arbitrary: k b)
  case 0
  then show ?case by (subst acquire.simps) (simp add: usable_def Let_def)
next
  case (Suc n)
  then have "\<not> usable (fetch k)" "acquire fetch (Suc k) (next_backoff (fetch k) b) = Some (fetch j, Suc j)" by auto
  then show ?case by (subst acquire.simps) (auto simp: usable_def Let_def)
qed

lemma next_backoff_range: "800 \<le> b \<Longrightarrow> b \<le> 30000 \<Longrightarrow> 800 \<le> next_backoff s b \<and> next_backoff s b \<le> 30000"
  by (simp add: next_backoff_def)

text \<open>The deque holds the latest forty trades, oldest first.\<close>

lemma trim_trades_latest: "trim_trades ts = drop (length ts - 40) ts"
proof (induction ts rule: trim_trades.induct)
  case (1 ts)
  show ?case
  proof (cases "length ts > 40")
    case True
    then have "length ts - 40 = Suc (length (tl ts) - 40)" by auto
    then show ?thesis using 1 [OF True] True by (subst trim_trades.simps) (simp add: drop_Suc)
  qed (subst trim_trades.simps, simp)
qed

lemma push_trades_latest:
  "length old \<le> 40 \<Longrightarrow> fold push_trade ts old = drop (length (old @ ts) - 40) (old @ ts)"
proof (induction ts arbitrary: old)
  case (Cons t ts)
  let ?new = "push_trade t old"
  have new: "?new = drop (length (old @ [t]) - 40) (old @ [t])" by (simp add: push_trade_def trim_trades_latest)
  then have "length ?new \<le> 40" by simp
  from Cons.IH [OF this] show ?case using Cons.prems by (cases "length old = 40") (auto simp: new)
qed simp

end
