(* ===== verification/Live_Switch_Props.thy ===== *)
theory Live_Switch_Props
  imports Live_Switch Live_Feed_Props
begin

text \<open>
  A symbol switch under any interleaving of the threads: no session hears another symbol's messages
  if the consumer's pause is long enough, and one may if it is not; a callback that waits for room
  in the channel keeps the program from stopping, and without such a wait it can always stop.
\<close>

section \<open>The streams of two symbols\<close>

definition heard_ok :: "'t feed \<Rightarrow> bool" where
  "heard_ok s \<longleftrightarrow> (\<forall>sid y. (sid, y, True) \<in> set (heard s) \<longrightarrow> sid \<le> f_session s \<and> y = owner s sid)"

definition connected :: "sup_pc \<Rightarrow> bool" where
  "connected p \<longleftrightarrow> p = S_watch \<or> p = S_stop"

definition renamed :: "sup_pc \<Rightarrow> bool" where
  "renamed p \<longleftrightarrow> p = S_clear \<or> p = S_bump"

definition clearing :: "sup_pc \<Rightarrow> bool" where
  "clearing p \<longleftrightarrow> p = S_trades \<or> p = S_drain"

text \<open>The consumer works for a session, and its book is built.\<close>

definition started :: "con_pc \<Rightarrow> bool" where
  "started c \<longleftrightarrow> c \<noteq> C_top \<and> c \<noteq> C_pause"

definition has_book :: "con_pc \<Rightarrow> bool" where
  "has_book c \<longleftrightarrow> (case c of C_have _ \<Rightarrow> True | C_live _ \<Rightarrow> True | C_recv _ \<Rightarrow> True | _ \<Rightarrow> False)"

lemmas pc_defs = connected_def renamed_def clearing_def started_def has_book_def

definition all_from :: "string \<Rightarrow> (string \<times> 'a) list \<Rightarrow> bool" where
  "all_from y xs \<longleftrightarrow> (\<forall>x \<in> set xs. fst x = y)"

lemma all_from_simps [simp]:
  "all_from y []" "all_from y (x # xs) \<longleftrightarrow> fst x = y \<and> all_from y xs"
  "all_from y (xs @ ys) \<longleftrightarrow> all_from y xs \<and> all_from y ys"
  by (auto simp: all_from_def)

definition stream_ok :: "'t feed \<Rightarrow> bool" where
  "stream_ok s \<longleftrightarrow>
    (connected (spc s) \<longleftrightarrow> ws_on s)
    \<and> (ws_on s \<longrightarrow> ws_session s = f_session s \<and> ws_symbol s = owner s (f_session s))
    \<and> (cb s \<noteq> Cb_idle \<longrightarrow> ws_on s)
    \<and> (\<not> renamed (spc s) \<longrightarrow> f_symbol s = owner s (f_session s))
    \<and> (\<not> clearing (spc s) \<longrightarrow> all_from (owner s (f_session s)) (f_ring s))
    \<and> (spc s \<noteq> S_trades \<longrightarrow> all_from (owner s (f_session s)) (f_trades s))"

definition session_ok :: "'t feed \<Rightarrow> bool" where
  "session_ok s \<longleftrightarrow> con_sid s \<le> f_session s
    \<and> (f_session s = con_sid s \<and> started (con s) \<longrightarrow> \<not> clearing (spc s))
    \<and> (f_session s = con_sid s \<and> has_book (con s) \<and> \<not> renamed (spc s) \<longrightarrow>
        book_symbol s = owner s (con_sid s))"

definition apart :: "'t feed \<Rightarrow> bool" where
  "apart s \<longleftrightarrow> heard_ok s \<and> (\<not> f_stop s \<longrightarrow> stream_ok s \<and> session_ok s \<and> main_at s = M_run)"

lemma apart_start: "apart (start_feed sy)"
  by (simp add: apart_def heard_ok_def stream_ok_def session_ok_def start_feed_def pc_defs)

text \<open>The fields each part does not depend on.\<close>

lemma heard_frame [simp]:
  "heard_ok (s\<lparr>f_stop := x_f_stop\<rparr>) = heard_ok s"
  "heard_ok (s\<lparr>f_symbol := x_f_symbol\<rparr>) = heard_ok s"
  "heard_ok (s\<lparr>f_pending := x_f_pending\<rparr>) = heard_ok s"
  "heard_ok (s\<lparr>f_restart := x_f_restart\<rparr>) = heard_ok s"
  "heard_ok (s\<lparr>f_ring := x_f_ring\<rparr>) = heard_ok s"
  "heard_ok (s\<lparr>f_dropped := x_f_dropped\<rparr>) = heard_ok s"
  "heard_ok (s\<lparr>f_dec := x_f_dec\<rparr>) = heard_ok s"
  "heard_ok (s\<lparr>f_trades := x_f_trades\<rparr>) = heard_ok s"
  "heard_ok (s\<lparr>ws_on := x_ws_on\<rparr>) = heard_ok s"
  "heard_ok (s\<lparr>ws_symbol := x_ws_symbol\<rparr>) = heard_ok s"
  "heard_ok (s\<lparr>ws_session := x_ws_session\<rparr>) = heard_ok s"
  "heard_ok (s\<lparr>spc := x_sup\<rparr>) = heard_ok s"
  "heard_ok (s\<lparr>cb := x_cb\<rparr>) = heard_ok s"
  "heard_ok (s\<lparr>con := x_con\<rparr>) = heard_ok s"
  "heard_ok (s\<lparr>con_sid := x_con_sid\<rparr>) = heard_ok s"
  "heard_ok (s\<lparr>con_fetches := x_con_fetches\<rparr>) = heard_ok s"
  "heard_ok (s\<lparr>main_at := x_main_at\<rparr>) = heard_ok s"
  "heard_ok (s\<lparr>book_symbol := x_book_symbol\<rparr>) = heard_ok s"
  by (simp_all add: heard_ok_def)

lemma stream_frame [simp]:
  "stream_ok (s\<lparr>f_stop := x_f_stop\<rparr>) = stream_ok s"
  "stream_ok (s\<lparr>f_pending := x_f_pending\<rparr>) = stream_ok s"
  "stream_ok (s\<lparr>f_restart := x_f_restart\<rparr>) = stream_ok s"
  "stream_ok (s\<lparr>f_dropped := x_f_dropped\<rparr>) = stream_ok s"
  "stream_ok (s\<lparr>f_dec := x_f_dec\<rparr>) = stream_ok s"
  "stream_ok (s\<lparr>con := x_con\<rparr>) = stream_ok s"
  "stream_ok (s\<lparr>con_sid := x_con_sid\<rparr>) = stream_ok s"
  "stream_ok (s\<lparr>con_fetches := x_con_fetches\<rparr>) = stream_ok s"
  "stream_ok (s\<lparr>main_at := x_main_at\<rparr>) = stream_ok s"
  "stream_ok (s\<lparr>heard := x_heard\<rparr>) = stream_ok s"
  "stream_ok (s\<lparr>book_symbol := x_book_symbol\<rparr>) = stream_ok s"
  by (simp_all add: stream_ok_def)

lemma session_frame [simp]:
  "session_ok (s\<lparr>f_stop := x_f_stop\<rparr>) = session_ok s"
  "session_ok (s\<lparr>f_symbol := x_f_symbol\<rparr>) = session_ok s"
  "session_ok (s\<lparr>f_pending := x_f_pending\<rparr>) = session_ok s"
  "session_ok (s\<lparr>f_restart := x_f_restart\<rparr>) = session_ok s"
  "session_ok (s\<lparr>f_ring := x_f_ring\<rparr>) = session_ok s"
  "session_ok (s\<lparr>f_dropped := x_f_dropped\<rparr>) = session_ok s"
  "session_ok (s\<lparr>f_dec := x_f_dec\<rparr>) = session_ok s"
  "session_ok (s\<lparr>f_trades := x_f_trades\<rparr>) = session_ok s"
  "session_ok (s\<lparr>ws_on := x_ws_on\<rparr>) = session_ok s"
  "session_ok (s\<lparr>ws_symbol := x_ws_symbol\<rparr>) = session_ok s"
  "session_ok (s\<lparr>ws_session := x_ws_session\<rparr>) = session_ok s"
  "session_ok (s\<lparr>cb := x_cb\<rparr>) = session_ok s"
  "session_ok (s\<lparr>con_fetches := x_con_fetches\<rparr>) = session_ok s"
  "session_ok (s\<lparr>main_at := x_main_at\<rparr>) = session_ok s"
  "session_ok (s\<lparr>heard := x_heard\<rparr>) = session_ok s"
  by (simp_all add: session_ok_def)

lemma heard_cong:
  assumes "heard_ok s" and "heard s' = heard s" and "f_session s \<le> f_session s'"
    and "\<And>i. i \<le> f_session s \<Longrightarrow> owner s' i = owner s i"
  shows "heard_ok s'"
  using assms unfolding heard_ok_def by (metis order_trans)

lemma apart_stopped: "f_stop s \<Longrightarrow> apart s \<longleftrightarrow> heard_ok s"
  by (simp add: apart_def)

lemma sup_heard:
  assumes "heard_ok s" and "sup_step v s = Some s'"
  shows "heard_ok s'"
  by (rule heard_cong [OF assms(1)]; use assms(2) in \<open>cases "spc s"; auto simp: sup_step_def split: if_splits list.splits\<close>)

lemma apart_sup:
  assumes "stop_joins v" and "apart s" and "sup_step v s = Some s'"
  shows "apart s'"
proof (cases "f_stop s")
  case True
  then have "heard_ok s" using assms(2) by (simp add: apart_def)
  moreover have "f_stop s'" using assms(3) True
    by (cases "spc s") (auto simp: sup_step_def split: if_splits list.splits)
  moreover have "heard_ok s'" if "heard_ok s" using sup_heard [OF that assms(3)] .
  ultimately show ?thesis by (simp add: apart_stopped)
next
  case False
  then have ok: "heard_ok s" "stream_ok s" "session_ok s" "main_at s = M_run" using assms(2) by (simp_all add: apart_def)
  have "heard_ok s'" by (rule sup_heard [OF ok(1) assms(3)])
  moreover have "stream_ok s' \<and> session_ok s' \<and> \<not> f_stop s' \<and> main_at s' = M_run"
  proof (cases "spc s")
    case S_drain
    then show ?thesis using assms(3) ok False
      by (cases "f_ring s")
        (auto simp: sup_step_def stream_ok_def session_ok_def connected_def renamed_def clearing_def)
  qed (use assms(1,3) ok False in \<open>clarsimp simp: sup_step_def stream_ok_def session_ok_def stop_joins_def
      connected_def renamed_def clearing_def split: if_splits\<close>)+
  ultimately show ?thesis by (simp add: apart_def)
qed

lemma apart_depth: "apart s \<Longrightarrow> depth_step v du recv s = Some s' \<Longrightarrow> apart s'"
  by (auto simp: depth_step_def current_def apart_def stream_ok_def split: if_splits prod.splits)

lemma all_from_trim: "all_from y ts \<Longrightarrow> all_from y (trim_trades ts)"
proof (induction ts rule: trim_trades.induct)
  case (1 ts)
  then show ?case by (subst trim_trades.simps) (cases ts, auto)
qed

lemma apart_trade: "apart s \<Longrightarrow> trade_step t s = Some s' \<Longrightarrow> apart s'"
  by (auto simp: trade_step_def push_trade_def current_def apart_def stream_ok_def connected_def all_from_trim split: if_splits)

lemma apart_send:
  assumes "apart s" and "send_step v s = Some s'"
  shows "apart s'"
proof (cases "f_stop s")
  case True
  with assms show ?thesis
    by (auto simp: send_step_def apart_stopped split: callback.splits list.splits if_splits)
next
  case False
  then have ok: "heard_ok s" "stream_ok s" "session_ok s" "main_at s = M_run" using assms(1) by (simp_all add: apart_def)
  have busy: "cb s \<noteq> Cb_idle" using assms(2) by (auto simp: send_step_def)
  then have "ws_symbol s = owner s (f_session s)" "ws_on s" "\<not> clearing (spc s)"
    using ok(2) by (auto simp: stream_ok_def connected_def clearing_def)
  with ok False assms(2) show ?thesis
    by (auto simp: send_step_def apart_def stream_ok_def split: callback.splits list.splits if_splits)
qed

lemma apart_main: "apart s \<Longrightarrow> main_step v s = Some s' \<Longrightarrow> apart s'"
  by (cases "main_at s") (auto simp: main_step_def apart_def split: if_splits intro: heard_cong [of s])

lemma apart_switch: "apart s \<Longrightarrow> switch_step want s = Some s' \<Longrightarrow> apart s'"
  by (auto simp: switch_step_def apart_def split: if_splits)

lemma con_stepE:
  assumes "con_step v s = Some s'"
  obtains (over) "con s = C_top" "f_stop s" "s' = s\<lparr>con := C_over\<rparr>"
    | (top) "con s = C_top" "\<not> f_stop s" "s' = s\<lparr>con_sid := f_session s, con := C_pause\<rparr>"
    | (quit) "\<not> live s" "s' = s\<lparr>con := C_top\<rparr>"
    | (pause) "con s = C_pause" "live s" "pause_over v (spc s)" "s' = s\<lparr>con := C_fetch\<rparr>"
    | (unusable) "con s = C_fetch" "live s" "s' = s\<lparr>con_fetches := Suc (con_fetches s)\<rparr>"
    | (have_it) s0 where "con s = C_fetch" "live s" "s0 = snap v (f_symbol s) (con_fetches s)" "snapshot_usable s0"
        "s' = s\<lparr>con_fetches := Suc (con_fetches s), con := C_have s0, book_symbol := f_symbol s\<rparr>"
    | (refused) s0 where "con s = C_have s0" "s' = s\<lparr>con := C_top\<rparr>"
    | (session) s0 bc st where "con s = C_have s0" "live s" "band_config (env_half v) s0 = Some bc"
        "start_session bc s0 (con_fetches s) = Some st" "s' = s\<lparr>con := C_live st\<rparr>"
    | (drain) st where "con s = C_live st" "live s" "s' = s\<lparr>con := C_recv st\<rparr>"
    | (empty) st where "con s = C_recv st" "f_ring s = []" "s' = s\<lparr>con := C_live st\<rparr>"
    | (message) st ym ms where "con s = C_recv st" "f_ring s = ym # ms" "take_msg v st ym ms s = Some s'"
proof (cases "con s")
  case C_top
  note step = assms [unfolded con_step_def C_top con_pc.case]
  show ?thesis
  proof (cases "f_stop s")
    case True
    then have "s' = s\<lparr>con := C_over\<rparr>" using step by simp
    then show ?thesis by (rule over [OF C_top True])
  next
    case False
    then have "s' = s\<lparr>con_sid := f_session s, con := C_pause\<rparr>" using step by simp
    then show ?thesis by (rule top [OF C_top False])
  qed
next
  case C_pause
  note step = assms [unfolded con_step_def C_pause con_pc.case]
  show ?thesis
  proof (cases "live s")
    case True
    then have "pause_over v (spc s)" "s' = s\<lparr>con := C_fetch\<rparr>" using step by (simp_all split: if_splits)
    then show ?thesis by (rule pause [OF C_pause True])
  next
    case False
    then have "s' = s\<lparr>con := C_top\<rparr>" using step by simp
    then show ?thesis by (rule quit [OF False])
  qed
next
  case C_fetch
  note step = assms [unfolded con_step_def C_fetch con_pc.case Let_def]
  show ?thesis
  proof (cases "live s")
    case True
    show ?thesis
    proof (cases "snapshot_usable (snap v (f_symbol s) (con_fetches s))")
      case u: True
      then have "s' = s\<lparr>con_fetches := Suc (con_fetches s), con := C_have (snap v (f_symbol s) (con_fetches s)),
          book_symbol := f_symbol s\<rparr>" using step True by simp
      then show ?thesis by (rule have_it [OF C_fetch True refl u])
    next
      case False
      then have "s' = s\<lparr>con_fetches := Suc (con_fetches s)\<rparr>" using step True by simp
      then show ?thesis by (rule unusable [OF C_fetch True])
    qed
  next
    case False
    then have "s' = s\<lparr>con := C_top\<rparr>" using step by simp
    then show ?thesis by (rule quit [OF False])
  qed
next
  case (C_have s0)
  note step = assms [unfolded con_step_def C_have con_pc.case]
  show ?thesis
  proof (cases "live s")
    case True
    show ?thesis
    proof (cases "band_config (env_half v) s0")
      case None
      then have "s' = s\<lparr>con := C_top\<rparr>" using step True by simp
      then show ?thesis by (rule refused [OF C_have])
    next
      case (Some bc)
      then obtain st where st: "start_session bc s0 (con_fetches s) = Some st" "s' = s\<lparr>con := C_live st\<rparr>"
        using step True by (cases "start_session bc s0 (con_fetches s)") simp_all
      show ?thesis by (rule session [OF C_have True Some st])
    qed
  next
    case False
    then have "s' = s\<lparr>con := C_top\<rparr>" using step by simp
    then show ?thesis by (rule quit [OF False])
  qed
next
  case (C_live st)
  note step = assms [unfolded con_step_def C_live con_pc.case]
  show ?thesis
  proof (cases "live s")
    case True
    then have "s' = s\<lparr>con := C_recv st\<rparr>" using step by simp
    then show ?thesis by (rule drain [OF C_live True])
  next
    case False
    then have "s' = s\<lparr>con := C_top\<rparr>" using step by simp
    then show ?thesis by (rule quit [OF False])
  qed
next
  case (C_recv st)
  note step = assms [unfolded con_step_def C_recv con_pc.case]
  show ?thesis
  proof (cases "f_ring s")
    case Nil
    then have "s' = s\<lparr>con := C_live st\<rparr>" using step by simp
    then show ?thesis by (rule empty [OF C_recv Nil])
  next
    case (Cons ym ms)
    then have "take_msg v st ym ms s = Some s'" using step by simp
    then show ?thesis by (rule message [OF C_recv Cons])
  qed
next
  case C_over
  with assms show ?thesis by (simp add: con_step_def)
qed

lemma take_msgE:
  assumes "take_msg v st ym ms s = Some s'"
  obtains st' y where "on_msg (snap v (f_symbol s)) (env_now v) (snd ym) st = Some st'"
    "y = book_symbol s \<or> y = f_symbol s"
    "s' = s\<lparr>f_ring := ms, con := C_recv st', con_fetches := lv_fetches st',
       heard := heard s @ [(con_sid s, fst ym, live s)], book_symbol := y\<rparr>"
proof -
  let ?y = "\<lambda>st'. if lv_fetches st' \<noteq> lv_fetches st \<and> sn_ok (snap v (f_symbol s) (lv_fetches st))
    then f_symbol s else book_symbol s"
  obtain st' where st': "on_msg (snap v (f_symbol s)) (env_now v) (snd ym) st = Some st'"
      "s' = s\<lparr>f_ring := ms, con := C_recv st', con_fetches := lv_fetches st',
       heard := heard s @ [(con_sid s, fst ym, live s)], book_symbol := ?y st'\<rparr>"
    using assms by (cases "on_msg (snap v (f_symbol s)) (env_now v) (snd ym) st") (simp_all add: take_msg_def)
  have "?y st' = book_symbol s \<or> ?y st' = f_symbol s" by simp
  from that [OF st'(1) this st'(2)] show thesis .
qed

lemma con_frame:
  assumes "con_step v s = Some s'"
  shows "f_stop s' = f_stop s \<and> f_session s' = f_session s \<and> owner s' = owner s \<and> spc s' = spc s
    \<and> main_at s' = main_at s"
  using assms
proof (cases rule: con_stepE)
  case (message st ym ms)
  from message(3) show ?thesis by (rule take_msgE) simp
qed simp_all

lemma con_stream:
  assumes "con_step v s = Some s'" and "stream_ok s"
  shows "stream_ok s'"
  using assms(1)
proof (cases rule: con_stepE)
  case (message st ym ms)
  from message(3) show ?thesis
    by (rule take_msgE) (use assms(2) message(2) in \<open>simp add: stream_ok_def\<close>)
qed (use assms(2) in simp_all)

lemma con_heard:
  assumes "con_step v s = Some s'" and "heard_ok s" and "live s \<Longrightarrow> stream_ok s \<and> session_ok s"
  shows "heard_ok s'"
  using assms(1)
proof (cases rule: con_stepE)
  case (message st ym ms)
  have "heard_ok (s\<lparr>heard := heard s @ [(con_sid s, fst ym, live s)]\<rparr>)"
  proof (cases "live s")
    case True
    then have "\<not> clearing (spc s)" using assms(3) message(1) by (simp add: session_ok_def live_def started_def)
    then have "fst ym = owner s (con_sid s)" using assms(3) True message(2) by (simp add: stream_ok_def live_def)
    then show ?thesis using assms(2) True by (auto simp: heard_ok_def live_def)
  next
    case False
    then show ?thesis using assms(2) by (simp add: heard_ok_def)
  qed
  then have h: "heard_ok (s\<lparr>f_ring := ms, con := C_recv st', con_fetches := n,
      heard := heard s @ [(con_sid s, fst ym, live s)], book_symbol := y\<rparr>)" for st' n y
    by (simp add: heard_ok_def)
  from message(3) show ?thesis by (rule take_msgE) (simp only: h)
qed (use assms(2) in simp_all)

lemma con_session:
  assumes "pause_suffices v" and "con_step v s = Some s'" and "\<not> f_stop s" and "session_ok s" and "stream_ok s"
  shows "session_ok s'"
  using assms(2)
proof (cases rule: con_stepE)
  case pause
  then have "\<not> clearing (spc s)" using assms(1) by (auto simp: pause_suffices_def clearing_def)
  with pause assms(4) show ?thesis by (simp add: session_ok_def started_def has_book_def)
next
  case (have_it s0)
  with assms(4,5) show ?thesis by (simp add: session_ok_def stream_ok_def live_def started_def has_book_def)
next
  case (message st ym ms)
  from message(3) show ?thesis
  proof (rule take_msgE)
    fix st' y
    assume y: "y = book_symbol s \<or> y = f_symbol s"
      and s': "s' = s\<lparr>f_ring := ms, con := C_recv st', con_fetches := lv_fetches st',
        heard := heard s @ [(con_sid s, fst ym, live s)], book_symbol := y\<rparr>"
    have "y = owner s (con_sid s)" if "f_session s = con_sid s" "\<not> renamed (spc s)"
      using y that assms(4,5) message(1) by (auto simp: session_ok_def stream_ok_def has_book_def)
    then show ?thesis using assms(4) message(1) by (simp add: s' session_ok_def started_def)
  qed
qed (use assms(3,4) in \<open>simp_all add: session_ok_def started_def has_book_def live_def\<close>)

lemma apart_con:
  assumes "pause_suffices v" and "apart s" and "con_step v s = Some s'"
  shows "apart s'"
proof -
  have ap: "heard_ok s" "\<not> f_stop s \<Longrightarrow> stream_ok s \<and> session_ok s \<and> main_at s = M_run"
    using assms(2) by (simp_all add: apart_def)
  have "heard_ok s'" by (rule con_heard [OF assms(3) ap(1)]) (simp add: ap(2) live_def)
  with con_frame [OF assms(3)] con_stream [OF assms(3)] con_session [OF assms(1,3)] ap(2) show ?thesis
    by (simp add: apart_def)
qed

lemma apart_step:
  assumes "stop_joins v" and "pause_suffices v" and "apart s" and "feed_step v t s = Some s'"
  shows "apart s'"
  using assms(4) apart_sup [OF assms(1,3)] apart_con [OF assms(2,3)] apart_main [OF assms(3)] apart_send [OF assms(3)]
    apart_depth [OF assms(3)] apart_trade [OF assms(3)] apart_switch [OF assms(3)]
  unfolding feed_step_def by (cases t) simp_all

lemma apart_run:
  assumes "stop_joins v" and "pause_suffices v" and "apart s" and "feed_turns v ts s = Some s'"
  shows "apart s'"
  using assms(3,4)
  by (induction ts arbitrary: s) (auto split: option.splits dest: apart_step [OF assms(1,2)])

lemma list_hears_symbol:
  assumes "stop_joins v" and "pause_suffices v" and "feed_turns v ts (start_feed sy) = Some s"
  shows "(\<forall>(sid, y, cur) \<in> set (heard s). cur \<longrightarrow> y = owner s sid)
    \<and> (\<not> f_stop s \<and> spc s \<notin> {S_clear, S_bump, S_trades, S_drain} \<longrightarrow>
        f_symbol s = owner s (f_session s) \<and> (\<forall>yt \<in> set (f_trades s). fst yt = f_symbol s)
        \<and> (\<forall>st. live s \<and> con s \<in> {C_live st, C_recv st} \<longrightarrow> book_symbol s = f_symbol s))"
proof -
  have ap: "heard_ok s" "\<not> f_stop s \<Longrightarrow> stream_ok s \<and> session_ok s"
    using apart_run [OF assms(1,2) apart_start assms(3)] by (simp_all add: apart_def)
  have "(\<forall>yt \<in> set (f_trades s). fst yt = f_symbol s) \<and> f_symbol s = owner s (f_session s)
      \<and> (live s \<and> has_book (con s) \<longrightarrow> book_symbol s = f_symbol s)"
    if "\<not> f_stop s" "\<not> renamed (spc s)" "\<not> clearing (spc s)"
    using ap(2) [OF that(1)] that
    by (simp add: stream_ok_def session_ok_def all_from_def live_def clearing_def)
  moreover have "has_book (C_live st)" "has_book (C_recv st)" for st by (simp_all add: has_book_def)
  ultimately show ?thesis using ap(1) by (auto simp: heard_ok_def renamed_def clearing_def)
qed


section \<open>A drain that comes late\<close>

definition quiet_update :: depth_update where
  "quiet_update = \<lparr>du_first = 0, du_last = 0, du_bids = None, du_asks = None\<rparr>"

lemma quiet_update_msgs: "on_depth rnd sc quiet_update recv d = ([header_msg recv 0 0], d)"
  by (simp add: on_depth_def quiet_update_def levels_of_def)

lemma turns_append:
  "feed_turns v (ts @ us) s = (case feed_turns v ts s of None \<Rightarrow> None | Some s \<Rightarrow> feed_turns v us s)"
  by (induction ts arbitrary: s) (auto split: option.split)

lemma turns_join: "feed_turns v ts s = Some s1 \<Longrightarrow> feed_turns v us s1 = Some s2 \<Longrightarrow> feed_turns v (ts @ us) s = Some s2"
  by (simp add: turns_append)

lemmas turn_defs = feed_step_def sup_step_def con_step_def main_step_def send_step_def depth_step_def switch_step_def
  start_feed_def current_def live_def quiet_update_msgs

text \<open>The callback has sent one message of the old stream, and the supervisor is about to empty the channel.\<close>

lemma switch_underway:
  assumes "stop_joins v" and "0 < env_cap v"
  shows "feed_turns v [Sup, Sup, Depth quiet_update 0, Send, Send, Switch new, Sup, Sup, Sup, Sup, Sup, Sup, Sup] (start_feed old)
    = Some ((start_feed old)\<lparr>f_symbol := new, f_pending := new, f_session := 1, f_ring := [(old, header_msg 0 0 0)],
        ws_symbol := old, spc := S_drain, owner := (\<lambda>_. old)(1 := new)\<rparr>)"
  using assms by (simp add: turn_defs stop_joins_def)

text \<open>
  A consumer that gets past its pause before the supervisor has drained the channel takes messages
  of the old symbol into the new session.
\<close>

lemma late_drain_mixes_streams:
  assumes "stop_joins v" and "0 < env_cap v" and "pause_over v S_drain"
    and "snapshot_usable (snap v new 0)" and "band_config (env_half v) (snap v new 0) = Some bc" and "in_i64 (max_price bc)"
  shows "\<exists>ts s. feed_turns v ts (start_feed old :: 't feed) = Some s
    \<and> (1, old, True) \<in> set (heard s) \<and> owner s 1 = new \<and> book_symbol s = new"
proof -
  let ?s1 = "(start_feed old :: 't feed)\<lparr>f_symbol := new, f_pending := new, f_session := 1, f_ring := [(old, header_msg 0 0 0)],
        ws_symbol := old, spc := S_drain, owner := (\<lambda>_. old)(1 := new)\<rparr>"
  obtain h b where st: "start_session bc (snap v new 0) 1 = Some \<lparr>lv_book = b, lv_hist = h, lv_last = sn_last (snap v new 0),
      lv_mode = Seeking, prev_u = 0, have_event = False, cur_U = 0, cur_apply = False, gaps = 0, resyncs = 0,
      lv_fetches = 1, lv_clock = 0\<rparr>" (is "_ = Some ?st")
    and "l2_repr b (fold (spec_set (fix_config bc)) (sn_levels (snap v new 0)) Map.empty)" "bk_cfg b = fix_config bc" "hist_room h 0"
    using start_session_ok [OF band_config_good [OF assms(5,6)], of "snap v new 0" 1] by blast
  then have "live_wf (fix_config bc) 0 ?st" by (auto simp: live_wf_def)
  then obtain st' where msg: "on_msg (snap v new) (env_now v) (header_msg 0 0 0) ?st = Some st'"
    using on_msg_wf [of "fix_config bc" 0 ?st "snap v new" "env_now v" "header_msg 0 0 0"] by auto
  obtain s where s: "feed_turns v [Con, Con, Con, Con, Con, Con] ?s1 = Some s" "(1, old, True) \<in> set (heard s)" "owner s 1 = new"
      "book_symbol s = new"
    using assms(3-5) st msg by (simp add: turn_defs take_msg_def Let_def)
  from turns_join [OF switch_underway [OF assms(1,2), of new old] s(1)] s(2-4) show ?thesis by blast
qed


section \<open>The end of the program\<close>

text \<open>A callback that waits for room, and no consumer left to make any.\<close>

definition stuck :: "env \<Rightarrow> callback \<Rightarrow> 't feed \<Rightarrow> bool" where
  "stuck v c s \<longleftrightarrow> f_stop s \<and> con s = C_over \<and> cb s = c \<and> (\<exists>m ms. c = Cb_sending (m # ms))
    \<and> env_cap v \<le> length (f_ring s) \<and> (spc s = S_watch \<or> spc s = S_stop) \<and> (main_at s = M_close \<or> main_at s = M_stop)"

lemma stuck_step:
  assumes "stop_joins v" and "env_policy v = Block" and "stuck v c s" and "feed_step v t s = Some s'"
  shows "stuck v c s'"
proof -
  obtain m ms where s: "f_stop s" "con s = C_over" "cb s = c" "c = Cb_sending (m # ms)" "env_cap v \<le> length (f_ring s)"
      "spc s = S_watch \<or> spc s = S_stop" "main_at s = M_close \<or> main_at s = M_stop"
    using assms(3) by (auto simp: stuck_def)
  show ?thesis
  proof (cases t)
    case Sup
    from s(6) show ?thesis
      by (rule disjE; use assms(1,4) s in \<open>clarsimp simp: Sup feed_step_def sup_step_def stop_joins_def stuck_def\<close>)
  next
    case Main
    from s(7) show ?thesis
      by (rule disjE; use assms(1,4) s in \<open>clarsimp simp: Main feed_step_def main_step_def stop_joins_def stuck_def\<close>)
  qed (use assms(2,4) s in \<open>clarsimp simp: feed_step_def con_step_def send_step_def depth_step_def trade_step_def
      switch_step_def current_def stuck_def split: if_splits\<close>)+
qed

lemma stuck_turns:
  assumes "stop_joins v" and "env_policy v = Block" and "stuck v c s" and "feed_turns v ts s = Some s'"
  shows "stuck v c s'"
  using assms(3,4)
  by (induction ts arbitrary: s) (auto split: option.splits dest: stuck_step [OF assms(1,2)])

text \<open>The stream runs and the consumer tries to get a snapshot, with \<open>n\<close> messages in the channel.\<close>

definition waiting_feed :: "string \<Rightarrow> nat \<Rightarrow> 't feed" where
  "waiting_feed sy n = (start_feed sy)\<lparr>f_ring := replicate n (sy, header_msg 0 0 0), ws_on := True, ws_symbol := sy,
     spc := S_watch, con := C_fetch, con_fetches := 1\<rparr>"

lemma waiting_start:
  assumes "stop_joins v" and "pause_over v S_watch" and "\<not> snapshot_usable (snap v sy 0)"
  shows "feed_turns v [Sup, Sup, Con, Con, Con] (start_feed sy) = Some (waiting_feed sy 0)"
  using assms by (simp add: turn_defs stop_joins_def waiting_feed_def)

lemma waiting_fill:
  assumes "n + k \<le> env_cap v"
  shows "feed_turns v (concat (replicate k [Depth quiet_update 0, Send, Send])) (waiting_feed sy n)
    = Some (waiting_feed sy (n + k))"
  using assms
proof (induction k arbitrary: n)
  case (Suc k)
  have "feed_turns v [Depth quiet_update 0, Send, Send] (waiting_feed sy n) = Some (waiting_feed sy (Suc n))"
    using Suc.prems by (simp add: turn_defs waiting_feed_def replicate_append_same [symmetric])
  from turns_join [OF this Suc.IH [of "Suc n"]] Suc.prems show ?case by simp
qed simp

text \<open>
  C14. Under Block, a run exists after which shutdown never completes: the callback waits in
  send for room that no consumer will make, stop waits for the callback, and neither the
  supervisor nor main can end, whatever the threads do.
\<close>

theorem blocked_callback_hangs_shutdown:
  assumes "stop_joins v" and "env_policy v = Block" and "pause_over v S_watch" and "\<not> snapshot_usable (snap v sy 0)"
  shows "\<exists>ts s. feed_turns v ts (start_feed sy :: 't feed) = Some s \<and> f_stop s
    \<and> (\<forall>us s'. feed_turns v us s = Some s' \<longrightarrow> cb s' = cb s \<and> spc s' \<noteq> S_done \<and> main_at s' \<noteq> M_done)"
proof -
  let ?n = "env_cap v"
  let ?s = "(waiting_feed sy ?n :: 't feed)\<lparr>cb := Cb_sending [header_msg 0 0 0], f_stop := True, main_at := M_close, con := C_over\<rparr>"
  have "feed_turns v [Depth quiet_update 0, Main, Con, Con] (waiting_feed sy ?n) = Some ?s"
    by (simp add: turn_defs waiting_feed_def)
  moreover have "feed_turns v (concat (replicate ?n [Depth quiet_update 0, Send, Send])) (waiting_feed sy 0)
      = Some (waiting_feed sy ?n)" using waiting_fill [of 0 ?n v sy] by simp
  ultimately obtain ts where ts: "feed_turns v ts (start_feed sy) = Some ?s"
    using turns_join [OF waiting_start [OF assms(1,3,4)] turns_join] by blast
  have "stuck v (Cb_sending [header_msg 0 0 0]) ?s" by (simp add: stuck_def waiting_feed_def start_feed_def)
  from stuck_turns [OF assms(1,2) this]
  have "\<forall>us s'. feed_turns v us ?s = Some s' \<longrightarrow> cb s' = cb ?s \<and> spc s' \<noteq> S_done \<and> main_at s' \<noteq> M_done"
    by (fastforce simp: stuck_def)
  with ts show ?thesis by (intro exI [of _ ts] exI [of _ ?s]) simp
qed

text \<open>How much is left to do after \<open>main\<close> has raised the stop flag.\<close>

definition main_left :: "main_pc \<Rightarrow> nat" where
  "main_left p = (case p of M_run \<Rightarrow> 4 | M_close \<Rightarrow> 3 | M_stop \<Rightarrow> 2 | M_join \<Rightarrow> 1 | M_done \<Rightarrow> 0)"

definition sup_left :: "sup_pc \<Rightarrow> nat" where
  "sup_left p = (case p of S_done \<Rightarrow> 0 | S_decide \<Rightarrow> 8 | S_stop \<Rightarrow> 9 | S_watch \<Rightarrow> 10 | S_connect \<Rightarrow> 11 | S_loop \<Rightarrow> 1
     | S_rest \<Rightarrow> 2 | S_drain \<Rightarrow> 3 | S_trades \<Rightarrow> 4 | S_bump \<Rightarrow> 5 | S_clear \<Rightarrow> 6 | S_rename \<Rightarrow> 7)"

definition con_left :: "con_pc \<Rightarrow> nat" where
  "con_left p = (case p of C_over \<Rightarrow> 0 | C_top \<Rightarrow> 1 | C_recv _ \<Rightarrow> 3 | _ \<Rightarrow> 2)"

definition cb_left :: "callback \<Rightarrow> nat" where
  "cb_left c = (case c of Cb_idle \<Rightarrow> 0 | Cb_sending ms \<Rightarrow> Suc (2 * length ms))"

definition left :: "'t feed \<Rightarrow> nat" where
  "left s = main_left (main_at s) + sup_left (spc s) + con_left (con s) + cb_left (cb s) + length (f_ring s)"

text \<open>The stop flag is up, the callback cannot block, and the messages in the channel can be handled.\<close>

definition closing :: "env \<Rightarrow> 't feed \<Rightarrow> bool" where
  "closing v s \<longleftrightarrow> f_stop s \<and> (env_policy v = Drop_item \<or> cb s = Cb_idle)
    \<and> (\<forall>st. con s = C_recv st \<longrightarrow> (\<exists>cfg n. live_wf cfg n st \<and> n + length (f_ring s) < 2 ^ 64))"

lemma close_con:
  assumes "closing v s" and "con s \<noteq> C_over"
  shows "\<exists>s'. feed_step v Con s = Some s' \<and> closing v s' \<and> left s' < left s"
proof (cases "con s")
  case (C_recv st)
  show ?thesis
  proof (cases "f_ring s")
    case Nil
    then show ?thesis using assms C_recv
      by (simp add: feed_step_def con_step_def closing_def left_def con_left_def)
  next
    case (Cons ym ms)
    obtain cfg n where wf: "live_wf cfg n st" "n + length (f_ring s) < 2 ^ 64"
      using assms(1) C_recv by (auto simp: closing_def)
    then have "Suc n < 2 ^ 64" using Cons by simp
    from on_msg_wf [OF wf(1) this] obtain st' where st': "on_msg (snap v (f_symbol s)) (env_now v) (snd ym) st = Some st'"
      "live_wf cfg (Suc n) st'" by blast
    define y where "y = (if lv_fetches st' \<noteq> lv_fetches st \<and> sn_ok (snap v (f_symbol s) (lv_fetches st))
                       then f_symbol s else book_symbol s)"
    have "feed_step v Con s = Some (s\<lparr>f_ring := ms, con := C_recv st', con_fetches := lv_fetches st',
        heard := heard s @ [(con_sid s, fst ym, False)], book_symbol := y\<rparr>)"
      using st'(1) assms(1) C_recv Cons by (simp add: feed_step_def con_step_def take_msg_def closing_def live_def y_def)
    moreover have "\<exists>cfg n. live_wf cfg n st' \<and> n + length ms < 2 ^ 64"
      using st'(2) wf(2) Cons by (intro exI [of _ cfg] exI [of _ "Suc n"]) simp
    ultimately show ?thesis using assms(1) Cons C_recv
      by (simp add: closing_def left_def con_left_def)
  qed
qed (use assms in \<open>simp_all add: feed_step_def con_step_def live_def closing_def left_def con_left_def\<close>)

lemma close_send:
  assumes "closing v s" and "con s = C_over" and "cb s \<noteq> Cb_idle"
  shows "\<exists>s'. feed_step v Send s = Some s' \<and> closing v s' \<and> con s' = C_over \<and> left s' < left s"
proof -
  obtain ms where c: "cb s = Cb_sending ms" using assms(3) by (cases "cb s") auto
  show ?thesis
  proof (cases ms)
    case Nil
    then show ?thesis using assms c by (simp add: feed_step_def send_step_def closing_def left_def cb_left_def)
  next
    case (Cons m ms')
    have "env_policy v = Drop_item" using assms(1) c by (simp add: closing_def)
    then show ?thesis using assms c Cons
      by (cases "length (f_ring s) < env_cap v")
        (simp_all add: feed_step_def send_step_def closing_def left_def cb_left_def)
  qed
qed

lemma close_sup:
  assumes "stop_joins v" and "closing v s" and "con s = C_over" and "cb s = Cb_idle" and "spc s \<noteq> S_done"
  shows "\<exists>s'. feed_step v Sup s = Some s' \<and> closing v s' \<and> left s' < left s"
proof (cases "spc s")
  case S_drain
  then show ?thesis using assms
    by (cases "f_ring s") (simp_all add: feed_step_def sup_step_def closing_def left_def sup_left_def)
qed (use assms in \<open>simp_all add: feed_step_def sup_step_def closing_def left_def sup_left_def stop_joins_def\<close>)

lemma close_main:
  assumes "stop_joins v" and "closing v s" and "con s = C_over" and "cb s = Cb_idle" and "spc s = S_done"
    and "main_at s \<noteq> M_done"
  shows "\<exists>s'. feed_step v Main s = Some s' \<and> closing v s' \<and> left s' < left s"
  using assms
  by (cases "main_at s") (simp_all add: feed_step_def main_step_def closing_def left_def main_left_def stop_joins_def)

lemma close_step:
  assumes "stop_joins v" and "closing v s" and "main_at s \<noteq> M_done"
  shows "\<exists>t s'. feed_step v t s = Some s' \<and> closing v s' \<and> left s' < left s"
  using close_con [OF assms(2)] close_send [OF assms(2)] close_sup [OF assms(1,2)] close_main [OF assms(1,2) _ _ _ assms(3)]
  by blast

lemma close_turns:
  assumes "stop_joins v" and "closing v s"
  shows "\<exists>ts s'. feed_turns v ts s = Some s' \<and> main_at s' = M_done"
  using assms(2)
proof (induction "left s" arbitrary: s rule: less_induct)
  case less
  show ?case
  proof (cases "main_at s = M_done")
    case True
    then show ?thesis by (intro exI [of _ "[]"] exI [of _ s]) simp
  next
    case False
    from close_step [OF assms(1) less.prems this] obtain t s1
      where s1: "feed_step v t s = Some s1" "closing v s1" "left s1 < left s" by blast
    from less.hyps [OF s1(3,2)] obtain ts s' where "feed_turns v ts s1 = Some s'" "main_at s' = M_done" by blast
    with s1(1) show ?thesis by (intro exI [of _ "t # ts"] exI [of _ s']) simp
  qed
qed

text \<open>What holds after \<open>k\<close> turns.\<close>

definition wf_upto :: "nat \<Rightarrow> live_state \<Rightarrow> bool" where
  "wf_upto k st \<longleftrightarrow> (\<exists>cfg n. live_wf cfg n st \<and> n \<le> k)"

text \<open>The bands of the snapshots the exchange may return are within the integers.\<close>

definition bands_fit :: "env \<Rightarrow> bool" where
  "bands_fit v \<longleftrightarrow> (\<forall>y n bc. band_config (env_half v) (snap v y n) = Some bc \<longrightarrow> in_i64 (max_price bc))"

definition counted :: "env \<Rightarrow> nat \<Rightarrow> 't feed \<Rightarrow> bool" where
  "counted v k s \<longleftrightarrow> length (f_ring s) \<le> env_cap v \<and> (f_stop s \<longleftrightarrow> main_at s \<noteq> M_run)
    \<and> (\<forall>st. con s = C_live st \<or> con s = C_recv st \<longrightarrow> wf_upto k st)
    \<and> (\<forall>s0. con s = C_have s0 \<longrightarrow> (\<exists>y n. s0 = snap v y n))"

lemma wf_upto_mono: "wf_upto k st \<Longrightarrow> wf_upto (Suc k) st"
  unfolding wf_upto_def using le_SucI by blast

lemma counted_mono: "counted v k s \<Longrightarrow> counted v (Suc k) s"
  by (simp add: counted_def wf_upto_mono)

lemma counted_con:
  assumes band: "bands_fit v" and "counted v k s" and "con_step v s = Some s'" and "Suc k < 2 ^ 64"
  shows "counted v (Suc k) s'"
  using assms(3)
proof (cases rule: con_stepE)
  case (session s0 bc st)
  obtain y n where "s0 = snap v y n" using assms(2) session(1) by (auto simp: counted_def)
  then have "in_i64 (max_price bc)" using band session(3) by (auto simp: bands_fit_def)
  then have "good_config (fix_config bc)" using band_config_good session(3) by blast
  from start_session_ok [OF this, of s0 "con_fetches s"] session(4) have "live_wf (fix_config bc) 0 st"
    by (auto simp: live_wf_def)
  then have "wf_upto (Suc k) st" by (auto simp: wf_upto_def)
  then show ?thesis using assms(2) session(5) by (simp add: counted_def)
next
  case (have_it s0)
  then show ?thesis using assms(2) by (auto simp: counted_def)
next
  case (drain st)
  then show ?thesis using assms(2) wf_upto_mono by (simp add: counted_def)
next
  case (empty st)
  then show ?thesis using assms(2) wf_upto_mono by (simp add: counted_def)
next
  case (message st ym ms)
  then obtain cfg n where wf: "live_wf cfg n st" "n \<le> k" using assms(2) by (auto simp: counted_def wf_upto_def)
  have s: "length ms \<le> env_cap v" "f_stop s \<longleftrightarrow> main_at s \<noteq> M_run" using assms(2) message(2) by (simp_all add: counted_def)
  from message(3) show ?thesis
  proof (rule take_msgE)
    fix st' y
    assume m: "on_msg (snap v (f_symbol s)) (env_now v) (snd ym) st = Some st'"
      and s': "s' = s\<lparr>f_ring := ms, con := C_recv st', con_fetches := lv_fetches st',
        heard := heard s @ [(con_sid s, fst ym, live s)], book_symbol := y\<rparr>"
    have "live_wf cfg (Suc n) st'"
      using on_msg_wf [OF wf(1), of "snap v (f_symbol s)" "env_now v" "snd ym"] wf(2) assms(4) m by simp
    then have "wf_upto (Suc k) st'" using wf(2) unfolding wf_upto_def by blast
    with s show ?thesis by (simp add: s' counted_def)
  qed
qed (use assms(2) in \<open>simp_all add: counted_def\<close>)

lemma counted_others:
  assumes "counted v k s" and "feed_step v t s = Some s'" and "t \<noteq> Con"
  shows "counted v k s'"
proof (cases t)
  case Sup
  then show ?thesis using assms(1,2)
    by (cases "spc s"; cases "f_ring s") (auto simp: feed_step_def sup_step_def counted_def split: if_splits)
next
  case Main
  then show ?thesis using assms(1,2)
    by (cases "main_at s") (auto simp: feed_step_def main_step_def counted_def split: if_splits)
next
  case Send
  then show ?thesis using assms(1,2)
    by (auto simp: feed_step_def send_step_def counted_def split: if_splits callback.splits list.splits)
qed (use assms in \<open>auto simp: feed_step_def depth_step_def trade_step_def switch_step_def counted_def split: if_splits prod.splits\<close>)

lemma counted_turns:
  assumes "bands_fit v"
    and "counted v k s" and "feed_turns v ts s = Some s'" and "k + length ts < 2 ^ 64"
  shows "counted v (k + length ts) s'"
  using assms(2-4)
proof (induction ts arbitrary: k s)
  case (Cons t ts)
  then obtain s1 where s1: "feed_step v t s = Some s1" "feed_turns v ts s1 = Some s'" by (auto split: option.splits)
  have "counted v (Suc k) s1"
  proof (cases "t = Con")
    case True
    then show ?thesis using counted_con [OF assms(1) Cons.prems(1)] s1(1) Cons.prems(3) by (simp add: feed_step_def)
  next
    case False
    then show ?thesis using counted_others [OF Cons.prems(1) s1(1)] counted_mono by blast
  qed
  from Cons.IH [OF this s1(2)] Cons.prems(3) show ?case by simp
qed simp

text \<open>
  C15. From every state a feed can reach, if the channel drops or no callback is under way, the
  threads can run on until main has joined them: no interleaving of symbol switches, snapshots
  and messages leads to a deadlock.
\<close>

theorem feed_can_always_stop:
  assumes "stop_joins v" and "bands_fit v"
    and "feed_turns v ts (start_feed sy) = Some s" and "length ts + env_cap v < 2 ^ 64"
    and "env_policy v = Drop_item \<or> cb s = Cb_idle"
  shows "\<exists>us s'. feed_turns v us s = Some s' \<and> main_at s' = M_done"
proof -
  have "counted v 0 (start_feed sy)" by (simp add: counted_def start_feed_def)
  from counted_turns [OF assms(2) this assms(3)] assms(4) have c: "counted v (length ts) s" by simp
  have fits: "\<exists>cfg n. live_wf cfg n st \<and> n + length (f_ring s) < 2 ^ 64" if "con s = C_recv st" for st
  proof -
    obtain cfg n where "live_wf cfg n st" "n \<le> length ts" using c \<open>con s = C_recv st\<close> by (auto simp: counted_def wf_upto_def)
    then show ?thesis using c assms(4) by (intro exI [of _ cfg] exI [of _ n]) (simp add: counted_def)
  qed
  show ?thesis
  proof (cases "f_stop s")
    case True
    then have "closing v s" using assms(5) fits by (simp add: closing_def)
    then show ?thesis by (rule close_turns [OF assms(1)])
  next
    case False
    then have "main_at s = M_run" using c by (simp add: counted_def)
    then have run: "feed_step v Main s = Some (s\<lparr>f_stop := True, main_at := M_close\<rparr>)"
      by (simp add: feed_step_def main_step_def)
    have "closing v (s\<lparr>f_stop := True, main_at := M_close\<rparr>)" using assms(5) fits by (simp add: closing_def)
    from close_turns [OF assms(1) this] obtain us s' where
      "feed_turns v us (s\<lparr>f_stop := True, main_at := M_close\<rparr>) = Some s'" "main_at s' = M_done" by blast
    with run show ?thesis by (intro exI [of _ "Main # us"] exI [of _ s']) simp
  qed
qed

section \<open>Concrete runs\<close>

definition small_env :: "backpressure \<Rightarrow> (sup_pc \<Rightarrow> bool) \<Rightarrow> l2_snapshot \<Rightarrow> env" where
  "small_env pol over s0 = \<lparr>env_cap = 2, env_policy = pol, env_rnd = unary, env_scales = unit_scales, env_half = (\<lambda>mid. 2),
     snap = (\<lambda>y n. s0), env_now = (\<lambda>k. 0), stops = (\<lambda>c. c = Cb_idle), pause_over = over\<rparr>"

lemma small_env_simps [simp]:
  "env_cap (small_env pol over s0) = 2" "env_policy (small_env pol over s0) = pol" "snap (small_env pol over s0) y n = s0"
  "pause_over (small_env pol over s0) = over" "stop_joins (small_env pol over s0)"
  "env_half (small_env pol over s0) = (\<lambda>mid. 2)"
  by (simp_all add: small_env_def stop_joins_def)

lemma small_snapshot_facts: "snapshot_usable small_snapshot" "in_i64 (max_price small_band)"
  by (simp_all add: snapshot_usable_def small_snapshot_def in_i64_def small_band_def)

lemma late_drain_mixes_streams_witness:
  "\<exists>ts s. feed_turns (small_env Block (\<lambda>p. True) small_snapshot) ts (start_feed ''BTCUSDT'' :: nat feed) = Some s
    \<and> (1, ''BTCUSDT'', True) \<in> set (heard s) \<and> owner s 1 = ''ETHUSDT'' \<and> book_symbol s = ''ETHUSDT''"
  by (rule late_drain_mixes_streams [where bc = small_band])
    (simp_all add: small_band_config small_snapshot_facts)

lemma blocked_callback_hangs_shutdown_witness:
  "\<exists>ts s. feed_turns (small_env Block (\<lambda>p. True) no_snapshot) ts (start_feed ''BTCUSDT'' :: nat feed) = Some s \<and> f_stop s
    \<and> (\<forall>us s'. feed_turns (small_env Block (\<lambda>p. True) no_snapshot) us s = Some s' \<longrightarrow>
        cb s' = cb s \<and> spc s' \<noteq> S_done \<and> main_at s' \<noteq> M_done)"
  by (rule blocked_callback_hangs_shutdown) (simp_all add: snapshot_usable_def no_snapshot_def)

lemma feed_can_always_stop_witness:
  "\<exists>s us s'. feed_turns (small_env Drop_item (\<lambda>p. True) small_snapshot) [Sup, Sup, Depth quiet_update 0]
      (start_feed ''BTCUSDT'' :: nat feed) = Some s \<and> cb s \<noteq> Cb_idle
    \<and> feed_turns (small_env Drop_item (\<lambda>p. True) small_snapshot) us s = Some s' \<and> main_at s' = M_done"
proof -
  let ?v = "small_env Drop_item (\<lambda>p. True) small_snapshot"
  have fit: "bands_fit ?v" using small_band_config small_snapshot_facts(2) by (simp add: bands_fit_def)
  obtain s where s: "feed_turns ?v [Sup, Sup, Depth quiet_update 0] (start_feed ''BTCUSDT'' :: nat feed) = Some s"
      "cb s \<noteq> Cb_idle" by (simp add: turn_defs small_env_def)
  from feed_can_always_stop [OF _ fit s(1)] s show ?thesis by auto
qed

lemma hearing_run:
  "\<exists>s st. feed_turns (small_env Block (\<lambda>p. p = S_watch) small_snapshot)
      [Sup, Sup, Con, Con, Con, Con, Con, Depth quiet_update 0, Send, Send, Con] (start_feed ''BTCUSDT'' :: nat feed) = Some s
    \<and> heard s = [(0, ''BTCUSDT'', True)] \<and> con s = C_recv st \<and> spc s = S_watch \<and> \<not> f_stop s \<and> f_session s = 0 \<and> con_sid s = 0
    \<and> f_symbol s = ''BTCUSDT''"
proof -
  let ?v = "small_env Block (\<lambda>p. p = S_watch) small_snapshot"
  obtain h b where st: "start_session small_band small_snapshot 1 = Some \<lparr>lv_book = b, lv_hist = h, lv_last = 5,
      lv_mode = Seeking, prev_u = 0, have_event = False, cur_U = 0, cur_apply = False, gaps = 0, resyncs = 0,
      lv_fetches = 1, lv_clock = 0\<rparr>" (is "_ = Some ?st")
    and "l2_repr b (fold (spec_set (fix_config small_band)) (sn_levels small_snapshot) Map.empty)"
      "bk_cfg b = fix_config small_band" "hist_room h 0"
    using start_session_ok [OF band_config_good [OF small_band_config small_snapshot_facts(2)], of small_snapshot 1]
    by (auto simp: small_snapshot_def)
  then have "live_wf (fix_config small_band) 0 ?st" by (auto simp: live_wf_def)
  then obtain st' where msg: "on_msg (\<lambda>n. small_snapshot) (\<lambda>k. 0) (header_msg 0 0 0) ?st = Some st'"
    using on_msg_wf [of "fix_config small_band" 0 ?st "\<lambda>n. small_snapshot" "\<lambda>k. 0" "header_msg 0 0 0"] by auto
  obtain s where s: "feed_turns ?v [Sup, Sup, Con, Con, Con, Con, Con, Depth quiet_update 0, Send, Send, Con]
      (start_feed ''BTCUSDT'' :: nat feed) = Some s" "heard s = [(0, ''BTCUSDT'', True)]" "con s = C_recv st'" "spc s = S_watch"
      "f_stop s = False" "f_session s = 0" "con_sid s = 0" "f_symbol s = ''BTCUSDT''"
    using small_snapshot_facts(1) small_band_config st msg
    by (simp add: turn_defs take_msg_def Let_def small_env_def)
  then show ?thesis by blast
qed

text \<open>
  A session that has been replaced still finishes its pass of the receive loop, which does not ask whether the session
  is current: here it takes a message of the next symbol, and the name the reports read is already the new one.
\<close>

lemma replaced_session_still_receives:
  "\<exists>ts s st. feed_turns (small_env Block (\<lambda>p. p = S_watch) small_snapshot) ts (start_feed ''BTCUSDT'' :: nat feed) = Some s
    \<and> heard s = [(0, ''ETHUSDT'', False)] \<and> owner s 0 = ''BTCUSDT'' \<and> con s = C_recv st \<and> \<not> live s
    \<and> f_symbol s = ''ETHUSDT''"
proof -
  let ?v = "small_env Block (\<lambda>p. p = S_watch) small_snapshot"
  let ?ts = "[Sup, Sup, Con, Con, Con, Con, Con, Switch ''ETHUSDT'', Sup, Sup, Sup, Sup, Sup, Sup, Sup, Sup, Sup, Sup, Sup,
      Depth quiet_update 0, Send, Send, Con]"
  obtain h b where st: "start_session small_band small_snapshot 1 = Some \<lparr>lv_book = b, lv_hist = h, lv_last = 5,
      lv_mode = Seeking, prev_u = 0, have_event = False, cur_U = 0, cur_apply = False, gaps = 0, resyncs = 0,
      lv_fetches = 1, lv_clock = 0\<rparr>" (is "_ = Some ?st")
    and "l2_repr b (fold (spec_set (fix_config small_band)) (sn_levels small_snapshot) Map.empty)"
      "bk_cfg b = fix_config small_band" "hist_room h 0"
    using start_session_ok [OF band_config_good [OF small_band_config small_snapshot_facts(2)], of small_snapshot 1]
    by (auto simp: small_snapshot_def)
  then have "live_wf (fix_config small_band) 0 ?st" by (auto simp: live_wf_def)
  then obtain st' where msg: "on_msg (\<lambda>n. small_snapshot) (\<lambda>k. 0) (header_msg 0 0 0) ?st = Some st'"
    using on_msg_wf [of "fix_config small_band" 0 ?st "\<lambda>n. small_snapshot" "\<lambda>k. 0" "header_msg 0 0 0"] by auto
  obtain s where "feed_turns ?v ?ts (start_feed ''BTCUSDT'' :: nat feed) = Some s" "heard s = [(0, ''ETHUSDT'', False)]"
      "owner s 0 = ''BTCUSDT''" "con s = C_recv st'" "live s = False" "f_symbol s = ''ETHUSDT''"
    using small_snapshot_facts(1) small_band_config st msg
    by (simp add: turn_defs take_msg_def Let_def small_env_def live_def)
  then show ?thesis by blast
qed

end
