(* ===== verification/Live_Session.thy ===== *)
theory Live_Session
  imports Live_Switch_Props
begin

text \<open>
  One session of a feed with all its threads: between two requests for a symbol, under Block, the
  consumer's state is that of a single run over the messages of the depth updates the callback has
  accepted, from the snapshot the session began with. Hence the book of a session that has caught up
  is the snapshot with the later updates applied, and a session can always catch up.
\<close>

section \<open>What a session has received\<close>

fun updates :: "'t turn list \<Rightarrow> (depth_update \<times> u64) list" where
  "updates [] = []"
| "updates (t # ts) = (case t of Depth du recv \<Rightarrow> (du, recv) # updates ts | _ \<Rightarrow> updates ts)"

definition undisturbed :: "'t turn list \<Rightarrow> bool" where
  "undisturbed ts \<longleftrightarrow> (\<forall>t \<in> set ts. case t of Main \<Rightarrow> False | Switch _ \<Rightarrow> False | _ \<Rightarrow> True)"

text \<open>A feed at the start of a session: nothing in the channel, no callback under way, no book yet.\<close>

definition session_ready :: "string \<Rightarrow> 't feed \<Rightarrow> bool" where
  "session_ready sy s \<longleftrightarrow> \<not> f_stop s \<and> \<not> f_restart s \<and> f_symbol s = sy \<and> spc s \<in> {S_loop, S_connect, S_rest}
    \<and> cb s = Cb_idle \<and> f_ring s = [] \<and> con s \<in> {C_top, C_pause, C_fetch}"

definition caught_up :: "'t feed \<Rightarrow> bool" where
  "caught_up s \<longleftrightarrow> f_ring s = [] \<and> cb s = Cb_idle"

definition pending :: "callback \<Rightarrow> pipeline_msg list" where
  "pending c = (case c of Cb_idle \<Rightarrow> [] | Cb_sending ms \<Rightarrow> ms)"

lemma pending_simps [simp]: "pending Cb_idle = []" "pending (Cb_sending ms) = ms"
  by (simp_all add: pending_def)

fun decoded :: "rounding \<Rightarrow> scales \<Rightarrow> (depth_update \<times> u64) list \<Rightarrow> decoder \<Rightarrow> decoder" where
  "decoded rnd sc [] d = d"
| "decoded rnd sc ((du, recv) # dus) d = decoded rnd sc dus (snd (on_depth rnd sc du recv d))"

lemma decoded_snoc: "decoded rnd sc (dus @ [(du, recv)]) d = snd (on_depth rnd sc du recv (decoded rnd sc dus d))"
  by (induction dus arbitrary: d) auto

lemma feed_msgs_snoc: "feed_msgs rnd sc (dus @ [(du, recv)]) d
    = feed_msgs rnd sc dus d @ fst (on_depth rnd sc du recv (decoded rnd sc dus d))"
  by (induction dus arbitrary: d) (auto split: prod.splits)

text \<open>The session's state is a run over the messages received from the session's snapshot.\<close>

definition opened :: "env \<Rightarrow> string \<Rightarrow> pipeline_msg list \<Rightarrow> live_state \<Rightarrow> bool" where
  "opened v sy got st \<longleftrightarrow> (\<exists>k n bc st0. snapshot_usable (snap v sy k) \<and> band_config (env_half v) (snap v sy k) = Some bc
    \<and> start_session bc (snap v sy k) n = Some st0 \<and> on_msgs (snap v sy) (env_now v) got st0 = Some st)"

definition received_by :: "env \<Rightarrow> string \<Rightarrow> pipeline_msg list \<Rightarrow> con_pc \<Rightarrow> bool \<Rightarrow> bool" where
  "received_by v sy got c cur \<longleftrightarrow>
    (case c of
       C_top \<Rightarrow> got = [] | C_pause \<Rightarrow> got = [] | C_fetch \<Rightarrow> got = []
     | C_have s0 \<Rightarrow> got = [] \<and> (\<exists>k. s0 = snap v sy k) \<and> snapshot_usable s0
     | C_live st \<Rightarrow> cur \<and> opened v sy got st
     | C_recv st \<Rightarrow> cur \<and> opened v sy got st
     | C_over \<Rightarrow> False)"

definition running :: "string \<Rightarrow> 't feed \<Rightarrow> bool" where
  "running sy s \<longleftrightarrow> \<not> f_stop s \<and> \<not> f_restart s \<and> f_symbol s = sy \<and> spc s \<in> {S_loop, S_connect, S_watch, S_rest}"

definition following :: "env \<Rightarrow> string \<Rightarrow> decoder \<Rightarrow> (depth_update \<times> u64) list \<Rightarrow> 't feed \<Rightarrow> bool" where
  "following v sy d dus s \<longleftrightarrow> running sy s \<and> f_dec s = decoded (env_rnd v) (env_scales v) dus d
    \<and> (\<exists>got. got @ map snd (f_ring s) @ pending (cb s) = feed_msgs (env_rnd v) (env_scales v) dus d
        \<and> received_by v sy got (con s) (f_session s = con_sid s))"

lemma followingI:
  assumes "running sy s" and "f_dec s = decoded (env_rnd v) (env_scales v) dus d"
    and "got @ map snd (f_ring s) @ pending (cb s) = feed_msgs (env_rnd v) (env_scales v) dus d"
    and "received_by v sy got (con s) (f_session s = con_sid s)"
  shows "following v sy d dus s"
  using assms by (auto simp: following_def)

lemma followingE:
  assumes "following v sy d dus s"
  obtains got where "running sy s" "f_dec s = decoded (env_rnd v) (env_scales v) dus d"
    "got @ map snd (f_ring s) @ pending (cb s) = feed_msgs (env_rnd v) (env_scales v) dus d"
    "received_by v sy got (con s) (f_session s = con_sid s)"
  using assms by (auto simp: following_def)

lemma running_frame [simp]:
  "running sy (s\<lparr>f_ring := r\<rparr>) = running sy s" "running sy (s\<lparr>f_dec := d\<rparr>) = running sy s"
  "running sy (s\<lparr>f_trades := t\<rparr>) = running sy s" "running sy (s\<lparr>cb := c\<rparr>) = running sy s"
  "running sy (s\<lparr>con := p\<rparr>) = running sy s" "running sy (s\<lparr>con_sid := i\<rparr>) = running sy s"
  "running sy (s\<lparr>con_fetches := n\<rparr>) = running sy s" "running sy (s\<lparr>heard := h\<rparr>) = running sy s"
  "running sy (s\<lparr>book_symbol := y\<rparr>) = running sy s" "running sy (s\<lparr>ws_on := b\<rparr>) = running sy s"
  "running sy (s\<lparr>ws_symbol := y\<rparr>) = running sy s" "running sy (s\<lparr>ws_session := i\<rparr>) = running sy s"
  by (simp_all add: running_def)

lemma ready_following: "session_ready sy s \<Longrightarrow> following v sy (f_dec s) [] s"
  by (rule followingI [where got = "[]"]) (auto simp: session_ready_def running_def received_by_def)

section \<open>The steps of a session\<close>

lemma following_sup:
  assumes "following v sy d dus s" and "sup_step v s = Some s'"
  shows "following v sy d dus s'"
  using assms(1)
proof (rule followingE)
  fix got
  assume f: "running sy s" "f_dec s = decoded (env_rnd v) (env_scales v) dus d"
    "got @ map snd (f_ring s) @ pending (cb s) = feed_msgs (env_rnd v) (env_scales v) dus d"
    "received_by v sy got (con s) (f_session s = con_sid s)"
  then have "spc s = S_loop \<or> spc s = S_connect \<or> spc s = S_watch \<or> spc s = S_rest" "\<not> f_stop s" "\<not> f_restart s"
    by (auto simp: running_def)
  then have s': "s' = s\<lparr>spc := S_connect\<rparr> \<or> s' = s\<lparr>ws_on := True, ws_symbol := f_symbol s, ws_session := f_session s, spc := S_watch\<rparr>
      \<or> s' = s\<lparr>spc := S_loop\<rparr>"
    using assms(2) by (auto simp: sup_step_def split: if_splits)
  then have "running sy s'" using f(1) by (auto simp: running_def)
  then show ?thesis by (rule followingI [where got = got]) (use f s' in auto)
qed

lemma following_depth:
  assumes "following v sy d dus s" and "depth_step v du recv s = Some s'"
  shows "following v sy d (dus @ [(du, recv)]) s'"
  using assms(1)
proof (rule followingE)
  fix got
  assume f: "running sy s" "f_dec s = decoded (env_rnd v) (env_scales v) dus d"
    "got @ map snd (f_ring s) @ pending (cb s) = feed_msgs (env_rnd v) (env_scales v) dus d"
    "received_by v sy got (con s) (f_session s = con_sid s)"
  obtain ms d' where ms: "on_depth (env_rnd v) (env_scales v) du recv (f_dec s) = (ms, d')" by fastforce
  have s': "cb s = Cb_idle" "s' = s\<lparr>f_dec := d', cb := Cb_sending ms\<rparr>"
    using assms(2) ms by (auto simp: depth_step_def current_def split: if_splits)
  show ?thesis
    by (rule followingI [where got = got]) (use f ms s' in \<open>simp_all add: decoded_snoc feed_msgs_snoc flip: append_assoc\<close>)
qed

lemma following_trade: "following v sy d dus s \<Longrightarrow> trade_step t s = Some s' \<Longrightarrow> following v sy d dus s'"
  by (erule followingE) (auto simp: trade_step_def split: if_splits intro!: followingI)

lemma following_send:
  assumes "env_policy v = Block" and "following v sy d dus s" and "send_step v s = Some s'"
  shows "following v sy d dus s'"
  using assms(2)
proof (rule followingE)
  fix got
  assume f: "running sy s" "f_dec s = decoded (env_rnd v) (env_scales v) dus d"
    "got @ map snd (f_ring s) @ pending (cb s) = feed_msgs (env_rnd v) (env_scales v) dus d"
    "received_by v sy got (con s) (f_session s = con_sid s)"
  consider "cb s = Cb_sending []" "s' = s\<lparr>cb := Cb_idle\<rparr>"
    | m ms where "cb s = Cb_sending (m # ms)" "s' = s\<lparr>f_ring := f_ring s @ [(ws_symbol s, m)], cb := Cb_sending ms\<rparr>"
    using assms(1,3) by (auto simp: send_step_def split: callback.splits list.splits if_splits)
  then show ?thesis by cases (rule followingI [where got = got]; use f in simp)+
qed

lemma opened_snoc:
  "opened v sy got st \<Longrightarrow> on_msg (snap v sy) (env_now v) m st = Some st' \<Longrightarrow> opened v sy (got @ [m]) st'"
  by (fastforce simp: opened_def on_msgs_append)

lemma following_con:
  assumes "following v sy d dus s" and "con_step v s = Some s'"
  shows "following v sy d dus s'"
  using assms(1)
proof (rule followingE)
  fix got
  assume f: "running sy s" "f_dec s = decoded (env_rnd v) (env_scales v) dus d"
    "got @ map snd (f_ring s) @ pending (cb s) = feed_msgs (env_rnd v) (env_scales v) dus d"
    and got: "received_by v sy got (con s) (f_session s = con_sid s)"
  have run: "\<not> f_stop s" "f_symbol s = sy" using f(1) by (auto simp: running_def)
  from assms(2) show ?thesis
  proof (cases rule: con_stepE)
    case quit
    have "got = []" using got quit(1) run by (auto simp: received_by_def live_def split: con_pc.splits)
    with quit f show ?thesis by (intro followingI [where got = got]) (simp_all add: received_by_def)
  next
    case (have_it s0)
    with got f run show ?thesis by (intro followingI [where got = got]) (auto simp: received_by_def)
  next
    case (session s0 bc st)
    then have "opened v sy [] st" using got by (auto simp: received_by_def opened_def)
    with session got f show ?thesis by (intro followingI [where got = got]) (simp_all add: received_by_def live_def)
  next
    case (message st ym ms)
    from message(3) show ?thesis
    proof (rule take_msgE)
      fix st' y
      assume m: "on_msg (snap v (f_symbol s)) (env_now v) (snd ym) st = Some st'"
        and s': "s' = s\<lparr>f_ring := ms, con := C_recv st', con_fetches := lv_fetches st',
          heard := heard s @ [(con_sid s, fst ym, live s)], book_symbol := y\<rparr>"
      have "opened v sy (got @ [snd ym]) st'"
        using got message(1) m by (auto simp: received_by_def run intro: opened_snoc)
      with got f message(1,2) show ?thesis
        by (intro followingI [where got = "got @ [snd ym]"]) (simp_all add: s' received_by_def)
    qed
  qed (use got f run in \<open>auto intro!: followingI [where got = got] simp: received_by_def live_def\<close>)
qed

lemma following_turns:
  assumes "env_policy v = Block" and "following v sy d dus s" and "undisturbed ts" and "feed_turns v ts s = Some s'"
  shows "following v sy d (dus @ updates ts) s'"
  using assms(2-4)
proof (induction ts arbitrary: dus s)
  case (Cons t ts)
  obtain s1 where s1: "feed_step v t s = Some s1" "feed_turns v ts s1 = Some s'"
    using Cons.prems(3) by (auto split: option.splits)
  have "following v sy d (dus @ updates [t]) s1"
    using Cons.prems(1,2) s1(1) following_sup following_con following_send [OF assms(1)] following_depth following_trade
    by (cases t) (auto simp: feed_step_def undisturbed_def)
  from Cons.IH [OF this _ s1(2)] Cons.prems(2) show ?case by (cases t) (auto simp: undisturbed_def)
qed simp

section \<open>The book of a session\<close>

text \<open>The feed's update ids start no later than any snapshot the session may use.\<close>

definition snapshots_fit :: "env \<Rightarrow> string \<Rightarrow> u64 \<Rightarrow> bool" where
  "snapshots_fit v sy p \<longleftrightarrow> (\<forall>k bc. snapshot_usable (snap v sy k) \<and> band_config (env_half v) (snap v sy k) = Some bc \<longrightarrow>
     in_i64 (max_price bc) \<and> sn_last (snap v sy k) < sn_last (snap v sy k) + 1 \<and> p \<le> sn_last (snap v sy k))"

definition readable_feed :: "env \<Rightarrow> u64 \<Rightarrow> (depth_update \<times> u64) list \<Rightarrow> bool" where
  "readable_feed v p dus \<longleftrightarrow> consecutive p (map fst dus)
    \<and> (\<forall>du \<in> set (map fst dus). update_readable (env_rnd v) (env_scales v) du)
    \<and> length (all_ops (env_rnd v) (env_scales v) dus) < 2 ^ 64"

lemma opened_run:
  assumes "opened v sy got st" and "got @ rest = feed_msgs (env_rnd v) (env_scales v) dus d"
    and "snapshots_fit v sy p" and "readable_feed v p dus"
  obtains k bc st2 where "snapshot_usable (snap v sy k)" "band_config (env_half v) (snap v sy k) = Some bc"
    "on_msgs (snap v sy) (env_now v) rest st = Some st2"
    "l2_repr (lv_book st2) (fold (spec_set (fix_config bc)) (sn_levels (snap v sy k)
        @ later_ops (env_rnd v) (env_scales v) (sn_last (snap v sy k)) dus) Map.empty)"
    "gaps st2 = 0" "resyncs st2 = 0"
    "lv_mode st2 = Streaming \<longleftrightarrow> (\<exists>du \<in> set (map fst dus). sn_last (snap v sy k) < du_last du)"
proof -
  obtain k n bc st0 where o: "snapshot_usable (snap v sy k)" "band_config (env_half v) (snap v sy k) = Some bc"
      "start_session bc (snap v sy k) n = Some st0" "on_msgs (snap v sy) (env_now v) got st0 = Some st"
    using assms(1) by (auto simp: opened_def)
  let ?s = "snap v sy k"
  have fit: "in_i64 (max_price bc)" "sn_last ?s < sn_last ?s + 1" "p \<le> sn_last ?s"
    using assms(3) o(1,2) by (auto simp: snapshots_fit_def)
  have feed: "consecutive p (map fst dus)" "\<forall>du \<in> set (map fst dus). update_readable (env_rnd v) (env_scales v) du"
      "length (all_ops (env_rnd v) (env_scales v) dus) < 2 ^ 64"
    using assms(4) by (simp_all add: readable_feed_def)
  from session_follows_feed [OF o(2) fit(1,2) feed(1) fit(3) feed(2,3), of n "snap v sy" "env_now v" d] o(3)
  obtain st2 where st2: "on_msgs (snap v sy) (env_now v) (feed_msgs (env_rnd v) (env_scales v) dus d) st0 = Some st2"
      "l2_repr (lv_book st2) (fold (spec_set (fix_config bc)) (sn_levels ?s
        @ later_ops (env_rnd v) (env_scales v) (sn_last ?s) dus) Map.empty)"
      "gaps st2 = 0" "resyncs st2 = 0" "lv_mode st2 = Streaming \<longleftrightarrow> (\<exists>du \<in> set (map fst dus). sn_last ?s < du_last du)"
    by auto
  have "on_msgs (snap v sy) (env_now v) rest st = Some st2"
    using st2(1) o(4) by (simp add: assms(2) [symmetric] on_msgs_append)
  from that [OF o(1,2) this st2(2-5)] show thesis .
qed

lemma following_book:
  assumes "following v sy d dus s" and "con s \<in> {C_live st, C_recv st}" and "caught_up s"
    and "snapshots_fit v sy p" and "readable_feed v p dus"
  shows "\<exists>k bc. band_config (env_half v) (snap v sy k) = Some bc
    \<and> l2_repr (lv_book st) (fold (spec_set (fix_config bc)) (sn_levels (snap v sy k)
        @ later_ops (env_rnd v) (env_scales v) (sn_last (snap v sy k)) dus) Map.empty)
    \<and> gaps st = 0 \<and> resyncs st = 0
    \<and> (lv_mode st = Streaming \<longleftrightarrow> (\<exists>du \<in> set (map fst dus). sn_last (snap v sy k) < du_last du))"
  using assms(1)
proof (rule followingE)
  fix got
  assume got: "got @ map snd (f_ring s) @ pending (cb s) = feed_msgs (env_rnd v) (env_scales v) dus d"
    "received_by v sy got (con s) (f_session s = con_sid s)"
  have "opened v sy got st" using got(2) assms(2) by (auto simp: received_by_def)
  moreover have "got @ [] = feed_msgs (env_rnd v) (env_scales v) dus d"
    using got(1) assms(3) by (simp add: caught_up_def)
  ultimately show ?thesis using assms(4,5) by (rule opened_run) auto
qed

lemma list_follows_feed:
  assumes "env_policy v = Block" and "session_ready sy s1" and "undisturbed ts" and "feed_turns v ts s1 = Some s"
    and "snapshots_fit v sy p" and "readable_feed v p (updates ts)"
    and "con s \<in> {C_live st, C_recv st}" and "caught_up s"
  shows "\<exists>k bc. band_config (env_half v) (snap v sy k) = Some bc
    \<and> l2_repr (lv_book st) (fold (spec_set (fix_config bc)) (sn_levels (snap v sy k)
        @ later_ops (env_rnd v) (env_scales v) (sn_last (snap v sy k)) (updates ts)) Map.empty)
    \<and> gaps st = 0 \<and> resyncs st = 0
    \<and> (lv_mode st = Streaming \<longleftrightarrow> (\<exists>du \<in> set (map fst (updates ts)). sn_last (snap v sy k) < du_last du))"
proof -
  have "following v sy (f_dec s1) (updates ts) s"
    using following_turns [OF assms(1) ready_following [OF assms(2)] assms(3,4)] by simp
  then show ?thesis by (rule following_book [OF _ assms(7,8,5,6)])
qed

section \<open>A session catches up\<close>

text \<open>Every request gives a usable snapshot of an accepted band, and the pause ends.\<close>

definition sessions_open :: "env \<Rightarrow> string \<Rightarrow> bool" where
  "sessions_open v sy \<longleftrightarrow> (\<forall>k. snapshot_usable (snap v sy k) \<and> band_config (env_half v) (snap v sy k) \<noteq> None)
    \<and> (\<forall>p \<in> {S_loop, S_connect, S_watch, S_rest}. pause_over v p)"

text \<open>The consumer and the callback run on, without a new update.\<close>

definition goes :: "env \<Rightarrow> 't feed \<Rightarrow> 't feed \<Rightarrow> bool" where
  "goes v s s' \<longleftrightarrow> (\<exists>us. set us \<subseteq> {Con, Send} \<and> feed_turns v us s = Some s')"

lemma goes_refl: "goes v s s"
  by (auto simp: goes_def intro: exI [of _ "[]"])

lemma goes_con: "con_step v s = Some s1 \<Longrightarrow> goes v s1 s' \<Longrightarrow> goes v s s'"
  unfolding goes_def by (elim exE, rule_tac x = "Con # us" in exI) (simp add: feed_step_def)

lemma goes_send: "send_step v s = Some s1 \<Longrightarrow> goes v s1 s' \<Longrightarrow> goes v s s'"
  unfolding goes_def by (elim exE, rule_tac x = "Send # us" in exI) (simp add: feed_step_def)

lemma goes_trans: "goes v s s1 \<Longrightarrow> goes v s1 s2 \<Longrightarrow> goes v s s2"
  unfolding goes_def by (elim exE, rule_tac x = "us @ usa" in exI) (simp add: turns_append)

lemma quiet_turns: "set us \<subseteq> {Con, Send} \<Longrightarrow> undisturbed us \<and> updates us = []"
  by (induction us) (auto simp: undisturbed_def)

fun distance :: "con_pc \<Rightarrow> bool \<Rightarrow> nat" where
  "distance C_top cur = 5"
| "distance C_pause cur = (if cur then 4 else 10)"
| "distance C_fetch cur = (if cur then 3 else 10)"
| "distance (C_have s0) cur = (if cur then 2 else 10)"
| "distance (C_live st) cur = (if cur then 1 else 10)"
| "distance (C_recv st) cur = 0"
| "distance C_over cur = 0"

lemma open_step:
  assumes "following v sy d dus s" and "sessions_open v sy" and "snapshots_fit v sy p"
    and "distance (con s) (f_session s = con_sid s) \<noteq> 0"
  shows "\<exists>s1. con_step v s = Some s1 \<and> distance (con s1) (f_session s1 = con_sid s1) < distance (con s) (f_session s = con_sid s)"
  using assms(1)
proof (rule followingE)
  fix got
  assume "running sy s" and got: "received_by v sy got (con s) (f_session s = con_sid s)"
  then have run: "\<not> f_stop s" "f_symbol s = sy" "pause_over v (spc s)"
    using assms(2) by (auto simp: running_def sessions_open_def)
  show ?thesis
  proof (cases "con s")
    case C_fetch
    have "snapshot_usable (snap v sy (con_fetches s))" using assms(2) by (simp add: sessions_open_def)
    then show ?thesis using C_fetch run by (simp add: con_step_def live_def Let_def)
  next
    case (C_have s0)
    show ?thesis
    proof (cases "f_session s = con_sid s")
      case True
      obtain k where k: "s0 = snap v sy k" "snapshot_usable s0" using got C_have by (auto simp: received_by_def)
      then obtain bc where bc: "band_config (env_half v) s0 = Some bc" using assms(2) by (auto simp: sessions_open_def)
      have "in_i64 (max_price bc)" using assms(3) k bc by (auto simp: snapshots_fit_def)
      from session_in_step [OF bc this order_refl, of "con_fetches s"]
      show ?thesis using True C_have run bc by (auto simp: con_step_def live_def)
    next
      case False
      then show ?thesis using C_have run by (simp add: con_step_def live_def)
    qed
  qed (use run assms(4) got in \<open>auto simp: con_step_def live_def received_by_def\<close>)
qed

lemma session_opens:
  assumes "following v sy d dus s" and "sessions_open v sy" and "snapshots_fit v sy p"
  shows "\<exists>s' st. goes v s s' \<and> following v sy d dus s' \<and> con s' = C_recv st"
  using assms(1)
proof (induction "distance (con s) (f_session s = con_sid s)" arbitrary: s rule: less_induct)
  case less
  show ?case
  proof (cases "distance (con s) (f_session s = con_sid s) = 0")
    case True
    then have "(\<exists>st. con s = C_recv st) \<or> con s = C_over" by (cases "con s") (auto split: if_splits)
    moreover have "con s \<noteq> C_over" using less.prems by (auto simp: following_def received_by_def)
    ultimately show ?thesis using less.prems goes_refl by blast
  next
    case False
    obtain s1 where s1: "con_step v s = Some s1"
        "distance (con s1) (f_session s1 = con_sid s1) < distance (con s) (f_session s = con_sid s)"
      using open_step [OF less.prems assms(2,3) False] by blast
    from less.hyps [OF s1(2) following_con [OF less.prems s1(1)]] s1(1) goes_con show ?thesis by blast
  qed
qed

definition backlog :: "'t feed \<Rightarrow> nat" where
  "backlog s = length (f_ring s) + 2 * length (pending (cb s)) + (if cb s = Cb_idle then 0 else 1)"

lemma drain_step:
  assumes "following v sy d dus s" and "0 < env_cap v" and "snapshots_fit v sy p" and "readable_feed v p dus"
    and "con s = C_recv st" and "\<not> caught_up s"
  shows "\<exists>s1 st1. (con_step v s = Some s1 \<or> send_step v s = Some s1) \<and> con s1 = C_recv st1 \<and> backlog s1 < backlog s"
  using assms(1)
proof (rule followingE)
  fix got
  assume f: "running sy s" "got @ map snd (f_ring s) @ pending (cb s) = feed_msgs (env_rnd v) (env_scales v) dus d"
    and got: "received_by v sy got (con s) (f_session s = con_sid s)"
  show ?thesis
  proof (cases "f_ring s")
    case (Cons ym ms)
    have "opened v sy got st" using got assms(5) by (simp add: received_by_def)
    from opened_run [OF this f(2) assms(3,4)] obtain st2
      where "on_msgs (snap v sy) (env_now v) (map snd (f_ring s) @ pending (cb s)) st = Some st2" by blast
    then obtain st1 where "on_msg (snap v sy) (env_now v) (snd ym) st = Some st1"
      using Cons by (auto simp: bind_eq_Some_conv)
    moreover have "f_symbol s = sy" using f(1) by (simp add: running_def)
    ultimately obtain s1 where "take_msg v st ym ms s = Some s1" "con s1 = C_recv st1" "f_ring s1 = ms" "cb s1 = cb s"
      by (simp add: take_msg_def)
    moreover from this have "con_step v s = Some s1" "backlog s1 < backlog s"
      using assms(5) Cons by (simp_all add: con_step_def backlog_def)
    ultimately show ?thesis by blast
  next
    case Nil
    then obtain ms where "cb s = Cb_sending ms" using assms(6) by (cases "cb s") (auto simp: caught_up_def)
    then obtain s1 where "send_step v s = Some s1" "con s1 = con s" "backlog s1 < backlog s"
      using assms(2) Nil by (cases ms) (simp_all add: send_step_def backlog_def)
    then show ?thesis using assms(5) by auto
  qed
qed

lemma session_drains:
  assumes "env_policy v = Block" and "following v sy d dus s" and "0 < env_cap v" and "snapshots_fit v sy p"
    and "readable_feed v p dus" and "con s = C_recv st"
  shows "\<exists>s' st'. goes v s s' \<and> following v sy d dus s' \<and> con s' = C_recv st' \<and> caught_up s'"
  using assms(2,6)
proof (induction "backlog s" arbitrary: s st rule: less_induct)
  case less
  show ?case
  proof (cases "caught_up s")
    case True
    then show ?thesis using less.prems goes_refl by blast
  next
    case False
    obtain s1 st1 where s1: "con_step v s = Some s1 \<or> send_step v s = Some s1" "con s1 = C_recv st1"
        "backlog s1 < backlog s"
      using drain_step [OF less.prems(1) assms(3-5) less.prems(2) False] by blast
    have "following v sy d dus s1"
      using s1(1) following_con [OF less.prems(1)] following_send [OF assms(1) less.prems(1)] by blast
    from less.hyps [OF s1(3) this s1(2)] s1(1) goes_con goes_send show ?thesis by blast
  qed
qed

lemma session_catches:
  assumes "env_policy v = Block" and "0 < env_cap v" and "following v sy d dus s"
    and "sessions_open v sy" and "snapshots_fit v sy p" and "readable_feed v p dus"
  obtains us s' st where "set us \<subseteq> {Con, Send}" "feed_turns v us s = Some s'" "con s' = C_recv st" "caught_up s'"
    "following v sy d dus s'"
proof -
  obtain s2 st2 where s2: "goes v s s2" "following v sy d dus s2" "con s2 = C_recv st2"
    using session_opens [OF assms(3-5)] by blast
  then obtain s' st where s': "goes v s2 s'" "following v sy d dus s'" "con s' = C_recv st" "caught_up s'"
    using session_drains [OF assms(1) _ assms(2,5,6)] by blast
  obtain us where us: "set us \<subseteq> {Con, Send}" "feed_turns v us s = Some s'"
    using goes_trans [OF s2(1) s'(1)] by (auto simp: goes_def)
  show thesis by (rule that [OF us s'(3,4,2)])
qed

lemma list_catches_up:
  assumes "env_policy v = Block" and "0 < env_cap v" and "session_ready sy s1" and "undisturbed ts"
    and "feed_turns v ts s1 = Some s" and "sessions_open v sy" and "snapshots_fit v sy p" and "readable_feed v p (updates ts)"
  shows "\<exists>us s' st k bc. set us \<subseteq> {Con, Send} \<and> feed_turns v us s = Some s' \<and> con s' = C_recv st \<and> caught_up s'
    \<and> band_config (env_half v) (snap v sy k) = Some bc
    \<and> l2_repr (lv_book st) (fold (spec_set (fix_config bc)) (sn_levels (snap v sy k)
        @ later_ops (env_rnd v) (env_scales v) (sn_last (snap v sy k)) (updates ts)) Map.empty)"
proof -
  have "following v sy (f_dec s1) (updates ts) s"
    using following_turns [OF assms(1) ready_following [OF assms(3)] assms(4,5)] by simp
  then obtain us s' st where s': "set us \<subseteq> {Con, Send}" "feed_turns v us s = Some s'" "con s' = C_recv st" "caught_up s'"
      "following v sy (f_dec s1) (updates ts) s'"
    by (rule session_catches [OF assms(1,2) _ assms(6-8)])
  have "con s' \<in> {C_live st, C_recv st}" using s'(3) by simp
  from following_book [OF s'(5) this s'(4) assms(7,8)] s'(1-4) show ?thesis by blast
qed

section \<open>Concrete runs\<close>

lemma start_ready: "session_ready sy (start_feed sy)"
  by (simp add: session_ready_def start_feed_def)

text \<open>After the switch of \<open>switch_underway\<close> the next session is ready once the channel is empty.\<close>

lemma switched_ready:
  assumes "stop_joins v" and "0 < env_cap v"
  shows "\<exists>ts s. feed_turns v ts (start_feed old :: 't feed) = Some s \<and> f_session s = 1 \<and> session_ready new s"
proof -
  obtain s where "feed_turns v [Sup, Sup] ((start_feed old :: 't feed)\<lparr>f_symbol := new, f_pending := new, f_session := 1,
        f_ring := [(old, header_msg 0 0 0)], ws_symbol := old, spc := S_drain, owner := (\<lambda>_. old)(1 := new)\<rparr>) = Some s"
      "f_session s = 1" "session_ready new s"
    by (simp add: turn_defs session_ready_def)
  with turns_join [OF switch_underway [OF assms, of new old]] show ?thesis by blast
qed

lemma small_env_session:
  "sessions_open (small_env Block (\<lambda>p. True) small_snapshot) sy"
  "snapshots_fit (small_env Block (\<lambda>p. True) small_snapshot) sy 4"
  "readable_feed (small_env Block (\<lambda>p. True) small_snapshot) 4 [(small_update, 0)]"
proof -
  let ?v = "small_env Block (\<lambda>p. True) small_snapshot"
  have v: "env_rnd ?v = unary" "env_scales ?v = unit_scales" by (simp_all add: small_env_def)
  show "sessions_open ?v sy" by (simp add: sessions_open_def small_snapshot_facts small_band_config)
  show "snapshots_fit ?v sy 4" by (auto simp: snapshots_fit_def small_band_config small_snapshot_facts) (simp_all add: small_snapshot_def)
  have "update_readable unary unit_scales small_update"
    by (simp add: update_readable_def small_update_def levels_of_def level_readable_def px_to_ticks_def unary_def unit_scales_def)
  then show "readable_feed ?v 4 [(small_update, 0)]"
    by (simp add: readable_feed_def v all_ops_def update_ops_def small_update_def levels_of_def)
qed

lemma small_start:
  "\<exists>s. feed_turns (small_env Block (\<lambda>p. True) small_snapshot) [Sup, Sup, Depth small_update 0]
    (start_feed ''BTCUSDT'' :: nat feed) = Some s"
  by (simp add: turn_defs small_env_def split: prod.split)

lemma caught_up_run:
  "\<exists>ts s st. feed_turns (small_env Block (\<lambda>p. True) small_snapshot) ts (start_feed ''BTCUSDT'' :: nat feed) = Some s
    \<and> undisturbed ts \<and> updates ts = [(small_update, 0)] \<and> con s = C_recv st \<and> caught_up s"
proof -
  let ?v = "small_env Block (\<lambda>p. True) small_snapshot" and ?ts = "[Sup, Sup, Depth small_update 0 :: nat turn]"
  obtain s where s: "feed_turns ?v ?ts (start_feed ''BTCUSDT'') = Some s" using small_start by blast
  have ts: "undisturbed ?ts" "updates ?ts = [(small_update, 0)]" by (simp_all add: undisturbed_def)
  have block: "env_policy ?v = Block" "0 < env_cap ?v" by simp_all
  from following_turns [OF block(1) ready_following [OF start_ready] ts(1) s] ts(2)
  have "following ?v ''BTCUSDT'' (f_dec (start_feed ''BTCUSDT'' :: nat feed)) [(small_update, 0)] s" by simp
  then obtain us s' st where s': "set us \<subseteq> {Con, Send}" "feed_turns ?v us s = Some s'" "con s' = C_recv st" "caught_up s'"
      "following ?v ''BTCUSDT'' (f_dec (start_feed ''BTCUSDT'' :: nat feed)) [(small_update, 0)] s'"
    by (rule session_catches [OF block _ small_env_session])
  have run: "feed_turns ?v (?ts @ us) (start_feed ''BTCUSDT'') = Some s'" by (rule turns_join [OF s s'(2)])
  have "undisturbed (?ts @ us)" using ts(1) quiet_turns [OF s'(1)] by (auto simp: undisturbed_def)
  moreover have "updates (?ts @ us) = [(small_update, 0)]" using quiet_turns [OF s'(1)] by simp
  ultimately show ?thesis using run s'(3,4) by blast
qed

end
