(* ===== verification/Spsc_Shared.thy ===== *)
theory Spsc_Shared
  imports Spsc_Ring
begin

text \<open>
  Two threads that receive from one ring. \<open>SpscRingBuffer::pop\<close> is written for a single consumer, which
  owns the head index; in \<^verbatim>\<open>apps/live_feed.cpp\<close> the supervisor empties the channel after a symbol switch
  (\<^verbatim>\<open>while (f.channel.receive(junk)) {}\<close>) while the consumer thread may still be in its own receive loop.
  A call of \<open>pop\<close> is cut in its three parts, and keeps the head index it loaded first in a local
  variable. A schedule is the list of the threads that take the next step.
\<close>

datatype caller = Book_thread | Supervisor

datatype 'a call_phase = Waiting | Passed u64 | Holding u64 'a

record 'a shared_ring =
  sh_ring :: "'a ring"
  sh_phase :: "caller \<Rightarrow> 'a call_phase"
  sh_got :: "caller \<Rightarrow> 'a list"

definition share :: "'a ring \<Rightarrow> 'a shared_ring" where
  "share r = \<lparr>sh_ring = r, sh_phase = (\<lambda>_. Waiting), sh_got = (\<lambda>_. [])\<rparr>"

text \<open>The next part of a call of \<open>pop\<close>.\<close>

datatype 'a call_result = Under_way | Returned "'a option"

definition pop_part :: "'a ring \<Rightarrow> 'a call_phase \<Rightarrow> 'a ring \<times> 'a call_phase \<times> 'a call_result" where
  "pop_part r p =
    (case p of
       Waiting \<Rightarrow>
         let h = rb_head r; (some, r) = pop_check (rb_tail r) r
         in if some then (r, Passed h, Under_way) else (r, Waiting, Returned None)
     | Passed h \<Rightarrow> (r, Holding h (rb_buf r ! slot r h), Under_way)
     | Holding h x \<Rightarrow> (r\<lparr>rb_head := h + 1\<rparr>, Waiting, Returned (Some x)))"

definition pop_step :: "caller \<Rightarrow> 'a shared_ring \<Rightarrow> 'a shared_ring" where
  "pop_step c s =
    (let (r, p, res) = pop_part (sh_ring s) (sh_phase s c)
     in s\<lparr>sh_ring := r, sh_phase := (sh_phase s)(c := p),
          sh_got := (case res of Returned (Some x) \<Rightarrow> (sh_got s)(c := sh_got s c @ [x]) | _ \<Rightarrow> sh_got s)\<rparr>)"

definition pop_steps :: "caller list \<Rightarrow> 'a shared_ring \<Rightarrow> 'a shared_ring" where
  "pop_steps cs s = fold pop_step cs s"

text \<open>Three steps of one thread in a row are \<open>pop\<close>.\<close>

lemma pop_check_same: "pop_check t r = (some, r') \<Longrightarrow> rb_head r' = rb_head r \<and> rb_buf r' = rb_buf r \<and> cached_head r' = cached_head r"
  by (auto simp: pop_check_def Let_def split: if_splits)

lemma pop_undisturbed:
  assumes "sh_phase s c = Waiting" and "pop (sh_ring s) = (Some x, r)"
  shows "pop_steps [c, c, c] s = s\<lparr>sh_ring := r, sh_got := (sh_got s)(c := sh_got s c @ [x])\<rparr>"
proof -
  obtain some r1 where r1: "pop_check (rb_tail (sh_ring s)) (sh_ring s) = (some, r1)" by fastforce
  have same: "rb_head r1 = rb_head (sh_ring s)" "slot r1 h = slot (sh_ring s) h" "rb_buf r1 = rb_buf (sh_ring s)" for h
    using pop_check_same [OF r1] by (simp_all add: slot_def capacity_def)
  have "some" "x = pop_read r1" "r = pop_release r1" using assms(2) r1 by (auto simp: pop_def split: if_splits)
  then show ?thesis using assms(1) r1 same
    by (cases s) (simp add: pop_steps_def pop_step_def pop_part_def pop_read_def pop_release_def fun_upd_idem)
qed

lemma pop_next:
  assumes "ring_inv k r sent got" and "got < length sent"
  obtains r' where "pop r = (Some (sent ! got), r')" "ring_inv k r' sent (Suc got)" "rb_buf r' = rb_buf r"
    "cached_head r' = cached_head r"
proof -
  obtain some r1 where r1: "pop_check (rb_tail r) r = (some, r1)" by fastforce
  have tail: "rb_tail r = of_nat (length sent)" using assms(1) by (simp add: ring_inv_def)
  note ok = pop_check_ok [OF assms(1) _ le_refl r1 [unfolded tail]]
  have some using ok(3) assms(2) by auto
  have inv: "ring_inv k r1 sent got" using ok(1) assms(2) by simp
  have "has_item r1 sent got"
    using pop_check_item [OF assms(1) _ le_refl] r1 \<open>some\<close> assms(2) tail by simp
  with pop_release_item [OF inv] have "ring_inv k (pop_release r1) sent (Suc got)" .
  moreover have "pop r = (Some (sent ! got), pop_release r1)"
    using r1 \<open>some\<close> pop_read_ok [OF inv assms(2)] by (simp add: pop_def)
  moreover have "rb_buf (pop_release r1) = rb_buf r" "cached_head (pop_release r1) = cached_head r"
    using pop_check_same [OF r1] by (simp_all add: pop_release_def)
  ultimately show thesis using that by blast
qed

text \<open>
  C31. With two threads that receive, as the supervisor's drain and the consumer do, from any
  state of the ring with two items a schedule exists in which both get the same item, the head
  index goes back, and the next item, which one of them has already taken, is returned again by
  the next pop.
\<close>

theorem second_receiver_repeats_items:
  assumes "ring_inv k r sent got" and "Suc (Suc got) \<le> length sent"
  shows "\<exists>sched. let s = pop_steps sched (share r) in
      sh_got s Supervisor = [sent ! got] \<and> sh_got s Book_thread = [sent ! got, sent ! Suc got]
      \<and> sh_phase s = (\<lambda>_. Waiting) \<and> ring_inv k (sh_ring s) sent (Suc got)
      \<and> fst (pop (sh_ring s)) = Some (sent ! Suc got)"
proof -
  let ?A = Supervisor and ?B = Book_thread
  have got: "got < length sent" "Suc got < length sent" using assms(2) by auto
  obtain some r1 where r1: "pop_check (rb_tail r) r = (some, r1)" by fastforce
  have base: "rb_tail r = of_nat (length sent)" "rb_head r = of_nat got" "k < 64" "length (rb_buf r) = 2 ^ k"
      "rb_buf r ! (got mod 2 ^ k) = sent ! got"
    using assms(1) got by (auto simp: ring_inv_def)
  note ok = pop_check_ok [OF assms(1) _ le_refl r1 [unfolded base(1)]]
  have some using ok(3) got by auto
  obtain r2 where r2: "pop r1 = (Some (sent ! got), r2)" "ring_inv k r2 sent (Suc got)" "rb_buf r2 = rb_buf r1"
      "cached_head r2 = cached_head r1"
    using pop_next [OF _ got(1)] ok(1) got by auto
  obtain r3 where r3: "pop r2 = (Some (sent ! Suc got), r3)" "ring_inv k r3 sent (Suc (Suc got))" "rb_buf r3 = rb_buf r2"
      "cached_head r3 = cached_head r2"
    using pop_next [OF r2(2) got(2)] by auto
  define s1 where "s1 = \<lparr>sh_ring = r1, sh_phase = (\<lambda>_. Waiting)(?A := Passed (rb_head r)), sh_got = (\<lambda>_. [])\<rparr>"
  have s1: "pop_steps [?A] (share r) = s1"
    using r1 \<open>some\<close> by (simp add: pop_steps_def pop_step_def pop_part_def share_def s1_def)
  define s2 where "s2 = s1\<lparr>sh_ring := r2, sh_got := (\<lambda>_. [])(?B := [sent ! got])\<rparr>"
  have s2: "pop_steps [?B, ?B, ?B] s1 = s2"
    using pop_undisturbed [of s1 ?B "sent ! got" r2] r2(1) by (simp add: s1_def s2_def)
  define s3 where "s3 = s1\<lparr>sh_ring := r3, sh_got := (\<lambda>_. [])(?B := [sent ! got, sent ! Suc got])\<rparr>"
  have s3: "pop_steps [?B, ?B, ?B] s2 = s3"
    using pop_undisturbed [of s2 ?B "sent ! Suc got" r3] r3(1) by (simp add: s1_def s2_def s3_def)
  let ?r = "r3\<lparr>rb_head := of_nat (Suc got)\<rparr>"
  have buf: "length (rb_buf r3) = 2 ^ k" "rb_buf r3 = rb_buf r" using r2(3) r3(3) ok(4) got base by auto
  have "slot r3 (rb_head r) = got mod 2 ^ k" unfolding base(2) by (rule slot_mod [OF buf(1) base(3)])
  then have s4: "pop_steps [?A, ?A] s3 = \<lparr>sh_ring = ?r, sh_phase = (\<lambda>_. Waiting),
      sh_got = (\<lambda>_. [])(?B := [sent ! got, sent ! Suc got], ?A := [sent ! got])\<rparr>"
    using base(2,5) buf(2) by (simp add: pop_steps_def pop_step_def pop_part_def s1_def s3_def fun_upd_idem add.commute fun_eq_iff)
  have inv: "ring_inv k ?r sent (Suc got)"
  proof -
    have "\<exists>t. Suc got \<le> t \<and> t \<le> length sent \<and> cached_tail r3 = of_nat t"
      using r3(2) unfolding ring_inv_def by (meson Suc_leD)
    moreover have "\<exists>h \<le> Suc got. cached_head r3 = of_nat h \<and> length sent \<le> h + 2 ^ k"
      "length sent \<le> Suc got + 2 ^ k" "\<forall>j. Suc got \<le> j \<and> j < length sent \<longrightarrow> rb_buf r3 ! (j mod 2 ^ k) = sent ! j"
      using r2(2) r3(3,4) by (auto simp: ring_inv_def)
    ultimately show ?thesis using r3(2) got by (simp add: ring_inv_def)
  qed
  obtain r4 where "pop ?r = (Some (sent ! Suc got), r4)" using pop_next [OF inv got(2)] by blast
  moreover have "pop_steps ([?A] @ [?B, ?B, ?B] @ [?B, ?B, ?B] @ [?A, ?A]) (share r) = pop_steps [?A, ?A] s3"
    using s1 s2 s3 by (simp add: pop_steps_def)
  ultimately show ?thesis using s4 inv by (intro exI [of _ "[?A] @ [?B, ?B, ?B] @ [?B, ?B, ?B] @ [?A, ?A]"]) simp
qed

lemma second_receiver_repeats_items_witness:
  "\<exists>r sched. ring_inv 1 r [7, 8] 0
    \<and> (let s = pop_steps sched (share r) in
        sh_got s Supervisor = [7] \<and> sh_got s Book_thread = [7, 8 :: nat] \<and> fst (pop (sh_ring s)) = Some 8)"
proof -
  let ?r = "\<lparr>rb_buf = [7, 8], rb_head = 0, rb_tail = 2, cached_tail = 0, cached_head = 0\<rparr>"
  have "j < 2 \<Longrightarrow> [7, 8] ! (j mod 2) = [7, 8 :: nat] ! j" for j by simp
  then have "ring_inv 1 ?r [7, 8] 0" by (auto simp: ring_inv_def)
  with second_receiver_repeats_items [OF this] show ?thesis by (intro exI [of _ ?r]) (auto simp: Let_def)
qed

end
