(* ===== verification/Live_Ring.thy ===== *)
theory Live_Ring
  imports Live_Session Spsc_Shared
begin

text \<open>
  The threads of one feed with the channel of \<^verbatim>\<open>spsc_ring_buffer.hpp\<close> in the place of the list in Live_Switch:
  the callback calls \<open>send\<close>, the consumer and the supervisor's drain call \<open>receive\<close>, and each call is cut in the
  parts of Spsc_Ring and Spsc_Shared, so that the threads interleave inside the calls. The two receivers may be inside
  \<open>receive\<close> together, with the consequences Spsc_Shared shows; the properties are about runs in which they are not
  (\<open>one_receiver\<close>). Then the list of Live_Switch is what the ring holds, and a run over the ring is a run over the
  list: a call takes effect with its last part, and the other turns are the silent ones. A load returns the latest
  value here; the memory orders are the matter of Spsc_Memory.
\<close>

record 't ring_feed =
  rf_feed :: "'t feed"
  rf_chan :: "(string \<times> pipeline_msg) channel"
  rf_push :: prod_phase
  rf_pop :: "caller \<Rightarrow> (string \<times> pipeline_msg) call_phase"

definition start_ring_feed :: "env \<Rightarrow> string \<Rightarrow> 't ring_feed" where
  "start_ring_feed v sy = \<lparr>rf_feed = start_feed sy, rf_chan = new_channel (env_policy v) (env_cap v) ([], default_msg),
     rf_push = P_idle, rf_pop = (\<lambda>_. Waiting)\<rparr>"

text \<open>The callback in \<open>channel.send\<close>.\<close>

definition ring_send :: "'t ring_feed \<Rightarrow> 't ring_feed option" where
  "ring_send x =
    (let s = rf_feed x; c = rf_chan x; r = ch_ring c in
     case cb s of
       Cb_idle \<Rightarrow> None
     | Cb_sending [] \<Rightarrow> Some (x\<lparr>rf_feed := s\<lparr>cb := Cb_idle\<rparr>\<rparr>)
     | Cb_sending (m # ms) \<Rightarrow>
         (case rf_push x of
            P_idle \<Rightarrow>
              let (room, r) = push_check (rb_head r) r; c = c\<lparr>ch_ring := r\<rparr>
              in if room then Some (x\<lparr>rf_chan := c, rf_push := P_checked\<rparr>)
                 else if ch_policy c = Block then Some (x\<lparr>rf_chan := c\<rparr>)
                 else Some (x\<lparr>rf_feed := s\<lparr>cb := Cb_sending ms\<rparr>, rf_chan := c\<lparr>ch_dropped := ch_dropped c + 1\<rparr>\<rparr>)
          | P_checked \<Rightarrow> Some (x\<lparr>rf_chan := c\<lparr>ch_ring := push_write (ws_symbol s, m) r\<rparr>, rf_push := P_written\<rparr>)
          | P_written \<Rightarrow>
              Some (x\<lparr>rf_feed := s\<lparr>cb := Cb_sending ms\<rparr>, rf_chan := c\<lparr>ch_ring := push_publish r\<rparr>, rf_push := P_idle\<rparr>)))"

text \<open>A part of \<open>channel.receive\<close>, called by the supervisor or by the consumer.\<close>

definition receive_part :: "caller \<Rightarrow> 't ring_feed \<Rightarrow> 't ring_feed \<times> (string \<times> pipeline_msg) call_result" where
  "receive_part w x =
    (let (r, p, res) = pop_part (ch_ring (rf_chan x)) (rf_pop x w)
     in (x\<lparr>rf_chan := (rf_chan x)\<lparr>ch_ring := r\<rparr>, rf_pop := (rf_pop x)(w := p)\<rparr>, res))"

definition ring_drain :: "'t ring_feed \<Rightarrow> 't ring_feed option" where
  "ring_drain x =
    (case receive_part Supervisor x of
       (x, Returned None) \<Rightarrow> Some (x\<lparr>rf_feed := (rf_feed x)\<lparr>spc := S_rest\<rparr>\<rparr>)
     | (x, _) \<Rightarrow> Some x)"

definition ring_receive :: "env \<Rightarrow> live_state \<Rightarrow> 't ring_feed \<Rightarrow> 't ring_feed option" where
  "ring_receive v st x =
    (case receive_part Book_thread x of
       (x, Under_way) \<Rightarrow> Some x
     | (x, Returned None) \<Rightarrow> Some (x\<lparr>rf_feed := (rf_feed x)\<lparr>con := C_live st\<rparr>\<rparr>)
     | (x, Returned (Some ym)) \<Rightarrow>
         do { s \<leftarrow> take_msg v st ym (f_ring (rf_feed x)) (rf_feed x); Some (x\<lparr>rf_feed := s\<rparr>) })"

definition ring_step :: "env \<Rightarrow> 't turn \<Rightarrow> 't ring_feed \<Rightarrow> 't ring_feed option" where
  "ring_step v t x =
    (let s = rf_feed x; rest = map_option (\<lambda>s. x\<lparr>rf_feed := s\<rparr>) (feed_step v t s) in
     case t of
       Send \<Rightarrow> ring_send x
     | Sup \<Rightarrow> if spc s = S_drain then ring_drain x else rest
     | Con \<Rightarrow> (case con s of C_recv st \<Rightarrow> ring_receive v st x | _ \<Rightarrow> rest)
     | _ \<Rightarrow> rest)"

fun ring_turns :: "env \<Rightarrow> 't turn list \<Rightarrow> 't ring_feed \<Rightarrow> 't ring_feed option" where
  "ring_turns v [] x = Some x"
| "ring_turns v (t # ts) x = (case ring_step v t x of None \<Rightarrow> None | Some x \<Rightarrow> ring_turns v ts x)"

section \<open>What the list of Live_Switch stands for\<close>

definition abs_feed :: "'t ring_feed \<Rightarrow> 't feed" where
  "abs_feed x = (rf_feed x)\<lparr>f_ring := ring_items (ch_ring (rf_chan x)), f_dropped := ch_dropped (rf_chan x)\<rparr>"

text \<open>The supervisor and the consumer are not inside \<open>receive\<close> together.\<close>

definition receives_apart :: "'t ring_feed \<Rightarrow> bool" where
  "receives_apart x \<longleftrightarrow> rf_pop x Supervisor = Waiting \<or> rf_pop x Book_thread = Waiting"

fun one_receiver :: "env \<Rightarrow> 't turn list \<Rightarrow> 't ring_feed \<Rightarrow> bool" where
  "one_receiver v [] x = receives_apart x"
| "one_receiver v (t # ts) x =
    (receives_apart x \<and> (case ring_step v t x of None \<Rightarrow> True | Some x \<Rightarrow> one_receiver v ts x))"

text \<open>
  The turns that only prepare: a part of \<open>send\<close> that does not end the call (or an attempt that found the ring full
  under Block), and a part of \<open>receive\<close> that does not return. The other turns are those of the list.
\<close>

definition silent :: "'t turn \<Rightarrow> 't ring_feed \<Rightarrow> 't ring_feed \<Rightarrow> bool" where
  "silent t x x' \<longleftrightarrow>
    (case t of
       Send \<Rightarrow> cb (rf_feed x') = cb (rf_feed x)
     | Sup \<Rightarrow> rf_pop x' Supervisor \<noteq> Waiting
     | Con \<Rightarrow> rf_pop x' Book_thread \<noteq> Waiting
     | _ \<Rightarrow> False)"

fun list_turns :: "env \<Rightarrow> 't turn list \<Rightarrow> 't ring_feed \<Rightarrow> 't turn list" where
  "list_turns v [] x = []"
| "list_turns v (t # ts) x =
    (case ring_step v t x of None \<Rightarrow> [] | Some x' \<Rightarrow> (if silent t x x' then [] else [t]) @ list_turns v ts x')"

lemma ring_turns_append:
  "ring_turns v (ts @ us) x = (case ring_turns v ts x of None \<Rightarrow> None | Some x' \<Rightarrow> ring_turns v us x')"
  by (induction ts arbitrary: x) (auto split: option.split)

lemma list_turns_append:
  "ring_turns v ts x = Some x' \<Longrightarrow> list_turns v (ts @ us) x = list_turns v ts x @ list_turns v us x'"
  by (induction ts arbitrary: x) (auto split: option.splits)

lemma one_receiver_append:
  "ring_turns v ts x = Some x' \<Longrightarrow> one_receiver v (ts @ us) x \<longleftrightarrow> one_receiver v ts x \<and> one_receiver v us x'"
proof (induction ts arbitrary: x)
  case Nil
  then show ?case by (cases us) auto
qed (auto split: option.splits)

lemma updates_list_turns: "ring_turns v ts x = Some x' \<Longrightarrow> updates (list_turns v ts x) = updates ts"
  by (induction ts arbitrary: x) (auto simp: silent_def split: option.splits turn.splits)

lemma set_list_turns: "set (list_turns v ts x) \<subseteq> set ts"
  by (induction ts arbitrary: x) (auto split: option.splits)

section \<open>The invariant\<close>

definition pop_ok :: "'a ring \<Rightarrow> 'a list \<Rightarrow> nat \<Rightarrow> 'a call_phase \<Rightarrow> bool" where
  "pop_ok r xs got p \<longleftrightarrow>
    (case p of
       Waiting \<Rightarrow> True
     | Passed h \<Rightarrow> h = of_nat got \<and> has_item r xs got
     | Holding h y \<Rightarrow> h = of_nat got \<and> has_item r xs got \<and> y = xs ! got)"

definition push_ok :: "nat \<Rightarrow> 'a ring \<Rightarrow> 'a list \<Rightarrow> nat \<Rightarrow> 'a option \<Rightarrow> prod_phase \<Rightarrow> bool" where
  "push_ok k r xs got y p \<longleftrightarrow>
    (case p of
       P_idle \<Rightarrow> True
     | P_checked \<Rightarrow> y \<noteq> None \<and> has_room k r xs got
     | P_written \<Rightarrow> has_room k r xs got \<and> y = Some (rb_buf r ! (length xs mod 2 ^ k)))"

text \<open>The message the callback is sending, with the symbol of its stream.\<close>

definition sending :: "'t feed \<Rightarrow> (string \<times> pipeline_msg) option" where
  "sending s = (case cb s of Cb_sending (m # ms) \<Rightarrow> Some (ws_symbol s, m) | _ \<Rightarrow> None)"

lemma sending_cong: "cb s' = cb s \<Longrightarrow> ws_symbol s' = ws_symbol s \<Longrightarrow> sending s' = sending s"
  by (auto simp: sending_def split: callback.split list.split)

lemma sending_frame [simp]: "sending (s\<lparr>spc := p\<rparr>) = sending s" "sending (s\<lparr>con := c\<rparr>) = sending s"
  by (rule sending_cong; simp)+

definition ring_feed_inv :: "env \<Rightarrow> nat \<Rightarrow> (string \<times> pipeline_msg) list \<Rightarrow> nat \<Rightarrow> 't ring_feed \<Rightarrow> bool" where
  "ring_feed_inv v k xs got x \<longleftrightarrow>
    (let r = ch_ring (rf_chan x); s = rf_feed x in
     ring_inv k r xs got \<and> env_cap v = 2 ^ k \<and> ch_policy (rf_chan x) = env_policy v
     \<and> push_ok k r xs got (sending s) (rf_push x)
     \<and> (\<forall>w. pop_ok r xs got (rf_pop x w)) \<and> receives_apart x
     \<and> (rf_pop x Supervisor \<noteq> Waiting \<longrightarrow> spc s = S_drain)
     \<and> (rf_pop x Book_thread \<noteq> Waiting \<longrightarrow> (\<exists>st. con s = C_recv st)))"

lemma pop_part_ok:
  assumes inv: "ring_inv k r xs got" and p: "pop_ok r xs got p" and run: "pop_part r p = (r', p', res)"
  shows "case res of
      Under_way \<Rightarrow> p' \<noteq> Waiting \<and> ring_inv k r' xs got \<and> pop_ok r' xs got p'
    | Returned None \<Rightarrow> p' = Waiting \<and> ring_inv k r' xs got \<and> got = length xs
    | Returned (Some y) \<Rightarrow> p' = Waiting \<and> got < length xs \<and> y = xs ! got \<and> ring_inv k r' xs (Suc got)"
    and "has_room k r' xs n = has_room k r xs n" and "rb_buf r' = rb_buf r"
proof -
  have b: "rb_head r = of_nat got" "rb_tail r = of_nat (length xs)" "got \<le> length xs" "length (rb_buf r) = 2 ^ k" "k < 64"
    using inv by (auto simp: ring_inv_def)
  show "case res of
      Under_way \<Rightarrow> p' \<noteq> Waiting \<and> ring_inv k r' xs got \<and> pop_ok r' xs got p'
    | Returned None \<Rightarrow> p' = Waiting \<and> ring_inv k r' xs got \<and> got = length xs
    | Returned (Some y) \<Rightarrow> p' = Waiting \<and> got < length xs \<and> y = xs ! got \<and> ring_inv k r' xs (Suc got)"
  proof (cases p)
    case Waiting
    obtain some r1 where c: "pop_check (of_nat (length xs)) r = (some, r1)" by fastforce
    note chk = pop_check_ok [OF inv b(3) le_refl c]
    show ?thesis
    proof (cases some)
      case True
      with pop_check_item [OF inv b(3) le_refl] c have "has_item r1 xs got" by simp
      then show ?thesis using run Waiting c chk(1) True b(1,2) by (auto simp: pop_part_def pop_ok_def)
    next
      case False
      then show ?thesis using run Waiting c chk(1,3) b(2) by (auto simp: pop_part_def)
    qed
  next
    case (Passed h)
    have "slot r h = got mod 2 ^ k" "has_item r xs got" "h = of_nat got"
      using p Passed slot_mod [OF b(4,5)] by (auto simp: pop_ok_def)
    moreover have "rb_buf r ! (got mod 2 ^ k) = xs ! got"
      using inv has_item_lt [OF calculation(2)] by (auto simp: ring_inv_def)
    ultimately show ?thesis using run Passed inv by (auto simp: pop_part_def pop_ok_def)
  next
    case (Holding h y)
    then have h: "h = of_nat got" "has_item r xs got" "y = xs ! got" using p by (auto simp: pop_ok_def)
    have "r\<lparr>rb_head := h + 1\<rparr> = pop_release r" using h(1) b(1) by (simp add: pop_release_def)
    then show ?thesis
      using run Holding h has_item_lt [OF h(2)] pop_release_item [OF inv h(2)] by (auto simp: pop_part_def)
  qed
  obtain some r1 where c: "pop_check (rb_tail r) r = (some, r1)" by fastforce
  show "has_room k r' xs n = has_room k r xs n" "rb_buf r' = rb_buf r"
    using run has_room_check [OF c] c by (cases p; auto simp: pop_part_def has_room_def split: if_splits)+
qed

text \<open>The steps that do not use the channel do not look at it.\<close>

lemma sup_frame:
  "spc s \<noteq> S_drain \<Longrightarrow> sup_step v (s\<lparr>f_ring := q, f_dropped := d\<rparr>) = map_option (\<lambda>s. s\<lparr>f_ring := q, f_dropped := d\<rparr>) (sup_step v s)"
  by (cases "spc s") (simp_all add: sup_step_def)

lemma live_frame [simp]: "live (s\<lparr>f_ring := q, f_dropped := d\<rparr>) = live s" "current (s\<lparr>f_ring := q, f_dropped := d\<rparr>) = current s"
  by (simp_all add: live_def current_def)

lemma con_ring_frame:
  "\<forall>st. con s \<noteq> C_recv st \<Longrightarrow>
    con_step v (s\<lparr>f_ring := q, f_dropped := d\<rparr>) = map_option (\<lambda>s. s\<lparr>f_ring := q, f_dropped := d\<rparr>) (con_step v s)"
  by (cases "con s") (simp_all add: con_step_def Let_def split: option.split Option.bind_split)

lemma main_frame:
  "main_step v (s\<lparr>f_ring := q, f_dropped := d\<rparr>) = map_option (\<lambda>s. s\<lparr>f_ring := q, f_dropped := d\<rparr>) (main_step v s)"
  by (cases "main_at s") (simp_all add: main_step_def)

lemma other_frame:
  assumes "t \<noteq> Send" and "t = Sup \<Longrightarrow> spc s \<noteq> S_drain" and "t = Con \<Longrightarrow> \<forall>st. con s \<noteq> C_recv st"
  shows "feed_step v t (s\<lparr>f_ring := q, f_dropped := d\<rparr>) = map_option (\<lambda>s. s\<lparr>f_ring := q, f_dropped := d\<rparr>) (feed_step v t s)"
  using assms sup_frame con_ring_frame main_frame
  by (cases t) (simp_all add: feed_step_def depth_step_def trade_step_def switch_step_def Let_def split: prod.split)

lemma take_frame:
  "take_msg v st ym ms (s\<lparr>f_ring := q, f_dropped := d\<rparr>)
    = map_option (\<lambda>s. s\<lparr>f_ring := ms, f_dropped := d\<rparr>) (take_msg v st ym q' s)"
  by (simp add: take_msg_def split: Option.bind_split)

section \<open>A turn of the ring is a turn of the list, or silent\<close>

lemma abs_drop:
  assumes "ring_feed_inv v k xs got x"
  shows "abs_feed x = (rf_feed x)\<lparr>f_ring := drop got xs, f_dropped := ch_dropped (rf_chan x)\<rparr>"
proof -
  have "ring_inv k (ch_ring (rf_chan x)) xs got" using assms by (simp add: ring_feed_inv_def Let_def)
  from ring_items_drop [OF this] show ?thesis by (simp add: abs_feed_def)
qed

lemma pop_ok_frame:
  assumes "pop_ok r xs got p" and "\<And>n. has_item r xs n \<Longrightarrow> has_item r' (xs @ ys) n"
  shows "pop_ok r' (xs @ ys) got p"
  using assms has_item_lt [of r xs got] by (auto simp: pop_ok_def nth_append split: call_phase.splits)

text \<open>What the feed's own steps change.\<close>

lemma ring_feed_inv_feed:
  assumes "ring_feed_inv v k xs got x" and "rf_push x \<noteq> P_idle \<Longrightarrow> sending s' = sending (rf_feed x)"
    and "rf_pop x Supervisor \<noteq> Waiting \<Longrightarrow> spc s' = spc (rf_feed x)"
    and "rf_pop x Book_thread \<noteq> Waiting \<Longrightarrow> con s' = con (rf_feed x)"
  shows "ring_feed_inv v k xs got (x\<lparr>rf_feed := s'\<rparr>)"
  using assms by (cases "rf_push x") (simp_all add: ring_feed_inv_def Let_def receives_apart_def push_ok_def)

lemma send_simulates:
  assumes inv: "ring_feed_inv v k xs got x" and run: "ring_send x = Some x'"
  shows "\<exists>ys. ring_feed_inv v k ys got x' \<and> rf_pop x' = rf_pop x
    \<and> (if cb (rf_feed x') = cb (rf_feed x) then abs_feed x' = abs_feed x else send_step v (abs_feed x) = Some (abs_feed x'))"
proof (cases "sending (rf_feed x)")
  case None
  then have x': "cb (rf_feed x) = Cb_sending []" "x' = x\<lparr>rf_feed := (rf_feed x)\<lparr>cb := Cb_idle\<rparr>\<rparr>"
    using run by (auto simp: ring_send_def sending_def Let_def split: callback.splits list.splits)
  have "rf_push x = P_idle" using inv None by (cases "rf_push x") (auto simp: ring_feed_inv_def Let_def push_ok_def)
  then have "ring_feed_inv v k xs got x'" unfolding x'(2) by (intro ring_feed_inv_feed [OF inv]) simp_all
  then show ?thesis using x'(1) by (intro exI [of _ xs]) (simp add: x'(2) abs_feed_def send_step_def)
next
  case (Some ym)
  let ?s = "rf_feed x" and ?r = "ch_ring (rf_chan x)"
  obtain m ms where cb: "cb ?s = Cb_sending (m # ms)" and ym: "ym = (ws_symbol ?s, m)"
    using Some by (auto simp: sending_def split: callback.splits list.splits)
  have ring: "ring_inv k ?r xs got" and cap: "env_cap v = 2 ^ k" and pol: "ch_policy (rf_chan x) = env_policy v"
    and pu: "push_ok k ?r xs got (Some ym) (rf_push x)" and po: "\<And>w. pop_ok ?r xs got (rf_pop x w)"
    and rest: "receives_apart x" "rf_pop x Supervisor \<noteq> Waiting \<longrightarrow> spc ?s = S_drain"
      "rf_pop x Book_thread \<noteq> Waiting \<longrightarrow> (\<exists>st. con ?s = C_recv st)"
    using inv Some by (simp_all add: ring_feed_inv_def Let_def)
  have b: "rb_head ?r = of_nat got" "length xs \<le> got + 2 ^ k" "got \<le> length xs" using ring by (auto simp: ring_inv_def)
  have len: "length (f_ring (abs_feed x)) = length xs - got" by (simp add: abs_drop [OF inv])
  show ?thesis
  proof (cases "rf_push x")
    case P_idle
    obtain room r where c: "push_check (of_nat got) ?r = (room, r)" by fastforce
    note chk = push_check_ok [OF ring le_refl b(2) c]
    have po': "pop_ok r xs got (rf_pop x w)" for w
      using pop_ok_frame [OF po [of w], where r' = r and ys = "[]"] has_item_check [OF c] by simp
    have items: "ring_items r = ring_items ?r" by (simp add: ring_items_drop [OF chk(1)] ring_items_drop [OF ring])
    show ?thesis
    proof (cases "room \<or> env_policy v = Block")
      case True
      then have x': "x' = x\<lparr>rf_chan := (rf_chan x)\<lparr>ch_ring := r\<rparr>, rf_push := if room then P_checked else P_idle\<rparr>"
        using run cb P_idle c b(1) pol by (auto simp: ring_send_def Let_def split: if_splits)
      have "push_ok k r xs got (Some ym) (rf_push x')" using chk(2) by (simp add: x' push_ok_def)
      then have "ring_feed_inv v k xs got x'"
        using chk(1) cap pol po' rest Some by (simp add: x' ring_feed_inv_def Let_def receives_apart_def)
      then show ?thesis by (intro exI [of _ xs]) (simp add: x' abs_feed_def items)
    next
      case False
      then have x': "x' = x\<lparr>rf_feed := ?s\<lparr>cb := Cb_sending ms\<rparr>,
          rf_chan := (rf_chan x)\<lparr>ch_ring := r, ch_dropped := ch_dropped (rf_chan x) + 1\<rparr>\<rparr>"
        using run cb P_idle c b(1) pol by (auto simp: ring_send_def Let_def split: if_splits)
      have "ring_feed_inv v k xs got x'"
        using chk(1) cap pol po' rest P_idle by (simp add: x' ring_feed_inv_def Let_def receives_apart_def push_ok_def)
      moreover have "\<not> length xs - got < env_cap v" using chk(3) False cap by simp
      ultimately show ?thesis
        using False cb len by (intro exI [of _ xs], simp add: x' send_step_def, simp add: abs_feed_def items)
    qed
  next
    case P_checked
    then have room: "has_room k ?r xs got" using pu by (simp add: push_ok_def)
    note w = push_write_ok [OF ring room, of ym]
    have x': "x' = x\<lparr>rf_chan := (rf_chan x)\<lparr>ch_ring := push_write ym ?r\<rparr>, rf_push := P_written\<rparr>"
      using run cb P_checked ym by (simp add: ring_send_def Let_def)
    have "pop_ok (push_write ym ?r) xs got (rf_pop x c)" for c
      using pop_ok_frame [OF po [of c], where r' = "push_write ym ?r" and ys = "[]"] by simp
    then have "ring_feed_inv v k xs got x'"
      using w cap pol rest Some by (simp add: x' ring_feed_inv_def Let_def receives_apart_def push_ok_def)
    then show ?thesis
      by (intro exI [of _ xs]) (simp add: x' abs_feed_def ring_items_drop [OF w(1)] ring_items_drop [OF ring])
  next
    case P_written
    then have room: "has_room k ?r xs got" and at: "rb_buf ?r ! (length xs mod 2 ^ k) = ym" using pu by (simp_all add: push_ok_def)
    note p = push_publish_ok [OF ring room at]
    have x': "x' = x\<lparr>rf_feed := ?s\<lparr>cb := Cb_sending ms\<rparr>, rf_chan := (rf_chan x)\<lparr>ch_ring := push_publish ?r\<rparr>, rf_push := P_idle\<rparr>"
      using run cb P_written by (simp add: ring_send_def Let_def)
    have "pop_ok (push_publish ?r) (xs @ [ym]) got (rf_pop x c)" for c
      by (rule pop_ok_frame [OF po]) (simp add: has_item_append)
    then have "ring_feed_inv v k (xs @ [ym]) got x'"
      using p cap pol rest by (simp add: x' ring_feed_inv_def Let_def receives_apart_def push_ok_def)
    moreover have "length xs - got < env_cap v" using has_roomD [OF room] b(3) cap by simp
    ultimately show ?thesis
      using cb len b(3) ym by (intro exI [of _ "xs @ [ym]"], simp add: x' send_step_def, simp add: abs_feed_def ring_items_drop [OF p] ring_items_drop [OF ring])
  qed
qed

lemma receive_simulates:
  assumes inv: "ring_feed_inv v k xs got x" and run: "receive_part w x = (x', res)" and ap: "receives_apart x'"
    and here: "w = Supervisor \<Longrightarrow> spc (rf_feed x) = S_drain" "w = Book_thread \<Longrightarrow> \<exists>st. con (rf_feed x) = C_recv st"
  shows "rf_feed x' = rf_feed x" and "ch_dropped (rf_chan x') = ch_dropped (rf_chan x)"
    and "case res of
      Under_way \<Rightarrow> ring_feed_inv v k xs got x' \<and> rf_pop x' w \<noteq> Waiting
    | Returned None \<Rightarrow> ring_feed_inv v k xs got x' \<and> drop got xs = [] \<and> rf_pop x' w = Waiting
    | Returned (Some y) \<Rightarrow> ring_feed_inv v k xs (Suc got) x' \<and> drop got xs = y # drop (Suc got) xs \<and> rf_pop x' w = Waiting"
    and "\<forall>u. u \<noteq> w \<longrightarrow> rf_pop x' u = rf_pop x u"
proof -
  let ?r = "ch_ring (rf_chan x)"
  obtain r p where p: "pop_part ?r (rf_pop x w) = (r, p, res)" and x': "x' = x\<lparr>rf_chan := (rf_chan x)\<lparr>ch_ring := r\<rparr>,
      rf_pop := (rf_pop x)(w := p)\<rparr>"
    using run by (auto simp: receive_part_def split: prod.splits)
  have ring: "ring_inv k ?r xs got" and po: "\<And>u. pop_ok ?r xs got (rf_pop x u)"
    and pu: "push_ok k ?r xs got (sending (rf_feed x)) (rf_push x)" and ap0: "receives_apart x"
    using inv by (simp_all add: ring_feed_inv_def Let_def)
  note part = pop_part_ok [OF ring po p]
  have alone: "rf_pop x u = Waiting" if u: "u \<noteq> w" for u
  proof (rule ccontr)
    assume busy: "rf_pop x u \<noteq> Waiting"
    then have "got < length xs" using po [of u] has_item_lt by (auto simp: pop_ok_def split: call_phase.splits)
    moreover have "rf_pop x w = Waiting" "p = Waiting"
      using busy u ap0 ap by (cases w; cases u; auto simp: receives_apart_def x')+
    ultimately show False using p part(1) by (auto simp: pop_part_def split: if_splits prod.splits)
  qed
  show "rf_feed x' = rf_feed x" "ch_dropped (rf_chan x') = ch_dropped (rf_chan x)" "\<forall>u. u \<noteq> w \<longrightarrow> rf_pop x' u = rf_pop x u"
    by (simp_all add: x')
  have pu': "push_ok k r xs n (sending (rf_feed x)) (rf_push x)" if "got \<le> n" "n \<le> Suc got" for n
  proof -
    have "n = got \<or> n = Suc got" using that by auto
    then show ?thesis using pu part(2,3) has_room_Suc
      by (cases "rf_push x") (auto simp: push_ok_def part(2))
  qed
  have inv': "ring_feed_inv v k xs n x'" if "ring_inv k r xs n" "pop_ok r xs n p" "got \<le> n" "n \<le> Suc got" for n
  proof -
    have "pop_ok r xs n (if u = w then p else rf_pop x u)" for u
      using that(2) alone [of u] by (auto simp: pop_ok_def)
    then show ?thesis
      using inv that pu' [OF that(3,4)] here ap alone
      by (cases w) (auto simp: x' ring_feed_inv_def Let_def receives_apart_def)
  qed
  show "case res of
      Under_way \<Rightarrow> ring_feed_inv v k xs got x' \<and> rf_pop x' w \<noteq> Waiting
    | Returned None \<Rightarrow> ring_feed_inv v k xs got x' \<and> drop got xs = [] \<and> rf_pop x' w = Waiting
    | Returned (Some y) \<Rightarrow> ring_feed_inv v k xs (Suc got) x' \<and> drop got xs = y # drop (Suc got) xs \<and> rf_pop x' w = Waiting"
    using part(1) inv' [of got] inv' [of "Suc got"] Cons_nth_drop_Suc [of got xs]
    by (auto simp: x' pop_ok_def split: call_result.splits option.splits)
qed

text \<open>The other steps of a feed leave the calls alone.\<close>

lemma sup_keeps:
  assumes "sup_step v s = Some s'" and "stop_joins v"
  shows "cb s' = cb s \<and> (cb s \<noteq> Cb_idle \<longrightarrow> ws_symbol s' = ws_symbol s) \<and> con s' = con s"
proof (cases "spc s")
  case S_drain
  then show ?thesis using assms(1) by (cases "f_ring s") (auto simp: sup_step_def)
qed (use assms in \<open>clarsimp simp: sup_step_def stop_joins_def split: if_splits\<close>)+

lemma main_keeps: "main_step v s = Some s' \<Longrightarrow> cb s' = cb s \<and> ws_symbol s' = ws_symbol s \<and> con s' = con s \<and> spc s' = spc s"
  by (cases "main_at s") (auto simp: main_step_def split: if_splits)

lemma con_keeps:
  assumes "con_step v s = Some s'"
  shows "cb s' = cb s \<and> ws_symbol s' = ws_symbol s \<and> spc s' = spc s"
  using assms
proof (cases rule: con_stepE)
  case (message st ym ms)
  from message(3) show ?thesis by (rule take_msgE) simp
qed simp_all

lemma others_keep:
  assumes "feed_step v t s = Some s'" and "stop_joins v" and "t \<noteq> Send"
  shows "sending s \<noteq> None \<Longrightarrow> sending s' = sending s" and "t \<noteq> Sup \<Longrightarrow> spc s' = spc s" and "t \<noteq> Con \<Longrightarrow> con s' = con s"
proof -
  have "cb s \<noteq> Cb_idle \<Longrightarrow> cb s' = cb s \<and> ws_symbol s' = ws_symbol s"
    by (cases t) (use assms sup_keeps [of v s s'] main_keeps [of v s s'] con_keeps [of v s s'] in
      \<open>auto simp: feed_step_def depth_step_def trade_step_def switch_step_def current_def split: if_splits prod.splits\<close>)
  moreover have "cb s \<noteq> Cb_idle" if "sending s \<noteq> None" using that by (auto simp: sending_def)
  ultimately show "sending s \<noteq> None \<Longrightarrow> sending s' = sending s" using sending_cong by blast
  show "t \<noteq> Sup \<Longrightarrow> spc s' = spc s"
    by (cases t) (use assms main_keeps [of v s s'] con_keeps [of v s s'] in
      \<open>auto simp: feed_step_def depth_step_def trade_step_def switch_step_def split: if_splits prod.splits\<close>)
  show "t \<noteq> Con \<Longrightarrow> con s' = con s"
    by (cases t) (use assms sup_keeps [of v s s'] main_keeps [of v s s'] in
      \<open>auto simp: feed_step_def depth_step_def trade_step_def switch_step_def split: if_splits prod.splits\<close>)
qed

lemma other_step:
  assumes inv: "ring_feed_inv v k xs got x" and "stop_joins v" and t: "t \<noteq> Send" "t = Sup \<Longrightarrow> spc (rf_feed x) \<noteq> S_drain"
      "t = Con \<Longrightarrow> \<forall>st. con (rf_feed x) \<noteq> C_recv st"
    and step: "feed_step v t (rf_feed x) = Some s'"
  shows "ring_feed_inv v k xs got (x\<lparr>rf_feed := s'\<rparr>)" and "feed_step v t (abs_feed x) = Some (abs_feed (x\<lparr>rf_feed := s'\<rparr>))"
proof -
  note keep = others_keep [OF step assms(2) t(1)]
  have "sending (rf_feed x) \<noteq> None" if "rf_push x \<noteq> P_idle"
    using inv that by (cases "rf_push x") (auto simp: ring_feed_inv_def Let_def push_ok_def)
  moreover have "t \<noteq> Sup" if "rf_pop x Supervisor \<noteq> Waiting" using inv t(2) that by (auto simp: ring_feed_inv_def Let_def)
  moreover have "t \<noteq> Con" if "rf_pop x Book_thread \<noteq> Waiting" using inv t(3) that by (auto simp: ring_feed_inv_def Let_def)
  ultimately show "ring_feed_inv v k xs got (x\<lparr>rf_feed := s'\<rparr>)" using keep by (intro ring_feed_inv_feed [OF inv]) blast+
  show "feed_step v t (abs_feed x) = Some (abs_feed (x\<lparr>rf_feed := s'\<rparr>))"
    using other_frame [OF t] step by (simp add: abs_feed_def)
qed


lemma ring_step_simulates:
  assumes inv: "ring_feed_inv v k xs got x" and joins: "stop_joins v" and step: "ring_step v t x = Some x'" and ap: "receives_apart x'"
  shows "(\<exists>ys n. ring_feed_inv v k ys n x')
    \<and> (if silent t x x' then abs_feed x' = abs_feed x else feed_step v t (abs_feed x) = Some (abs_feed x'))"
proof -
  have pops: "rf_pop x Supervisor \<noteq> Waiting \<Longrightarrow> spc (rf_feed x) = S_drain"
      "rf_pop x Book_thread \<noteq> Waiting \<Longrightarrow> \<exists>st. con (rf_feed x) = C_recv st"
    using inv by (simp_all add: ring_feed_inv_def Let_def)
  have rest: ?thesis if t: "t \<noteq> Send" "t = Sup \<Longrightarrow> spc (rf_feed x) \<noteq> S_drain" "t = Con \<Longrightarrow> \<forall>st. con (rf_feed x) \<noteq> C_recv st"
    and run: "map_option (\<lambda>s. x\<lparr>rf_feed := s\<rparr>) (feed_step v t (rf_feed x)) = Some x'"
  proof -
    obtain s' where s': "feed_step v t (rf_feed x) = Some s'" "x' = x\<lparr>rf_feed := s'\<rparr>" using run by auto
    have "\<not> silent t x x'" using t pops by (cases t) (auto simp: silent_def s'(2))
    with other_step [OF inv joins t s'(1)] s'(2) show ?thesis by auto
  qed
  show ?thesis
  proof (cases t)
    case Send
    then have "ring_send x = Some x'" using step by (simp add: ring_step_def Let_def)
    from send_simulates [OF inv this] Send show ?thesis by (auto simp: silent_def feed_step_def)
  next
    case Sup
    show ?thesis
    proof (cases "spc (rf_feed x) = S_drain")
      case True
      obtain x1 res where r: "receive_part Supervisor x = (x1, res)" by fastforce
      have x': "x' = (if res = Returned None then x1\<lparr>rf_feed := (rf_feed x1)\<lparr>spc := S_rest\<rparr>\<rparr> else x1)"
        using step Sup True r by (auto simp: ring_step_def ring_drain_def Let_def split: call_result.splits option.splits)
      then have "receives_apart x1" using ap by (auto simp: receives_apart_def split: if_splits)
      note rs = receive_simulates [OF inv r this True]
      show ?thesis
      proof (cases res)
        case Under_way
        then show ?thesis using rs(1-3) Sup by (auto simp: x' silent_def abs_drop [OF inv] abs_drop)
      next
        case (Returned y)
        show ?thesis
        proof (cases y)
          case None
          then have i: "ring_feed_inv v k xs got x1" "drop got xs = []" "rf_pop x1 Supervisor = Waiting" using rs(3) Returned by auto
          have inv': "ring_feed_inv v k xs got x'"
            unfolding x' Returned None if_P [OF refl] by (rule ring_feed_inv_feed [OF i(1)]) (use i in simp_all)
          show ?thesis using inv' Returned None Sup True rs(1,2) i(2,3) abs_drop [OF inv] abs_drop [OF inv']
            by (auto simp: x' silent_def feed_step_def sup_step_def)
        next
          case (Some m)
          then have i: "ring_feed_inv v k xs (Suc got) x1" "drop got xs = m # drop (Suc got) xs" "rf_pop x1 Supervisor = Waiting"
            using rs(3) Returned by auto
          then show ?thesis using Returned Some Sup True rs(1,2)
            by (auto simp: x' silent_def feed_step_def sup_step_def abs_drop [OF inv] abs_drop [OF i(1)])
        qed
      qed
    next
      case False
      show ?thesis by (rule rest) (use step Sup False in \<open>auto simp: ring_step_def Let_def\<close>)
    qed
  next
    case Con
    show ?thesis
    proof (cases "\<exists>st. con (rf_feed x) = C_recv st")
      case True
      then obtain st where st: "con (rf_feed x) = C_recv st" by blast
      obtain x1 res where r: "receive_part Book_thread x = (x1, res)" by fastforce
      have x1: "rf_pop x' = rf_pop x1"
        using step Con st r by (auto simp: ring_step_def ring_receive_def Let_def bind_eq_Some_conv split: call_result.splits option.splits)
      then have "receives_apart x1" using ap by (simp add: receives_apart_def)
      note rs = receive_simulates [OF inv r this, simplified, OF True]
      show ?thesis
      proof (cases res)
        case Under_way
        then have "x' = x1" using step Con st r by (simp add: ring_step_def ring_receive_def Let_def)
        then show ?thesis using rs(1-3) Under_way Con by (auto simp: silent_def abs_drop [OF inv] abs_drop)
      next
        case (Returned y)
        show ?thesis
        proof (cases y)
          case None
          then have i: "ring_feed_inv v k xs got x1" "drop got xs = []" "rf_pop x1 Book_thread = Waiting" using rs(3) Returned by auto
          have x': "x' = x1\<lparr>rf_feed := (rf_feed x1)\<lparr>con := C_live st\<rparr>\<rparr>"
            using step Con st r Returned None by (simp add: ring_step_def ring_receive_def Let_def)
          have inv': "ring_feed_inv v k xs got x'" unfolding x' by (rule ring_feed_inv_feed [OF i(1)]) (use i in simp_all)
          show ?thesis using inv' Con st rs(1,2) i(2,3) abs_drop [OF inv] abs_drop [OF inv']
            by (auto simp: x' silent_def feed_step_def con_step_def)
        next
          case (Some m)
          then have i: "ring_feed_inv v k xs (Suc got) x1" "drop got xs = m # drop (Suc got) xs" "rf_pop x1 Book_thread = Waiting"
            using rs(3) Returned by auto
          obtain s' where s': "take_msg v st m (f_ring (rf_feed x)) (rf_feed x) = Some s'" "x' = x1\<lparr>rf_feed := s'\<rparr>"
            using step Con st r Returned Some rs(1) by (auto simp: ring_step_def ring_receive_def Let_def bind_eq_Some_conv)
          have keep: "sending s' = sending (rf_feed x1) \<and> spc s' = spc (rf_feed x1)"
            using s'(1) by (rule take_msgE) (auto simp: rs(1) intro!: sending_cong)
          have "ring_feed_inv v k xs (Suc got) x'" unfolding s'(2) by (rule ring_feed_inv_feed [OF i(1)]) (use i keep in auto)
          moreover have "feed_step v Con (abs_feed x) = Some (abs_feed x')"
            using s' st rs(1,2) i(2) abs_drop [OF inv] abs_drop [OF calculation]
              take_frame [where s = "rf_feed x" and ms = "drop (Suc got) xs" and q = "drop got xs" and q' = "f_ring (rf_feed x)"]
            by (simp add: feed_step_def con_step_def)
          ultimately show ?thesis using i(3) Con by (auto simp: silent_def s'(2))
        qed
      qed
    next
      case False
      show ?thesis by (rule rest) (use step Con False in \<open>auto simp: ring_step_def Let_def split: con_pc.splits\<close>)
    qed
  qed (rule rest; use step in \<open>simp add: ring_step_def Let_def\<close>)+
qed

lemma ring_turns_simulate:
  assumes "ring_turns v ts x = Some x'" and "one_receiver v ts x" and "stop_joins v" and "ring_feed_inv v k xs got x"
  shows "(\<exists>ys n. ring_feed_inv v k ys n x') \<and> feed_turns v (list_turns v ts x) (abs_feed x) = Some (abs_feed x')"
  using assms(1,2,4)
proof (induction ts arbitrary: x xs got)
  case (Cons t ts)
  obtain x1 where x1: "ring_step v t x = Some x1" "ring_turns v ts x1 = Some x'" "one_receiver v ts x1"
    using Cons.prems(1,2) by (auto split: option.splits)
  have "receives_apart x1" using x1(3) by (cases ts) simp_all
  from ring_step_simulates [OF Cons.prems(3) assms(3) x1(1) this] obtain ys n where
    s: "ring_feed_inv v k ys n x1" "if silent t x x1 then abs_feed x1 = abs_feed x else feed_step v t (abs_feed x) = Some (abs_feed x1)"
    by blast
  from Cons.IH [OF x1(2,3) s(1)] s(2) x1(1) show ?case by (cases "silent t x x1") simp_all
qed auto

section \<open>Every run of the list is one of the ring\<close>

text \<open>How many turns before the call under way returns.\<close>

fun push_left :: "prod_phase \<Rightarrow> nat" where
  "push_left P_idle = 2"
| "push_left P_checked = 1"
| "push_left P_written = 0"

fun pop_left :: "'a call_phase \<Rightarrow> nat" where
  "pop_left Waiting = 2"
| "pop_left (Passed h) = 1"
| "pop_left (Holding h y) = 0"

definition turns_left :: "'t turn \<Rightarrow> 't ring_feed \<Rightarrow> nat" where
  "turns_left t x =
    (case t of Send \<Rightarrow> push_left (rf_push x) | Sup \<Rightarrow> pop_left (rf_pop x Supervisor) | Con \<Rightarrow> pop_left (rf_pop x Book_thread)
     | _ \<Rightarrow> 0)"

text \<open>The supervisor's call has the consumer outside, and the other way round.\<close>

definition alone :: "'t turn \<Rightarrow> 't ring_feed \<Rightarrow> bool" where
  "alone t x \<longleftrightarrow> (t = Sup \<longrightarrow> rf_pop x Book_thread = Waiting) \<and> (t = Con \<longrightarrow> rf_pop x Supervisor = Waiting)"

lemma pop_part_left:
  "pop_part r p = (r', p', res) \<Longrightarrow> p' \<noteq> Waiting \<Longrightarrow> pop_left p' < pop_left p"
  by (cases p) (auto simp: pop_part_def split: if_splits prod.splits)

lemma ring_step_enabled:
  assumes inv: "ring_feed_inv v k xs got x" and joins: "stop_joins v" and one: "alone t x"
    and t: "feed_step v t (abs_feed x) = Some s'"
  shows "\<exists>x'. ring_step v t x = Some x' \<and> alone t x' \<and> receives_apart x' \<and> (silent t x x' \<longrightarrow> turns_left t x' < turns_left t x)"
proof -
  have ap: "receives_apart x" using inv by (simp add: ring_feed_inv_def Let_def)
  have rest: ?thesis if o: "t \<noteq> Send" "t = Sup \<Longrightarrow> spc (rf_feed x) \<noteq> S_drain" "t = Con \<Longrightarrow> \<forall>st. con (rf_feed x) \<noteq> C_recv st"
    and run: "ring_step v t x = map_option (\<lambda>s. x\<lparr>rf_feed := s\<rparr>) (feed_step v t (rf_feed x))"
  proof -
    have "feed_step v t (rf_feed x) \<noteq> None" using other_frame [OF o] t by (auto simp: abs_feed_def)
    then obtain s1 where s1: "ring_step v t x = Some (x\<lparr>rf_feed := s1\<rparr>)" using run by auto
    have "\<not> silent t x (x\<lparr>rf_feed := s1\<rparr>)" using o inv by (cases t) (auto simp: silent_def ring_feed_inv_def Let_def)
    then show ?thesis using s1 one ap by (intro exI [of _ "x\<lparr>rf_feed := s1\<rparr>"]) (simp add: alone_def receives_apart_def)
  qed
  show ?thesis
  proof (cases t)
    case Send
    let ?r = "ch_ring (rf_chan x)"
    have ring: "ring_inv k ?r xs got" "env_cap v = 2 ^ k" "ch_policy (rf_chan x) = env_policy v"
      using inv by (simp_all add: ring_feed_inv_def Let_def)
    have b: "rb_head ?r = of_nat got" "length xs \<le> got + 2 ^ k" using ring(1) by (auto simp: ring_inv_def)
    have send: "send_step v (abs_feed x) = Some s'" using t Send by (simp add: feed_step_def)
    show ?thesis
    proof (cases "cb (rf_feed x)")
      case Cb_idle
      then show ?thesis using send by (simp add: send_step_def abs_feed_def)
    next
      case (Cb_sending ms)
      show ?thesis
      proof (cases ms)
        case Nil
        then show ?thesis using Send Cb_sending ap by (simp add: ring_step_def ring_send_def silent_def alone_def receives_apart_def Let_def)
      next
        case (Cons m ns)
        have "\<exists>x'. ring_send x = Some x' \<and> rf_pop x' = rf_pop x \<and> (cb (rf_feed x') = cb (rf_feed x) \<longrightarrow> push_left (rf_push x') < push_left (rf_push x))"
        proof (cases "rf_push x")
          case P_idle
          obtain room r where c: "push_check (of_nat got) ?r = (room, r)" by fastforce
          have "room \<or> env_policy v \<noteq> Block"
            using push_check_ok(3) [OF ring(1) le_refl b(2) c] send Cb_sending Cons ring(2)
            by (auto simp: send_step_def abs_drop [OF inv] split: if_splits)
          then show ?thesis using Cb_sending Cons P_idle c b(1) ring(3) by (auto simp: ring_send_def Let_def)
        qed (use Cb_sending Cons in \<open>simp_all add: ring_send_def Let_def\<close>)
        then show ?thesis using Send ap by (auto simp: ring_step_def silent_def alone_def receives_apart_def turns_left_def Let_def)
      qed
    qed
  next
    case Sup
    show ?thesis
    proof (cases "spc (rf_feed x) = S_drain")
      case True
      obtain r p res where r: "pop_part (ch_ring (rf_chan x)) (rf_pop x Supervisor) = (r, p, res)" by (cases "pop_part (ch_ring (rf_chan x)) (rf_pop x Supervisor)")
      then have "\<exists>x'. ring_drain x = Some x' \<and> rf_pop x' = (rf_pop x)(Supervisor := p)"
        by (auto simp: ring_drain_def receive_part_def split: call_result.split option.split)
      then show ?thesis using Sup True one pop_part_left [OF r]
        by (auto simp: ring_step_def alone_def receives_apart_def silent_def turns_left_def Let_def)
    next
      case False
      show ?thesis by (rule rest) (use Sup False in \<open>auto simp: ring_step_def Let_def\<close>)
    qed
  next
    case Con
    show ?thesis
    proof (cases "\<exists>st. con (rf_feed x) = C_recv st")
      case True
      then obtain st where st: "con (rf_feed x) = C_recv st" by blast
      obtain r p res where r: "pop_part (ch_ring (rf_chan x)) (rf_pop x Book_thread) = (r, p, res)" by (cases "pop_part (ch_ring (rf_chan x)) (rf_pop x Book_thread)")
      have ap1: "receives_apart (fst (receive_part Book_thread x))" using one Con r by (simp add: receive_part_def receives_apart_def alone_def)
      have "\<exists>x'. ring_receive v st x = Some x' \<and> rf_pop x' = (rf_pop x)(Book_thread := p)"
      proof (cases "\<exists>m. res = Returned (Some m)")
        case True
        then obtain m where m: "res = Returned (Some m)" by blast
        have "receive_part Book_thread x = (fst (receive_part Book_thread x), Returned (Some m))" using r m by (simp add: receive_part_def)
        from receive_simulates(3) [OF inv this ap1] st have "drop got xs = m # drop (Suc got) xs" by simp
        then have "take_msg v st m (f_ring (rf_feed x)) (rf_feed x) \<noteq> None"
          using t Con st take_frame [where s = "rf_feed x" and ms = "drop (Suc got) xs" and q = "drop got xs" and q' = "f_ring (rf_feed x)"]
          by (auto simp: feed_step_def con_step_def abs_drop [OF inv])
        then show ?thesis using r m by (auto simp: ring_receive_def receive_part_def)
      next
        case False
        then show ?thesis using r by (auto simp: ring_receive_def receive_part_def split: call_result.split option.split)
      qed
      then show ?thesis using Con st one pop_part_left [OF r]
        by (auto simp: ring_step_def alone_def receives_apart_def silent_def turns_left_def Let_def)
    next
      case False
      show ?thesis by (rule rest) (use Con False in \<open>auto simp: ring_step_def Let_def split: con_pc.splits\<close>)
    qed
  qed (use rest in \<open>simp_all add: ring_step_def Let_def\<close>)
qed

definition own :: "'t turn \<Rightarrow> caller \<Rightarrow> bool" where
  "own t w \<longleftrightarrow> t = Sup \<and> w = Supervisor \<or> t = Con \<and> w = Book_thread"

lemma others_pops: "ring_step v t x = Some x' \<Longrightarrow> \<not> own t w \<Longrightarrow> rf_pop x' w = rf_pop x w"
  by (cases t; cases w) (auto simp: own_def ring_step_def ring_send_def ring_drain_def ring_receive_def receive_part_def Let_def
      bind_eq_Some_conv split: if_splits con_pc.splits callback.splits list.splits prod_phase.splits prod.splits
      call_result.splits option.splits)

text \<open>The call that a turn of the list stands for, run to its end.\<close>

lemma ring_call:
  assumes "stop_joins v" and "ring_feed_inv v k xs got x" and "alone t x" and "feed_step v t (abs_feed x) = Some s'"
  shows "\<exists>ts x' ys n. ring_turns v ts x = Some x' \<and> one_receiver v ts x \<and> set ts = {t} \<and> list_turns v ts x = [t]
    \<and> ring_feed_inv v k ys n x' \<and> abs_feed x' = s' \<and> (\<forall>w. own t w \<or> rf_pop x w = Waiting \<longrightarrow> rf_pop x' w = Waiting)"
  using assms(2-4)
proof (induction "turns_left t x" arbitrary: x xs got rule: less_induct)
  case less
  obtain x1 where x1: "ring_step v t x = Some x1" "alone t x1" "receives_apart x1" "silent t x x1 \<Longrightarrow> turns_left t x1 < turns_left t x"
    using ring_step_enabled [OF less.prems(1) assms(1) less.prems(2,3)] by blast
  from ring_step_simulates [OF less.prems(1) assms(1) x1(1,3)] obtain ys n where
    s: "ring_feed_inv v k ys n x1" "if silent t x x1 then abs_feed x1 = abs_feed x else feed_step v t (abs_feed x) = Some (abs_feed x1)"
    by blast
  have ap: "receives_apart x" using less.prems(1) by (simp add: ring_feed_inv_def Let_def)
  note pops = others_pops [OF x1(1)]
  show ?case
  proof (cases "silent t x x1")
    case True
    then have "feed_step v t (abs_feed x1) = Some s'" using s(2) less.prems(3) by simp
    from less.hyps [OF x1(4) [OF True] s(1) x1(2) this] obtain ts x' zs j where
      r: "ring_turns v ts x1 = Some x'" "one_receiver v ts x1" "set ts = {t}" "list_turns v ts x1 = [t]"
        "ring_feed_inv v k zs j x'" "abs_feed x' = s'" "\<forall>w. own t w \<or> rf_pop x1 w = Waiting \<longrightarrow> rf_pop x' w = Waiting" by blast
    have "\<forall>w. own t w \<or> rf_pop x w = Waiting \<longrightarrow> rf_pop x' w = Waiting" using r(7) pops by metis
    then show ?thesis using r x1(1) ap True by (intro exI [of _ "t # ts"] exI [of _ x'] exI [of _ zs] exI [of _ j]) simp
  next
    case False
    then have "rf_pop x1 w = Waiting" if "own t w" for w using that by (auto simp: own_def silent_def)
    then have "\<forall>w. own t w \<or> rf_pop x w = Waiting \<longrightarrow> rf_pop x1 w = Waiting" using pops by metis
    then show ?thesis using False x1 ap s less.prems(3)
      by (intro exI [of _ "[t]"] exI [of _ x1] exI [of _ ys] exI [of _ n]) simp
  qed
qed

text \<open>A run of the list, its calls run one after the other; \<open>W\<close> are the receivers outside a call at first.\<close>

lemma ring_turns_complete:
  assumes "stop_joins v" and "ring_feed_inv v k xs got x" and "\<forall>w \<in> W. rf_pop x w = Waiting"
    and "Sup \<in> set us \<Longrightarrow> Book_thread \<in> W" and "Con \<in> set us \<Longrightarrow> Supervisor \<in> W" and "feed_turns v us (abs_feed x) = Some s"
  shows "\<exists>ts x'. ring_turns v ts x = Some x' \<and> one_receiver v ts x \<and> set ts = set us \<and> list_turns v ts x = us \<and> abs_feed x' = s"
  using assms(2-6)
proof (induction us arbitrary: x xs got)
  case Nil
  then show ?case by (intro exI [of _ "[]"]) (simp add: ring_feed_inv_def Let_def)
next
  case (Cons u us)
  obtain s1 where s1: "feed_step v u (abs_feed x) = Some s1" "feed_turns v us s1 = Some s"
    using Cons.prems(5) by (auto split: option.splits)
  have "alone u x" using Cons.prems(2-4) by (auto simp: alone_def)
  from ring_call [OF assms(1) Cons.prems(1) this s1(1)] obtain ts x1 ys n where
    r: "ring_turns v ts x = Some x1" "one_receiver v ts x" "set ts = {u}" "list_turns v ts x = [u]" "ring_feed_inv v k ys n x1" "abs_feed x1 = s1"
      "\<forall>w. own u w \<or> rf_pop x w = Waiting \<longrightarrow> rf_pop x1 w = Waiting" by blast
  have "\<forall>w \<in> W. rf_pop x1 w = Waiting" using r(7) Cons.prems(2) by blast
  from Cons.IH [OF r(5) this] Cons.prems(3,4) s1(2) r(6) obtain ts' x' where
    t: "ring_turns v ts' x1 = Some x'" "one_receiver v ts' x1" "set ts' = set us" "list_turns v ts' x1 = us" "abs_feed x' = s"
    by auto
  have "ring_turns v (ts @ ts') x = Some x'" using r(1) t(1) by (simp add: ring_turns_append)
  moreover have "one_receiver v (ts @ ts') x" using one_receiver_append [OF r(1)] r(2) t(2) by simp
  moreover have "list_turns v (ts @ ts') x = u # us" using list_turns_append [OF r(1)] r(4) t(4) by simp
  moreover have "set (ts @ ts') = set (u # us)" using r(3) t(3) by simp
  ultimately show ?case using t(5) by blast
qed

lemma ring_feed_start:
  assumes "env_cap v = 2 ^ k" and "k < 64"
  shows "ring_feed_inv v k [] 0 (start_ring_feed v sy)" "abs_feed (start_ring_feed v sy) = start_feed sy"
    "rf_pop (start_ring_feed v sy) w = Waiting"
proof -
  have inv: "ring_inv k (new_ring (2 ^ k) ([], default_msg)) [] 0" by (rule ring_inv_new [OF assms(2)])
  then show "ring_feed_inv v k [] 0 (start_ring_feed v sy)"
    using assms(1) by (simp add: ring_feed_inv_def Let_def start_ring_feed_def new_channel_def push_ok_def pop_ok_def receives_apart_def)
  show "abs_feed (start_ring_feed v sy) = start_feed sy"
    using ring_items_drop [OF inv] assms(1) by (simp add: abs_feed_def start_ring_feed_def new_channel_def start_feed_def)
qed (simp add: start_ring_feed_def)

lemma ring_run_refines:
  assumes "env_cap v = 2 ^ k" and "k < 64" and "stop_joins v"
    and "ring_turns v ts (start_ring_feed v sy) = Some x" and "one_receiver v ts (start_ring_feed v sy)"
  shows "\<exists>ys n. ring_feed_inv v k ys n x" "feed_turns v (list_turns v ts (start_ring_feed v sy)) (start_feed sy) = Some (abs_feed x)"
  using ring_turns_simulate [OF assms(4,5,3) ring_feed_start(1) [OF assms(1,2)]] by (simp_all add: ring_feed_start(2) [OF assms(1,2)])

lemma ring_run_complete:
  assumes "env_cap v = 2 ^ k" and "k < 64" and "stop_joins v" and "feed_turns v us (start_feed sy) = Some s"
  shows "\<exists>ts x. ring_turns v ts (start_ring_feed v sy) = Some x \<and> one_receiver v ts (start_ring_feed v sy)
    \<and> set ts = set us \<and> list_turns v ts (start_ring_feed v sy) = us \<and> abs_feed x = s"
  by (rule ring_turns_complete [OF assms(3) ring_feed_start(1) [OF assms(1,2)], of UNIV])
    (simp_all add: ring_feed_start [OF assms(1,2)] assms(4))

lemma undisturbed_list_turns: "undisturbed ts \<Longrightarrow> undisturbed (list_turns v ts x)"
  using set_list_turns [of v ts x] by (auto simp: undisturbed_def)

section \<open>The properties\<close>

text \<open>
  C13. If stop joins and receives do not overlap, a feed's run over the ring, send and receive
  cut in their parts, is the list run of exactly the turns that end a call, in order (parts
  before, and full-ring retries under Block, left out), the list being what the ring holds;
  every list run arises so.
\<close>

theorem live_ring_refines_list:
  fixes v :: env and sy :: string
  assumes "env_cap v = 2 ^ k" and "k < 64" and "stop_joins v"
  shows "(\<forall>ts (x :: 't ring_feed). ring_turns v ts (start_ring_feed v sy) = Some x
        \<and> one_receiver v ts (start_ring_feed v sy :: 't ring_feed) \<longrightarrow>
      feed_turns v (list_turns v ts (start_ring_feed v sy)) (start_feed sy) = Some (abs_feed x))
    \<and> (\<forall>us (s :: 't feed). feed_turns v us (start_feed sy) = Some s \<longrightarrow>
      (\<exists>ts x. ring_turns v ts (start_ring_feed v sy) = Some x \<and> one_receiver v ts (start_ring_feed v sy :: 't ring_feed)
        \<and> list_turns v ts (start_ring_feed v sy :: 't ring_feed) = us \<and> abs_feed x = s))"
  using ring_run_refines(2) [OF assms] ring_run_complete [OF assms] by blast

lemma live_ring_refines_list_witness:
  "\<exists>ts x. ring_turns (small_env Block (\<lambda>p. True) small_snapshot) ts
      (start_ring_feed (small_env Block (\<lambda>p. True) small_snapshot) ''BTCUSDT'' :: nat ring_feed) = Some x
    \<and> f_symbol (abs_feed x) = ''BTCUSDT''"
proof -
  let ?v = "small_env Block (\<lambda>p. True) small_snapshot"
  have cap: "env_cap ?v = 2 ^ 1" "(1 :: nat) < 64" "stop_joins ?v" by simp_all
  have "\<exists>s. feed_turns ?v [Sup, Sup, Depth small_update 0] (start_feed ''BTCUSDT'' :: nat feed) = Some s
      \<and> f_symbol s = ''BTCUSDT''"
    by (simp add: turn_defs small_env_def start_feed_def split: prod.split)
  then obtain s where s: "feed_turns ?v [Sup, Sup, Depth small_update 0] (start_feed ''BTCUSDT'' :: nat feed) = Some s"
      "f_symbol s = ''BTCUSDT''" by blast
  from conjunct2 [OF live_ring_refines_list [OF cap]] s(1)
  obtain ts x where "ring_turns ?v ts (start_ring_feed ?v ''BTCUSDT'') = Some x" "abs_feed x = s" by blast
  with s(2) show ?thesis by blast
qed

text \<open>
  C10. In every interleaving where receives do not overlap, stop joins the callback and the
  pause outlasts the drain, a session receives only messages of its own symbol while live
  (current, not stopping); outside the switch the trades shown, and the book of a live session,
  belong to the symbol shown.
\<close>

theorem sessions_hear_their_symbol:
  assumes "stop_joins v" and "pause_suffices v" and "env_cap v = 2 ^ k" and "k < 64"
    and "ring_turns v ts (start_ring_feed v sy) = Some x" and "one_receiver v ts (start_ring_feed v sy)"
    and "s = rf_feed x"
  shows "(\<forall>(sid, y, cur) \<in> set (heard s). cur \<longrightarrow> y = owner s sid)
    \<and> (\<not> f_stop s \<and> spc s \<notin> {S_clear, S_bump, S_trades, S_drain} \<longrightarrow>
        f_symbol s = owner s (f_session s) \<and> (\<forall>yt \<in> set (f_trades s). fst yt = f_symbol s)
        \<and> (\<forall>st. live s \<and> con s \<in> {C_live st, C_recv st} \<longrightarrow> book_symbol s = f_symbol s))"
  using list_hears_symbol [OF assms(1,2) ring_run_refines(2) [OF assms(3,4,1,5,6)]] by (simp add: abs_feed_def assms(7))

lemma sessions_hear_their_symbol_witness:
  "\<exists>ts x. ring_turns (small_env Block (\<lambda>p. p = S_watch) small_snapshot) ts
      (start_ring_feed (small_env Block (\<lambda>p. p = S_watch) small_snapshot) ''BTCUSDT'' :: nat ring_feed) = Some x
    \<and> heard (rf_feed x) = [(0, owner (rf_feed x) 0, True)] \<and> book_symbol (rf_feed x) = ''BTCUSDT''"
proof -
  let ?v = "small_env Block (\<lambda>p. p = S_watch) small_snapshot"
  have cap: "env_cap ?v = 2 ^ 1" "(1 :: nat) < 64" "stop_joins ?v" by simp_all
  obtain us s st where s: "feed_turns ?v us (start_feed ''BTCUSDT'' :: nat feed) = Some s" "heard s = [(0, ''BTCUSDT'', True)]"
      "con s = C_recv st" "spc s = S_watch" "\<not> f_stop s" "f_session s = 0" "con_sid s = 0" "f_symbol s = ''BTCUSDT''"
    using hearing_run by blast
  from ring_run_complete [OF cap s(1)] obtain ts x where r: "ring_turns ?v ts (start_ring_feed ?v ''BTCUSDT'') = Some x"
      "one_receiver ?v ts (start_ring_feed ?v ''BTCUSDT'' :: nat ring_feed)" "abs_feed x = s" by blast
  have "pause_suffices ?v" by (simp add: pause_suffices_def)
  from sessions_hear_their_symbol [OF cap(3) this cap(1,2) r(1,2) refl] s(2-) r(3)
  have "heard (rf_feed x) = [(0, owner (rf_feed x) 0, True)]" "book_symbol (rf_feed x) = ''BTCUSDT''"
    by (auto simp: live_def abs_feed_def)
  with r(1) show ?thesis by blast
qed

text \<open>
  The hypotheses of the next two properties. \<open>session_ready\<close>: the feed is about to connect for \<open>sy\<close>, with nothing in the
  channel and no book yet; it can be any state a run \<open>before\<close> leads to. \<open>undisturbed\<close>: no switch and no shutdown while
  the session lasts. \<open>readable_feed\<close>: the updates continue from the id \<open>p\<close> without a hole and all their levels can be
  read. \<open>snapshots_fit\<close>: every snapshot the consumer may open with is not older than \<open>p\<close>, the start of the stream (an
  older one makes it fetch another), its band fits 64 bits and its id is not the last one. \<open>sessions_open\<close>: usable
  snapshots come, and the pause of the consumer ends.
\<close>

text \<open>
  C8. Under Block and without switch or shutdown, whenever a session is at rest its book is the
  snapshot plus the later updates in order, no gap, no resync, Streaming iff one came: if ids
  are consecutive, levels readable, usable snapshots not older than the stream's start, receives
  apart and stop joins.
\<close>

theorem threads_follow_feed:
  assumes "env_policy v = Block" and "env_cap v = 2 ^ k" and "k < 64" and "stop_joins v"
    and "ring_turns v before (start_ring_feed v sy0) = Some x1" and "session_ready sy (abs_feed x1)"
    and "undisturbed ts" and "ring_turns v ts x1 = Some x" and "one_receiver v (before @ ts) (start_ring_feed v sy0)"
    and "snapshots_fit v sy p" and "readable_feed v p (updates ts)"
    and "con (rf_feed x) \<in> {C_live st, C_recv st}" and "ring_items (ch_ring (rf_chan x)) = []" and "cb (rf_feed x) = Cb_idle"
  shows "\<exists>k bc. band_config (env_half v) (snap v sy k) = Some bc
    \<and> l2_repr (lv_book st) (fold (spec_set (fix_config bc)) (sn_levels (snap v sy k)
        @ later_ops (env_rnd v) (env_scales v) (sn_last (snap v sy k)) (updates ts)) Map.empty)
    \<and> gaps st = 0 \<and> resyncs st = 0
    \<and> (lv_mode st = Streaming \<longleftrightarrow> (\<exists>du \<in> set (map fst (updates ts)). sn_last (snap v sy k) < du_last du))"
proof -
  have one: "one_receiver v before (start_ring_feed v sy0)" "one_receiver v ts x1"
    using one_receiver_append [OF assms(5)] assms(9) by auto
  obtain ys n where inv: "ring_feed_inv v k ys n x1" using ring_run_refines(1) [OF assms(2-5) one(1)] by blast
  have run: "feed_turns v (list_turns v ts x1) (abs_feed x1) = Some (abs_feed x)"
    using ring_turns_simulate [OF assms(8) one(2) assms(4) inv] by blast
  have upd: "updates (list_turns v ts x1) = updates ts" by (rule updates_list_turns [OF assms(8)])
  have "con (abs_feed x) \<in> {C_live st, C_recv st}" "caught_up (abs_feed x)"
    using assms(12-14) by (simp_all add: abs_feed_def caught_up_def)
  from list_follows_feed [OF assms(1,6) undisturbed_list_turns [OF assms(7)] run assms(10) _ this] upd assms(11)
  show ?thesis by simp
qed

lemma threads_follow_feed_witness:
  "\<exists>ts x st m. ring_turns (small_env Block (\<lambda>p. True) small_snapshot) ts
      (start_ring_feed (small_env Block (\<lambda>p. True) small_snapshot) ''BTCUSDT'' :: nat ring_feed) = Some x
    \<and> updates ts = [(small_update, 0)] \<and> con (rf_feed x) = C_recv st \<and> l2_repr (lv_book st) m \<and> lv_mode st = Streaming"
proof -
  let ?v = "small_env Block (\<lambda>p. True) small_snapshot"
  let ?x0 = "start_ring_feed ?v ''BTCUSDT'' :: nat ring_feed"
  have cap: "env_policy ?v = Block" "env_cap ?v = 2 ^ 1" "(1 :: nat) < 64" "stop_joins ?v" by simp_all
  obtain us s st where s: "feed_turns ?v us (start_feed ''BTCUSDT'' :: nat feed) = Some s"
      "undisturbed us" "updates us = [(small_update, 0)]" "con s = C_recv st" "caught_up s"
    using caught_up_run by blast
  from ring_run_complete [OF cap(2-4) s(1)] obtain ts x where r: "ring_turns ?v ts ?x0 = Some x" "one_receiver ?v ts ?x0"
      "set ts = set us" "list_turns ?v ts ?x0 = us" "abs_feed x = s" by blast
  have first: "ring_turns ?v [] ?x0 = Some ?x0" "one_receiver ?v ([] @ ts) ?x0" using r(2) by simp_all
  have ready: "session_ready ''BTCUSDT'' (abs_feed ?x0)" by (simp add: ring_feed_start(2) [OF cap(2,3)] start_ready)
  have u: "updates ts = [(small_update, 0)]" using updates_list_turns [OF r(1)] r(4) s(3) by simp
  have "undisturbed ts" using s(2) by (simp add: undisturbed_def r(3))
  have c: "con (rf_feed x) = C_recv st" "ring_items (ch_ring (rf_chan x)) = []" "cb (rf_feed x) = Cb_idle"
    using s(4,5) r(5) by (auto simp: abs_feed_def caught_up_def)
  then have "lv_mode st = Streaming \<and> (\<exists>m. l2_repr (lv_book st) m)"
    using threads_follow_feed [OF cap first(1) ready \<open>undisturbed ts\<close> r(1) first(2) small_env_session(2), where st = st]
      small_env_session(3) u
    by (auto simp: small_snapshot_def small_update_def)
  with r(1) u c(1) show ?thesis by blast
qed

text \<open>
  C9. From every state such a session can reach, consumer and callback alone can run on until
  all is received and the book is the snapshot plus the later updates: if ids are consecutive,
  levels readable, snapshots come and are not older than the stream's start, receives are apart
  and stop joins.
\<close>

theorem session_catches_up:
  assumes "env_policy v = Block" and "env_cap v = 2 ^ k" and "k < 64" and "stop_joins v"
    and "ring_turns v before (start_ring_feed v sy0) = Some x1" and "session_ready sy (abs_feed x1)"
    and "undisturbed ts" and "ring_turns v ts x1 = Some x" and "one_receiver v (before @ ts) (start_ring_feed v sy0)"
    and "sessions_open v sy" and "snapshots_fit v sy p" and "readable_feed v p (updates ts)"
  shows "\<exists>us x' st k bc. set us \<subseteq> {Con, Send} \<and> one_receiver v us x \<and> ring_turns v us x = Some x'
    \<and> con (rf_feed x') = C_recv st \<and> ring_items (ch_ring (rf_chan x')) = [] \<and> cb (rf_feed x') = Cb_idle
    \<and> band_config (env_half v) (snap v sy k) = Some bc
    \<and> l2_repr (lv_book st) (fold (spec_set (fix_config bc)) (sn_levels (snap v sy k)
        @ later_ops (env_rnd v) (env_scales v) (sn_last (snap v sy k)) (updates ts)) Map.empty)"
proof -
  have one: "one_receiver v before (start_ring_feed v sy0)" "one_receiver v ts x1"
    using one_receiver_append [OF assms(5)] assms(9) by auto
  obtain ys n where inv: "ring_feed_inv v k ys n x1" using ring_run_refines(1) [OF assms(2-5) one(1)] by blast
  from ring_turns_simulate [OF assms(8) one(2) assms(4) inv] obtain zs j
    where inv': "ring_feed_inv v k zs j x" and run: "feed_turns v (list_turns v ts x1) (abs_feed x1) = Some (abs_feed x)" by blast
  have upd: "updates (list_turns v ts x1) = updates ts" by (rule updates_list_turns [OF assms(8)])
  have und: "undisturbed (list_turns v ts x1)" by (rule undisturbed_list_turns [OF assms(7)])
  have "0 < env_cap v" using assms(2) by simp
  from list_catches_up [OF assms(1) this assms(6) und run assms(10,11)] upd assms(12)
  obtain us s' st m bc where w: "set us \<subseteq> {Con, Send}" "feed_turns v us (abs_feed x) = Some s'" "con s' = C_recv st"
      "caught_up s'" "band_config (env_half v) (snap v sy m) = Some bc"
      "l2_repr (lv_book st) (fold (spec_set (fix_config bc)) (sn_levels (snap v sy m)
        @ later_ops (env_rnd v) (env_scales v) (sn_last (snap v sy m)) (updates ts)) Map.empty)" by auto
  have "spc (abs_feed x) \<noteq> S_drain"
    using following_turns [OF assms(1) ready_following [OF assms(6)] und run] by (auto simp: following_def running_def)
  then have idle: "\<forall>w \<in> {Supervisor}. rf_pop x w = Waiting" using inv' by (auto simp: ring_feed_inv_def Let_def abs_feed_def)
  have "Sup \<notin> set us" using w(1) by auto
  with ring_turns_complete [OF assms(4) inv' idle _ _ w(2)] obtain qs x' where
    r: "ring_turns v qs x = Some x'" "one_receiver v qs x" "set qs = set us" "abs_feed x' = s'" by auto
  have "set qs \<subseteq> {Con, Send}" by (simp add: r(3) w(1))
  moreover have "con (rf_feed x') = C_recv st \<and> ring_items (ch_ring (rf_chan x')) = [] \<and> cb (rf_feed x') = Cb_idle"
    using w(3,4) r(4) by (auto simp: abs_feed_def caught_up_def)
  ultimately show ?thesis using w(5,6) r(1,2) by blast
qed

lemma session_catches_up_witness:
  "\<exists>ts x us x' st. ring_turns (small_env Block (\<lambda>p. True) small_snapshot) ts
      (start_ring_feed (small_env Block (\<lambda>p. True) small_snapshot) ''BTCUSDT'' :: nat ring_feed) = Some x
    \<and> updates ts = [(small_update, 0)] \<and> ring_turns (small_env Block (\<lambda>p. True) small_snapshot) us x = Some x'
    \<and> con (rf_feed x') = C_recv st \<and> ring_items (ch_ring (rf_chan x')) = []"
proof -
  let ?v = "small_env Block (\<lambda>p. True) small_snapshot" and ?us = "[Sup, Sup, Depth small_update 0 :: nat turn]"
  let ?x0 = "start_ring_feed ?v ''BTCUSDT'' :: nat ring_feed"
  have cap: "env_policy ?v = Block" "env_cap ?v = 2 ^ 1" "(1 :: nat) < 64" "stop_joins ?v" by simp_all
  obtain s where "feed_turns ?v ?us (start_feed ''BTCUSDT'' :: nat feed) = Some s" using small_start by blast
  from ring_run_complete [OF cap(2-4) this] obtain ts x where r: "ring_turns ?v ts ?x0 = Some x" "one_receiver ?v ts ?x0"
      "set ts = set ?us" "list_turns ?v ts ?x0 = ?us" by blast
  have first: "ring_turns ?v [] ?x0 = Some ?x0" "one_receiver ?v ([] @ ts) ?x0" using r(2) by simp_all
  have ready: "session_ready ''BTCUSDT'' (abs_feed ?x0)" by (simp add: ring_feed_start(2) [OF cap(2,3)] start_ready)
  have u: "updates ts = [(small_update, 0)]" using updates_list_turns [OF r(1)] r(4) by simp
  have "undisturbed ts" by (simp add: undisturbed_def r(3))
  from session_catches_up [OF cap first(1) ready this r(1) first(2) small_env_session(1,2)] small_env_session(3) u r(1)
  show ?thesis by (metis (no_types, lifting))
qed

end
