(* ===== verification/Live_Server.thy ===== *)
theory Live_Server
  imports Live_Config
begin

text \<open>
  The dashboard of \<^verbatim>\<open>apps/live_feed.cpp\<close>: the JSON the consumer publishes about its book
  (\<open>build_snapshot\<close>) and the HTTP server's callback in \<open>main\<close>. A JSON value is a datatype and its text is
  left to the library. \<open>quot a b\<close> is the quotient of the doubles of two integers, of type \<open>'f\<close>;
  \<open>rank\<close> is the rank of a percentile, as for the histogram. A request is handled as one step; the
  supervisors may take up a switch between requests (\<open>take_up\<close>).
\<close>

datatype 'f json =
  JBool bool | JText string | JInt int | JReal 'f | JList "'f json list" | JObj "(string \<times> 'f json) list"

record 'f trade_row =
  tr_price :: 'f
  tr_qty :: 'f
  tr_sell :: bool
  tr_ts :: u64

section \<open>What the consumer publishes\<close>

definition trades_json :: "'f trade_row list \<Rightarrow> 'f json" where
  "trades_json ts = JList (map (\<lambda>t. JObj [(''p'', JReal (tr_price t)), (''q'', JReal (tr_qty t)),
     (''side'', JText (if tr_sell t then ''sell'' else ''buy'')), (''t'', JInt (uint (tr_ts t)))]) ts)"

definition seeking_json :: "endpoint \<Rightarrow> string \<Rightarrow> 'f json" where
  "seeking_json ep sy = JObj [(''market'', JText (ep_id ep)), (''marketLabel'', JText (ep_label ep)),
     (''symbol'', JText sy), (''mode'', JText ''seeking'')]"

definition level_json :: "(int \<Rightarrow> int \<Rightarrow> 'f) \<Rightarrow> scales \<Rightarrow> book_level \<Rightarrow> 'f json" where
  "level_json quot sc l =
    JList [JReal (quot (bl_price l) (price_scale sc)), JReal (quot (uint (bl_size l)) (size_scale sc))]"

definition build_snapshot ::
    "(int \<Rightarrow> int \<Rightarrow> 'f) \<Rightarrow> (nat \<Rightarrow> u64 \<Rightarrow> u64) \<Rightarrow> endpoint \<Rightarrow> string \<Rightarrow> scales \<Rightarrow> 'f \<Rightarrow> u64 \<Rightarrow> 'f trade_row list
      \<Rightarrow> live_state \<Rightarrow> 'f json option" where
  "build_snapshot quot rank ep sy sc ops_rate dropped ts st =
    (let book = lv_book st; ls = snapshot rank (lv_hist st); bs = bk_stats book in do {
       b \<leftarrow> best_bid book;
       a \<leftarrow> best_ask book;
       (bids, nb) \<leftarrow> depth_bids book (replicate 15 no_level) 15;
       (asks, na) \<leftarrow> depth_asks book (replicate 15 no_level) 15;
       Some (JObj (
         [(''market'', JText (ep_id ep)), (''marketLabel'', JText (ep_label ep)), (''symbol'', JText sy),
          (''mode'', JText (if lv_mode st = Streaming then ''streaming'' else ''seeking'')),
          (''levels'', JInt (uint (live_orders book))), (''ops'', JReal ops_rate)]
         @ (if bl_valid b then [(''bid'', JReal (quot (bl_price b) (price_scale sc))),
              (''bidSz'', JReal (quot (uint (bl_size b)) (size_scale sc)))] else [])
         @ (if bl_valid a then [(''ask'', JReal (quot (bl_price a) (price_scale sc))),
              (''askSz'', JReal (quot (uint (bl_size a)) (size_scale sc)))] else [])
         @ (if bl_valid b \<and> bl_valid a
            then [(''spread'', JReal (quot (bl_price a - bl_price b) (price_scale sc))),
              (''mid'', JReal (quot (bl_price a + bl_price b) (2 * price_scale sc)))] else [])
         @ [(''bids'', JList (map (level_json quot sc) (take nb bids))),
            (''asks'', JList (map (level_json quot sc) (take na asks))),
            (''p50us'', JReal (quot (uint (s_p50 ls)) 1000)), (''p99us'', JReal (quot (uint (s_p99 ls)) 1000)),
            (''drops'', JInt (uint dropped)), (''gaps'', JInt (uint (gaps st))), (''resync'', JInt (uint (resyncs st))),
            (''oob'', JInt (uint (rejected_out_of_band bs))), (''cross'', JInt (uint (crossed_observed bs))),
            (''trades'', trades_json ts)])) })"

section \<open>The HTTP callback\<close>

record 'f served =
  sv_ep :: endpoint
  sv_running :: string
  sv_pending :: string
  sv_restart :: bool
  sv_json :: "'f json"

record 'f server =
  sv_symbol :: string
  sv_feeds :: "'f served list"

text \<open>\<open>Page\<close> is the dashboard itself.\<close>

datatype 'f body = Body "'f json" | Page

definition start_server :: "'d live_config \<Rightarrow> 'f server" where
  "start_server base =
    (let sy = upper (lc_symbol base)
     in \<lparr>sv_symbol = sy, sv_feeds = map (\<lambda>(ep, c). \<lparr>sv_ep = ep, sv_running = sy, sv_pending = sy, sv_restart = False,
          sv_json = JObj []\<rparr>) (feed_configs base)\<rparr>)"

definition error_body :: "string \<Rightarrow> 'f body" where
  "error_body e = Body (JObj [(''error'', JText e)])"

definition switched_body :: "string \<Rightarrow> 'f body" where
  "switched_body want = Body (JObj [(''ok'', JBool True), (''symbol'', JText want)])"

definition set_symbol :: "string \<Rightarrow> 'f server \<Rightarrow> (int \<times> 'f body) \<times> 'f server" where
  "set_symbol uri sv =
    (let want = upper (query_param uri ''set'') in
     if \<not> catalog_has want then ((400, error_body ''unknown symbol''), sv)
     else if \<exists>f \<in> set (sv_feeds sv). sv_restart f then ((429, error_body ''symbol switch already in progress''), sv)
     else if sv_symbol sv = want then ((200, switched_body want), sv)
     else ((200, switched_body want),
       sv\<lparr>sv_symbol := want, sv_feeds := map (\<lambda>f. f\<lparr>sv_pending := want, sv_restart := True\<rparr>) (sv_feeds sv)\<rparr>))"

definition snapshot_body :: "string \<Rightarrow> 'f server \<Rightarrow> 'f json" where
  "snapshot_body uri sv =
    (let want = query_param uri ''market'';
         want = (if want = [] \<and> sv_feeds sv \<noteq> [] then ep_id (sv_ep (hd (sv_feeds sv))) else want)
     in (case List.find (\<lambda>f. ep_id (sv_ep f) = want) (sv_feeds sv) of None \<Rightarrow> JObj [] | Some f \<Rightarrow> sv_json f))"

definition on_request :: "string \<Rightarrow> 'f server \<Rightarrow> (int \<times> 'f body) \<times> 'f server" where
  "on_request uri sv =
    (if contains uri ''/health'' then ((200, Body (JObj [(''ok'', JBool True)])), sv)
     else if contains uri ''/symbols.json'' then
       ((200, Body (JObj [(''symbols'', JList (map JText symbol_catalog)), (''active'', JText (sv_symbol sv))])), sv)
     else if contains uri ''/symbol'' \<and> contains uri ''set='' then set_symbol uri sv
     else if contains uri ''/markets.json'' then
       ((200, Body (JObj [(''markets'', JList (map (\<lambda>f. JObj [(''id'', JText (ep_id (sv_ep f))),
           (''label'', JText (ep_label (sv_ep f)))]) (sv_feeds sv)))])), sv)
     else if contains uri ''/compare.json'' then
       ((200, Body (JObj (map (\<lambda>f. (ep_id (sv_ep f), sv_json f)) (sv_feeds sv)))), sv)
     else if contains uri ''/snapshot.json'' then ((200, Body (snapshot_body uri sv)), sv)
     else ((200, Page), sv))"

text \<open>The supervisor of feed \<open>i\<close> takes up a switch.\<close>

definition take_up :: "nat \<Rightarrow> 'f server \<Rightarrow> 'f server" where
  "take_up i sv =
    (if i < length (sv_feeds sv) \<and> sv_restart (sv_feeds sv ! i)
     then sv\<lparr>sv_feeds := (sv_feeds sv)[i := (sv_feeds sv ! i)\<lparr>sv_running := sv_pending (sv_feeds sv ! i), sv_restart := False\<rparr>]\<rparr>
     else sv)"

text \<open>The consumer of feed \<open>i\<close> publishes.\<close>

definition publish_json :: "nat \<Rightarrow> 'f json \<Rightarrow> 'f server \<Rightarrow> 'f server" where
  "publish_json i j sv =
    (if i < length (sv_feeds sv) then sv\<lparr>sv_feeds := (sv_feeds sv)[i := (sv_feeds sv ! i)\<lparr>sv_json := j\<rparr>]\<rparr> else sv)"

datatype 'f server_event = Request string | Take_up nat | Publish nat "'f json"

fun serve :: "'f server_event list \<Rightarrow> 'f server \<Rightarrow> (int \<times> 'f body) list \<times> 'f server" where
  "serve [] sv = ([], sv)"
| "serve (Request uri # es) sv = (let (r, sv) = on_request uri sv; (rs, sv) = serve es sv in (r # rs, sv))"
| "serve (Take_up i # es) sv = serve es (take_up i sv)"
| "serve (Publish i j # es) sv = serve es (publish_json i j sv)"

end
