(* ===== verification/Live_Server_Props.thy ===== *)
theory Live_Server_Props
  imports Live_Server Live_Config_Props Live_Feed_Props
begin

text \<open>
  The published JSON shows the levels the book stands for, and the symbol the server reports as
  active is the one every feed runs or is about to run.
\<close>

section \<open>The depth of a level map\<close>

definition l2_depth :: "side \<Rightarrow> book_config \<Rightarrow> level_map \<Rightarrow> book_level list" where
  "l2_depth s cfg m = map (\<lambda>i. l2_top cfg m (int i)) (filter (\<lambda>i. \<exists>z. m i = Some (s, z)) [0..<num_levels cfg])"

lemma l2_owned_filter:
  assumes "l2_repr b m" and "s \<noteq> NoSide"
  shows "owned s (levels b) = (\<lambda>i. \<exists>z. m i = Some (s, z))"
  using l2_owned [OF assms] by auto

lemma l2_level_view:
  assumes "l2_repr b m" and "m i = Some (s, z)"
  shows "level_view b (int i) (levels b ! i) = l2_top (bk_cfg b) m (int i)"
proof -
  have "i < length (levels b)" using assms by (auto simp: l2_repr_def)
  with l2_read_top [OF assms(1), of "int i" s z] assms(2) show ?thesis by (simp add: vec_get_def)
qed

lemma l2_view_list:
  assumes "l2_repr b m" and "s \<noteq> NoSide" and "\<forall>i \<in> set is. owned s (levels b) i"
  shows "map (\<lambda>i. level_view b (int i) (levels b ! i)) is = map (\<lambda>i. l2_top (bk_cfg b) m (int i)) is"
  using assms l2_level_view [OF assms(1)] by (auto simp: l2_owned_filter [OF assms(1,2)])

lemma l2_depth_bids:
  assumes repr: "l2_repr b m" and n: "n \<le> length out"
  shows "\<exists>out' c. depth_bids b out n = Some (out', c) \<and> take c out' = take n (rev (l2_depth Buy (bk_cfg b) m))"
proof -
  let ?k = "nat (best_bid_idx b + 1)" and ?own = "owned Buy (levels b)" and ?n = "length (levels b)"
  have len: "?n = num_levels (bk_cfg b)" and best: "best_ok b" using repr by (auto simp: l2_repr_def)
  have own: "?own = (\<lambda>i. \<exists>z. m i = Some (Buy, z))" by (rule l2_owned_filter [OF repr]) simp
  have in_range: "?own i \<Longrightarrow> i < ?n" for i using repr by (auto simp: own l2_repr_def)
  have k: "?k \<le> ?n"
    using best in_range [of "nat (best_bid_idx b)"] by (auto simp: best_ok_def highest_def nat_add_distrib)
  have "j < ?k" if "?own j" for j using that best by (auto simp: best_ok_def highest_def own)
  then have "filter ?own [0..<?n] = filter ?own [0..<?k]" using filter_upto_last [OF k] by blast
  then have d: "rev (l2_depth Buy (bk_cfg b) m) = map (\<lambda>i. l2_top (bk_cfg b) m (int i)) (filter ?own (rev [0..<?k]))"
    by (simp add: l2_depth_def rev_map rev_filter len [symmetric] own)
  have "map (\<lambda>i. level_view b (int i) (levels b ! i)) (filter ?own (rev [0..<?k]))
      = map (\<lambda>i. l2_top (bk_cfg b) m (int i)) (filter ?own (rev [0..<?k]))"
    by (rule l2_view_list [OF repr, of Buy]) auto
  with depth_bids_from_ok [OF k n, of 0] show ?thesis by (auto simp: depth_bids_def d)
qed

lemma l2_depth_asks:
  assumes repr: "l2_repr b m" and n: "n \<le> length out"
  shows "\<exists>out' c. depth_asks b out n = Some (out', c) \<and> take c out' = take n (l2_depth Sell (bk_cfg b) m)"
proof (cases "best_ask_idx b \<ge> 0")
  case True
  let ?k = "nat (best_ask_idx b)" and ?own = "owned Sell (levels b)" and ?n = "length (levels b)"
  have len: "?n = num_levels (bk_cfg b)" and best: "best_ok b" using repr by (auto simp: l2_repr_def)
  have own: "?own = (\<lambda>i. \<exists>z. m i = Some (Sell, z))" by (rule l2_owned_filter [OF repr]) simp
  have in_range: "?own i \<Longrightarrow> i < ?n" for i using repr by (auto simp: own l2_repr_def)
  have k: "?k \<le> ?n" using best True in_range [of ?k] by (auto simp: best_ok_def lowest_def)
  have "?k \<le> j" if "?own j" for j using that best by (auto simp: best_ok_def lowest_def)
  then have "filter ?own [0..<?n] = filter ?own [?k..<?n]" using filter_from_first [OF k] by blast
  then have d: "l2_depth Sell (bk_cfg b) m = map (\<lambda>i. l2_top (bk_cfg b) m (int i)) (filter ?own [?k..<?n])"
    by (simp add: l2_depth_def len [symmetric] own)
  have "map (\<lambda>i. level_view b (int i) (levels b ! i)) (filter ?own [?k..<?n])
      = map (\<lambda>i. l2_top (bk_cfg b) m (int i)) (filter ?own [?k..<?n])"
    by (rule l2_view_list [OF repr, of Sell]) auto
  with depth_asks_from_ok [OF n, of 0 b ?k] True show ?thesis by (auto simp: depth_asks_def d)
next
  case False
  have "\<not> (\<exists>z. m i = Some (Sell, z))" for i
    using l2_best [OF repr] False by (auto simp: lowest_def)
  then show ?thesis using False by (simp add: depth_asks_def l2_depth_def)
qed

text \<open>The best level is the first of the depth.\<close>

lemma highest_last:
  assumes "highest P k" and "\<And>i. P i \<Longrightarrow> i < n"
  shows "rev (filter P [0..<n]) = (if k < 0 then [] else nat k # rev (filter P [0..<nat k]))"
proof (cases "k < 0")
  case True
  then show ?thesis using assms(1) by (auto simp: highest_def filter_empty_conv)
next
  case False
  then have k: "P (nat k)" "\<And>j. P j \<Longrightarrow> j < Suc (nat k)" "Suc (nat k) \<le> n"
    using assms by (auto simp: highest_def less_Suc_eq_le nat_le_iff le_nat_iff Suc_le_eq)
  then have "filter P [0..<n] = filter P [0..<Suc (nat k)]" using filter_upto_last [OF k(3)] by blast
  then show ?thesis using False k(1) by simp
qed

lemma lowest_first:
  assumes "lowest P k" and "\<And>i. P i \<Longrightarrow> i < n"
  shows "filter P [0..<n] = (if k < 0 then [] else nat k # filter P [Suc (nat k)..<n])"
proof (cases "k < 0")
  case True
  then show ?thesis using assms(1) by (auto simp: lowest_def filter_empty_conv)
next
  case False
  then have k: "P (nat k)" "\<And>j. P j \<Longrightarrow> nat k \<le> j" "nat k < n"
    using assms by (auto simp: lowest_def nat_le_iff)
  then have "filter P [0..<n] = filter P [nat k..<n]" using filter_from_first [of "nat k" n P] by simp
  then show ?thesis using False k by (simp add: upt_conv_Cons)
qed

definition side_fields ::
    "(int \<Rightarrow> int \<Rightarrow> 'f) \<Rightarrow> scales \<Rightarrow> book_level list \<Rightarrow> 'f json option \<times> 'f json option \<times> 'f json option" where
  "side_fields quot sc d =
    (case d of [] \<Rightarrow> (None, None, Some (JList []))
     | l # _ \<Rightarrow> (Some (JReal (quot (bl_price l) (price_scale sc))), Some (JReal (quot (uint (bl_size l)) (size_scale sc))),
         Some (JList (map (level_json quot sc) (take 15 d)))))"

lemma l2_side_tops:
  assumes "l2_repr b m"
  obtains bid ask where "best_bid b = Some bid" and "best_ask b = Some ask"
    and "case rev (l2_depth Buy (bk_cfg b) m) of [] \<Rightarrow> \<not> bl_valid bid | l # _ \<Rightarrow> bl_valid bid \<and> bid = l"
    and "case l2_depth Sell (bk_cfg b) m of [] \<Rightarrow> \<not> bl_valid ask | l # _ \<Rightarrow> bl_valid ask \<and> ask = l"
proof -
  let ?n = "num_levels (bk_cfg b)" and ?P = "\<lambda>s i. \<exists>z. m i = Some (s, z)"
  have r: "i < ?n" if "?P s i" for s i using that assms by (auto simp: l2_repr_def)
  have best: "highest (?P Buy) (best_bid_idx b)" "lowest (?P Sell) (best_ask_idx b)"
    using l2_best [OF assms] by simp_all
  have bid: "rev (l2_depth Buy (bk_cfg b) m) = (if best_bid_idx b < 0 then []
      else l2_top (bk_cfg b) m (best_bid_idx b) # map (\<lambda>i. l2_top (bk_cfg b) m (int i)) (rev (filter (?P Buy) [0..<nat (best_bid_idx b)])))"
    using highest_last [OF best(1) r] by (simp add: l2_depth_def rev_map)
  have ask: "l2_depth Sell (bk_cfg b) m = (if best_ask_idx b < 0 then []
      else l2_top (bk_cfg b) m (best_ask_idx b) # map (\<lambda>i. l2_top (bk_cfg b) m (int i)) (filter (?P Sell) [Suc (nat (best_ask_idx b))..<?n]))"
    using lowest_first [OF best(2) r] by (simp add: l2_depth_def)
  have "bl_valid (l2_top (bk_cfg b) m k) \<longleftrightarrow> 0 \<le> k" if "k < 0 \<or> (\<exists>s. ?P s (nat k))" for k
    using that by (auto simp: l2_top_def no_level_def)
  moreover have "best_bid_idx b < 0 \<or> ?P Buy (nat (best_bid_idx b))" "best_ask_idx b < 0 \<or> ?P Sell (nat (best_ask_idx b))"
    using best by (auto simp: highest_def lowest_def)
  ultimately have "bl_valid (l2_top (bk_cfg b) m (best_bid_idx b)) \<longleftrightarrow> 0 \<le> best_bid_idx b"
    "bl_valid (l2_top (bk_cfg b) m (best_ask_idx b)) \<longleftrightarrow> 0 \<le> best_ask_idx b" by blast+
  with l2_tops [OF assms] that show thesis by (simp add: bid ask)
qed



section \<open>The active symbol\<close>

text \<open>Every feed is asked for the active symbol, and runs it unless it has still to switch.\<close>

definition symbols_agree :: "'f server \<Rightarrow> bool" where
  "symbols_agree sv \<longleftrightarrow> (\<forall>f \<in> set (sv_feeds sv). sv_pending f = sv_symbol sv \<and> (sv_restart f \<or> sv_running f = sv_symbol sv))"

lemma agree_update:
  assumes "symbols_agree sv" and "sv_pending f = sv_symbol sv" and "sv_restart f \<or> sv_running f = sv_symbol sv"
  shows "symbols_agree (sv\<lparr>sv_feeds := (sv_feeds sv)[i := f]\<rparr>)"
  using assms set_update_subset_insert [of "sv_feeds sv" i f] by (auto simp: symbols_agree_def)

lemma agree_take_up: "symbols_agree sv \<Longrightarrow> symbols_agree (take_up i sv)"
  using agree_update [of sv "(sv_feeds sv ! i)\<lparr>sv_running := sv_pending (sv_feeds sv ! i), sv_restart := False\<rparr>" i]
  by (auto simp: take_up_def symbols_agree_def)

lemma agree_publish: "symbols_agree sv \<Longrightarrow> symbols_agree (publish_json i j sv)"
  using agree_update [of sv "(sv_feeds sv ! i)\<lparr>sv_json := j\<rparr>" i]
  by (auto simp: publish_json_def symbols_agree_def)

lemma take_up_symbol [simp]: "sv_symbol (take_up i sv) = sv_symbol sv" "sv_symbol (publish_json i j sv) = sv_symbol sv"
  by (simp_all add: take_up_def publish_json_def)

lemma request_cases:
  assumes "on_request uri sv = (r, sv')"
  shows "sv' = sv \<or> sv_symbol sv' \<noteq> sv_symbol sv \<and> catalog_has (sv_symbol sv') \<and> r = (200, switched_body (sv_symbol sv'))
    \<and> sv_symbol sv' = upper (query_param uri ''set'') \<and> \<not> (\<exists>f \<in> set (sv_feeds sv). sv_restart f) \<and> symbols_agree sv'"
  using assms
  by (auto simp: on_request_def set_symbol_def Let_def symbols_agree_def split: if_splits)

lemma agree_serve:
  assumes "symbols_agree sv" and "sv_symbol sv = sy \<or> catalog_has (sv_symbol sv)" and "serve es sv = (rs, sv')"
  shows "symbols_agree sv' \<and> (sv_symbol sv' = sy \<or> catalog_has (sv_symbol sv'))"
  using assms
proof (induction es sv arbitrary: rs rule: serve.induct)
  case (2 uri es sv)
  obtain r sv1 where r: "on_request uri sv = (r, sv1)" by fastforce
  obtain rs1 where s: "serve es sv1 = (rs1, sv')" using 2(4) r by (auto split: prod.splits)
  have "symbols_agree sv1 \<and> (sv_symbol sv1 = sy \<or> catalog_has (sv_symbol sv1))" using request_cases [OF r] 2(2,3) by auto
  then show ?case using 2(1) [OF r [symmetric] refl] s by blast
qed (auto simp: agree_take_up agree_publish)

text \<open>
  Every feed runs the active symbol or is asked to switch to it, whatever the requests.
\<close>

lemma active_symbol_is_served:
  assumes "serve es (start_server base) = (rs, sv)"
  shows "(sv_symbol sv = upper (lc_symbol base) \<or> catalog_has (sv_symbol sv))
    \<and> (\<forall>f \<in> set (sv_feeds sv). sv_pending f = sv_symbol sv \<and> (sv_restart f \<or> sv_running f = sv_symbol sv))"
proof -
  have "symbols_agree (start_server base :: 'a server)" "sv_symbol (start_server base :: 'a server) = upper (lc_symbol base)"
    by (auto simp: symbols_agree_def start_server_def Let_def)
  from agree_serve [OF this(1) disjI1 [OF this(2)] assms] show ?thesis by (simp add: symbols_agree_def)
qed

lemma switch_requests:
  "serve [Request ''/symbol?set=ethusdt'', Request ''/symbol?set=SOLUSDT'', Take_up 0]
      (start_server (default_config (10 :: nat)) :: nat server)
    = ([(200, switched_body ''ETHUSDT''), (429, error_body ''symbol switch already in progress'')],
       \<lparr>sv_symbol = ''ETHUSDT'', sv_feeds = [\<lparr>sv_ep = endpoints_global, sv_running = ''ETHUSDT'', sv_pending = ''ETHUSDT'',
          sv_restart = False, sv_json = JObj []\<rparr>]\<rparr>)"
  by code_simp

lemma active_symbol_is_served_witness:
  "\<exists>rs sv. serve [Request ''/symbol?set=ethusdt'', Request ''/symbol?set=SOLUSDT'', Take_up 0]
      (start_server (default_config (10 :: nat)) :: nat server) = (rs, sv) \<and> length rs = 2
    \<and> (\<forall>f \<in> set (sv_feeds sv). sv_pending f = ''ETHUSDT'' \<and> (sv_restart f \<or> sv_running f = ''ETHUSDT''))"
  using active_symbol_is_served [OF switch_requests] switch_requests by simp

end
