(* ===== verification/Live_Timing.thy ===== *)
theory Live_Timing
  imports FH_Prelude
begin

text \<open>
  The waits of \<^verbatim>\<open>apps/live_feed.cpp\<close>: the spacing of the depth requests at the start of
  \<open>fetch_snapshot\<close>, \<open>interruptible_wait\<close>, and the last loop of \<open>main\<close>. Times are nanoseconds of the steady
  clock, 0 the default time point. \<open>now k\<close> is the \<open>k\<close>-th reading of the clock, and \<open>stopped k\<close> what the condition
  of a loop gives at its \<open>k\<close>-th evaluation.
\<close>

section \<open>The spacing of the depth requests\<close>

definition min_gap :: int where
  "min_gap = 600000000"

text \<open>How long a request sleeps, with the lock held, when the last one was at \<open>prev\<close>.\<close>

definition request_delay :: "int \<Rightarrow> int \<Rightarrow> int" where
  "request_delay prev now = (if prev \<noteq> 0 \<and> now - prev < min_gap then min_gap - (now - prev) else 0)"

text \<open>
  The requests in the order in which they take the lock, each with the time it reads, by how much its sleep overruns and
  how long after it has stored its time it is sent: the lock is released before the request. The result has for every
  request the value it stores in \<open>g_last_snapshot\<close> and the time of \<open>http.get\<close>.
\<close>

fun request_times :: "int \<Rightarrow> (int \<times> nat \<times> nat) list \<Rightarrow> (int \<times> int) list" where
  "request_times prev [] = []"
| "request_times prev ((now, over, lag) # rs) =
    (let t = now + request_delay prev now + int over in (t, t + int lag) # request_times t rs)"

lemma request_spacing:
  assumes "\<forall>(now, over, lag) \<in> set rs. 0 < now" and "prev \<noteq> 0"
  shows "sorted_wrt (\<lambda>s t. s + min_gap \<le> t) (prev # map fst (request_times prev rs))"
  using assms
proof (induction prev rs rule: request_times.induct)
  case (2 prev now over lag rs)
  let ?t = "now + request_delay prev now + int over"
  have t: "prev + min_gap \<le> ?t" "?t \<noteq> 0" using 2(2,3) by (auto simp: request_delay_def min_gap_def)
  have "sorted_wrt (\<lambda>s t. s + min_gap \<le> t) (?t # map fst (request_times ?t rs))" by (rule 2(1) [OF refl]) (use 2(2) t in auto)
  with t(1) show ?case by (fastforce simp: Let_def min_gap_def)
qed simp

lemma request_spacing_first:
  assumes "\<forall>(now, over, lag) \<in> set rs. 0 < now"
  shows "sorted_wrt (\<lambda>s t. s + min_gap \<le> t) (map fst (request_times 0 rs))"
proof (cases rs)
  case (Cons r rs')
  obtain now over lag where r: "r = (now, over, lag)" by (cases r)
  have "now + int over \<noteq> 0" using assms Cons r by auto
  with request_spacing [of rs' "now + int over"] assms show ?thesis by (simp add: Cons r request_delay_def Let_def)
qed simp

lemma request_sent:
  "(t, s) \<in> set (request_times prev rs) \<Longrightarrow> \<forall>(now, over, lag) \<in> set rs. int lag \<le> late \<Longrightarrow> t \<le> s \<and> s \<le> t + late"
  by (induction prev rs rule: request_times.induct) (auto simp: Let_def)

text \<open>
  C39. However many consumers ask and whenever, the times stored under the lock are 600 ms
  apart, in the order of the lock, if the clock reads above 0; the requests, sent after it is
  released, are 600 ms less late apart when none is sent more than late after its stored time.
\<close>

theorem snapshot_requests_spaced:
  assumes "\<forall>(now, over, lag) \<in> set rs. 0 < now \<and> int lag \<le> late"
  shows "sorted_wrt (\<lambda>(t, s) (t', s'). t + 600000000 \<le> t' \<and> s + 600000000 - late \<le> s') (request_times 0 rs)"
proof -
  have lags: "\<forall>(now, over, lag) \<in> set rs. 0 < now" "\<forall>(now, over, lag) \<in> set rs. int lag \<le> late" using assms by auto
  have times: "sorted_wrt (\<lambda>r r'. fst r + min_gap \<le> fst r') (request_times 0 rs)"
    using request_spacing_first [OF lags(1)] by (simp add: sorted_wrt_map)
  have sends: "snd r \<le> fst r + late \<and> fst r \<le> snd r" if "r \<in> set (request_times 0 rs)" for r
    using request_sent [OF _ lags(2), of "fst r" "snd r" 0] that by simp
  show ?thesis
  proof (rule sorted_wrt_mono_rel [OF _ times])
    fix x y
    assume "x \<in> set (request_times 0 rs)" "y \<in> set (request_times 0 rs)" "fst x + min_gap \<le> fst y"
    with sends [of x] sends [of y] show "(case x of (t, s) \<Rightarrow> \<lambda>(t', s'). t + 600000000 \<le> t' \<and> s + 600000000 - late \<le> s') y"
      by (cases x; cases y) (simp add: min_gap_def)
  qed
qed

lemma snapshot_requests_spaced_witness:
  "sorted_wrt (\<lambda>(t, s) (t', s'). t + 600000000 \<le> t' \<and> s + 600000000 - 7 \<le> s') (request_times 0 [(5, 1, 7), (100, 0, 0), (2000000000, 0, 3)])
    \<and> request_times 0 [(5, 1, 7), (100, 0, 0), (2000000000, 0, 3)] = [(6, 13), (600000006, 600000006), (2000000000, 2000000003)]"
proof -
  have "request_times 0 [(5, 1, 7), (100, 0, 0), (2000000000, 0, 3)] = [(6, 13), (600000006, 600000006), (2000000000, 2000000003)]"
    by (simp add: request_delay_def min_gap_def Let_def)
  then show ?thesis using snapshot_requests_spaced [of "[(5, 1, 7), (100, 0, 0), (2000000000, 0, 3)]" 7] by simp
qed

text \<open>A thread that is delayed between the lock and its request sends it together with the next one.\<close>

lemma requests_can_meet: "map snd (request_times 0 [(5, 0, 600000000), (6, 0, 0)]) = [600000005, 600000005]"
  by (simp add: request_delay_def min_gap_def Let_def)

section \<open>Waiting\<close>

text \<open>The number of clock readings of \<open>interruptible_wait\<close>; \<open>k\<close> counts the passes of the loop.\<close>

partial_function (option) interruptible_wait :: "(nat \<Rightarrow> int) \<Rightarrow> (nat \<Rightarrow> bool) \<Rightarrow> int \<Rightarrow> nat \<Rightarrow> nat option" where
  "interruptible_wait now stopped deadline k =
    (if now k < deadline then if stopped k then Some (Suc k) else interruptible_wait now stopped deadline (Suc k)
     else Some (Suc k))"

text \<open>The last loop of \<open>main\<close>; \<open>duration\<close> is in seconds.\<close>

partial_function (option) run_until :: "(nat \<Rightarrow> int) \<Rightarrow> (nat \<Rightarrow> bool) \<Rightarrow> int \<Rightarrow> int \<Rightarrow> nat \<Rightarrow> nat option" where
  "run_until now stopped start duration k =
    (if stopped k then Some k
     else if 0 < duration \<and> now k - start \<ge> duration * 1000000000 then Some (Suc k)
     else run_until now stopped start duration (Suc k))"

lemma interruptible_wait_returns:
  assumes "deadline \<le> now (k + n)"
  shows "\<exists>j. interruptible_wait now stopped deadline k = Some j \<and> k < j \<and> j \<le> Suc (k + n)
    \<and> (stopped (j - 1) \<or> deadline \<le> now (j - 1))"
  using assms
proof (induction n arbitrary: k)
  case 0
  then show ?case by (subst interruptible_wait.simps) simp
next
  case (Suc n)
  show ?case
  proof (cases "now k < deadline \<and> \<not> stopped k")
    case True
    obtain j where "interruptible_wait now stopped deadline (Suc k) = Some j" "Suc k < j" "j \<le> Suc (Suc k + n)"
        "stopped (j - 1) \<or> deadline \<le> now (j - 1)"
      using Suc.IH [of "Suc k"] Suc.prems by auto
    then show ?thesis using True by (subst interruptible_wait.simps) simp
  next
    case False
    then show ?thesis by (subst interruptible_wait.simps) auto
  qed
qed

lemma run_until_returns:
  assumes "stopped (k + n) \<or> 0 < duration \<and> start + duration * 1000000000 \<le> now (k + n)"
  shows "\<exists>j. run_until now stopped start duration k = Some j"
  using assms
proof (induction n arbitrary: k)
  case 0
  then show ?case by (subst run_until.simps) auto
next
  case (Suc n)
  then show ?case by (subst run_until.simps) (use Suc.IH [of "Suc k"] in auto)
qed

end
