(* ===== verification/Live_Handlers.thy ===== *)
theory Live_Handlers
  imports Live_Switch_Props Live_Server_Props
begin

text \<open>
  The live application while it runs: the threads of all feeds and the HTTP handlers of requests for
  a symbol (the branch for \<open>/symbol\<close> in \<^verbatim>\<open>apps/live_feed.cpp\<close>), each handler cut at its accesses to what
  it shares with other handlers and with the supervisors. The server runs every connection in a thread
  of its own, so handlers may overlap. \<open>v i\<close> is the environment of feed \<open>i\<close>. The pauses between feeds and between
  polls only decide which interleavings happen; here all do.
\<close>

datatype 'f handler = Scanning string nat | Naming string nat | Raising string nat | Answered "int \<times> 'f body"

record ('t, 'f) app =
  a_symbol :: string
  a_feeds :: "'t feed list"
  a_reqs :: "'f handler list"

definition start_app :: "'d live_config \<Rightarrow> ('t, 'f) app" where
  "start_app base =
    (let sy = upper (lc_symbol base)
     in \<lparr>a_symbol = sy, a_feeds = map (\<lambda>_. start_feed sy) (feed_configs base), a_reqs = []\<rparr>)"

text \<open>The requests the branch is for, and the symbol one asks for.\<close>

definition asks_switch :: "string \<Rightarrow> bool" where
  "asks_switch uri \<longleftrightarrow> \<not> contains uri ''/health'' \<and> \<not> contains uri ''/symbols.json'' \<and> contains uri ''/symbol''
     \<and> contains uri ''set=''"

definition wanted :: "string \<Rightarrow> string" where
  "wanted uri = upper (query_param uri ''set'')"

definition arrive :: "string \<Rightarrow> 'f handler" where
  "arrive uri = (if catalog_has (wanted uri) then Scanning uri 0 else Answered (400, error_body ''unknown symbol''))"

text \<open>The next step of handler \<open>h\<close>: the test of one feed, the critical section, or one of the two stores to a feed.\<close>

definition handler_step :: "nat \<Rightarrow> ('t, 'f) app \<Rightarrow> ('t, 'f) app option" where
  "handler_step h a =
    (if h < length (a_reqs a) then
       (case a_reqs a ! h of
          Scanning uri i \<Rightarrow>
            if i < length (a_feeds a) then
              Some (a\<lparr>a_reqs := (a_reqs a)[h := if f_restart (a_feeds a ! i)
                then Answered (429, error_body ''symbol switch already in progress'') else Scanning uri (Suc i)]\<rparr>)
            else if a_symbol a = wanted uri then
              Some (a\<lparr>a_reqs := (a_reqs a)[h := Answered (200, switched_body (wanted uri))]\<rparr>)
            else Some (a\<lparr>a_symbol := wanted uri, a_reqs := (a_reqs a)[h := Naming uri 0]\<rparr>)
        | Naming uri i \<Rightarrow>
            if i < length (a_feeds a) then
              Some (a\<lparr>a_feeds := (a_feeds a)[i := (a_feeds a ! i)\<lparr>f_pending := wanted uri\<rparr>], a_reqs := (a_reqs a)[h := Raising uri i]\<rparr>)
            else Some (a\<lparr>a_reqs := (a_reqs a)[h := Answered (200, switched_body (wanted uri))]\<rparr>)
        | Raising uri i \<Rightarrow>
            Some (a\<lparr>a_feeds := (a_feeds a)[i := (a_feeds a ! i)\<lparr>f_restart := True\<rparr>], a_reqs := (a_reqs a)[h := Naming uri (Suc i)]\<rparr>)
        | Answered r \<Rightarrow> None)
     else None)"

text \<open>The turns of the threads of a feed while \<open>main\<close> has not stopped it.\<close>

fun running_turn :: "'t turn \<Rightarrow> bool" where
  "running_turn Main = False"
| "running_turn (Switch want) = False"
| "running_turn t = True"

datatype 't app_turn = Feed nat "'t turn" | Arrive string | Handle nat

definition app_step :: "(nat \<Rightarrow> env) \<Rightarrow> 't app_turn \<Rightarrow> ('t, 'f) app \<Rightarrow> ('t, 'f) app option" where
  "app_step v t a =
    (case t of
       Feed i t \<Rightarrow>
         if i < length (a_feeds a) \<and> running_turn t then
           (case feed_step (v i) t (a_feeds a ! i) of None \<Rightarrow> None | Some f \<Rightarrow> Some (a\<lparr>a_feeds := (a_feeds a)[i := f]\<rparr>))
         else None
     | Arrive uri \<Rightarrow> if asks_switch uri then Some (a\<lparr>a_reqs := a_reqs a @ [arrive uri]\<rparr>) else None
     | Handle h \<Rightarrow> handler_step h a)"

fun app_turns :: "(nat \<Rightarrow> env) \<Rightarrow> 't app_turn list \<Rightarrow> ('t, 'f) app \<Rightarrow> ('t, 'f) app option" where
  "app_turns v [] a = Some a"
| "app_turns v (t # ts) a = (case app_step v t a of None \<Rightarrow> None | Some a \<Rightarrow> app_turns v ts a)"

fun is_answered :: "'f handler \<Rightarrow> bool" where
  "is_answered (Answered r) = True"
| "is_answered h = False"

text \<open>A run in which a request for a symbol arrives only when those before it have been answered.\<close>

fun one_by_one :: "(nat \<Rightarrow> env) \<Rightarrow> 't app_turn list \<Rightarrow> ('t, 'f) app \<Rightarrow> bool" where
  "one_by_one v [] a = True"
| "one_by_one v (t # ts) a =
    ((case t of Arrive uri \<Rightarrow> list_all is_answered (a_reqs a) | _ \<Rightarrow> True)
     \<and> (case app_step v t a of None \<Rightarrow> True | Some a \<Rightarrow> one_by_one v ts a))"

section \<open>The requests as single steps\<close>

text \<open>
  The feed as the atomic server of Live_Server shows it. \<open>w\<close> is the switch a handler is still carrying out, with
  the first feed it has not asked yet.
\<close>

definition in_progress :: "'f handler list \<Rightarrow> (string \<times> nat) option" where
  "in_progress hs =
    (if hs = [] then None else
      (case last hs of Naming uri i \<Rightarrow> Some (wanted uri, i) | Raising uri i \<Rightarrow> Some (wanted uri, i) | _ \<Rightarrow> None))"

definition not_asked :: "(string \<times> nat) option \<Rightarrow> nat \<Rightarrow> bool" where
  "not_asked w i \<longleftrightarrow> (case w of None \<Rightarrow> False | Some (want, j) \<Rightarrow> j \<le> i)"

definition runs :: "'t feed \<Rightarrow> string" where
  "runs f = (if spc f = S_clear then ws_symbol f else f_symbol f)"

definition abs_served :: "endpoint \<Rightarrow> string \<Rightarrow> bool \<Rightarrow> 't feed \<Rightarrow> 'f served" where
  "abs_served ep sy late f = \<lparr>sv_ep = ep, sv_running = runs f, sv_pending = if late then sy else f_pending f,
     sv_restart = late \<or> f_restart f, sv_json = JObj []\<rparr>"

definition abs_app :: "endpoint list \<Rightarrow> ('t, 'f) app \<Rightarrow> 'f server" where
  "abs_app eps a = \<lparr>sv_symbol = a_symbol a,
     sv_feeds = map (\<lambda>i. abs_served (eps ! i) (a_symbol a) (not_asked (in_progress (a_reqs a)) i) (a_feeds a ! i))
       [0..<length (a_feeds a)]\<rparr>"

text \<open>The answers decided so far.\<close>

fun decided :: "'f handler \<Rightarrow> (int \<times> 'f body) list" where
  "decided (Scanning uri i) = []"
| "decided (Naming uri i) = [(200, switched_body (wanted uri))]"
| "decided (Raising uri i) = [(200, switched_body (wanted uri))]"
| "decided (Answered r) = [r]"

definition answers :: "('t, 'f) app \<Rightarrow> (int \<times> 'f body) list" where
  "answers a = concat (map decided (a_reqs a))"

text \<open>
  The atomic steps a run stands for: a request is decided where its handler finds a switch in progress, enters the
  critical section, or is refused for its symbol at once; a switch is taken up where the supervisor clears the flag.
\<close>

definition event_of :: "'t app_turn \<Rightarrow> ('t, 'f) app \<Rightarrow> 'f server_event list" where
  "event_of t a =
    (case t of
       Feed i u \<Rightarrow> (case u of Sup \<Rightarrow> if spc (a_feeds a ! i) = S_clear then [Take_up i] else [] | _ \<Rightarrow> [])
     | Arrive uri \<Rightarrow> if catalog_has (wanted uri) then [] else [Request uri]
     | Handle h \<Rightarrow>
         (case a_reqs a ! h of
            Scanning uri i \<Rightarrow> if i < length (a_feeds a) \<and> \<not> f_restart (a_feeds a ! i) then [] else [Request uri]
          | _ \<Rightarrow> []))"

fun events :: "(nat \<Rightarrow> env) \<Rightarrow> 't app_turn list \<Rightarrow> ('t, 'f) app \<Rightarrow> 'f server_event list" where
  "events v [] a = []"
| "events v (t # ts) a = (case app_step v t a of None \<Rightarrow> [] | Some a' \<Rightarrow> event_of t a @ events v ts a')"

text \<open>The requests among these steps, those that arrived, and those not yet decided.\<close>

fun requests :: "'f server_event list \<Rightarrow> string list" where
  "requests [] = []"
| "requests (Request uri # es) = uri # requests es"
| "requests (e # es) = requests es"

fun arrivals :: "'t app_turn list \<Rightarrow> string list" where
  "arrivals [] = []"
| "arrivals (Arrive uri # ts) = uri # arrivals ts"
| "arrivals (t # ts) = arrivals ts"

fun asking :: "'f handler \<Rightarrow> string list" where
  "asking (Scanning uri i) = [uri]"
| "asking h = []"

definition undecided :: "('t, 'f) app \<Rightarrow> string list" where
  "undecided a = concat (map asking (a_reqs a))"

lemma idle_handlers:
  "list_all is_answered hs \<Longrightarrow> concat (map asking hs) = [] \<and> hs = map Answered (concat (map decided hs))"
proof (induction hs)
  case (Cons h hs)
  then show ?case by (cases h) simp_all
qed simp

lemma all_answered: "list_all is_answered (a_reqs a) \<Longrightarrow> undecided a = [] \<and> a_reqs a = map Answered (answers a)"
  using idle_handlers by (simp add: undecided_def answers_def)

lemma requests_append: "requests (es @ fs) = requests es @ requests fs"
  by (induction es rule: requests.induct) simp_all

lemma arrivals_append: "arrivals (ts @ us) = arrivals ts @ arrivals us"
  by (induction ts rule: arrivals.induct) simp_all

section \<open>The invariant\<close>

definition feed_ok :: "'t feed \<Rightarrow> bool" where
  "feed_ok f \<longleftrightarrow> \<not> f_stop f
     \<and> (spc f \<in> {S_stop, S_decide, S_rename, S_clear} \<longrightarrow> f_restart f)
     \<and> (spc f \<in> {S_watch, S_stop, S_decide, S_rename} \<longrightarrow> ws_symbol f = f_symbol f)
     \<and> (spc f = S_clear \<longrightarrow> f_symbol f = f_pending f) \<and> spc f \<noteq> S_done"

definition handler_ok :: "string \<Rightarrow> 't feed list \<Rightarrow> 'f handler \<Rightarrow> bool" where
  "handler_ok sy fs h \<longleftrightarrow>
    (case h of
       Scanning uri i \<Rightarrow> catalog_has (wanted uri) \<and> asks_switch uri \<and> i \<le> length fs \<and> (\<forall>j < i. \<not> f_restart (fs ! j))
     | Naming uri i \<Rightarrow> wanted uri = sy \<and> i \<le> length fs \<and> (\<forall>j. i \<le> j \<and> j < length fs \<longrightarrow> \<not> f_restart (fs ! j))
     | Raising uri i \<Rightarrow> wanted uri = sy \<and> i < length fs \<and> f_pending (fs ! i) = sy
         \<and> (\<forall>j. i \<le> j \<and> j < length fs \<longrightarrow> \<not> f_restart (fs ! j))
     | Answered r \<Rightarrow> True)"

definition app_inv :: "('t, 'f) app \<Rightarrow> bool" where
  "app_inv a \<longleftrightarrow> (\<forall>f \<in> set (a_feeds a). feed_ok f) \<and> list_all is_answered (butlast (a_reqs a))
     \<and> (a_reqs a \<noteq> [] \<longrightarrow> handler_ok (a_symbol a) (a_feeds a) (last (a_reqs a)))"

lemma app_inv_start: "app_inv (start_app base)"
  by (auto simp: app_inv_def start_app_def Let_def feed_ok_def start_feed_def)

lemma abs_start: "abs_app (map fst (feed_configs base)) (start_app base) = start_server base"
  by (rule server.equality)
    (auto simp: abs_app_def start_app_def start_server_def Let_def abs_served_def not_asked_def in_progress_def runs_def
      start_feed_def case_prod_beta' intro!: nth_equalityI)

subsection \<open>The threads of a feed\<close>

text \<open>Only the supervisor touches what requests share with a feed.\<close>

lemma quiet_con:
  assumes "con_step v f = Some f'"
  shows "f_stop f' = f_stop f \<and> f_symbol f' = f_symbol f \<and> f_pending f' = f_pending f \<and> f_restart f' = f_restart f
    \<and> ws_symbol f' = ws_symbol f \<and> spc f' = spc f"
  using assms
proof (cases rule: con_stepE)
  case (message st ym ms)
  from message(3) show ?thesis by (rule take_msgE) simp
qed simp_all

lemma quiet_step:
  assumes "feed_step v t f = Some f'" and "running_turn t" and "t \<noteq> Sup"
  shows "f_stop f' = f_stop f \<and> f_symbol f' = f_symbol f \<and> f_pending f' = f_pending f \<and> f_restart f' = f_restart f
    \<and> ws_symbol f' = ws_symbol f \<and> spc f' = spc f"
proof (cases t)
  case Con
  then show ?thesis using quiet_con assms(1) by (simp add: feed_step_def)
qed (use assms in \<open>auto simp: feed_step_def send_step_def depth_step_def trade_step_def Let_def
      split: if_splits list.splits callback.splits prod.splits\<close>)

lemma sup_ok:
  assumes "sup_step v f = Some f'" and "feed_ok f"
  shows "feed_ok f' \<and> f_pending f' = f_pending f
    \<and> (if spc f = S_clear then f_restart f \<and> \<not> f_restart f' \<and> runs f' = f_pending f
       else f_restart f' = f_restart f \<and> runs f' = runs f)"
  using assms by (auto simp: sup_step_def feed_ok_def runs_def split: sup_pc.splits if_splits list.splits)

lemma feed_turn_ok:
  assumes "feed_step v t f = Some f'" and "running_turn t" and "feed_ok f"
  shows "feed_ok f' \<and> f_pending f' = f_pending f
    \<and> (f_restart f' = f_restart f \<and> runs f' = runs f \<or> f_restart f \<and> \<not> f_restart f' \<and> runs f' = f_pending f)"
proof (cases "t = Sup")
  case True
  then show ?thesis using sup_ok [of v f f'] assms(1,3) by (auto simp: feed_step_def split: if_splits)
next
  case False
  then show ?thesis using quiet_step [OF assms(1,2)] assms(3) by (auto simp: feed_ok_def runs_def)
qed

lemma handler_ok_feed:
  assumes "handler_ok sy fs h" and "f_pending f' = f_pending (fs ! i)" and "f_restart f' \<longrightarrow> f_restart (fs ! i)"
  shows "handler_ok sy (fs[i := f']) h"
proof -
  have "fs[i := f'] ! j = fs ! j \<or> j = i \<and> fs[i := f'] ! j = f'" for j
    by (cases "j = i"; cases "i < length fs") (simp_all add: list_update_beyond)
  then have "f_pending (fs[i := f'] ! j) = f_pending (fs ! j)" "f_restart (fs[i := f'] ! j) \<Longrightarrow> f_restart (fs ! j)" for j
    using assms(2,3) by metis+
  then show ?thesis using assms(1) by (cases h) (auto simp: handler_ok_def)
qed

lemma serve_append: "serve es sv = (rs, sv1) \<Longrightarrow> serve fs sv1 = (rs', sv2) \<Longrightarrow> serve (es @ fs) sv = (rs @ rs', sv2)"
  by (induction es sv arbitrary: rs rule: serve.induct) (auto split: prod.splits)

lemma abs_feeds:
  "length (sv_feeds (abs_app eps a)) = length (a_feeds a)"
  "i < length (a_feeds a) \<Longrightarrow> sv_feeds (abs_app eps a) ! i
    = abs_served (eps ! i) (a_symbol a) (not_asked (in_progress (a_reqs a)) i) (a_feeds a ! i)"
  "sv_symbol (abs_app eps a) = a_symbol a"
  by (simp_all add: abs_app_def)

lemma abs_update:
  assumes "i < length (a_feeds a)"
  shows "sv_feeds (abs_app eps (a\<lparr>a_feeds := (a_feeds a)[i := f']\<rparr>))
    = (sv_feeds (abs_app eps a))[i := abs_served (eps ! i) (a_symbol a) (not_asked (in_progress (a_reqs a)) i) f']"
  using assms by (intro nth_equalityI) (auto simp: abs_feeds nth_list_update)

lemma not_asked_idle:
  assumes "app_inv a" and "i < length (a_feeds a)" and "not_asked (in_progress (a_reqs a)) i"
  shows "\<not> f_restart (a_feeds a ! i)"
  using assms by (auto simp: app_inv_def not_asked_def in_progress_def handler_ok_def split: handler.splits if_splits option.splits)

lemma feed_turn_event:
  assumes "feed_step v u f = Some f'" and "running_turn u" and "feed_ok f"
  shows "if u = Sup \<and> spc f = S_clear then f_restart f \<and> \<not> f_restart f' \<and> runs f' = f_pending f
    else f_restart f' = f_restart f \<and> runs f' = runs f"
proof (cases "u = Sup")
  case True
  then show ?thesis using sup_ok [of v f f'] assms(1,3) by (simp add: feed_step_def)
next
  case False
  then show ?thesis using quiet_step [OF assms(1,2)] by (simp add: runs_def)
qed

lemma feed_turn_simulates:
  assumes inv: "app_inv a" and t: "app_step v (Feed i u) a = Some a'"
  shows "app_inv a' \<and> a_reqs a' = a_reqs a \<and> serve (event_of (Feed i u) a) (abs_app eps a) = ([], abs_app eps a')"
proof -
  let ?f = "a_feeds a ! i"
  obtain f' where i: "i < length (a_feeds a)" "running_turn u" and f': "feed_step (v i) u ?f = Some f'"
    and a': "a' = a\<lparr>a_feeds := (a_feeds a)[i := f']\<rparr>"
    using t by (auto simp: app_step_def split: if_splits option.splits)
  have fok: "feed_ok ?f" using inv i(1) by (simp add: app_inv_def)
  note ok = feed_turn_ok [OF f' i(2) fok] and ev = feed_turn_event [OF f' i(2) fok]
  have "app_inv a'"
    using inv ok handler_ok_feed [of "a_symbol a" "a_feeds a" _ f' i] set_update_subset_insert [of "a_feeds a" i f']
    by (auto simp: app_inv_def a')
  moreover have "serve (event_of (Feed i u) a) (abs_app eps a) = ([], abs_app eps a')"
  proof (cases "u = Sup \<and> spc ?f = S_clear")
    case True
    then have c: "f_restart ?f" "\<not> f_restart f'" "runs f' = f_pending ?f" using ev by auto
    then have late: "\<not> not_asked (in_progress (a_reqs a)) i" using not_asked_idle [OF inv i(1)] by blast
    have "sv_feeds (abs_app eps a') = sv_feeds (take_up i (abs_app eps a))"
      using i(1) c late ok by (simp add: a' abs_update take_up_def abs_feeds) (simp add: abs_served_def)
    then have "abs_app eps a' = take_up i (abs_app eps a)"
      by (intro server.equality) (simp_all add: abs_feeds a')
    then show ?thesis using True by (simp add: event_of_def)
  next
    case False
    then have "sv_feeds (abs_app eps a') = sv_feeds (abs_app eps a)"
      using i(1) ok ev by (simp add: a' abs_update) (simp add: abs_served_def abs_feeds list_update_same_conv)
    then have "abs_app eps a' = abs_app eps a" by (intro server.equality) (simp_all add: abs_feeds a')
    moreover have "event_of (Feed i u) a = []" using False by (cases u) (auto simp: event_of_def)
    ultimately show ?thesis by simp
  qed
  ultimately show ?thesis by (simp add: a')
qed

lemma last_handler:
  assumes "app_inv a" and "handler_step h a = Some a'"
  obtains hs r where "a_reqs a = hs @ [r]" "list_all is_answered hs" "handler_ok (a_symbol a) (a_feeds a) r" "h = length hs"
    "\<not> is_answered r"
proof -
  have h: "h < length (a_reqs a)" "\<not> is_answered (a_reqs a ! h)"
    using assms(2) by (auto simp: handler_step_def split: if_splits handler.splits)
  then obtain hs r where r: "a_reqs a = hs @ [r]" by (cases "a_reqs a" rule: rev_cases) auto
  have "\<not> h < length hs"
    using assms(1) h(2) r by (auto simp: app_inv_def list_all_length nth_append)
  then have "h = length hs" using h(1) r by simp
  with that [OF r] assms(1) h(2) r show ?thesis by (auto simp: app_inv_def)
qed

text \<open>The steps of a handler, as values of the last entry.\<close>

lemma handler_stepE:
  assumes "app_inv a" and "handler_step h a = Some a'"
  obtains (busy) uri i hs where "a_reqs a = hs @ [Scanning uri i]" "i < length (a_feeds a)" "f_restart (a_feeds a ! i)"
      "a' = a\<lparr>a_reqs := hs @ [Answered (429, error_body ''symbol switch already in progress'')]\<rparr>"
    | (free) uri i hs where "a_reqs a = hs @ [Scanning uri i]" "i < length (a_feeds a)" "\<not> f_restart (a_feeds a ! i)"
      "a' = a\<lparr>a_reqs := hs @ [Scanning uri (Suc i)]\<rparr>"
    | (same) uri i hs where "a_reqs a = hs @ [Scanning uri i]" "length (a_feeds a) \<le> i" "a_symbol a = wanted uri"
      "a' = a\<lparr>a_reqs := hs @ [Answered (200, switched_body (wanted uri))]\<rparr>"
    | (mark) uri i hs where "a_reqs a = hs @ [Scanning uri i]" "length (a_feeds a) \<le> i" "a_symbol a \<noteq> wanted uri"
      "a' = a\<lparr>a_symbol := wanted uri, a_reqs := hs @ [Naming uri 0]\<rparr>"
    | (name) uri i hs where "a_reqs a = hs @ [Naming uri i]" "i < length (a_feeds a)"
      "a' = a\<lparr>a_feeds := (a_feeds a)[i := (a_feeds a ! i)\<lparr>f_pending := wanted uri\<rparr>], a_reqs := hs @ [Raising uri i]\<rparr>"
    | (reply) uri i hs where "a_reqs a = hs @ [Naming uri i]" "length (a_feeds a) \<le> i"
      "a' = a\<lparr>a_reqs := hs @ [Answered (200, switched_body (wanted uri))]\<rparr>"
    | (ask) uri i hs where "a_reqs a = hs @ [Raising uri i]"
      "a' = a\<lparr>a_feeds := (a_feeds a)[i := (a_feeds a ! i)\<lparr>f_restart := True\<rparr>], a_reqs := hs @ [Naming uri (Suc i)]\<rparr>"
proof -
  obtain hs r where r: "a_reqs a = hs @ [r]" "h = length hs" "\<not> is_answered r" by (rule last_handler [OF assms])
  show ?thesis
  proof (cases r)
    case (Scanning uri i)
    then show ?thesis using r(1,2) assms(2) busy free same mark by (simp add: handler_step_def split: if_splits)
  next
    case (Naming uri i)
    then show ?thesis using r(1,2) assms(2) name reply by (simp add: handler_step_def split: if_splits)
  next
    case (Raising uri i)
    then show ?thesis using r(1,2) assms(2) ask by (simp add: handler_step_def)
  qed (use r(3) in simp)
qed

lemma handler_simulates:
  fixes a :: "('t, 'f) app"
  assumes inv: "app_inv a" and t: "handler_step h a = Some a'"
  shows "app_inv a' \<and> (\<exists>rs. serve (event_of (Handle h) a) (abs_app eps a) = (rs, abs_app eps a') \<and> answers a' = answers a @ rs)"
    and "requests (event_of (Handle h) a :: 'f server_event list) @ undecided a' = undecided a"
proof -
  obtain rs r where "a_reqs a = rs @ [r]" "h = length rs" by (rule last_handler [OF inv t])
  then have here: "event_of (Handle h) a = (case last (a_reqs a) of
      Scanning uri i \<Rightarrow> if i < length (a_feeds a) \<and> \<not> f_restart (a_feeds a ! i) then [] else [Request uri] | _ \<Rightarrow> [])"
    by (simp add: event_of_def)
  from inv t show "requests (event_of (Handle h) a :: 'f server_event list) @ undecided a' = undecided a"
    by (cases rule: handler_stepE) (use inv idle_handlers [of rs] \<open>a_reqs a = rs @ [r]\<close> in \<open>auto simp: here undecided_def app_inv_def simp del: concat_eq_Nil_conv\<close>)
  have hok: "a_reqs a \<noteq> [] \<Longrightarrow> handler_ok (a_symbol a) (a_feeds a) (last (a_reqs a))" and fok: "\<forall>f \<in> set (a_feeds a). feed_ok f"
    and ans: "list_all is_answered (butlast (a_reqs a))" using inv by (auto simp: app_inv_def)
  note defs = answers_def app_inv_def handler_ok_def in_progress_def not_asked_def
  from inv t show "app_inv a' \<and> (\<exists>rs. serve (event_of (Handle h) a) (abs_app eps a) = (rs, abs_app eps a') \<and> answers a' = answers a @ rs)"
  proof (cases rule: handler_stepE)
    case (busy uri i hs)
    have ev: "event_of (Handle h) a = [Request uri]" using busy by (simp add: here)
    have "app_inv a'" using busy fok ans by (auto simp: defs)
    moreover have abs: "abs_app eps a' = abs_app eps a" using busy by (simp add: abs_app_def in_progress_def)
    moreover have "\<exists>f \<in> set (sv_feeds (abs_app eps a)). sv_restart f"
      using busy(2,3) abs_feeds(1,2) [where eps = eps and a = a] by (metis abs_served_def nth_mem served.select_convs(4))
    then have "serve [Request uri] (abs_app eps a)
        = ([(429, error_body ''symbol switch already in progress'')], abs_app eps a)"
      using hok busy(1) by (auto simp: on_request_def set_symbol_def handler_ok_def asks_switch_def wanted_def Let_def)
    moreover have "answers a' = answers a @ [(429, error_body ''symbol switch already in progress'')]"
      using busy by (simp add: answers_def)
    ultimately show ?thesis using ev by simp
  next
    case (free uri i hs)
    have ev: "event_of (Handle h) a = []" using free by (simp add: here)
    have "app_inv a'" using free fok ans hok by (auto simp: defs less_Suc_eq)
    moreover have "abs_app eps a' = abs_app eps a" "answers a' = answers a"
      using free by (simp_all add: abs_app_def in_progress_def answers_def)
    ultimately show ?thesis using ev by simp
  next
    case (same uri i hs)
    have ev: "event_of (Handle h) a = [Request uri]" using same by (simp add: here)
    have "app_inv a'" using same fok ans by (auto simp: defs)
    moreover have abs: "abs_app eps a' = abs_app eps a" using same by (simp add: abs_app_def in_progress_def)
    moreover have "\<not> (\<exists>f \<in> set (sv_feeds (abs_app eps a)). sv_restart f)"
      using same(1,2) hok by (auto simp: abs_app_def abs_served_def defs in_set_conv_nth)
    then have "serve [Request uri] (abs_app eps a) = ([(200, switched_body (wanted uri))], abs_app eps a)"
      using hok same by (auto simp: on_request_def set_symbol_def handler_ok_def asks_switch_def wanted_def Let_def abs_feeds)
    moreover have "answers a' = answers a @ [(200, switched_body (wanted uri))]" using same by (simp add: answers_def)
    ultimately show ?thesis using ev by simp
  next
    case (mark uri i hs)
    have ev: "event_of (Handle h) a = [Request uri]" using mark by (simp add: here)
    have "app_inv a'" using mark fok ans hok by (auto simp: defs)
    moreover have "\<not> (\<exists>f \<in> set (sv_feeds (abs_app eps a)). sv_restart f)"
      using mark(1,2) hok by (auto simp: abs_app_def abs_served_def defs in_set_conv_nth)
    then have "serve [Request uri] (abs_app eps a) = ([(200, switched_body (wanted uri))],
        (abs_app eps a)\<lparr>sv_symbol := wanted uri, sv_feeds := map (\<lambda>f. f\<lparr>sv_pending := wanted uri, sv_restart := True\<rparr>)
          (sv_feeds (abs_app eps a))\<rparr>)"
      using hok mark by (auto simp: on_request_def set_symbol_def handler_ok_def asks_switch_def wanted_def Let_def abs_feeds)
    moreover have "abs_app eps a' = (abs_app eps a)\<lparr>sv_symbol := wanted uri,
        sv_feeds := map (\<lambda>f. f\<lparr>sv_pending := wanted uri, sv_restart := True\<rparr>) (sv_feeds (abs_app eps a))\<rparr>"
      using mark by (simp add: abs_app_def abs_served_def in_progress_def not_asked_def)
    moreover have "answers a' = answers a @ [(200, switched_body (wanted uri))]" using mark by (simp add: answers_def)
    ultimately show ?thesis using ev by simp
  next
    case (name uri i hs)
    have ev: "event_of (Handle h) a = []" using name by (simp add: here)
    let ?f = "(a_feeds a ! i)\<lparr>f_pending := wanted uri\<rparr>"
    have f: "feed_ok (a_feeds a ! i)" "\<not> f_restart (a_feeds a ! i)" "wanted uri = a_symbol a"
      using name(1,2) fok hok by (auto simp: handler_ok_def)
    then have "feed_ok ?f" by (auto simp: feed_ok_def)
    then have "app_inv a'"
      using name fok ans hok f(2) set_update_subset_insert [of "a_feeds a" i ?f]
      by (auto simp: defs nth_list_update)
    moreover have "abs_app eps a' = abs_app eps a"
      using name(1,2) f(2,3) by (auto simp: name(3) abs_app_def abs_served_def defs nth_list_update runs_def)
    moreover have "answers a' = answers a" using name by (simp add: answers_def)
    ultimately show ?thesis using ev by simp
  next
    case (reply uri i hs)
    have ev: "event_of (Handle h) a = []" using reply by (simp add: here)
    have "app_inv a'" using reply fok ans by (auto simp: defs)
    moreover have "abs_app eps a' = abs_app eps a" using reply by (auto simp: abs_app_def abs_served_def defs)
    moreover have "answers a' = answers a" using reply by (simp add: answers_def)
    ultimately show ?thesis using ev by simp
  next
    case (ask uri i hs)
    have ev: "event_of (Handle h) a = []" using ask by (simp add: here)
    let ?f = "(a_feeds a ! i)\<lparr>f_restart := True\<rparr>"
    have f: "i < length (a_feeds a)" "feed_ok (a_feeds a ! i)" "wanted uri = a_symbol a" "f_pending (a_feeds a ! i) = a_symbol a"
      using ask(1) fok hok by (auto simp: handler_ok_def)
    then have "feed_ok ?f" by (auto simp: feed_ok_def)
    then have "app_inv a'"
      using ask fok ans hok f(1) set_update_subset_insert [of "a_feeds a" i ?f]
      by (auto simp: defs nth_list_update)
    moreover have "abs_app eps a' = abs_app eps a"
      using ask(1) f by (auto simp: ask(2) abs_app_def abs_served_def defs nth_list_update runs_def)
    moreover have "answers a' = answers a" using ask by (simp add: answers_def)
    ultimately show ?thesis using ev by simp
  qed
qed

lemma arrive_simulates:
  fixes a :: "('t, 'f) app"
  assumes inv: "app_inv a" and t: "app_step v (Arrive uri) a = Some a'" and all: "list_all is_answered (a_reqs a)"
  shows "app_inv a' \<and> (\<exists>rs. serve (event_of (Arrive uri) a) (abs_app eps a) = (rs, abs_app eps a') \<and> answers a' = answers a @ rs)"
    and "requests (event_of (Arrive uri) a :: 'f server_event list) @ undecided a' = undecided a @ [uri]"
proof -
  have a': "asks_switch uri" "a' = a\<lparr>a_reqs := a_reqs a @ [arrive uri]\<rparr>" using t by (auto simp: app_step_def split: if_splits)
  have none: "in_progress (a_reqs a) = None"
    using all by (cases "a_reqs a" rule: rev_cases) (auto simp: in_progress_def split: handler.splits)
  have "concat (map asking (a_reqs a)) = []" using idle_handlers [OF all] by simp
  then show "requests (event_of (Arrive uri) a :: 'f server_event list) @ undecided a' = undecided a @ [uri]"
    using a' by (simp add: event_of_def arrive_def undecided_def del: concat_eq_Nil_conv)
  have "app_inv a'" using inv a' all by (auto simp: app_inv_def arrive_def handler_ok_def)
  moreover have "abs_app eps a' = abs_app eps a" using none by (simp add: a' abs_app_def) (simp add: in_progress_def arrive_def)
  moreover have "\<exists>rs. serve (event_of (Arrive uri) a) (abs_app eps a) = (rs, abs_app eps a) \<and> answers a' = answers a @ rs"
    using a' by (simp add: event_of_def answers_def arrive_def on_request_def set_symbol_def asks_switch_def wanted_def Let_def)
  ultimately show "app_inv a' \<and> (\<exists>rs. serve (event_of (Arrive uri) a) (abs_app eps a) = (rs, abs_app eps a') \<and> answers a' = answers a @ rs)"
    by simp
qed

lemma step_simulates:
  fixes a :: "('t, 'f) app"
  assumes "app_step v t a = Some a'" and "app_inv a" and "\<And>uri. t = Arrive uri \<Longrightarrow> list_all is_answered (a_reqs a)"
  shows "app_inv a' \<and> (\<exists>rs. serve (event_of t a) (abs_app eps a) = (rs, abs_app eps a') \<and> answers a' = answers a @ rs)"
    and "requests (event_of t a :: 'f server_event list) @ undecided a' = undecided a @ arrivals [t]"
proof -
  have "(app_inv a' \<and> (\<exists>rs. serve (event_of t a) (abs_app eps a) = (rs, abs_app eps a') \<and> answers a' = answers a @ rs))
    \<and> requests (event_of t a :: 'f server_event list) @ undecided a' = undecided a @ arrivals [t]"
  proof (cases t)
    case (Feed i u)
    have "requests (event_of (Feed i u) a :: 'f server_event list) = []" by (cases u) (simp_all add: event_of_def)
    then show ?thesis using feed_turn_simulates [OF assms(2) assms(1) [unfolded Feed]] Feed
      by (simp add: answers_def undecided_def)
  next
    case (Arrive uri)
    then show ?thesis using arrive_simulates [OF assms(2) assms(1) [unfolded Arrive]] assms(3) by simp
  next
    case (Handle h)
    then have "handler_step h a = Some a'" using assms(1) by (simp add: app_step_def)
    then show ?thesis using handler_simulates [OF assms(2)] Handle by simp
  qed
  then show "app_inv a' \<and> (\<exists>rs. serve (event_of t a) (abs_app eps a) = (rs, abs_app eps a') \<and> answers a' = answers a @ rs)"
    "requests (event_of t a :: 'f server_event list) @ undecided a' = undecided a @ arrivals [t]" by blast+
qed

lemma turns_simulate:
  fixes a :: "('t, 'f) app"
  assumes "app_turns v ts a = Some a'" and "one_by_one v ts a" and "app_inv a"
  shows "app_inv a' \<and> (\<exists>rs. serve (events v ts a) (abs_app eps a) = (rs, abs_app eps a') \<and> answers a' = answers a @ rs)
    \<and> requests (events v ts a) @ undecided a' = undecided a @ arrivals ts"
  using assms
proof (induction ts arbitrary: a)
  case (Cons t ts)
  obtain a1 where a1: "app_step v t a = Some a1" "app_turns v ts a1 = Some a'"
    using Cons.prems(1) by (auto split: option.splits)
  have quiet: "list_all is_answered (a_reqs a)" if "t = Arrive uri" for uri using Cons.prems(2) that by simp
  obtain rs where 1: "app_inv a1" "serve (event_of t a) (abs_app eps a) = (rs, abs_app eps a1)" "answers a1 = answers a @ rs"
      "requests (event_of t a :: 'f server_event list) @ undecided a1 = undecided a @ arrivals [t]"
    using step_simulates [OF a1(1) Cons.prems(3) quiet] by blast
  have "one_by_one v ts a1" using Cons.prems(2) a1(1) by simp
  from Cons.IH [OF a1(2) this 1(1)] obtain qs where
    2: "app_inv a'" "serve (events v ts a1) (abs_app eps a1) = (qs, abs_app eps a')" "answers a' = answers a1 @ qs"
      "requests (events v ts a1) @ undecided a' = undecided a1 @ arrivals ts" by blast
  have "requests (events v (t # ts) a) @ undecided a' = requests (event_of t a) @ undecided a1 @ arrivals ts"
    using a1(1) 2(4) by (simp add: requests_append)
  also have "\<dots> = undecided a @ arrivals (t # ts)"
    using arg_cong [OF 1(4), of "\<lambda>xs. xs @ arrivals ts"] arrivals_append [of "[t]" ts] by simp
  finally show ?case using serve_append [OF 1(2) 2(2)] 1(3) 2(1,3) a1(1) by simp
qed simp

section \<open>The properties\<close>

lemma agree_when_answered:
  assumes "symbols_agree (abs_app eps a)" and "app_inv a" and "list_all is_answered (a_reqs a)" and "f \<in> set (a_feeds a)"
  shows "f_pending f = a_symbol a \<and> (f_restart f \<or> f_symbol f = a_symbol a)"
proof -
  obtain i where i: "i < length (a_feeds a)" "f = a_feeds a ! i" using assms(4) by (auto simp: in_set_conv_nth)
  have "in_progress (a_reqs a) = None"
    using assms(3) by (cases "a_reqs a" rule: rev_cases) (auto simp: in_progress_def split: handler.splits)
  then have "sv_feeds (abs_app eps a) ! i = abs_served (eps ! i) (a_symbol a) False f"
    using i by (simp add: abs_feeds not_asked_def)
  moreover have "sv_feeds (abs_app eps a) ! i \<in> set (sv_feeds (abs_app eps a))"
    by (rule nth_mem) (simp add: abs_feeds i)
  ultimately have "f_pending f = a_symbol a \<and> (f_restart f \<or> runs f = a_symbol a)"
    using assms(1) by (auto simp: symbols_agree_def abs_feeds abs_served_def)
  moreover have "feed_ok f" using assms(2,4) by (simp add: app_inv_def)
  ultimately show ?thesis by (auto simp: feed_ok_def runs_def)
qed

text \<open>
  C11. If symbol requests do not overlap, any interleaving of their single accesses with all
  feeds' threads answers like the atomic server run on these requests, each with the address
  that arrived, in order of arrival; once all are answered every feed runs, or is asked for, the
  active symbol.
\<close>

theorem switch_requests_linearise:
  fixes a :: "('t, 'f) app"
  assumes "app_turns v ts (start_app base) = Some a" and "one_by_one v ts (start_app base :: ('t, 'f) app)"
    and "es = events v ts (start_app base :: ('t, 'f) app)"
  shows "serve es (start_server base) = (answers a, abs_app (map fst (feed_configs base)) a)
    \<and> requests es @ undecided a = arrivals ts
    \<and> (list_all is_answered (a_reqs a) \<longrightarrow> requests es = arrivals ts
        \<and> a_reqs a = map Answered (fst (serve es (start_server base)))
        \<and> (\<forall>f \<in> set (a_feeds a). f_pending f = a_symbol a \<and> (f_restart f \<or> f_symbol f = a_symbol a)))"
proof -
  let ?eps = "map fst (feed_configs base)"
  from turns_simulate [OF assms(1,2) app_inv_start, of ?eps] have s: "app_inv a"
      "serve es (start_server base) = (answers a, abs_app ?eps a)" "requests es @ undecided a = arrivals ts"
    by (auto simp: abs_start assms(3)) (auto simp: answers_def undecided_def start_app_def Let_def)
  have "symbols_agree (abs_app ?eps a)"
    using active_symbol_is_served [OF s(2)] by (simp add: symbols_agree_def)
  note agree = agree_when_answered [OF this s(1)]
  show ?thesis
  proof (cases "list_all is_answered (a_reqs a)")
    case True
    then show ?thesis using agree all_answered [OF True] s(2,3) by simp
  qed (use s(2,3) in simp)
qed

text \<open>A feed served on a port, and the switches between which a supervisor acts.\<close>

definition served_config :: "nat live_config" where
  "served_config = (default_config 10)\<lparr>lc_market := Global, lc_serve_port := 8080\<rparr>"

lemma served_start: "start_app served_config = \<lparr>a_symbol = ''BTCUSDT'', a_feeds = [start_feed ''BTCUSDT''], a_reqs = []\<rparr>"
proof -
  have "upper (lc_symbol served_config) = ''BTCUSDT''" by code_simp
  moreover have "length (feed_configs served_config) = 1"
    by (simp add: feed_configs_def served_config_def resolve_market_mode_def feeds_for_mode_def)
  then obtain x where "feed_configs served_config = [x]" by (auto simp: length_Suc_conv)
  ultimately show ?thesis by (simp add: start_app_def Let_def)
qed

lemma eth_request: "asks_switch ''/symbol?set=ethusdt''" "wanted ''/symbol?set=ethusdt'' = ''ETHUSDT''"
    "catalog_has ''ETHUSDT''"
  by code_simp+

lemma sol_request: "asks_switch ''/symbol?set=SOLUSDT''" "wanted ''/symbol?set=SOLUSDT'' = ''SOLUSDT''"
    "catalog_has ''SOLUSDT''"
  by code_simp+

definition switch_run :: "nat app_turn list" where
  "switch_run = [Feed 0 Sup, Feed 0 Sup, Arrive ''/symbol?set=ethusdt'', Handle 0, Handle 0, Handle 0, Handle 0, Handle 0,
     Feed 0 Sup, Feed 0 Sup, Feed 0 Sup, Feed 0 Sup, Feed 0 Sup]"

lemmas app_run = app_step_def handler_step_def arrive_def feed_step_def sup_step_def start_feed_def served_start
  eth_request sol_request

lemma run_switch:
  assumes "stop_joins (v 0)"
  shows "\<exists>a :: (nat, nat) app. app_turns v switch_run (start_app served_config) = Some a
    \<and> one_by_one v switch_run (start_app served_config :: (nat, nat) app)
    \<and> a_reqs a = [Answered (200, switched_body ''ETHUSDT'')] \<and> a_symbol a = ''ETHUSDT'' \<and> length (a_feeds a) = 1
    \<and> \<not> f_restart (hd (a_feeds a))"
  using assms by (simp add: switch_run_def app_run stop_joins_def)

lemma switch_requests_linearise_witness:
  "\<exists>a :: (nat, nat) app. app_turns (\<lambda>i. small_env Block (\<lambda>p. True) small_snapshot) switch_run (start_app served_config) = Some a
    \<and> a_symbol a = ''ETHUSDT'' \<and> f_symbol (hd (a_feeds a)) = ''ETHUSDT''"
proof -
  let ?v = "\<lambda>i :: nat. small_env Block (\<lambda>p. True) small_snapshot"
  have "stop_joins (?v 0)" by (simp add: small_env_def stop_joins_def)
  from run_switch [of ?v, OF this] obtain a :: "(nat, nat) app" where a: "app_turns ?v switch_run (start_app served_config) = Some a"
    "one_by_one ?v switch_run (start_app served_config :: (nat, nat) app)"
    "a_reqs a = [Answered (200, switched_body ''ETHUSDT'')]" "a_symbol a = ''ETHUSDT''" "length (a_feeds a) = 1"
    "\<not> f_restart (hd (a_feeds a))" by blast
  then have "hd (a_feeds a) \<in> set (a_feeds a)" by (cases "a_feeds a") simp_all
  with switch_requests_linearise [OF a(1,2) refl] a show ?thesis by auto
qed

text \<open>
  C12. Two requests that overlap can both be answered 200 although the feed ends up connected
  for the first symbol while the second is the active one; nothing is pending, and asking for
  the active symbol again is answered 200 without repairing it.
\<close>

theorem overlapping_requests_split_feed:
  assumes "stop_joins (v 0)"
  shows "\<exists>ts (a :: (nat, nat) app). app_turns v ts (start_app served_config) = Some a
    \<and> a_reqs a = [Answered (200, switched_body ''ETHUSDT''), Answered (200, switched_body ''SOLUSDT''),
        Answered (200, switched_body ''SOLUSDT'')]
    \<and> a_symbol a = ''SOLUSDT''
    \<and> (\<forall>f \<in> set (a_feeds a). f_symbol f = ''ETHUSDT'' \<and> ws_symbol f = ''ETHUSDT'' \<and> \<not> f_restart f \<and> spc f = S_watch)"
  using assms
  by (intro exI [of _ "[Feed 0 Sup, Feed 0 Sup, Arrive ''/symbol?set=ethusdt'', Arrive ''/symbol?set=SOLUSDT'', Handle 0,
     Handle 1, Handle 0, Handle 1, Handle 1, Handle 1, Handle 0, Handle 0, Handle 0, Handle 1, Feed 0 Sup, Feed 0 Sup,
     Feed 0 Sup, Feed 0 Sup, Feed 0 Sup, Feed 0 Sup, Feed 0 Sup, Feed 0 Sup, Feed 0 Sup, Feed 0 Sup, Feed 0 Sup,
     Arrive ''/symbol?set=SOLUSDT'', Handle 2, Handle 2]"])
    (simp add: app_run stop_joins_def)

lemma overlapping_requests_split_feed_witness:
  "\<exists>ts (a :: (nat, nat) app). app_turns (\<lambda>i. small_env Block (\<lambda>p. True) small_snapshot) ts (start_app served_config) = Some a
    \<and> a_symbol a = ''SOLUSDT'' \<and> (\<forall>f \<in> set (a_feeds a). f_symbol f = ''ETHUSDT'')"
proof -
  have "stop_joins ((\<lambda>i :: nat. small_env Block (\<lambda>p. True) small_snapshot) 0)" by (simp add: small_env_def stop_joins_def)
  from overlapping_requests_split_feed [of "\<lambda>i. small_env Block (\<lambda>p. True) small_snapshot", OF this] show ?thesis by blast
qed

end
