(* ===== verification/Console.thy ===== *)
theory Console
  imports Replay_Apps Live_Server Itch_Gen_Props
begin

text \<open>
  What the programs report: the final report of \<^verbatim>\<open>apps/feed_handler.cpp\<close>, the closing line of
  \<^verbatim>\<open>tools/itch_gen.cpp\<close>, and the end of a pass of the live consumer's loop, which publishes the
  dashboard's JSON every 200 ms and prints a line of statistics every second. A line is the list of
  its pieces: texts, integers (\<^verbatim>\<open>%llu\<close>, \<^verbatim>\<open>%u\<close>), and doubles with the number of decimals asked for
  (\<^verbatim>\<open>%.2f\<close>) or in the default format of a stream; how a double is printed is left to the library. \<open>quot a b\<close>
  is the quotient of the doubles of two integers.
\<close>

datatype 'f piece = Str string | Num u64 | Dec nat 'f | Flt 'f

type_synonym 'f line = "'f piece list"

text \<open>A field of \<^verbatim>\<open>%-7s\<close>: filled up with blanks on the right, never cut.\<close>

definition pad :: "nat \<Rightarrow> string \<Rightarrow> string" where
  "pad n s = s @ replicate (n - length s) (CHR '' '')"

section \<open>The replay's report\<close>

definition ns_str :: "(int \<Rightarrow> int \<Rightarrow> 'f) \<Rightarrow> u64 \<Rightarrow> 'f line" where
  "ns_str quot ns =
    (if ns < 1000 then [Num ns, Str '' ns'']
     else if ns < 1000000 then [Dec 2 (quot (uint ns) 1000), Str '' us'']
     else [Dec 2 (quot (uint ns) 1000000), Str '' ms''])"

definition print_level :: "(int \<Rightarrow> int \<Rightarrow> 'f) \<Rightarrow> string \<Rightarrow> book_level \<Rightarrow> 'f line" where
  "print_level quot label l =
    (if \<not> bl_valid l then [Str ''  '', Str label, Str '': (empty)'']
     else [Str ''  '', Str label, Str '': '', Dec 4 (quot (bl_price l) 10000), Str ''  x '', Num (bl_size l),
       Str ''  ('', Num (ucast (bl_count l)), Str '' orders)''])"

text \<open>\<open>elapsed\<close> and \<open>mega_rate\<close> are the seconds and the messages per second divided by a million.\<close>

definition result_lines :: "(int \<Rightarrow> int \<Rightarrow> 'f) \<Rightarrow> 'f \<Rightarrow> 'f \<Rightarrow> pipeline_result \<Rightarrow> 'f line list" where
  "result_lines quot elapsed mega_rate r =
    [[], [Str ''=== Pipeline ===''],
     [Str ''  messages processed : '', Num (r_messages r)],
     [Str ''  parse errors       : '', Num (r_parse_errors r)],
     [Str ''  elapsed            : '', Dec 3 elapsed, Str '' s''],
     [Str ''  throughput         : '', Dec 2 mega_rate, Str '' M msg/s''],
     [Str ''  peak queue depth   : '', Num (r_peak_queue r), Str '' / '', Num (of_nat ring_capacity)],
     [Str ''  ring drops         : '', Num (r_drops r)],
     [Str ''  L1 deltas published: '', Num (r_l1_deltas r)]]"

definition event_lines :: "book_stats \<Rightarrow> 'f line list" where
  "event_lines bs =
    [[], [Str ''=== Book events ===''],
     [Str ''  add '', Num (adds bs), Str ''  cancel '', Num (cancels bs), Str ''  delete '', Num (deletes bs),
      Str ''  execute '', Num (executes bs), Str ''  replace '', Num (replaces bs), Str ''  trade '', Num (trades bs)],
     [Str ''  unknown-ref '', Num (unknown_ref bs), Str ''  out-of-band '', Num (rejected_out_of_band bs),
      Str ''  crossed-observed '', Num (crossed_observed bs)]]"

definition latency_lines :: "(int \<Rightarrow> int \<Rightarrow> 'f) \<Rightarrow> latency_snapshot \<Rightarrow> 'f line list" where
  "latency_lines quot ls =
    (if s_count ls > 0 then
       [[Str ''  count '', Num (s_count ls), Str ''  min ''] @ ns_str quot (s_min ls)
          @ [Str ''  mean ''] @ ns_str quot (of_int \<lfloor>s_mean ls\<rfloor>) @ [Str ''  max ''] @ ns_str quot (s_max ls),
        [Str ''  p50 ''] @ ns_str quot (s_p50 ls) @ [Str ''   p99 ''] @ ns_str quot (s_p99 ls)
          @ [Str ''   p99.9 ''] @ ns_str quot (s_p999 ls)]
     else [])"

definition replay_report :: "(int \<Rightarrow> int \<Rightarrow> 'f) \<Rightarrow> 'f \<Rightarrow> 'f \<Rightarrow> pipeline_result \<Rightarrow> 'f line list" where
  "replay_report quot elapsed mega_rate r =
    result_lines quot elapsed mega_rate r @ event_lines (r_book_stats r)
    @ [[], [Str ''=== Top of book (final) ==='']]
    @ [print_level quot ''ask'' (r_final_ask r), print_level quot ''bid'' (r_final_bid r),
       [Str ''  live orders: '', Num (r_live_orders r)]]
    @ [[], [Str ''=== End-to-end latency (received -> book-updated) ==='']]
    @ latency_lines quot (r_latency r)"

text \<open>The closing line of the generator; \<open>w_out\<close> is what the stream has written.\<close>

definition gen_line :: "(int \<Rightarrow> int \<Rightarrow> 'f) \<Rightarrow> string \<Rightarrow> gen \<Rightarrow> 'f line" where
  "gen_line quot out g =
    [Str ''itch_gen: wrote '', Num (w_count g), Str '' messages to '', Str out, Str '' ('',
     Flt (quot (int (length (w_out g))) 1000000), Str '' MB), '', Num (of_nat (length (g_live g))), Str '' orders live at end'']"

text \<open>A report without errors shows zeros in the five places that count them.\<close>

lemma clean_report:
  assumes "no_errors (r_book_stats r)" and "r_parse_errors r = 0" and "r_drops r = 0"
  shows "[Str ''  parse errors       : '', Num 0] \<in> set (replay_report quot elapsed mega_rate r)"
    and "[Str ''  ring drops         : '', Num 0] \<in> set (replay_report quot elapsed mega_rate r)"
    and "[Str ''  unknown-ref '', Num 0, Str ''  out-of-band '', Num 0, Str ''  crossed-observed '', Num 0]
      \<in> set (replay_report quot elapsed mega_rate r)"
  using assms by (simp_all add: replay_report_def result_lines_def event_lines_def no_errors_def)

section \<open>The end of a pass of the live consumer\<close>

text \<open>Times are nanoseconds. \<open>ops_rate\<close> is the integer the source converts to a double.\<close>

record cadence =
  last_print :: int
  last_snap :: int
  last_ops :: u64
  ops_rate :: u64

definition new_cadence :: "int \<Rightarrow> cadence" where
  "new_cadence now = \<lparr>last_print = now, last_snap = now, last_ops = 0, ops_rate = 0\<rparr>"

definition publish_due :: "bool \<Rightarrow> int \<Rightarrow> cadence \<Rightarrow> bool" where
  "publish_due publish now c \<longleftrightarrow> publish \<and> now - last_snap c \<ge> 200000000"

definition print_due :: "int \<Rightarrow> cadence \<Rightarrow> bool" where
  "print_due now c \<longleftrightarrow> now - last_print c \<ge> 1000000000"

definition next_cadence :: "bool \<Rightarrow> int \<Rightarrow> u64 \<Rightarrow> cadence \<Rightarrow> cadence" where
  "next_cadence publish now ops c =
    (let c = (if publish_due publish now c then c\<lparr>last_snap := now\<rparr> else c)
     in if print_due now c then c\<lparr>ops_rate := ops - last_ops c, last_ops := ops, last_print := now\<rparr> else c)"

definition stats_line ::
    "(int \<Rightarrow> int \<Rightarrow> 'f) \<Rightarrow> (u64 \<Rightarrow> 'f) \<Rightarrow> (nat \<Rightarrow> u64 \<Rightarrow> u64) \<Rightarrow> endpoint \<Rightarrow> string \<Rightarrow> scales \<Rightarrow> u64 \<Rightarrow> u64
      \<Rightarrow> live_state \<Rightarrow> 'f line option" where
  "stats_line quot dbl rank ep sy sc rate dropped st =
    (let book = lv_book st; ls = snapshot rank (lv_hist st); bs = bk_stats book in do {
       b \<leftarrow> best_bid book;
       a \<leftarrow> best_ask book;
       Some ([Str (''['' @ pad 7 (ep_id ep) @ ''] '' @ pad 8 sy @ '' bid ''), Dec 2 (quot (bl_price b) (price_scale sc)),
         Str '' x'', Dec 3 (quot (uint (bl_size b)) (size_scale sc)), Str '' | ask '',
         Dec 2 (quot (bl_price a) (price_scale sc)), Str '' x'', Dec 3 (quot (uint (bl_size a)) (size_scale sc)),
         Str '' | spread '', Dec 2 (quot (bl_price a - bl_price b) (price_scale sc)),
         Str '' | levels '', Num (live_orders book), Str '' | '', Dec 0 (dbl rate), Str '' op/s | p50 '']
         @ ns_str quot (s_p50 ls) @ [Str '' p99 ''] @ ns_str quot (s_p99 ls)
         @ [Str '' | drops '', Num dropped, Str '' | gaps '', Num (gaps st), Str '' resync '', Num (resyncs st),
            Str '' | oob '', Num (rejected_out_of_band bs), Str '' cross '', Num (crossed_observed bs),
            Str (if lv_mode st = Streaming then '' | streaming'' else '' | SEEKING'')]) })"

text \<open>One pass: what is published, with the rate of the last print, and what is printed.\<close>

definition end_of_pass ::
    "(int \<Rightarrow> int \<Rightarrow> 'f) \<Rightarrow> (u64 \<Rightarrow> 'f) \<Rightarrow> (nat \<Rightarrow> u64 \<Rightarrow> u64) \<Rightarrow> endpoint \<Rightarrow> string \<Rightarrow> scales \<Rightarrow> bool \<Rightarrow> int \<Rightarrow> u64
      \<Rightarrow> u64 \<Rightarrow> 'f trade_row list \<Rightarrow> live_state \<Rightarrow> cadence \<Rightarrow> ('f json option \<times> 'f line option \<times> cadence) option" where
  "end_of_pass quot dbl rank ep sy sc publish now ops dropped ts st c = do {
     js \<leftarrow> (if publish_due publish now c
            then map_option Some (build_snapshot quot rank ep sy sc (dbl (ops_rate c)) dropped ts st) else Some None);
     let c' = next_cadence publish now ops c;
     ln \<leftarrow> (if print_due now c
            then map_option Some (stats_line quot dbl rank ep sy sc (ops_rate c') dropped st) else Some None);
     Some (js, ln, c') }"

section \<open>The rate sampler\<close>

text \<open>\<open>RateSampler\<close> of \<^verbatim>\<open>instrumentation.hpp\<close>; \<open>rate n dt\<close> is \<open>n\<close> divided by the seconds of \<open>dt\<close> nanoseconds.\<close>

record rate_sampler =
  rs_last :: int
  rs_count :: u64

definition sample :: "(u64 \<Rightarrow> int \<Rightarrow> 'f) \<Rightarrow> 'f \<Rightarrow> int \<Rightarrow> u64 \<Rightarrow> rate_sampler \<Rightarrow> 'f \<times> rate_sampler" where
  "sample rate zero now n rs =
    (let dt = now - rs_last rs
     in (if 0 < dt then rate (n - rs_count rs) dt else zero, \<lparr>rs_last = now, rs_count = n\<rparr>))"

end
