(* ===== verification/Console_Props.thy ===== *)
theory Console_Props
  imports Console Live_Server_Props
begin

text \<open>
  The cadence of the live consumer's reports over the passes of its loop, each with the time it
  reads and the value of the operations counter: publications are at least 200 ms apart, the rates
  printed add up to the operations counted, and a counter that is set back in between gives a rate
  that wraps.
\<close>

text \<open>The times of the publications and the rates printed, in order.\<close>

fun passes :: "bool \<Rightarrow> (int \<times> u64) list \<Rightarrow> cadence \<Rightarrow> int list \<times> u64 list \<times> cadence" where
  "passes publish [] c = ([], [], c)"
| "passes publish ((now, ops) # ps) c =
    (let (ts, rs, c') = passes publish ps (next_cadence publish now ops c)
     in ((if publish_due publish now c then [now] else []) @ ts,
         (if print_due now c then [ops - last_ops c] else []) @ rs, c'))"

lemma next_cadence_simps [simp]:
  "last_snap (next_cadence publish now ops c) = (if publish_due publish now c then now else last_snap c)"
  "last_ops (next_cadence publish now ops c) = (if print_due now c then ops else last_ops c)"
  "ops_rate (next_cadence publish now ops c) = (if print_due now c then ops - last_ops c else ops_rate c)"
  by (simp_all add: next_cadence_def print_due_def Let_def)

lemma publications_spaced:
  "passes publish ps c = (ts, rs, c') \<Longrightarrow> sorted_wrt (\<lambda>s t. s + 200000000 \<le> t) (last_snap c # ts)"
proof (induction ps arbitrary: c ts rs)
  case (Cons p ps)
  obtain now ops where p: "p = (now, ops)" by (cases p)
  obtain ts1 rs1 where r: "passes publish ps (next_cadence publish now ops c) = (ts1, rs1, c')"
      "ts = (if publish_due publish now c then [now] else []) @ ts1"
    using Cons.prems by (auto simp: p split: prod.splits)
  from Cons.IH [OF r(1)] show ?case by (fastforce simp: r(2) publish_due_def)
qed simp

text \<open>The counter only grows.\<close>

lemma rates_add_up:
  assumes "passes publish ps c = (ts, rs, c')" and "sorted (last_ops c # map snd ps)"
  shows "unat (last_ops c) + sum_list (map unat rs) = unat (last_ops c')"
  using assms
proof (induction ps arbitrary: c ts rs)
  case (Cons p ps)
  obtain now ops where p: "p = (now, ops)" by (cases p)
  obtain ts1 rs1 where r: "passes publish ps (next_cadence publish now ops c) = (ts1, rs1, c')"
      "rs = (if print_due now c then [ops - last_ops c] else []) @ rs1"
    using Cons.prems(1) by (auto simp: p split: prod.splits)
  have le: "last_ops c \<le> ops" and "sorted (last_ops (next_cadence publish now ops c) # map snd ps)"
    using Cons.prems(2) by (auto simp: p)
  from Cons.IH [OF r(1) this(2)] le show ?case by (auto simp: r(2) unat_sub word_le_nat_alt)
qed simp

text \<open>The supervisor sets the counter to 0 before it ends the session: a print in between.\<close>

lemma rate_after_reset:
  assumes "print_due now c" and "0 < last_ops c"
  shows "unat (ops_rate (next_cadence publish now 0 c)) = 2 ^ 64 - unat (last_ops c)"
  using assms by (simp only: next_cadence_simps if_True unat_sub_if') (simp add: word_less_nat_alt)

lemma build_snapshot_returns:
  assumes "l2_repr (lv_book st) m"
  shows "\<exists>js. build_snapshot quot rank ep sy sc rate dropped ts st = Some js"
proof -
  obtain bid ask where "best_bid (lv_book st) = Some bid" "best_ask (lv_book st) = Some ask"
    by (rule l2_side_tops [OF assms])
  then show ?thesis
    using l2_depth_bids [OF assms, of 15 "replicate 15 no_level"] l2_depth_asks [OF assms, of 15 "replicate 15 no_level"]
    by (auto simp: build_snapshot_def Let_def)
qed

lemma end_of_pass_returns:
  assumes "l2_repr (lv_book st) m"
  shows "\<exists>js ln c'. end_of_pass quot dbl rank ep sy sc publish now ops dropped ts st c = Some (js, ln, c')
    \<and> (js \<noteq> None \<longleftrightarrow> publish_due publish now c) \<and> (ln \<noteq> None \<longleftrightarrow> print_due now c)
    \<and> c' = next_cadence publish now ops c"
proof -
  obtain bid ask where "best_bid (lv_book st) = Some bid" "best_ask (lv_book st) = Some ask"
    by (rule l2_side_tops [OF assms])
  then obtain ln where "stats_line quot dbl rank ep sy sc (ops_rate (next_cadence publish now ops c)) dropped st = Some ln"
    by (simp add: stats_line_def Let_def)
  moreover obtain js where "build_snapshot quot rank ep sy sc (dbl (ops_rate c)) dropped ts st = Some js"
    using build_snapshot_returns [OF assms, of quot rank ep sy sc "dbl (ops_rate c)" dropped ts] by blast
  ultimately show ?thesis by (cases "print_due now c"; simp add: end_of_pass_def Let_def)
qed

end
