(* ===== verification/Spec2Isabelle.thy ===== *)
theory Spec2Isabelle
  imports Itch_Parser Itch_File_Source Sequencer Order_Book_L2_Props Spsc_Channel Latency_Histogram Publisher
    Pipeline_Loss Itch_Gen_Props Replay_Apps Live_Config_Props Live_Ring Live_Server_Props Live_Timing
    Spsc_Shared Spsc_Memory Live_Handlers Console_Props
begin

text \<open>
  Verification of the burst-resilient feed handler and order book engine (C++).

  \<^bold>\<open>The program.\<close> An ITCH file is replayed through two threads. The ingest thread
  (\<^verbatim>\<open>src/pipeline.cpp\<close>) takes frames from \<open>ItchFileSource\<close>, decodes each with \<open>parse\<close> straight from the
  mapped bytes, paces and optionally reorders them, and sends them through a lock-free
  single-producer single-consumer ring. The book thread takes them off the ring, puts them back into
  sequence with the \<open>Sequencer\<close>, applies them to the tick-indexed \<open>OrderBook\<close>, publishes changes of the
  top of the book and records the latency of every applied message in a histogram. A second
  application (\<^verbatim>\<open>apps/live_feed.cpp\<close>) drives the same ring and book from a depth feed of aggregated
  levels, and \<^verbatim>\<open>tools/itch_gen.cpp\<close> writes synthetic ITCH files.

  \<^bold>\<open>Conventions.\<close> Unsigned integers are words of their width and wrap as in C++; \<open>std::int64_t\<close> is \<open>int\<close>,
  with bounds lemmas. Undefined behaviour (an access outside a vector, a bad pointer, an invalid
  distribution) is \<^term>\<open>None\<close>, so every theorem that an operation returns \<^term>\<open>Some\<close> also says that it
  is free of it. Pointers of the order pool are slot numbers. Whatever the program gets from outside
  is an argument: answers of the operating system, clock readings, random draws, parsed JSON, HTTP
  answers, the environment and the files, and the results of floating-point expressions (pacing offsets,
  percentile ranks, the price band, \<open>stod\<close>, \<open>llround\<close> and the quotients of the dashboard).

  \<^bold>\<open>Theories\<close>, in the order of the data flow.
  \<^item> FH_Prelude: types, checked vector access, generic lemmas.
  \<^item> Byte_Read (\<^verbatim>\<open>detail/byte_read.hpp\<close>): big-endian loads and stores, with the locale \<open>be_codec\<close> that the
    parser and the generator use, interpreted for 16, 32, 48 and 64 bits.
  \<^item> Market_Event, Itch_Parser (\<^verbatim>\<open>itch_parser.cpp\<close>): the decoder; memory safety, locality, statuses.
  \<^item> Itch_File_Source (\<^verbatim>\<open>feed_source.hpp\<close>, \<^verbatim>\<open>itch_file_source.cpp\<close>): framing; the locale \<open>feed_source\<close>
    is the contract of the virtual \<open>next_frame\<close>. The loop over frames gets fuel \<open>length + 1\<close>, enough
    because every frame consumes at least the two length bytes.
  \<^item> Sequencer (\<^verbatim>\<open>sequencer.cpp\<close>): reordering, overflow, resynchronisation.
  \<^item> Order_Pool, Price_Level, Order_Book (\<^verbatim>\<open>order_book.cpp\<close>): the free-list pool, the intrusive FIFO of a
    level, and every method of the book. Order_Book_Spec is the abstract book, the list of live orders in
    order of arrival; Order_Book_Refine, _Ops, _Best, _Apply and _Top relate the two operation by operation;
    Order_Book_Props holds the properties. Order_Book_L2 and Order_Book_L2_Props do the same for \<open>set_level\<close>,
    against a map from index to side and size.
  \<^item> Spsc_Ring, Spsc_Channel (\<^verbatim>\<open>spsc_ring_buffer.hpp\<close>): the ring, its operations cut at their accesses to
    shared memory, and all interleavings of the two threads as a step relation. Spsc_Memory runs the same
    operations under the C++ memory model: a load may read any store that coherence and happens-before leave it,
    release stores and acquire loads pass on the clocks of the threads, and unordered accesses to a slot are recorded as a
    race. With the orders of the code this machine refines the step relation and is free of races; each order is
    needed. The properties of the pipeline are stated over its executions.
  \<^item> Instrumentation, Latency_Geometry, Latency_Histogram (\<^verbatim>\<open>instrumentation.hpp\<close>): the latency histogram.
  \<^item> Publisher (\<^verbatim>\<open>publisher.hpp\<close>).
  \<^item> Pipeline (\<^verbatim>\<open>pipeline.cpp\<close>): both threads and the result. Pipeline_Book shows that the book thread
    applies what the sequencer delivers, Pipeline_Feed what the ingest thread sends, Pipeline_Order that
    the gap injection is a permutation that fits the reorder buffer, Pipeline_Props composes them. Pipeline_Loss:
    what becomes of a file when frames do not decode or the channel drops, with \<open>lossy_run\<close> as the specification of which
    messages the final book is made of.
  \<^item> Itch_Gen (\<^verbatim>\<open>tools/itch_gen.cpp\<close>): the generator. Itch_Gen_Codec has the round trips of its message
    builders, Itch_Gen_Book the correspondence of its vector of live orders with the abstract book,
    Itch_Gen_Props the invariant of its loop. Its files have fewer than \<open>2^32\<close> messages, which keeps the
    48-bit timestamps from overflowing.
  \<^item> Live_Feed, Live_Feed_Props (\<^verbatim>\<open>apps/live_feed.cpp\<close>): the decoder of the depth feed and the consumer's
    snapshot and resynchronisation state machine, over the refinement of \<open>set_level\<close>.
  \<^item> Std_Strings: the string searches and number conversions of the standard library that the applications
    use. Live_Config, Live_Config_Props: the command line, the environment, markets and addresses.
  \<^item> Live_Switch, Live_Switch_Props: the threads of one feed (\<open>supervise_feed\<close>, the callback of
    \<open>start_websocket\<close>, \<open>ensure_consumer\<close>, the end of \<open>main\<close>, the request for another symbol), each a function
    that takes its next step; a run is a list of the threads that step. It holds the symbol switch, shutdown
    and its deadlock. Live_Session composes the threads with the consumer's state machine: the book of a
    session that has caught up, and that it can catch up. Spsc_Shared: two threads that receive from one ring, as the
    drain after a switch allows. Live_Ring runs the same threads over the ring of Spsc_Channel in the place of a list,
    with \<open>send\<close> and \<open>receive\<close> cut in their parts. When the supervisor and the consumer are not inside \<open>receive\<close> together
    (\<open>one_receiver\<close>), a run over the ring is exactly the run over the list made of the turns that end a call
    (\<open>list_turns\<close>), and every run over the list arises so; the properties are stated over the ring. The histories
    record also what a session receives that is no longer the current one, with a flag.
  \<^item> Live_Server, Live_Server_Props: the JSON published about the book and the HTTP callback. Live_Timing: the
    spacing of the snapshot requests, which are sent after the lock that spaces them is released, and the waiting loops. Live_Handlers: the threads of all feeds together with
    requests for a symbol that may overlap, each cut at its accesses to shared state; requests that do not overlap
    refine the single steps of Live_Server, taken in the order of arrival (\<open>events\<close>, \<open>arrivals\<close>); requests that do may
    leave a feed on a symbol that is not active.
  \<^item> Replay_Apps: \<open>main\<close> of \<^verbatim>\<open>tools/itch_gen.cpp\<close> and of \<^verbatim>\<open>apps/feed_handler.cpp\<close>, up to the replay.
    Console, Console_Props: the replay's report, the generator's closing line, and the reports at the end of a
    pass of the live consumer, as pieces of lines; \<open>RateSampler\<close>.
  \<^item> This theory: the properties that span the components, and the two programs one after the other.

  \<^bold>\<open>Loops.\<close> \<open>wait_until\<close>, the histogram's construction loops, the generator's loop, the wait for the first
  depth snapshot, \<open>interruptible_wait\<close> and the last loop of \<open>main\<close> are \<open>partial_function (option)\<close>, with
  separate results that they return; the other loops are total functions. The ingest thread returns, over a clock that
  never goes back, exactly when that clock reaches each of the finitely many times the pacing asks for (\<open>pace_targets\<close>),
  without pacing always.

  \<^bold>\<open>Live application.\<close> Its parts are modelled side by side: Live_Feed is one session over the messages it
  receives, Live_Switch the threads around it with send and receive as single
  steps (their cuts at shared accesses are in Spsc_Channel), over a list and in Live_Ring over the ring, Live_Server the requests between which the
  supervisors and consumers act. Its flags, session counter and strings are read and written one access at a time, in
  sequentially consistent order. What \<open>ix::WebSocket::stop\<close> waits for and how long the pauses last are
  parameters; the documented behaviour of \<open>stop\<close>, that it joins the background thread, is the hypothesis
  \<open>stop_joins\<close>. The session counter is an \<open>int\<close>: it does not wrap before \<open>2 ^ 31\<close> switches.

  \<^bold>\<open>Not modelled.\<close> Other messages on the console, and how a double is printed; the text of JSON and the
  dashboard's page; the calls of the WebSocket, HTTP and TLS libraries themselves; thread pinning and the pause
  instruction; elapsed times; the busy loop that simulates a slow consumer; tests and benchmarks.
\<close>

section \<open>The pipeline, end to end\<close>

lemma pipeline_weak_run:
  assumes "weak_turns code_orders ts (start_weak ring_capacity pol default_msg ms) = Some w"
  shows "\<not> raced w" "duo_reach (start_duo ring_capacity pol default_msg ms) (wk w)"
  using weak_run_ok [of ts 16 pol default_msg ms w] assms by (simp_all add: ring_capacity_def)

lemma pipeline_can_finish:
  "\<exists>ts w. weak_turns code_orders ts (start_weak ring_capacity pol default_msg ms) = Some w \<and> c_phase (wk w) = C_finished"
  using finished_weak_run [of 16 pol default_msg ms] by (simp add: ring_capacity_def)

text \<open>
  C1. Under Block, for a file whose frames all decode, any pacing, any gap injection of distance
  up to 4096, every finished execution under the C++ memory model is free of data races and
  leaves the book and publisher that applying the file's events in order gives; nothing is lost.
\<close>

theorem pipeline_equals_clean_run:
  assumes "good_config (fix_config (pc_book cfg))" and "bytes \<noteq> []"
    and "file_events bytes = map Some evs" and "length evs < 2 ^ 32"
    and "unat (inject_gap_at cfg) + unat (gap_reorder_distance cfg) < 2 ^ 64"
    and "gap_reorder_distance cfg \<le> 4096"
    and "producer_run cfg now occ bytes = Some (ms, p)"
    and "pc_backpressure cfg = Block"
    and "weak_turns code_orders ts (start_weak ring_capacity (pc_backpressure cfg) default_msg ms) = Some w"
    and "c_phase (wk w) = C_finished"
  shows "\<not> raced w \<and> (\<exists>c0 c r. new_consumer cfg = Some c0 \<and> consume now' (received (wk w)) c0 = Some c
    \<and> apply_publish evs (new_book (pc_book cfg), new_publisher) = Some (cs_book c, cs_pub c)
    \<and> \<not> stale (cs_seq c) \<and> assemble rank p (d_dropped (wk w)) c = Some r
    \<and> r_messages r = of_nat (length evs) \<and> r_parse_errors r = 0 \<and> r_drops r = 0
    \<and> r_l1_deltas r = l1_deltas (cs_pub c))"
  using finished_run [OF assms(1-7) pipeline_weak_run(2) [OF assms(9), unfolded assms(8)] assms(10), of now' rank]
    pipeline_weak_run(1) [OF assms(9)] by blast

lemma pipeline_equals_clean_run_witness:
  "\<exists>ms p ts w c0 c. producer_run (plain_config 1 1) (\<lambda>k. - 1) id two_frames = Some (ms, p)
    \<and> weak_turns code_orders ts (start_weak ring_capacity Block default_msg ms) = Some w
    \<and> new_consumer (plain_config 1 1) = Some c0 \<and> consume (\<lambda>k. 0) (received (wk w)) c0 = Some c
    \<and> apply_publish two_events (new_book small_config, new_publisher) = Some (cs_book c, cs_pub c)
    \<and> \<not> stale (cs_seq c)"
proof -
  obtain ms p where p: "producer_run (plain_config 1 1) (\<lambda>k. - 1) id two_frames = Some (ms, p)"
    using two_frames_run by blast
  obtain ts w where s: "weak_turns code_orders ts (start_weak ring_capacity (pc_backpressure (plain_config 1 1)) default_msg ms)
      = Some w" "c_phase (wk w) = C_finished" using pipeline_can_finish by blast
  have "length two_events < 2 ^ 32" "two_frames \<noteq> []" by (simp_all add: two_events_def two_frames_def)
  with pipeline_equals_clean_run [OF _ _ two_frames_events _ _ _ p _ s, of "\<lambda>k. 0" "\<lambda>p n. n"] p s
  show ?thesis by auto
qed

text \<open>
  C2. Under the same conditions, if no level ever holds both sides, the result of the pipeline
  reports as final bid and ask the best levels of the live orders the file determines, and their
  number.
\<close>

theorem pipeline_reports_true_top:
  assumes "good_config (fix_config (pc_book cfg))" and "bytes \<noteq> []"
    and "file_events bytes = map Some evs" and "length evs < 2 ^ 32"
    and "unat (inject_gap_at cfg) + unat (gap_reorder_distance cfg) < 2 ^ 64"
    and "gap_reorder_distance cfg \<le> 4096"
    and "producer_run cfg now occ bytes = Some (ms, p)"
    and "pc_backpressure cfg = Block"
    and "weak_turns code_orders ts (start_weak ring_capacity (pc_backpressure cfg) default_msg ms) = Some w"
    and "c_phase (wk w) = C_finished"
    and "always_pure (fix_config (pc_book cfg)) evs []"
  shows "\<not> raced w \<and> (\<exists>c0 c r. new_consumer cfg = Some c0 \<and> consume now' (received (wk w)) c0 = Some c
    \<and> assemble rank p (d_dropped (wk w)) c = Some r
    \<and> r_final_bid r = best_level (fix_config (pc_book cfg)) (spec_run (pc_book cfg) evs)
        (top_bid (fix_config (pc_book cfg)) (spec_run (pc_book cfg) evs))
    \<and> r_final_ask r = best_level (fix_config (pc_book cfg)) (spec_run (pc_book cfg) evs)
        (top_ask (fix_config (pc_book cfg)) (spec_run (pc_book cfg) evs))
    \<and> unat (r_live_orders r) = length (spec_run (pc_book cfg) evs))"
proof -
  let ?cfg = "fix_config (pc_book cfg)" and ?A = "spec_run (pc_book cfg) evs"
  obtain b q where b: "apply_all evs (new_book (pc_book cfg)) = Some b" "book_repr b q ?A"
      "bk_cfg b = ?cfg" "tops b ?A"
    using run_repr [OF assms(1,4)] assms(11) by metis
  have len: "length ?A < 2 ^ 32" "live_orders b = of_nat (length ?A)" using b(2) by (auto simp: book_repr_def)
  then have "length ?A < 2 ^ 64" by simp
  then have live: "unat (live_orders b) = length ?A" unfolding len(2) by (rule unat_of_nat_64)
  obtain c0 c r where c: "new_consumer cfg = Some c0" "consume now' (received (wk w)) c0 = Some c"
      "apply_all evs (new_book (pc_book cfg)) = Some (cs_book c)" "assemble rank p (d_dropped (wk w)) c = Some r"
      "r_live_orders r = live_orders (cs_book c)" "best_bid (cs_book c) = Some (r_final_bid r)"
      "best_ask (cs_book c) = Some (r_final_ask r)"
    using finished_run [OF assms(1-7) pipeline_weak_run(2) [OF assms(9), unfolded assms(8)] assms(10), of now' rank]
    pipeline_weak_run(1) [OF assms(9)] by blast
  have "cs_book c = b" using c(3) b(1) by simp
  with c top_levels [OF b(2,4)] live show ?thesis
    by (intro conjI pipeline_weak_run(1) [OF assms(9)] exI [of _ c0] exI [of _ c] exI [of _ r]) (simp_all add: b(3))
qed

lemma pipeline_reports_true_top_witness:
  "\<exists>ms p ts w c0 c r. producer_run (plain_config 1 1) (\<lambda>k. - 1) id two_frames = Some (ms, p)
    \<and> weak_turns code_orders ts (start_weak ring_capacity Block default_msg ms) = Some w
    \<and> new_consumer (plain_config 1 1) = Some c0 \<and> consume (\<lambda>k. 0) (received (wk w)) c0 = Some c
    \<and> assemble (\<lambda>p n. n) p (d_dropped (wk w)) c = Some r \<and> r_final_bid r = no_level \<and> r_live_orders r = 0"
proof -
  obtain ms p where p: "producer_run (plain_config 1 1) (\<lambda>k. - 1) id two_frames = Some (ms, p)"
    using two_frames_run by blast
  obtain ts w where s: "weak_turns code_orders ts (start_weak ring_capacity (pc_backpressure (plain_config 1 1)) default_msg ms)
      = Some w" "c_phase (wk w) = C_finished" using pipeline_can_finish by blast
  have pure: "always_pure small_config two_events []" and run: "spec_run small_config two_events = []"
    by (simp_all add: two_events_def default_event_def spec_apply_def spec_add_def spec_delete_def refs_def
        side_pure_def spec_run_def)
  have "length two_events < 2 ^ 32" "two_frames \<noteq> []" by (simp_all add: two_events_def two_frames_def)
  with pipeline_reports_true_top [OF _ _ two_frames_events _ _ _ p _ s, of "\<lambda>k. 0" "\<lambda>p n. n"] pure run
  obtain c0 c r where "new_consumer (plain_config 1 1) = Some c0" "consume (\<lambda>k. 0) (received (wk w)) c0 = Some c"
      "assemble (\<lambda>p n. n) p (d_dropped (wk w)) c = Some r" "r_final_bid r = no_level" "r_live_orders r = 0"
    by (auto simp: top_bid_def side_indices_def best_level_def unat_eq_0)
  moreover have "pc_backpressure (plain_config 1 1) = Block" by simp
  ultimately show ?thesis using p s by metis
qed

section \<open>A generated file through the pipeline\<close>

lemma assemble_stats: "assemble rank p d c = Some r \<Longrightarrow> r_book_stats r = bk_stats (cs_book c)"
  by (auto simp: assemble_def bind_eq_Some_conv)

text \<open>
  The file the generator's loop writes, for any configuration whose band covers the generator's prices.
\<close>

lemma generated_feed_end_to_end:
  assumes "draws_ok uni" and "unat messages < 2 ^ 32 - 1" and "gen_main uni name messages = Some g"
    and "good_config (fix_config (pc_book cfg))" and "tick_size (fix_config (pc_book cfg)) = 1"
    and "min_price (fix_config (pc_book cfg)) \<le> 999949" and "1000051 \<le> max_price (fix_config (pc_book cfg))"
    and "unat (inject_gap_at cfg) + unat (gap_reorder_distance cfg) < 2 ^ 64"
    and "gap_reorder_distance cfg \<le> 4096"
    and "producer_run cfg now occ (w_out g) = Some (ms, p)"
    and "pc_backpressure cfg = Block"
    and "duo_reach (start_duo ring_capacity (pc_backpressure cfg) default_msg ms) s" and "c_phase s = C_finished"
  shows "\<exists>c0 c r. new_consumer cfg = Some c0 \<and> consume now' (received s) c0 = Some c
    \<and> assemble rank p (d_dropped s) c = Some r
    \<and> no_errors (r_book_stats r) \<and> r_parse_errors r = 0 \<and> r_drops r = 0
    \<and> unat (r_messages r) = Suc (max 1 (unat messages))
    \<and> unat (r_live_orders r) = length (g_live g)"
proof -
  let ?cfg = "fix_config (pc_book cfg)"
  have band: "in_band ?cfg" using assms(6,7) by (simp add: in_band_def k_mid_def)
  obtain evs where evs: "gen_inv ?cfg g evs" "length evs = Suc (max 1 (unat messages))"
    using gen_main_run [OF assms(1) band assms(5,2), of name] assms(3) by auto
  have clean: "clean_feed ?cfg evs []" and m: "mirrors (g_next_ref g) (g_live g) (spec_run (pc_book cfg) evs)"
    and fe: "file_events (w_out g) = map Some evs"
    using evs(1) by (simp_all add: gen_inv_def wrote_file spec_run_def)
  have len: "length evs < 2 ^ 32" using evs(2) assms(2) by simp
  have "w_out g \<noteq> []" using fe evs(2) by (auto simp: file_events_def split_frames.simps)
  from finished_run [OF assms(4) this fe len assms(8-10) assms(12) [unfolded assms(11)] assms(13), of now' rank]
  obtain c0 c r where c: "new_consumer cfg = Some c0" "consume now' (received s) c0 = Some c"
      "apply_all evs (new_book (pc_book cfg)) = Some (cs_book c)" "assemble rank p (d_dropped s) c = Some r"
      "r_messages r = of_nat (length evs)" "r_parse_errors r = 0" "r_drops r = 0"
      "r_live_orders r = live_orders (cs_book c)" by blast
  obtain b q where "apply_all evs (new_book (pc_book cfg)) = Some b" "book_repr b q (spec_run (pc_book cfg) evs)"
    using run_repr [OF assms(4) len] by metis
  then have "live_orders (cs_book c) = of_nat (length (g_live g))" "length (g_live g) < 2 ^ 32"
    using c(3) mirrors_card [OF m] by (auto simp: book_repr_def)
  then have "unat (r_live_orders r) = length (g_live g)"
    using c(8) by (simp add: unat_of_nat_64)
  moreover have "length evs < 2 ^ 64" using len by simp
  then have "unat (r_messages r) = Suc (max 1 (unat messages))"
    unfolding c(5) evs(2) [symmetric] by (rule unat_of_nat_64)
  moreover have "no_errors (r_book_stats r)"
    using clean_no_errors [OF assms(4) len clean c(3)] assemble_stats [OF c(4)] by simp
  ultimately show ?thesis using c by blast
qed

section \<open>The two programs, one after the other\<close>

lemma gen_command_line:
  "parse_gen_args [''--out'', F, ''--orders'', show_nat (unat n), ''--seed'', show_nat (unat seed), ''--symbol'', sy]
      default_gen_args
    = Inr \<lparr>ga_out = F, ga_messages = n, ga_seed = seed, ga_symbol = sy\<rparr>"
  by (simp add: take_gen_option_def next_arg_def converted_def stoull_show default_gen_args_def)

lemma default_config_covers:
  "good_config (fix_config default_book_config)" "tick_size (fix_config default_book_config) = 1"
  "min_price (fix_config default_book_config) \<le> 999949" "1000051 \<le> max_price (fix_config default_book_config)"
  by (simp_all add: fix_config_def default_book_config_def good_config_def)

text \<open>
  C3. For draws within bounds and fewer than 2^32 - 1 orders, the file itch_gen writes under its
  command line, replayed by feed_handler, gives in every execution of the memory model a result
  without race, parse error, drop, unknown reference, rejected price or crossed book, and the
  generator's counts.
\<close>

theorem commands_end_to_end:
  fixes n :: u64
  assumes "draws_ok (rng seed)" and "unat n < 2 ^ 32 - 1" and "creates F"
  shows "\<exists>(g :: gen) fs' cfg.
      itch_gen_main rng creates
        [''--out'', F, ''--orders'', show_nat (unat n), ''--seed'', show_nat (unat seed), ''--symbol'', sy] fs
      = Some (Exit 0, fs')
    \<and> feed_handler_main stod pace_of zero True [''--file'', F] fs' = Replays cfg (w_out g)
    \<and> (\<forall>now occ ms p ts w. producer_run cfg now occ (w_out g) = Some (ms, p)
          \<and> weak_turns code_orders ts (start_weak ring_capacity (pc_backpressure cfg) default_msg ms) = Some w
          \<and> c_phase (wk w) = C_finished \<longrightarrow>
        \<not> raced w \<and> (\<exists>c0 c r. new_consumer cfg = Some c0 \<and> consume now' (received (wk w)) c0 = Some c
          \<and> assemble rank p (d_dropped (wk w)) c = Some r
          \<and> no_errors (r_book_stats r) \<and> r_parse_errors r = 0 \<and> r_drops r = 0
          \<and> unat (r_messages r) = Suc (max 1 (unat n))
          \<and> unat (r_live_orders r) = length (g_live g)))"
proof -
  define cfg where "cfg = replay_config pace_of \<lparr>ra_file = F, ra_backpressure = Block, ra_speed = zero\<rparr>"
  have book: "pc_book cfg = default_book_config" and block: "pc_backpressure cfg = Block"
    and no_gap: "unat (inject_gap_at cfg) + unat (gap_reorder_distance cfg) < 2 ^ 64" "gap_reorder_distance cfg \<le> 4096"
    by (simp_all add: cfg_def replay_config_def)
  note covers = default_config_covers [folded book]
  have "in_band (fix_config (pc_book cfg))" using covers(3,4) by (simp add: in_band_def k_mid_def)
  from gen_main_run [OF assms(1) this covers(2) assms(2), of "map ascii sy"] obtain g evs
    where g: "gen_main (rng seed) (map ascii sy) n = Some g" "gen_inv (fix_config (pc_book cfg)) g evs"
      "length evs = Suc (max 1 (unat n))" by blast
  have "w_out g \<noteq> []"
    using wrote_file [of g evs] g(2,3) by (auto simp: gen_inv_def file_events_def split_frames.simps)
  then have "feed_handler_main stod pace_of zero True [''--file'', F] (fs(F \<mapsto> w_out g)) = Replays cfg (w_out g)"
    by (simp add: feed_handler_main_def take_replay_option_def next_arg_def open_file_source_def cfg_def)
  moreover have "itch_gen_main rng creates
      [''--out'', F, ''--orders'', show_nat (unat n), ''--seed'', show_nat (unat seed), ''--symbol'', sy] fs
      = Some (Exit 0, fs(F \<mapsto> w_out g))"
    using assms(3) g(1) by (simp add: itch_gen_main_def gen_command_line del: parse_gen_args.simps)
  moreover have "\<not> raced w \<and> (\<exists>c0 c r. new_consumer cfg = Some c0 \<and> consume now' (received (wk w)) c0 = Some c
      \<and> assemble rank p (d_dropped (wk w)) c = Some r
      \<and> no_errors (r_book_stats r) \<and> r_parse_errors r = 0 \<and> r_drops r = 0
      \<and> unat (r_messages r) = Suc (max 1 (unat n)) \<and> unat (r_live_orders r) = length (g_live g))"
    if "producer_run cfg now occ (w_out g) = Some (ms, p)"
      "weak_turns code_orders ts (start_weak ring_capacity (pc_backpressure cfg) default_msg ms) = Some w"
      "c_phase (wk w) = C_finished"
    for now occ ms p ts w
    by (intro conjI pipeline_weak_run(1) [OF that(2)]
      generated_feed_end_to_end [OF assms(1,2) g(1) covers no_gap that(1) block pipeline_weak_run(2) [OF that(2)] that(3)])
  ultimately show ?thesis
    by blast
qed

lemma commands_end_to_end_witness:
  "\<exists>(g :: gen) fs' cfg ms p ts w c0 c r. itch_gen_main (\<lambda>seed k l h. l) (\<lambda>f. True)
        [''--out'', ''f'', ''--orders'', show_nat (unat (100 :: u64)), ''--seed'', show_nat (unat (7 :: u64)),
         ''--symbol'', ''AAPL''] Map.empty = Some (Exit 0, fs')
    \<and> feed_handler_main (\<lambda>v. None) (\<lambda>d :: unit. pc_pacing (plain_config 1 1)) () True [''--file'', ''f''] fs'
      = Replays cfg (w_out g)
    \<and> producer_run cfg (\<lambda>k. - 1) id (w_out g) = Some (ms, p)
    \<and> weak_turns code_orders ts (start_weak ring_capacity (pc_backpressure cfg) default_msg ms) = Some w
    \<and> new_consumer cfg = Some c0 \<and> consume (\<lambda>k. 0) (received (wk w)) c0 = Some c
    \<and> assemble (\<lambda>p n. n) p (d_dropped (wk w)) c = Some r \<and> no_errors (r_book_stats r) \<and> unat (r_messages r) = 101"
proof -
  have fixed_count: "Suc (max 1 (unat (100 :: u64))) = 101" by simp
  have "draws_ok (\<lambda>k l h :: u64. l)" "unat (100 :: u64) < 2 ^ 32 - 1" by (simp_all add: draws_ok_def)
  note run = commands_end_to_end [of "\<lambda>seed k l h. l" 7 100 "\<lambda>f. True" "''f''", OF this TrueI]
  obtain g :: gen and fs' cfg where r: "itch_gen_main (\<lambda>seed k l h. l) (\<lambda>f. True)
        [''--out'', ''f'', ''--orders'', show_nat (unat (100 :: u64)), ''--seed'', show_nat (unat (7 :: u64)),
         ''--symbol'', ''AAPL''] Map.empty = Some (Exit 0, fs')"
      "feed_handler_main (\<lambda>v. None) (\<lambda>d :: unit. pc_pacing (plain_config 1 1)) () True [''--file'', ''f''] fs'
        = Replays cfg (w_out g)"
    and ok: "\<forall>now occ ms p ts w. producer_run cfg now occ (w_out g) = Some (ms, p)
        \<and> weak_turns code_orders ts (start_weak ring_capacity (pc_backpressure cfg) default_msg ms) = Some w
        \<and> c_phase (wk w) = C_finished \<longrightarrow>
        \<not> raced w \<and> (\<exists>c0 c r. new_consumer cfg = Some c0 \<and> consume (\<lambda>k. 0) (received (wk w)) c0 = Some c
          \<and> assemble (\<lambda>p n. n) p (d_dropped (wk w)) c = Some r \<and> no_errors (r_book_stats r) \<and> r_parse_errors r = 0
          \<and> r_drops r = 0 \<and> unat (r_messages r) = 101 \<and> unat (r_live_orders r) = length (g_live g))"
    using run [of "''AAPL''" Map.empty "\<lambda>v. None" "\<lambda>d. pc_pacing (plain_config 1 1)" "()" "\<lambda>k. 0" "\<lambda>p n. n"]
    unfolding fixed_count by (elim exE conjE)
  have "w_out g \<noteq> []"
    using r(2) by (auto simp: feed_handler_main_def open_file_source_def split: sum.splits option.splits if_splits)
  moreover have "\<not> rate_pace (pc_pacing cfg)" "\<not> speed_pace (pc_pacing cfg)"
    using r(2) by (auto simp: feed_handler_main_def replay_config_def plain_config_def split: sum.splits option.splits if_splits)
  moreover have "mono (\<lambda>k :: nat. - 1 :: u64)" by (simp add: mono_def)
  ultimately obtain ms p where p: "producer_run cfg (\<lambda>k. - 1) id (w_out g) = Some (ms, p)"
    using producer_returns_unpaced by meson
  obtain ts w where s: "weak_turns code_orders ts (start_weak ring_capacity (pc_backpressure cfg) default_msg ms) = Some w"
      "c_phase (wk w) = C_finished" using pipeline_can_finish by blast
  from ok s p obtain c0 c r where "new_consumer cfg = Some c0" "consume (\<lambda>k. 0) (received (wk w)) c0 = Some c"
      "assemble (\<lambda>p n. n) p (d_dropped (wk w)) c = Some r" "no_errors (r_book_stats r)" "unat (r_messages r) = 101"
    by blast
  with r p s show ?thesis by blast
qed

end
